(* ===== verification/Hub_Base.thy ===== *)
theory Hub_Base
  imports Main "HOL-Library.Word" "HOL-Library.Multiset" "HOL-Library.Char_ord" "HOL-Library.List_Lexorder"
begin

text \<open>
  The prelude of the development: the types every component shares, the pieces of Rust's
  standard library the hub uses, and the generic lemmas about them.

  A Rust \<^verbatim>\<open>&str\<close> / \<^verbatim>\<open>String\<close> is its sequence of UTF-8 bytes, modelled as \<^typ>\<open>string\<close>
  (a list of 8-bit characters); \<^verbatim>\<open>len()\<close> is \<^const>\<open>length\<close>, and \<^verbatim>\<open>Ord for str\<close> (byte-wise
  lexicographic) is the order of theory \<^verbatim>\<open>List_Lexorder\<close> over \<^verbatim>\<open>Char_ord\<close>.  An \<^verbatim>\<open>i64\<close> or
  \<^verbatim>\<open>i32\<close> is an \<^typ>\<open>int\<close> with saturation, wrap-around and range checks written out where
  the source has them, a \<^verbatim>\<open>usize\<close> count a \<^typ>\<open>nat\<close>.  The clock and the config-load flag
  the hub reads are an explicit \<^verbatim>\<open>env\<close>.  Log lines are not modelled.
\<close>

named_theorems hub_defs \<open>definitions of small predicates unfolded together\<close>

type_synonym i64 = int
type_synonym i32 = int

section \<open>Environment\<close>

text \<open>
  What a handler reads besides the state: \<^verbatim>\<open>cstr::now()\<close> (one reading per operation), the
  \<^verbatim>\<open>config::LOADING\<close> flag, and the code of other crates, which is a parameter: the
  \<^verbatim>\<open>base64\<close> crate's decoders (the lenient engine of \<^verbatim>\<open>crypto.rs\<close> and the crate's \<^verbatim>\<open>STANDARD\<close>
  engine; \<^const>\<open>None\<close> on an error).
\<close>

record env =
  env_now :: i64
  env_loading :: bool
  env_b64 :: "string \<Rightarrow> string option"
  env_b64_std :: "string \<Rightarrow> string option"

section \<open>Bytes\<close>

abbreviation byte :: "char \<Rightarrow> nat" where
  "byte c \<equiv> of_char c"

definition is_digit :: "char \<Rightarrow> bool" where
  [hub_defs]: "is_digit c \<longleftrightarrow> 48 \<le> byte c \<and> byte c \<le> 57"

definition is_upper :: "char \<Rightarrow> bool" where
  [hub_defs]: "is_upper c \<longleftrightarrow> 65 \<le> byte c \<and> byte c \<le> 90"

definition is_lower :: "char \<Rightarrow> bool" where
  [hub_defs]: "is_lower c \<longleftrightarrow> 97 \<le> byte c \<and> byte c \<le> 122"

definition is_alnum :: "char \<Rightarrow> bool" where
  [hub_defs]: "is_alnum c \<longleftrightarrow> is_digit c \<or> is_upper c \<or> is_lower c"

definition is_hexdigit :: "char \<Rightarrow> bool" where
  [hub_defs]: "is_hexdigit c \<longleftrightarrow> is_digit c \<or> (65 \<le> byte c \<and> byte c \<le> 70) \<or> (97 \<le> byte c \<and> byte c \<le> 102)"

definition to_lower :: "char \<Rightarrow> char" where
  "to_lower c = (if is_upper c then char_of (byte c + 32) else c)"

abbreviation lower :: "string \<Rightarrow> string" where
  "lower s \<equiv> map to_lower s"

definition digit_char :: "nat \<Rightarrow> char" where
  "digit_char d = char_of (48 + d)"

definition digit_val :: "char \<Rightarrow> nat" where
  "digit_val c = byte c - 48"

lemma byte_char_of [simp]: "n < 256 \<Longrightarrow> byte (char_of n) = n"
  by simp

lemma byte_to_lower: "byte (to_lower c) = (if is_upper c then byte c + 32 else byte c)"
  by (auto simp: to_lower_def is_upper_def)

lemma byte_eq_iff: "byte c = byte d \<longleftrightarrow> c = d"
  by (rule of_char_eq_iff)

lemma to_lower_not_upper [simp]: "\<not> is_upper (to_lower c)"
  using byte_to_lower [of c] by (auto simp: is_upper_def)

lemma to_lower_idem [simp]: "to_lower (to_lower c) = to_lower c"
  by (simp add: to_lower_def [of "to_lower c"])

lemma lower_idem [simp]: "lower (lower s) = lower s"
  by simp

lemma to_lower_fixed: "\<not> is_upper c \<Longrightarrow> to_lower c = c"
  by (simp add: to_lower_def)

lemma to_lower_eq_non_alpha:
  assumes "byte d < 65 \<or> (90 < byte d \<and> byte d < 97) \<or> 122 < byte d"
  shows "to_lower c = d \<longleftrightarrow> c = d"
proof
  assume "to_lower c = d"
  then have "byte (to_lower c) = byte d" by simp
  then show "c = d"
    using assms by (auto simp: byte_to_lower is_upper_def byte_eq_iff split: if_splits)
next
  assume "c = d"
  with assms show "to_lower c = d" by (auto simp: to_lower_def is_upper_def)
qed

lemma byte_digit_char [simp]: "d < 10 \<Longrightarrow> byte (digit_char d) = 48 + d"
  by (simp add: digit_char_def)

lemma digit_char_digit [simp]: "d < 10 \<Longrightarrow> is_digit (digit_char d)"
  by (simp add: is_digit_def)

lemma digit_val_char [simp]: "d < 10 \<Longrightarrow> digit_val (digit_char d) = d"
  by (simp add: digit_val_def)

section \<open>Vectors\<close>

text \<open>\<^verbatim>\<open>Iterator::position\<close>, and \<^verbatim>\<open>Vec::swap_remove\<close> (the last element takes the hole).\<close>

fun position :: "('a \<Rightarrow> bool) \<Rightarrow> 'a list \<Rightarrow> nat option" where
  "position P [] = None"
| "position P (x # xs) = (if P x then Some 0 else map_option Suc (position P xs))"

definition swap_remove :: "nat \<Rightarrow> 'a list \<Rightarrow> 'a list" where
  "swap_remove i xs =
     (if i < length xs then (if i = length xs - 1 then butlast xs else (butlast xs)[i := last xs])
      else xs)"

lemma position_None: "position P xs = None \<longleftrightarrow> (\<forall>x \<in> set xs. \<not> P x)"
  by (induction xs) auto

lemma position_Some:
  "position P xs = Some i \<longleftrightarrow> i < length xs \<and> P (xs ! i) \<and> (\<forall>j < i. \<not> P (xs ! j))"
proof (induction xs arbitrary: i)
  case Nil
  then show ?case by simp
next
  case (Cons x xs)
  show ?case
    by (cases i) (auto simp: Cons.IH less_Suc_eq_0_disj)
qed

lemma position_SomeD: "position P xs = Some i \<Longrightarrow> i < length xs \<and> P (xs ! i)"
  by (simp add: position_Some)

lemma position_append:
  "position P (xs @ ys) =
     (case position P xs of Some i \<Rightarrow> Some i | None \<Rightarrow> map_option (\<lambda>i. length xs + i) (position P ys))"
  by (induction xs) (cases "position P ys"; auto split: option.splits)+

lemma position_cong:
  "length xs = length ys \<Longrightarrow> (\<And>i. i < length xs \<Longrightarrow> P (xs ! i) = Q (ys ! i)) \<Longrightarrow> position P xs = position Q ys"
proof (induction xs arbitrary: ys)
  case Nil
  then show ?case by simp
next
  case (Cons x xs)
  then obtain y ys' where ys: "ys = y # ys'" by (cases ys) auto
  have "P x = Q y" using Cons.prems(2) [of 0] by (simp add: ys)
  moreover have "position P xs = position Q ys'"
    using Cons.prems(1) Cons.prems(2) [of "Suc _"] by (intro Cons.IH) (auto simp: ys)
  ultimately show ?case by (simp add: ys)
qed

lemma position_update_same:
  "P (xs ! i) = P y \<Longrightarrow> position P (xs[i := y]) = position P xs"
  by (rule position_cong) (simp, metis nth_list_update_eq nth_list_update_neq length_list_update)

lemma length_swap_remove [simp]:
  "i < length xs \<Longrightarrow> length (swap_remove i xs) = length xs - 1"
  by (simp add: swap_remove_def)

lemma set_swap_remove_subset: "set (swap_remove i xs) \<subseteq> set xs"
proof (cases "xs = []")
  case False
  have "set ((butlast xs)[i := last xs]) \<subseteq> insert (last xs) (set (butlast xs))"
    by (rule set_update_subset_insert)
  also have "\<dots> \<subseteq> set xs"
    using False by (auto dest: in_set_butlastD)
  finally show ?thesis
    by (auto simp: swap_remove_def dest: in_set_butlastD)
qed (simp add: swap_remove_def)

lemma mset_swap_remove:
  assumes "i < length xs"
  shows "add_mset (xs ! i) (mset (swap_remove i xs)) = mset xs"
proof -
  have ne: "xs \<noteq> []" using assms by auto
  then have xs: "xs = butlast xs @ [last xs]" by simp
  show ?thesis
  proof (cases "i = length xs - 1")
    case True
    then have "xs ! i = last xs" using ne by (simp add: last_conv_nth)
    then have "add_mset (xs ! i) (mset (swap_remove i xs)) = mset (butlast xs @ [last xs])"
      using True assms by (simp add: swap_remove_def)
    then show ?thesis by (simp only: xs [symmetric])
  next
    case False
    then have i: "i < length (butlast xs)" using assms by simp
    then have nth: "xs ! i = butlast xs ! i" by (simp add: nth_butlast)
    have "add_mset (butlast xs ! i) (mset ((butlast xs)[i := last xs])) = mset (butlast xs @ [last xs])"
      using i by (simp add: mset_update)
    then show ?thesis
      using False assms nth by (simp add: swap_remove_def xs [symmetric])
  qed
qed

lemma distinct_swap_remove: "distinct (map f xs) \<Longrightarrow> distinct (map f (swap_remove i xs))"
proof (cases "i < length xs")
  case True
  assume d: "distinct (map f xs)"
  have "mset (map f xs) = add_mset (f (xs ! i)) (mset (map f (swap_remove i xs)))"
    by (simp flip: mset_swap_remove [OF True])
  then have "mset (map f xs) = mset (f (xs ! i) # map f (swap_remove i xs))" by simp
  with d have "distinct (f (xs ! i) # map f (swap_remove i xs))" using mset_eq_imp_distinct_iff by blast
  then show ?thesis by simp
qed (simp add: swap_remove_def)

text \<open>
  The scan of the hub's tables for the entry to evict: from index \<^verbatim>\<open>best\<close> on, an index of the
  list replaces it when its element beats the best so far.
\<close>

fun scan_best :: "('a \<Rightarrow> 'a \<Rightarrow> bool) \<Rightarrow> 'a list \<Rightarrow> nat list \<Rightarrow> nat \<Rightarrow> nat" where
  "scan_best lt xs [] best = best"
| "scan_best lt xs (j # js) best = scan_best lt xs js (if lt (xs ! j) (xs ! best) then j else best)"

lemma scan_best_range: "best < n \<Longrightarrow> \<forall>j \<in> set js. j < n \<Longrightarrow> scan_best lt xs js best < n"
  by (induction lt xs js best rule: scan_best.induct) auto

section \<open>Strings\<close>

text \<open>\<^verbatim>\<open>str::split_once\<close>, \<^verbatim>\<open>str::split\<close> and \<^verbatim>\<open>str::splitn\<close> on one ASCII character.\<close>

fun split_once :: "char \<Rightarrow> string \<Rightarrow> (string \<times> string) option" where
  "split_once c [] = None"
| "split_once c (x # xs) =
     (if x = c then Some ([], xs) else map_option (\<lambda>(l, r). (x # l, r)) (split_once c xs))"

fun split_on :: "char \<Rightarrow> string \<Rightarrow> string list" where
  "split_on c [] = [[]]"
| "split_on c (x # xs) =
     (if x = c then [] # split_on c xs
      else (case split_on c xs of [] \<Rightarrow> [[x]] | y # ys \<Rightarrow> (x # y) # ys))"

fun splitn :: "nat \<Rightarrow> char \<Rightarrow> string \<Rightarrow> string list" where
  "splitn 0 c s = []"
| "splitn (Suc 0) c s = [s]"
| "splitn (Suc (Suc n)) c s =
     (case split_once c s of None \<Rightarrow> [s] | Some (l, r) \<Rightarrow> l # splitn (Suc n) c r)"

text \<open>\<^verbatim>\<open>str::rfind\<close> then slicing: the text before and after the last \<^verbatim>\<open>c\<close>.\<close>

definition rsplit_once :: "char \<Rightarrow> string \<Rightarrow> (string \<times> string) option" where
  "rsplit_once c s = map_option (\<lambda>(l, r). (rev r, rev l)) (split_once c (rev s))"

text \<open>The inverse of splitting: fields joined by a separator.\<close>

fun join_with :: "char \<Rightarrow> string list \<Rightarrow> string" where
  "join_with c [] = []"
| "join_with c [s] = s"
| "join_with c (s # t # ts) = s @ c # join_with c (t # ts)"

lemma split_once_Some: "split_once c s = Some (l, r) \<longleftrightarrow> s = l @ c # r \<and> c \<notin> set l"
proof (induction s arbitrary: l)
  case Nil
  then show ?case by simp
next
  case (Cons x xs)
  then show ?case by (cases l) auto
qed

lemma split_once_None: "split_once c s = None \<longleftrightarrow> c \<notin> set s"
  by (induction s) auto

lemma split_once_append [simp]: "c \<notin> set l \<Longrightarrow> split_once c (l @ c # r) = Some (l, r)"
  by (simp add: split_once_Some)

lemma rsplit_once_Some: "rsplit_once c s = Some (l, r) \<longleftrightarrow> s = l @ c # r \<and> c \<notin> set r"
proof -
  have "rsplit_once c s = Some (l, r) \<longleftrightarrow> split_once c (rev s) = Some (rev r, rev l)"
    by (auto simp: rsplit_once_def)
  also have "\<dots> \<longleftrightarrow> rev s = rev r @ c # rev l \<and> c \<notin> set r"
    by (simp add: split_once_Some)
  also have "rev s = rev r @ c # rev l \<longleftrightarrow> s = l @ c # r"
    by (metis append.assoc append_Cons append_Nil rev.simps(2) rev_append rev_rev_ident)
  finally show ?thesis .
qed

lemma rsplit_once_None: "rsplit_once c s = None \<longleftrightarrow> c \<notin> set s"
  by (simp add: rsplit_once_def split_once_None)

lemma rsplit_once_append [simp]: "c \<notin> set r \<Longrightarrow> rsplit_once c (l @ c # r) = Some (l, r)"
  by (simp add: rsplit_once_Some)

lemma split_on_not_Nil [simp]: "split_on c s \<noteq> []"
  by (induction s) (auto split: list.splits)

lemma split_on_append:
  "c \<notin> set l \<Longrightarrow> split_on c (l @ c # r) = l # split_on c r"
  by (induction l) (auto split: list.splits)

lemma split_on_free: "c \<notin> set s \<Longrightarrow> split_on c s = [s]"
  by (induction s) auto

lemma split_on_join:
  "fs \<noteq> [] \<Longrightarrow> \<forall>f \<in> set fs. c \<notin> set f \<Longrightarrow> split_on c (join_with c fs) = fs"
  by (induction c fs rule: join_with.induct) (auto simp: split_on_append split_on_free)

lemma join_split_on [simp]: "join_with c (split_on c s) = s"
proof (induction s)
  case (Cons x xs)
  then show ?case
    by (cases "split_on c xs"; cases "tl (split_on c xs)") (auto split: list.splits)
qed simp

lemma splitn_join:
  "length fs \<le> n \<Longrightarrow> fs \<noteq> [] \<Longrightarrow> \<forall>f \<in> set fs. c \<notin> set f \<Longrightarrow> splitn n c (join_with c fs) = fs"
proof (induction n c "join_with c fs" arbitrary: fs rule: splitn.induct)
  case (2 c)
  then show ?case by (cases fs) auto
next
  case (3 n c)
  show ?case
  proof (cases "\<exists>f g gs. fs = f # g # gs")
    case True
    then obtain f g gs where fs: "fs = f # g # gs" by blast
    then have so: "split_once c (join_with c fs) = Some (f, join_with c (g # gs))"
      using 3 by simp
    then have "splitn (Suc n) c (join_with c (g # gs)) = g # gs"
      using 3 fs by simp
    with so fs show ?thesis by simp
  next
    case False
    then obtain f where "fs = [f]" using 3 by (cases fs rule: remdups_adj.cases) auto
    moreover from this 3 have "split_once c f = None" by (simp add: split_once_None)
    ultimately show ?thesis by simp
  qed
qed simp

section \<open>Decimal text\<close>

text \<open>\<^verbatim>\<open>format!("{}", n)\<close> for unsigned and signed integers.\<close>

fun show_nat :: "nat \<Rightarrow> string" where
  "show_nat n = (if n < 10 then [digit_char n] else show_nat (n div 10) @ [digit_char (n mod 10)])"

declare show_nat.simps [simp del]

definition show_int :: "int \<Rightarrow> string" where
  "show_int v = (if v < 0 then CHR ''-'' # show_nat (nat (- v)) else show_nat (nat v))"

definition dec_val :: "string \<Rightarrow> nat" where
  "dec_val ds = foldl (\<lambda>v c. 10 * v + digit_val c) 0 ds"

lemma dec_val_Nil [simp]: "dec_val [] = 0"
  by (simp add: dec_val_def)

lemma dec_val_snoc [simp]: "dec_val (ds @ [c]) = 10 * dec_val ds + digit_val c"
  by (simp add: dec_val_def)

lemma show_nat_not_Nil [simp]: "show_nat n \<noteq> []"
  by (subst show_nat.simps) simp

lemma show_nat_digits: "\<forall>c \<in> set (show_nat n). is_digit c"
proof (induction n rule: show_nat.induct)
  case (1 n)
  then show ?case by (subst show_nat.simps) auto
qed

lemma dec_val_show_nat [simp]: "dec_val (show_nat n) = n"
proof (induction n rule: show_nat.induct)
  case (1 n)
  show ?case
  proof (cases "n < 10")
    case True
    then show ?thesis
      using dec_val_snoc [of "[]" "digit_char n"] by (simp add: show_nat.simps [of n])
  next
    case False
    with 1 show ?thesis by (simp add: show_nat.simps [of n])
  qed
qed

lemma show_nat_inj: "show_nat m = show_nat n \<longleftrightarrow> m = n"
  by (metis dec_val_show_nat)

lemma length_show_nat: "n < 10 ^ k \<Longrightarrow> 0 < k \<Longrightarrow> length (show_nat n) \<le> k"
proof (induction n arbitrary: k rule: show_nat.induct)
  case (1 n)
  show ?case
  proof (cases "n < 10")
    case True
    with 1 show ?thesis by (simp add: show_nat.simps [of n])
  next
    case False
    with 1 obtain k' where k: "k = Suc k'" "0 < k'"
      by (cases k; cases "k - 1") auto
    with False 1 have "length (show_nat (n div 10)) \<le> k'"
      by (intro "1.IH") auto
    with False k show ?thesis by (simp add: show_nat.simps [of n])
  qed
qed

lemma show_int_not_Nil [simp]: "show_int v \<noteq> []"
  by (simp add: show_int_def)

lemma digit_neq: "is_digit c \<Longrightarrow> \<not> is_digit d \<Longrightarrow> c \<noteq> d"
  by auto

lemma set_show_nat_notin: "\<not> is_digit c \<Longrightarrow> c \<notin> set (show_nat n)"
  using show_nat_digits by blast

lemma set_show_int_notin: "\<not> is_digit c \<Longrightarrow> c \<noteq> CHR ''-'' \<Longrightarrow> c \<notin> set (show_int v)"
  using set_show_nat_notin by (auto simp: show_int_def)


section \<open>Record vectors as tables\<close>

text \<open>
  A \<^verbatim>\<open>Vec\<close> of records searched by key, as a map from keys (\<^verbatim>\<open>f\<close>) to values (\<^verbatim>\<open>g\<close>): the first
  record with the key counts.
\<close>

definition rec_tab :: "('r \<Rightarrow> 'k) \<Rightarrow> ('r \<Rightarrow> 'v) \<Rightarrow> 'r list \<Rightarrow> 'k \<rightharpoonup> 'v" where
  "rec_tab f g xs k = map_option (\<lambda>i. g (xs ! i)) (position (\<lambda>r. f r = k) xs)"

lemma dom_rec_tab: "dom (rec_tab f g xs) = f ` set xs"
proof -
  have "rec_tab f g xs k = None \<longleftrightarrow> k \<notin> f ` set xs" for k
    by (auto simp: rec_tab_def position_None)
  then have "k \<in> dom (rec_tab f g xs) \<longleftrightarrow> k \<in> f ` set xs" for k by (simp add: domIff)
  then show ?thesis by blast
qed

lemma finite_dom_rec_tab [simp]: "finite (dom (rec_tab f g xs))"
  by (simp add: dom_rec_tab)

lemma card_dom_rec_tab: "distinct (map f xs) \<Longrightarrow> card (dom (rec_tab f g xs)) = length xs"
  using distinct_card [of "map f xs"] by (simp add: dom_rec_tab)

lemma rec_tab_update:
  assumes "position (\<lambda>r. f r = k) xs = Some i" and "f y = k"
  shows "rec_tab f g (xs[i := y]) = (rec_tab f g xs)(k \<mapsto> g y)"
proof
  fix k'
  note i = position_SomeD [OF assms(1)]
  have "position (\<lambda>r. f r = k') (xs[i := y]) = position (\<lambda>r. f r = k') xs"
    using i assms(2) by (intro position_cong) (auto simp: nth_list_update)
  moreover have "k' \<noteq> k \<Longrightarrow> position (\<lambda>r. f r = k') xs = Some j \<Longrightarrow> j \<noteq> i" for j
    using i by (auto dest: position_SomeD)
  ultimately show "rec_tab f g (xs[i := y]) k' = ((rec_tab f g xs)(k \<mapsto> g y)) k'"
    using i assms by (cases "position (\<lambda>r. f r = k') xs") (auto simp: rec_tab_def nth_list_update)
qed

lemma rec_tab_snoc:
  assumes "position (\<lambda>r. f r = f y) xs = None"
  shows "rec_tab f g (xs @ [y]) = (rec_tab f g xs)(f y \<mapsto> g y)"
proof
  fix k
  show "rec_tab f g (xs @ [y]) k = ((rec_tab f g xs)(f y \<mapsto> g y)) k"
    using assms by (auto simp: rec_tab_def position_append nth_append dest: position_SomeD split: option.splits)
qed

lemma distinct_map_update:
  "distinct (map f xs) \<Longrightarrow> f y = f (xs ! i) \<Longrightarrow> distinct (map f (xs[i := y]))"
  by (metis list_update_beyond list_update_id map_update nat_neq_iff not_le_imp_less nth_map)

lemma distinct_map_snoc:
  "distinct (map f xs) \<Longrightarrow> position (\<lambda>r. f r = f y) xs = None \<Longrightarrow> distinct (map f (xs @ [y]))"
  by (auto simp: position_None)


lemma rec_tab_mem:
  assumes "distinct (map f xs)"
  shows "rec_tab f g xs k = Some v \<longleftrightarrow> (\<exists>r \<in> set xs. f r = k \<and> g r = v)"
proof (cases "position (\<lambda>r. f r = k) xs")
  case None
  then have "\<forall>r \<in> set xs. f r \<noteq> k" by (simp add: position_None)
  with None show ?thesis by (simp add: rec_tab_def)
next
  case (Some i)
  note i = position_SomeD [OF Some]
  have "r = xs ! i" if "r \<in> set xs" "f r = k" for r
    using that i assms by (auto simp: distinct_map inj_on_def)
  with i Some show ?thesis by (auto simp: rec_tab_def)
qed

end
