(* ===== verification/Glob_Overlap.thy ===== *)
theory Glob_Overlap
  imports Hub_Base
begin

text \<open>
  Glob pattern overlap (\<^verbatim>\<open>src/src/glob_overlap.rs\<close>): the two-row dynamic program the hub
  uses to refuse a ban that could hit a protected mask.  The rows are kept as the code keeps
  them (two arrays, filled from the right, swapped after each row).  The specification is the
  language of a glob pattern; the main lemma says the program decides whether two patterns
  share a string.
\<close>

section \<open>The program\<close>

definition GLOB_OVERLAP_MAX :: nat where
  "GLOB_OVERLAP_MAX = 256"

definition gfold :: "char \<Rightarrow> char" where
  "gfold c = to_lower c"

text \<open>One cell \<^verbatim>\<open>cur[j]\<close> of row \<^verbatim>\<open>i\<close>: the body of the inner loop (a \<^verbatim>\<open>u8\<close> 0/1 is a \<^typ>\<open>bool\<close>).\<close>

definition glob_cell :: "string \<Rightarrow> string \<Rightarrow> nat \<Rightarrow> nat \<Rightarrow> bool list \<Rightarrow> bool list \<Rightarrow> bool" where
  "glob_cell a b i j nxt cur =
     (let la = length a; lb = length b in
      if i = la \<and> j = lb then True
      else
        let sa = (i < la \<and> a ! i = CHR ''*'');
            sb = (j < lb \<and> b ! j = CHR ''*'');
            r1 = (sa \<and> (nxt ! j \<or> (j < lb \<and> cur ! (j + 1))));
            r2 = (r1 \<or> (sb \<and> (cur ! (j + 1) \<or> (i < la \<and> nxt ! j))))
        in r2 \<or> (i < la \<and> j < lb \<and> \<not> sa \<and> \<not> sb \<and>
             (a ! i = CHR ''?'' \<or> b ! j = CHR ''?'' \<or> gfold (a ! i) = gfold (b ! j)) \<and> nxt ! (j + 1)))"

definition glob_row :: "string \<Rightarrow> string \<Rightarrow> nat \<Rightarrow> bool list \<Rightarrow> bool list \<Rightarrow> bool list" where
  "glob_row a b i nxt cur =
     foldl (\<lambda>cur j. cur[j := glob_cell a b i j nxt cur]) cur (rev [0..<length b + 1])"

definition glob_rows :: "string \<Rightarrow> string \<Rightarrow> bool list \<times> bool list" where
  "glob_rows a b =
     (let zeros = replicate (GLOB_OVERLAP_MAX + 2) False in
      foldl (\<lambda>(nxt, cur) i. (glob_row a b i nxt cur, nxt)) (zeros, zeros) (rev [0..<length a + 1]))"

definition glob_overlap :: "string \<Rightarrow> string \<Rightarrow> bool" where
  "glob_overlap a b =
     (if length a > GLOB_OVERLAP_MAX \<or> length b > GLOB_OVERLAP_MAX then True
      else fst (glob_rows a b) ! 0)"

definition hostmask_split :: "string \<Rightarrow> (string \<times> string \<times> string) option" where
  "hostmask_split m =
     (case split_once (CHR ''!'') m of
        None \<Rightarrow> None
      | Some (nick, rest) \<Rightarrow>
          (case split_once (CHR ''@'') rest of
             None \<Rightarrow> None
           | Some (user, host) \<Rightarrow> Some (nick, user, host)))"

text \<open>\<^verbatim>\<open>host_kind\<close>: \<^verbatim>\<open>b'i'\<close> address, \<^verbatim>\<open>b'n'\<close> name, \<^verbatim>\<open>b'a'\<close> wildcards only.\<close>

definition host_kind :: "string \<Rightarrow> char" where
  "host_kind h =
     (if CHR '':'' \<in> set h then CHR ''i''
      else if \<exists>c \<in> set h. \<not> is_digit c \<and> c \<notin> set ''.*?'' then CHR ''n''
      else if \<exists>c \<in> set h. is_digit c then CHR ''i'' else CHR ''a'')"

definition hostmask_overlap :: "string \<Rightarrow> string \<Rightarrow> bool" where
  "hostmask_overlap a b =
     (case (hostmask_split a, hostmask_split b) of
        (Some (an, au, ah), Some (bn, bu, bh)) \<Rightarrow>
          if length a \<le> GLOB_OVERLAP_MAX \<and> length b \<le> GLOB_OVERLAP_MAX then
            (let ka = host_kind ah; kb = host_kind bh in
             (ka = CHR ''a'' \<or> kb = CHR ''a'' \<or> ka = kb) \<and>
             glob_overlap an bn \<and> glob_overlap au bu \<and> glob_overlap ah bh)
          else glob_overlap a b
      | _ \<Rightarrow> glob_overlap a b)"

section \<open>The language of a pattern\<close>

text \<open>
  \<^verbatim>\<open>*\<close> matches any run, \<^verbatim>\<open>?\<close> exactly one byte, everything else compares ASCII
  case-insensitively: the meaning the source's comment gives.
\<close>

fun glob_match :: "string \<Rightarrow> string \<Rightarrow> bool" where
  "glob_match [] s = (s = [])"
| "glob_match (p # ps) [] = (p = CHR ''*'' \<and> glob_match ps [])"
| "glob_match (p # ps) (c # s) =
     (if p = CHR ''*'' then glob_match ps (c # s) \<or> glob_match (p # ps) s
      else (p = CHR ''?'' \<or> gfold p = gfold c) \<and> glob_match ps s)"

definition shares :: "string \<Rightarrow> string \<Rightarrow> bool" where
  "shares p q \<longleftrightarrow> (\<exists>s. glob_match p s \<and> glob_match q s)"

lemma shares_sym: "shares p q \<longleftrightarrow> shares q p"
  by (auto simp: shares_def)

lemma star_matches_more: "glob_match (CHR ''*'' # p) s \<Longrightarrow> glob_match (CHR ''*'' # p) (c # s)"
  by simp

lemma star_matches_rest: "glob_match p s \<Longrightarrow> glob_match (CHR ''*'' # p) s"
  by (cases s) auto

lemma shares_star_step:
  assumes "glob_match (CHR ''*'' # p) s" and "glob_match q s"
  shows "shares p q \<or> (\<exists>y q'. q = y # q' \<and> shares (CHR ''*'' # p) q')"
  using assms
proof (induction s)
  case Nil
  then show ?case by (auto simp: shares_def)
next
  case (Cons c s)
  show ?case
  proof (cases "glob_match p (c # s)")
    case True
    with Cons.prems(2) show ?thesis by (auto simp: shares_def)
  next
    case False
    with Cons.prems(1) have star: "glob_match (CHR ''*'' # p) s" by simp
    from Cons.prems(2) obtain y q' where q: "q = y # q'" by (cases q) auto
    show ?thesis
    proof (cases "y = CHR ''*'' \<and> \<not> glob_match q' (c # s)")
      case True
      with Cons.prems(2) q have "glob_match q s" by simp
      with star Cons.IH show ?thesis by blast
    next
      case False
      then consider "y = CHR ''*''" "glob_match q' (c # s)" | "y \<noteq> CHR ''*''" by blast
      then have "shares (CHR ''*'' # p) q'"
      proof cases
        case 1
        with Cons.prems(1) show ?thesis unfolding shares_def by blast
      next
        case 2
        with Cons.prems(2) q have "glob_match q' s" by simp
        with star show ?thesis unfolding shares_def by blast
      qed
      with q show ?thesis by blast
    qed
  qed
qed

lemma shares_star_grow: "shares (CHR ''*'' # p) q' \<Longrightarrow> shares (CHR ''*'' # p) (y # q')"
proof -
  assume "shares (CHR ''*'' # p) q'"
  then obtain s where s: "glob_match (CHR ''*'' # p) s" "glob_match q' s"
    by (auto simp: shares_def)
  show ?thesis
  proof (cases "y = CHR ''*''")
    case True
    with s star_matches_rest show ?thesis by (auto simp: shares_def)
  next
    case False
    with s have "glob_match (y # q') (y # s)" by simp
    with s star_matches_more show ?thesis unfolding shares_def by blast
  qed
qed

lemma shares_star_rest: "shares p q \<Longrightarrow> shares (CHR ''*'' # p) q"
  unfolding shares_def using star_matches_rest by blast

lemma shares_star_Cons:
  "shares (CHR ''*'' # p) (y # q) \<longleftrightarrow> shares p (y # q) \<or> shares (CHR ''*'' # p) q"
proof
  assume "shares (CHR ''*'' # p) (y # q)"
  then obtain s where "glob_match (CHR ''*'' # p) s" "glob_match (y # q) s"
    unfolding shares_def by blast
  from shares_star_step [OF this] show "shares p (y # q) \<or> shares (CHR ''*'' # p) q" by blast
next
  assume "shares p (y # q) \<or> shares (CHR ''*'' # p) q"
  then show "shares (CHR ''*'' # p) (y # q)"
    using shares_star_rest shares_star_grow by blast
qed

lemma shares_Cons_star:
  "shares (x # p) (CHR ''*'' # q) \<longleftrightarrow> shares (x # p) q \<or> shares p (CHR ''*'' # q)"
  using shares_star_Cons [of q x p] by (simp add: shares_sym)

lemma shares_Nil_left [simp]: "shares [] q = glob_match q []"
  by (simp add: shares_def)

lemma shares_Nil_right [simp]: "shares p [] = glob_match p []"
  by (auto simp: shares_def)

lemma shares_Cons_Cons:
  assumes "x \<noteq> CHR ''*''" and "y \<noteq> CHR ''*''"
  shows "shares (x # p) (y # q) \<longleftrightarrow>
    (x = CHR ''?'' \<or> y = CHR ''?'' \<or> gfold x = gfold y) \<and> shares p q"
proof
  assume "shares (x # p) (y # q)"
  then obtain s where s: "glob_match (x # p) s" "glob_match (y # q) s" by (auto simp: shares_def)
  then obtain c s' where "s = c # s'" using assms by (cases s) auto
  with s assms show "(x = CHR ''?'' \<or> y = CHR ''?'' \<or> gfold x = gfold y) \<and> shares p q"
    by (auto simp: shares_def)
next
  assume R: "(x = CHR ''?'' \<or> y = CHR ''?'' \<or> gfold x = gfold y) \<and> shares p q"
  then obtain s where s: "glob_match p s" "glob_match q s" by (auto simp: shares_def)
  let ?c = "if x = CHR ''?'' then y else x"
  have "glob_match (x # p) (?c # s)" "glob_match (y # q) (?c # s)"
    using assms s R by auto
  then show "shares (x # p) (y # q)" unfolding shares_def by blast
qed

section \<open>The rows hold the answer for every pair of suffixes\<close>

text \<open>What row \<^verbatim>\<open>i\<close> must contain from column \<^verbatim>\<open>k\<close> on.\<close>

definition row_ok :: "string \<Rightarrow> string \<Rightarrow> nat \<Rightarrow> nat \<Rightarrow> bool list \<Rightarrow> bool" where
  "row_ok a b i k row \<longleftrightarrow>
     length row = GLOB_OVERLAP_MAX + 2 \<and>
     (\<forall>j. k \<le> j \<and> j \<le> length b \<longrightarrow> row ! j = shares (drop i a) (drop j b))"

lemma glob_cell_shares:
  assumes nxt: "i < length a \<Longrightarrow> row_ok a b (Suc i) 0 nxt"
    and cur: "row_ok a b i (Suc j) cur"
    and i: "i \<le> length a" and j: "j \<le> length b"
  shows "glob_cell a b i j nxt cur = shares (drop i a) (drop j b)"
proof -
  have nj: "nxt ! j = shares (drop (Suc i) a) (drop j b)" if "i < length a"
    using nxt [OF that] j by (simp add: row_ok_def)
  have nj1: "nxt ! (j + 1) = shares (drop (Suc i) a) (drop (Suc j) b)" if "i < length a" "j < length b"
    using nxt [OF that(1)] that(2) by (simp add: row_ok_def)
  have cj: "cur ! (j + 1) = shares (drop i a) (drop (Suc j) b)" if "j < length b"
    using cur that by (simp add: row_ok_def)
  have da: "drop i a = a ! i # drop (Suc i) a" if "i < length a"
    using that by (simp add: Cons_nth_drop_Suc)
  have db: "drop j b = b ! j # drop (Suc j) b" if "j < length b"
    using that by (simp add: Cons_nth_drop_Suc)
  consider (ends) "i = length a" "j = length b"
    | (a_end) "i = length a" "j < length b"
    | (b_end) "i < length a" "j = length b"
    | (mid) "i < length a" "j < length b"
    using i j by linarith
  then show ?thesis
  proof cases
    case ends
    then show ?thesis by (simp add: glob_cell_def)
  next
    case a_end
    then show ?thesis using cj db by (simp add: glob_cell_def Let_def)
  next
    case b_end
    then show ?thesis using nj da by (simp add: glob_cell_def Let_def)
  next
    case mid
    let ?x = "a ! i" and ?y = "b ! j" and ?p = "drop (Suc i) a" and ?q = "drop (Suc j) b"
    have cells: "nxt ! j = shares ?p (?y # ?q)" "nxt ! (j + 1) = shares ?p ?q"
      "cur ! (j + 1) = shares (?x # ?p) ?q"
      using mid nj nj1 cj da db by simp_all
    have "glob_cell a b i j nxt cur = shares (?x # ?p) (?y # ?q)"
    proof (cases "?x = CHR ''*''")
      case True
      then show ?thesis
        using mid cells by (auto simp: glob_cell_def Let_def shares_star_Cons)
    next
      case x: False
      show ?thesis
      proof (cases "?y = CHR ''*''")
        case True
        then show ?thesis
          using x mid cells by (auto simp: glob_cell_def Let_def shares_Cons_star)
      next
        case False
        then show ?thesis
          using x mid cells by (simp add: glob_cell_def Let_def shares_Cons_Cons)
      qed
    qed
    then show ?thesis using da db mid by simp
  qed
qed

lemma glob_row_loop:
  assumes nxt: "i < length a \<Longrightarrow> row_ok a b (Suc i) 0 nxt"
    and i: "i \<le> length a" and b: "length b \<le> GLOB_OVERLAP_MAX" and k: "k \<le> length b + 1"
    and cur: "row_ok a b i k cur"
  shows "row_ok a b i 0 (foldl (\<lambda>cur j. cur[j := glob_cell a b i j nxt cur]) cur (rev [0..<k]))"
  using k cur
proof (induction k arbitrary: cur)
  case 0
  then show ?case by simp
next
  case (Suc k)
  let ?cur = "cur[k := glob_cell a b i k nxt cur]"
  have "glob_cell a b i k nxt cur = shares (drop i a) (drop k b)"
    using nxt Suc.prems i by (intro glob_cell_shares) auto
  then have "row_ok a b i k ?cur"
    using Suc.prems b by (auto simp: row_ok_def nth_list_update le_Suc_eq Suc_le_eq)
  then show ?case
    using Suc.IH [of ?cur] Suc.prems(1) by simp
qed

lemma glob_row_ok:
  assumes "i < length a \<Longrightarrow> row_ok a b (Suc i) 0 nxt"
    and "i \<le> length a" and "length b \<le> GLOB_OVERLAP_MAX" and "length cur = GLOB_OVERLAP_MAX + 2"
  shows "row_ok a b i 0 (glob_row a b i nxt cur)"
  unfolding glob_row_def
  using assms by (intro glob_row_loop) (auto simp: row_ok_def)

lemma glob_rows_loop:
  assumes "n \<le> length a + 1" and "length b \<le> GLOB_OVERLAP_MAX"
    and "n \<le> length a \<Longrightarrow> row_ok a b n 0 nxt"
    and "length nxt = GLOB_OVERLAP_MAX + 2" "length cur = GLOB_OVERLAP_MAX + 2"
    and "0 < n"
  shows "row_ok a b 0 0 (fst (foldl (\<lambda>(nxt, cur) i. (glob_row a b i nxt cur, nxt)) (nxt, cur) (rev [0..<n])))"
  using assms
proof (induction n arbitrary: nxt cur)
  case 0
  then show ?case by simp
next
  case (Suc n)
  let ?row = "glob_row a b n nxt cur"
  have row: "row_ok a b n 0 ?row"
    using Suc.prems by (intro glob_row_ok) auto
  show ?case
  proof (cases "n = 0")
    case True
    with row show ?thesis by simp
  next
    case False
    have "length ?row = GLOB_OVERLAP_MAX + 2" using row by (simp add: row_ok_def)
    then show ?thesis
      using Suc.IH [of ?row nxt] Suc.prems row False by simp
  qed
qed

lemma glob_overlap_shares:
  assumes "length a \<le> GLOB_OVERLAP_MAX" and "length b \<le> GLOB_OVERLAP_MAX"
  shows "glob_overlap a b = shares a b"
proof -
  have "row_ok a b 0 0 (fst (glob_rows a b))"
    unfolding glob_rows_def Let_def using assms by (intro glob_rows_loop) auto
  then have "fst (glob_rows a b) ! 0 = shares a b"
    by (simp add: row_ok_def)
  then show ?thesis using assms by (simp add: glob_overlap_def)
qed

section \<open>Hostmasks\<close>

lemma ex_split_Cons:
  "(\<exists>s1 s2. c # s = s1 @ s2 \<and> M s1 \<and> Q s2) \<longleftrightarrow>
     M [] \<and> Q (c # s) \<or> (\<exists>s1 s2. s = s1 @ s2 \<and> M (c # s1) \<and> Q s2)"
  unfolding Cons_eq_append_conv by blast

lemma glob_match_append:
  "glob_match (p @ q) s \<longleftrightarrow> (\<exists>s1 s2. s = s1 @ s2 \<and> glob_match p s1 \<and> glob_match q s2)"
proof (induction p s rule: glob_match.induct)
  case (3 p ps c s)
  show ?case
  proof (cases "p = CHR ''*''")
    case True
    show ?thesis
      using "3.IH"(1,2) [OF True] True unfolding ex_split_Cons by auto
  next
    case False
    show ?thesis
      using "3.IH"(3) [OF False] False unfolding ex_split_Cons by auto
  qed
qed auto

lemma split_at_unique:
  "c \<notin> set n \<Longrightarrow> c \<notin> set r \<Longrightarrow> s1 @ c # s3 = n @ c # r \<Longrightarrow> s1 = n \<and> s3 = r"
  by (metis append_Cons_eq_iff)

lemma glob_match_sep:
  assumes c: "c \<noteq> CHR ''*''" "c \<noteq> CHR ''?''" "\<And>d. gfold c = gfold d \<longleftrightarrow> c = d"
    and free: "c \<notin> set n" "c \<notin> set r"
  shows "glob_match (p @ c # q) (n @ c # r) \<longleftrightarrow> glob_match p n \<and> glob_match q r"
proof
  assume "glob_match (p @ c # q) (n @ c # r)"
  then obtain s1 s2 where s: "n @ c # r = s1 @ s2" "glob_match p s1" "glob_match (c # q) s2"
    unfolding glob_match_append by blast
  from s(3) c obtain s3 where s2: "s2 = c # s3" "glob_match q s3" by (cases s2) auto
  with s(1) free have "s1 = n \<and> s3 = r" by (metis split_at_unique)
  with s s2 show "glob_match p n \<and> glob_match q r" by simp
next
  assume "glob_match p n \<and> glob_match q r"
  moreover from this have "glob_match (c # q) (c # r)" using c by simp
  ultimately show "glob_match (p @ c # q) (n @ c # r)"
    unfolding glob_match_append by blast
qed

lemma gfold_sep: "gfold (CHR ''!'') = gfold d \<longleftrightarrow> CHR ''!'' = d" "gfold (CHR ''@'') = gfold d \<longleftrightarrow> CHR ''@'' = d"
  using to_lower_eq_non_alpha [of "CHR ''!''" d] to_lower_eq_non_alpha [of "CHR ''@''" d]
  by (auto simp: gfold_def to_lower_def is_upper_def)

text \<open>A hostmask as IRC writes it: neither separator occurs inside a part.\<close>

definition hostmask_of :: "string \<Rightarrow> string \<Rightarrow> string \<Rightarrow> string" where
  "hostmask_of n u h = n @ ''!'' @ u @ ''@'' @ h"

definition part_ok :: "string \<Rightarrow> bool" where
  "part_ok s \<longleftrightarrow> CHR ''!'' \<notin> set s \<and> CHR ''@'' \<notin> set s"

lemma hostmask_match_parts:
  assumes "hostmask_split a = Some (an, au, ah)" and "part_ok n" "part_ok u" "part_ok h"
  shows "glob_match a (hostmask_of n u h) \<longleftrightarrow> glob_match an n \<and> glob_match au u \<and> glob_match ah h"
proof -
  have a: "a = an @ CHR ''!'' # au @ CHR ''@'' # ah"
    using assms(1) by (auto simp: hostmask_split_def split_once_Some split: option.splits prod.splits)
  have "glob_match a (hostmask_of n u h) \<longleftrightarrow>
      glob_match an n \<and> glob_match (au @ CHR ''@'' # ah) (u @ CHR ''@'' # h)"
    unfolding a hostmask_of_def append_Cons append_Nil
    using assms(2-4) by (intro glob_match_sep) (auto simp: part_ok_def gfold_sep)
  also have "glob_match (au @ CHR ''@'' # ah) (u @ CHR ''@'' # h) \<longleftrightarrow> glob_match au u \<and> glob_match ah h"
    using assms(2-4) by (intro glob_match_sep) (auto simp: part_ok_def gfold_sep)
  finally show ?thesis .
qed

definition kinds_compatible :: "string \<Rightarrow> string \<Rightarrow> bool" where
  "kinds_compatible ah bh \<longleftrightarrow>
     host_kind ah = CHR ''a'' \<or> host_kind bh = CHR ''a'' \<or> host_kind ah = host_kind bh"

lemma hostmask_overlap_split:
  assumes "hostmask_split a = Some (an, au, ah)" and "hostmask_split b = Some (bn, bu, bh)"
    and "length a \<le> GLOB_OVERLAP_MAX" and "length b \<le> GLOB_OVERLAP_MAX"
  shows "hostmask_overlap a b \<longleftrightarrow>
    kinds_compatible ah bh \<and> shares an bn \<and> shares au bu \<and> shares ah bh"
proof -
  have "a = an @ ''!'' @ au @ ''@'' @ ah" "b = bn @ ''!'' @ bu @ ''@'' @ bh"
    using assms(1,2) by (auto simp: hostmask_split_def split_once_Some split: option.splits prod.splits)
  then have "length an \<le> GLOB_OVERLAP_MAX" "length au \<le> GLOB_OVERLAP_MAX" "length ah \<le> GLOB_OVERLAP_MAX"
    "length bn \<le> GLOB_OVERLAP_MAX" "length bu \<le> GLOB_OVERLAP_MAX" "length bh \<le> GLOB_OVERLAP_MAX"
    using assms(3,4) by auto
  then show ?thesis
    using assms by (simp add: hostmask_overlap_def kinds_compatible_def glob_overlap_shares Let_def)
qed

lemma glob_overlap_if_shared: "glob_match a s \<Longrightarrow> glob_match b s \<Longrightarrow> glob_overlap a b"
  using glob_overlap_shares [of a b] by (auto simp: glob_overlap_def shares_def)

section \<open>Properties\<close>

text \<open>
  Property C33.  The two-row program decides overlap: for patterns of at most 256 bytes it
  answers whether some string is matched by both, and a longer pattern is always reported as
  overlapping (fail closed).
\<close>

theorem glob_overlap_correct:
  "glob_overlap a b \<longleftrightarrow>
     GLOB_OVERLAP_MAX < length a \<or> GLOB_OVERLAP_MAX < length b \<or> (\<exists>s. glob_match a s \<and> glob_match b s)"
proof (cases "length a \<le> GLOB_OVERLAP_MAX \<and> length b \<le> GLOB_OVERLAP_MAX")
  case True
  then show ?thesis using glob_overlap_shares [of a b] by (auto simp: shares_def)
next
  case False
  then show ?thesis by (auto simp: glob_overlap_def)
qed

text \<open>
  Property C34.  The ban guard is fail closed on real hostmasks: if one \<^verbatim>\<open>nick!user@host\<close>
  is matched by both masks, the masks are reported as overlapping, unless one host part is an
  address pattern and the other a name pattern (the typed comparison of the source).
\<close>

theorem hostmask_overlap_safe:
  assumes "part_ok n" "part_ok u" "part_ok h"
    and "glob_match a (hostmask_of n u h)" and "glob_match b (hostmask_of n u h)"
  shows "hostmask_overlap a b \<or>
    (\<exists>an au ah bn bu bh. hostmask_split a = Some (an, au, ah) \<and> hostmask_split b = Some (bn, bu, bh) \<and>
       \<not> kinds_compatible ah bh)"
proof (cases "hostmask_split a = None \<or> hostmask_split b = None \<or>
    length a > GLOB_OVERLAP_MAX \<or> length b > GLOB_OVERLAP_MAX")
  case True
  then have "hostmask_overlap a b = glob_overlap a b"
    by (auto simp: hostmask_overlap_def split: option.splits prod.splits)
  with assms glob_overlap_if_shared show ?thesis by blast
next
  case False
  then obtain an au ah bn bu bh where
    sp: "hostmask_split a = Some (an, au, ah)" "hostmask_split b = Some (bn, bu, bh)"
    and len: "length a \<le> GLOB_OVERLAP_MAX" "length b \<le> GLOB_OVERLAP_MAX"
    by fastforce
  have "shares an bn" "shares au bu" "shares ah bh"
    using assms hostmask_match_parts [OF sp(1)] hostmask_match_parts [OF sp(2)]
    unfolding shares_def by blast+
  with sp len hostmask_overlap_split [OF sp len] show ?thesis by blast
qed

theorem hostmask_overlap_safe_witness:
  "hostmask_overlap ''*!*@*.aol.com'' ''nick!u@h.aol.com'' \<or>
    (\<exists>an au ah bn bu bh. hostmask_split ''*!*@*.aol.com'' = Some (an, au, ah) \<and>
       hostmask_split ''nick!u@h.aol.com'' = Some (bn, bu, bh) \<and> \<not> kinds_compatible ah bh)"
  by (rule hostmask_overlap_safe [of "''nick''" "''u''" "''h.aol.com''"])
    (simp_all add: part_ok_def hostmask_of_def gfold_def to_lower_def is_upper_def)

end
