(* ===== verification/Cstr.thy ===== *)
theory Cstr
  imports Hub_Base
begin

text \<open>
  C string semantics (\<^verbatim>\<open>src/src/cstr.rs\<close>): case-insensitive comparison, truncation to a
  C buffer, \<^verbatim>\<open>strtoll\<close> with its saturation, the \<^verbatim>\<open>strtok_r\<close> walk, the \<^verbatim>\<open>sscanf\<close> directives
  and the field splitters.  The lemmas show that truncation keeps a string valid UTF-8, that
  number parsing is the clamped mathematical value, and that it inverts decimal printing.
\<close>

section \<open>Machine integers\<close>

definition I64_MAX :: int where "I64_MAX = 9223372036854775807"
definition I64_MIN :: int where "I64_MIN = -9223372036854775808"

definition in_i64 :: "int \<Rightarrow> bool" where
  "in_i64 v \<longleftrightarrow> I64_MIN \<le> v \<and> v \<le> I64_MAX"

text \<open>\<^verbatim>\<open>checked_*\<close> and \<^verbatim>\<open>saturating_add\<close> on \<^verbatim>\<open>i64\<close>, and the \<^verbatim>\<open>as i32\<close> cast.\<close>

definition checked_i64 :: "int \<Rightarrow> int option" where
  "checked_i64 v = (if in_i64 v then Some v else None)"

definition saturating_add_i64 :: "i64 \<Rightarrow> i64 \<Rightarrow> i64" where
  "saturating_add_i64 a b = max I64_MIN (min I64_MAX (a + b))"

definition as_i32 :: "int \<Rightarrow> i32" where
  "as_i32 v = (v + 2147483648) mod 4294967296 - 2147483648"

section \<open>Comparison and truncation\<close>

definition eq_ic :: "string \<Rightarrow> string \<Rightarrow> bool" where
  "eq_ic a b \<longleftrightarrow> lower a = lower b"

definition starts_with_ic :: "string \<Rightarrow> string \<Rightarrow> bool" where
  "starts_with_ic s prefix \<longleftrightarrow>
     length s \<ge> length prefix \<and> lower (take (length prefix) s) = lower prefix"

text \<open>\<^verbatim>\<open>str::is_char_boundary\<close>: not in front of a UTF-8 continuation byte.\<close>

definition is_cont :: "char \<Rightarrow> bool" where
  "is_cont c \<longleftrightarrow> 128 \<le> byte c \<and> byte c < 192"

definition is_char_boundary :: "string \<Rightarrow> nat \<Rightarrow> bool" where
  "is_char_boundary s i \<longleftrightarrow> i = 0 \<or> i = length s \<or> (i < length s \<and> \<not> is_cont (s ! i))"

text \<open>The loop \<^verbatim>\<open>while end > 0 && !s.is_char_boundary(end) { end -= 1 }\<close>.\<close>

fun boundary_back :: "string \<Rightarrow> nat \<Rightarrow> nat" where
  "boundary_back s 0 = 0"
| "boundary_back s (Suc n) = (if is_char_boundary s (Suc n) then Suc n else boundary_back s n)"

definition trunc :: "string \<Rightarrow> nat \<Rightarrow> string" where
  "trunc s cap =
     (let mx = cap - 1 in
      if length s \<le> mx then s else take (boundary_back s mx) s)"

definition trunc_string :: "string \<Rightarrow> nat \<Rightarrow> string" where
  "trunc_string s cap = trunc s cap"

definition until_nul :: "string \<Rightarrow> string" where
  "until_nul s = (case split_once (CHR 0x00) s of Some (l, _) \<Rightarrow> l | None \<Rightarrow> s)"

section \<open>Numbers\<close>

definition is_c_space :: "char \<Rightarrow> bool" where
  "is_c_space c \<longleftrightarrow> byte c \<in> {32, 9, 10, 11, 12, 13}"

text \<open>The digit loop of \<^verbatim>\<open>strtoll\<close>: the value so far and the overflow flag.\<close>

fun digit_loop :: "bool \<Rightarrow> i64 \<Rightarrow> bool \<Rightarrow> string \<Rightarrow> i64 \<times> bool" where
  "digit_loop neg v overflow [] = (v, overflow)"
| "digit_loop neg v overflow (c # cs) =
     (let d = int (digit_val c) in
      if \<not> overflow then
        (case Option.bind (checked_i64 (v * 10))
                (\<lambda>x. if neg then checked_i64 (x - d) else checked_i64 (x + d)) of
           Some x \<Rightarrow> digit_loop neg x overflow cs
         | None \<Rightarrow> digit_loop neg v True cs)
      else digit_loop neg v overflow cs)"

definition strtoll :: "string \<Rightarrow> i64 \<times> nat" where
  "strtoll s =
     (let w = length (takeWhile is_c_space s);
          s1 = drop w s;
          signed = (s1 \<noteq> [] \<and> (hd s1 = CHR ''+'' \<or> hd s1 = CHR ''-''));
          neg = (signed \<and> hd s1 = CHR ''-'');
          s2 = (if signed then tl s1 else s1);
          ds = takeWhile is_digit s2;
          (v, overflow) = digit_loop neg 0 False ds
      in if ds = [] then (0, 0)
         else (if overflow then (if neg then I64_MIN else I64_MAX) else v,
               w + (if signed then 1 else 0) + length ds))"

definition atoll :: "string \<Rightarrow> i64" where
  "atoll s = fst (strtoll s)"

definition atoi :: "string \<Rightarrow> i32" where
  "atoi s = as_i32 (fst (strtoll s))"

section \<open>The strtok\_r walk\<close>

text \<open>\<^verbatim>\<open>Tok::next\<close>: the token found (if any) and the new save pointer.\<close>

definition tok_next :: "string \<Rightarrow> string \<Rightarrow> string option \<times> string" where
  "tok_next rest delims =
     (let s = dropWhile (\<lambda>c. c \<in> set delims) rest in
      if s = [] then (None, s)
      else case position (\<lambda>c. c \<in> set delims) s of
             Some i \<Rightarrow> (Some (take i s), drop (i + 1) s)
           | None \<Rightarrow> (Some s, []))"

definition tok_rest :: "string \<Rightarrow> string option \<times> string" where
  "tok_rest rest = tok_next rest []"

section \<open>sscanf\<close>

record scan =
  sc_s :: string
  sc_pos :: nat

definition scan_new :: "string \<Rightarrow> scan" where
  "scan_new s = \<lparr>sc_s = s, sc_pos = 0\<rparr>"

definition scan_rest :: "scan \<Rightarrow> string" where
  "scan_rest sc = drop (sc_pos sc) (sc_s sc)"

definition scan_set_not :: "scan \<Rightarrow> nat \<Rightarrow> string \<Rightarrow> string option \<times> scan" where
  "scan_set_not sc mx excl =
     (let r = scan_rest sc;
          n = boundary_back r (length (takeWhile (\<lambda>c. c \<notin> set excl) (take mx r)))
      in if n = 0 then (None, sc)
         else (Some (take n r), sc\<lparr>sc_pos := sc_pos sc + n\<rparr>))"

definition scan_lit :: "scan \<Rightarrow> char \<Rightarrow> bool \<times> scan" where
  "scan_lit sc c =
     (case scan_rest sc of
        x # _ \<Rightarrow> if x = c then (True, sc\<lparr>sc_pos := sc_pos sc + 1\<rparr>) else (False, sc)
      | [] \<Rightarrow> (False, sc))"

definition scan_int :: "scan \<Rightarrow> i64 option \<times> scan" where
  "scan_int sc =
     (let (v, used) = strtoll (scan_rest sc)
      in if used = 0 then (None, sc) else (Some v, sc\<lparr>sc_pos := sc_pos sc + used\<rparr>))"

definition scan_word :: "scan \<Rightarrow> nat \<Rightarrow> string option \<times> scan" where
  "scan_word sc mx =
     (let i = length (takeWhile is_c_space (scan_rest sc));
          sc1 = sc\<lparr>sc_pos := sc_pos sc + i\<rparr>;
          r = scan_rest sc1;
          n = boundary_back r (length (takeWhile (\<lambda>c. \<not> is_c_space c) (take mx r)))
      in if n = 0 then (None, sc1)
         else (Some (take n r), sc1\<lparr>sc_pos := sc_pos sc1 + n\<rparr>))"

datatype fmt = Fmt_Set nat string | Fmt_Lit string | Fmt_Int | Fmt_Word nat

datatype conv = Conv_S string | Conv_I i64

fun conv_s :: "conv \<Rightarrow> string" where
  "conv_s (Conv_S s) = s"
| "conv_s (Conv_I _) = []"

fun conv_i :: "conv \<Rightarrow> i64" where
  "conv_i (Conv_I v) = v"
| "conv_i (Conv_S _) = 0"

text \<open>\<^verbatim>\<open>l.bytes().all(|b| sc.lit(b))\<close>: stops at the first byte that does not match.\<close>

fun scan_lits :: "scan \<Rightarrow> string \<Rightarrow> bool \<times> scan" where
  "scan_lits sc [] = (True, sc)"
| "scan_lits sc (c # cs) =
     (case scan_lit sc c of (True, sc') \<Rightarrow> scan_lits sc' cs | (False, sc') \<Rightarrow> (False, sc'))"

fun sscanf_loop :: "scan \<Rightarrow> fmt list \<Rightarrow> conv list" where
  "sscanf_loop sc [] = []"
| "sscanf_loop sc (Fmt_Set mx excl # ds) =
     (case scan_set_not sc mx excl of
        (Some s, sc') \<Rightarrow> Conv_S s # sscanf_loop sc' ds | (None, _) \<Rightarrow> [])"
| "sscanf_loop sc (Fmt_Lit l # ds) =
     (case scan_lits sc l of (True, sc') \<Rightarrow> sscanf_loop sc' ds | (False, _) \<Rightarrow> [])"
| "sscanf_loop sc (Fmt_Int # ds) =
     (case scan_int sc of (Some v, sc') \<Rightarrow> Conv_I v # sscanf_loop sc' ds | (None, _) \<Rightarrow> [])"
| "sscanf_loop sc (Fmt_Word mx # ds) =
     (case scan_word sc mx of
        (Some s, sc') \<Rightarrow> Conv_S s # sscanf_loop sc' ds | (None, _) \<Rightarrow> [])"

definition sscanf :: "string \<Rightarrow> fmt list \<Rightarrow> conv list" where
  "sscanf input fm = sscanf_loop (scan_new input) fm"

section \<open>Fields\<close>

fun split_fields :: "string \<Rightarrow> nat \<Rightarrow> string list" where
  "split_fields s 0 = []"
| "split_fields s (Suc mx) =
     (case split_once (CHR ''|'') s of
        Some (l, r) \<Rightarrow> l # split_fields r mx
      | None \<Rightarrow> [s])"

definition is_uuid :: "string \<Rightarrow> bool" where
  "is_uuid s \<longleftrightarrow> length s = 36 \<and>
     (\<forall>(i, c) \<in> set (List.enumerate 0 s).
        if i \<in> {8, 13, 18, 23} then c = CHR ''-'' else is_hexdigit c)"

definition has_uuid_dashes :: "string \<Rightarrow> bool" where
  "has_uuid_dashes s \<longleftrightarrow> length s = 36 \<and> s ! 8 = CHR ''-'' \<and> s ! 13 = CHR ''-'' \<and>
     s ! 18 = CHR ''-'' \<and> s ! 23 = CHR ''-''"

text \<open>\<^verbatim>\<open>s.chars().count()\<close> on valid UTF-8: the bytes that start a character.\<close>

definition display_width :: "string \<Rightarrow> nat" where
  "display_width s = length (filter (\<lambda>c. \<not> is_cont c) s)"

definition mask_nick :: "string \<Rightarrow> nat \<Rightarrow> string" where
  "mask_nick m cap =
     trunc (case split_once (CHR ''!'') m of Some (n, _) \<Rightarrow> n | None \<Rightarrow> m) cap"

definition pad_right :: "string \<Rightarrow> nat \<Rightarrow> string" where
  "pad_right s w = s @ replicate (w - length s) (CHR '' '')"

section \<open>Truncation keeps UTF-8 valid\<close>

text \<open>The well-formed sequences of one character (the table of the Unicode standard).\<close>

fun utf8_seq :: "string \<Rightarrow> bool" where
  "utf8_seq [a] = (byte a < 128)"
| "utf8_seq [a, b] = (194 \<le> byte a \<and> byte a \<le> 223 \<and> is_cont b)"
| "utf8_seq [a, b, c] =
     (224 \<le> byte a \<and> byte a \<le> 239 \<and> is_cont b \<and> is_cont c \<and>
      (byte a = 224 \<longrightarrow> 160 \<le> byte b) \<and> (byte a = 237 \<longrightarrow> byte b < 160))"
| "utf8_seq [a, b, c, d] =
     (240 \<le> byte a \<and> byte a \<le> 244 \<and> is_cont b \<and> is_cont c \<and> is_cont d \<and>
      (byte a = 240 \<longrightarrow> 144 \<le> byte b) \<and> (byte a = 244 \<longrightarrow> byte b < 144))"
| "utf8_seq _ = False"

inductive valid_utf8 :: "string \<Rightarrow> bool" where
  valid_Nil: "valid_utf8 []"
| valid_seq: "utf8_seq cs \<Longrightarrow> valid_utf8 s \<Longrightarrow> valid_utf8 (cs @ s)"

lemma utf8_seq_shape: "utf8_seq cs \<Longrightarrow> \<exists>c ks. cs = c # ks \<and> \<not> is_cont c \<and> (\<forall>k \<in> set ks. is_cont k)"
  by (induction cs rule: utf8_seq.induct) (auto simp: is_cont_def)

lemma valid_utf8_cut:
  "valid_utf8 s \<Longrightarrow> is_char_boundary s i \<Longrightarrow> valid_utf8 (take i s)"
proof (induction s arbitrary: i rule: valid_utf8.induct)
  case valid_Nil
  then show ?case by (simp add: valid_utf8.valid_Nil)
next
  case (valid_seq cs s)
  from utf8_seq_shape [OF valid_seq.hyps(1)] obtain c ks
    where cs: "cs = c # ks" "\<forall>k \<in> set ks. is_cont k" by blast
  consider "i = 0" | "0 < i" "i < length cs" | "length cs \<le> i" by linarith
  then show ?case
  proof cases
    case 1
    then show ?thesis by (simp add: valid_utf8.valid_Nil)
  next
    case 2
    then have "(cs @ s) ! i = ks ! (i - 1)" "i - 1 < length ks"
      using cs by (auto simp: nth_append nth_Cons')
    with cs have "is_cont ((cs @ s) ! i)" by simp
    with 2 valid_seq.prems show ?thesis by (auto simp: is_char_boundary_def)
  next
    case 3
    then have "is_char_boundary s (i - length cs)"
      using valid_seq.prems by (auto simp: is_char_boundary_def nth_append)
    with valid_seq have "valid_utf8 (cs @ take (i - length cs) s)"
      by (intro valid_utf8.valid_seq) auto
    with 3 show ?thesis by simp
  qed
qed

lemma boundary_back_le: "boundary_back s n \<le> n"
  by (induction n) auto

lemma boundary_back_boundary: "is_char_boundary s (boundary_back s n)"
  by (induction n) (auto simp: is_char_boundary_def [of _ 0])

lemma boundary_back_greatest: "i \<le> n \<Longrightarrow> is_char_boundary s i \<Longrightarrow> i \<le> boundary_back s n"
  by (induction n) (auto simp: le_Suc_eq)

lemma trunc_length: "length (trunc s cap) \<le> cap - 1"
  using boundary_back_le [of s "cap - 1"] by (auto simp: trunc_def Let_def)

lemma trunc_id: "length s \<le> cap - 1 \<Longrightarrow> trunc s cap = s"
  by (simp add: trunc_def)

lemma trunc_string_id [simp]: "length s < cap \<Longrightarrow> trunc_string s cap = s"
  by (simp add: trunc_string_def trunc_id)

lemma trunc_take: "trunc s cap = take (length (trunc s cap)) s"
  using boundary_back_le [of s "cap - 1"] by (auto simp: trunc_def Let_def)

text \<open>
  Property C38.  \<^verbatim>\<open>trunc\<close> leaves what \<^verbatim>\<open>snprintf\<close> into a \<^verbatim>\<open>char[cap]\<close> would, cut back to a
  character: a prefix of at most \<^verbatim>\<open>cap - 1\<close> bytes that is valid UTF-8 when its input is, and
  no longer prefix ending between two characters fits.
\<close>

theorem trunc_utf8:
  assumes "valid_utf8 s"
  shows "valid_utf8 (trunc s cap) \<and> length (trunc s cap) \<le> cap - 1 \<and>
    trunc s cap = take (length (trunc s cap)) s \<and>
    (\<forall>i. i \<le> cap - 1 \<and> i \<le> length s \<and> is_char_boundary s i \<longrightarrow> i \<le> length (trunc s cap))"
proof -
  have "valid_utf8 (trunc s cap)"
    using assms by (auto simp: trunc_def Let_def intro: valid_utf8_cut boundary_back_boundary)
  moreover have "i \<le> length (trunc s cap)"
    if "i \<le> cap - 1" "i \<le> length s" "is_char_boundary s i" for i
    using boundary_back_greatest [OF that(1,3)] boundary_back_le [of s "cap - 1"] that(2)
    by (auto simp: trunc_def Let_def)
  ultimately show ?thesis using trunc_length trunc_take by blast
qed

theorem trunc_utf8_witness:
  "valid_utf8 [CHR ''a'', CHR 0xC3, CHR 0xA9] \<and> trunc [CHR ''a'', CHR 0xC3, CHR 0xA9] 3 = ''a'' \<and>
   length (trunc [CHR ''a'', CHR 0xC3, CHR 0xA9] 3) \<le> 3 - 1"
proof -
  have v: "valid_utf8 ([CHR ''a''] @ [CHR 0xC3, CHR 0xA9] @ [])"
    by (intro valid_utf8.intros) (simp_all add: is_cont_def)
  have "trunc [CHR ''a'', CHR 0xC3, CHR 0xA9] 3 = ''a''"
    by (simp add: trunc_def numeral_2_eq_2 is_char_boundary_def is_cont_def)
  with v trunc_utf8 [OF v, of 3] show ?thesis by simp
qed

section \<open>Number parsing\<close>

text \<open>The signed value of a digit run, continuing from \<^verbatim>\<open>v\<close>.\<close>

definition run_val :: "bool \<Rightarrow> int \<Rightarrow> string \<Rightarrow> int" where
  "run_val neg v ds = foldl (\<lambda>v c. if neg then v * 10 - int (digit_val c) else v * 10 + int (digit_val c)) v ds"

lemma run_val_Nil [simp]: "run_val neg v [] = v"
  by (simp add: run_val_def)

lemma run_val_Cons:
  "run_val neg v (c # cs) = run_val neg (if neg then v * 10 - int (digit_val c) else v * 10 + int (digit_val c)) cs"
  by (simp add: run_val_def)

lemma run_val_dec: "run_val neg 0 ds = (if neg then - int (dec_val ds) else int (dec_val ds))"
  by (induction ds rule: rev_induct) (auto simp: run_val_def)

lemma run_val_le: "v \<le> 0 \<Longrightarrow> run_val True v ds \<le> v"
proof (induction ds arbitrary: v)
  case (Cons c cs)
  then have "run_val True (v * 10 - int (digit_val c)) cs \<le> v * 10 - int (digit_val c)" by simp
  with Cons.prems show ?case by (simp add: run_val_Cons)
qed simp

lemma run_val_ge: "0 \<le> v \<Longrightarrow> v \<le> run_val False v ds"
proof (induction ds arbitrary: v)
  case (Cons c cs)
  then have "v * 10 + int (digit_val c) \<le> run_val False (v * 10 + int (digit_val c)) cs" by simp
  with Cons.prems show ?case by (simp add: run_val_Cons)
qed simp

lemma digit_loop_overflow: "digit_loop neg v True ds = (v, True)"
  by (induction ds) (auto simp: Let_def)

text \<open>The loop computes the exact value while it fits, and flags overflow exactly when it does not.\<close>

lemma digit_loop_val:
  assumes "if neg then I64_MIN \<le> v \<and> v \<le> 0 else 0 \<le> v \<and> v \<le> I64_MAX"
  shows "(let (x, ov) = digit_loop neg v False ds in
            ov = (\<not> in_i64 (run_val neg v ds)) \<and> (\<not> ov \<longrightarrow> x = run_val neg v ds))"
  using assms
proof (induction ds arbitrary: v)
  case Nil
  then show ?case by (cases neg) (auto simp: in_i64_def I64_MIN_def I64_MAX_def)
next
  case (Cons c cs)
  let ?x = "if neg then v * 10 - int (digit_val c) else v * 10 + int (digit_val c)"
  have step: "Option.bind (checked_i64 (v * 10))
      (\<lambda>x. if neg then checked_i64 (x - int (digit_val c)) else checked_i64 (x + int (digit_val c))) =
      checked_i64 ?x"
    using Cons.prems by (cases neg) (auto simp: checked_i64_def in_i64_def I64_MIN_def I64_MAX_def)
  show ?case
  proof (cases "in_i64 ?x")
    case True
    then have "digit_loop neg v False (c # cs) = digit_loop neg ?x False cs"
      using step by (simp add: Let_def checked_i64_def)
    moreover have "if neg then I64_MIN \<le> ?x \<and> ?x \<le> 0 else 0 \<le> ?x \<and> ?x \<le> I64_MAX"
      using True Cons.prems by (auto simp: in_i64_def)
    ultimately show ?thesis using Cons.IH [of ?x] by (simp add: run_val_Cons)
  next
    case False
    then have "digit_loop neg v False (c # cs) = (v, True)"
      using step by (simp add: Let_def checked_i64_def digit_loop_overflow)
    moreover have "\<not> in_i64 (run_val neg ?x cs)"
      using False Cons.prems run_val_le [of ?x cs] run_val_ge [of ?x cs]
      by (cases neg) (auto simp: in_i64_def I64_MIN_def I64_MAX_def)
    ultimately show ?thesis by (simp add: run_val_Cons)
  qed
qed

definition clamp_i64 :: "int \<Rightarrow> int" where
  "clamp_i64 v = max I64_MIN (min I64_MAX v)"

lemma clamp_i64_in [simp]: "in_i64 (clamp_i64 v)"
  by (auto simp: clamp_i64_def in_i64_def I64_MIN_def I64_MAX_def)

lemma clamp_i64_id: "in_i64 v \<Longrightarrow> clamp_i64 v = v"
  by (auto simp: clamp_i64_def in_i64_def)

lemma digit_loop_clamp:
  "(let (x, ov) = digit_loop neg 0 False ds in if ov then (if neg then I64_MIN else I64_MAX) else x) =
     clamp_i64 (if neg then - int (dec_val ds) else int (dec_val ds))"
proof -
  obtain x ov where dl: "digit_loop neg 0 False ds = (x, ov)" by force
  have "if neg then I64_MIN \<le> 0 \<and> (0::int) \<le> 0 else (0::int) \<le> 0 \<and> 0 \<le> I64_MAX"
    by (simp add: I64_MIN_def I64_MAX_def)
  from digit_loop_val [OF this, of ds] dl
  have "ov = (\<not> in_i64 (run_val neg 0 ds))" "\<not> ov \<Longrightarrow> x = run_val neg 0 ds" by auto
  then show ?thesis
    unfolding dl run_val_dec
    by (cases neg) (auto simp: clamp_i64_def in_i64_def I64_MIN_def I64_MAX_def)
qed

text \<open>The three parts \<^verbatim>\<open>strtoll\<close> reads: blanks, an optional sign, a digit run.\<close>

lemma strtoll_parts:
  assumes "\<forall>c \<in> set ws. is_c_space c" and "sg \<in> {[], ''+'', ''-''}"
    and "ds \<noteq> []" "\<forall>c \<in> set ds. is_digit c" and "r = [] \<or> \<not> is_digit (hd r)"
  shows "strtoll (ws @ sg @ ds @ r) =
    (clamp_i64 (if sg = ''-'' then - int (dec_val ds) else int (dec_val ds)), length ws + length sg + length ds)"
proof -
  have hd_ds: "is_digit (hd ds)" using assms(3,4) by simp
  then have not_sign: "hd ds \<noteq> CHR ''+''" "hd ds \<noteq> CHR ''-''" and "\<not> is_c_space (hd ds)"
    by (auto simp: is_digit_def is_c_space_def)
  then have "\<not> is_c_space (hd (sg @ ds @ r))" and ne: "sg @ ds @ r \<noteq> []"
    using assms(2,3) by (auto simp: is_c_space_def)
  then have w: "takeWhile is_c_space (ws @ sg @ ds @ r) = ws"
    using assms(1) by (cases "sg @ ds @ r") (simp_all add: takeWhile_append2)
  have tw: "takeWhile is_digit (ds @ r) = ds"
    using assms(4,5) by (cases r) (simp_all add: takeWhile_append2)
  obtain x ov where dl: "digit_loop (sg = ''-'') 0 False ds = (x, ov)" by force
  note cl = digit_loop_clamp [of "sg = ''-''" ds, unfolded dl Let_def, simplified]
  show ?thesis
    using assms(2,3) not_sign w tw dl cl by (auto simp: strtoll_def Let_def hd_append split: if_splits)
qed

lemma strtoll_range: "in_i64 (fst (strtoll s))"
proof -
  let ?s1 = "drop (length (takeWhile is_c_space s)) s"
  let ?signed = "?s1 \<noteq> [] \<and> (hd ?s1 = CHR ''+'' \<or> hd ?s1 = CHR ''-'')"
  let ?neg = "?signed \<and> hd ?s1 = CHR ''-''"
  let ?ds = "takeWhile is_digit (if ?signed then tl ?s1 else ?s1)"
  obtain x ov where dl: "digit_loop ?neg 0 False ?ds = (x, ov)" by force
  have "fst (strtoll s) = (if ?ds = [] then 0
      else clamp_i64 (if ?neg then - int (dec_val ?ds) else int (dec_val ?ds)))"
    using digit_loop_clamp [of ?neg ?ds] dl by (simp add: strtoll_def Let_def)
  moreover have "in_i64 0" by (simp add: in_i64_def I64_MIN_def I64_MAX_def)
  ultimately show ?thesis by simp
qed

lemma strtoll_show_int:
  assumes "in_i64 v" and "r = [] \<or> \<not> is_digit (hd r)"
  shows "strtoll (show_int v @ r) = (v, length (show_int v))"
proof (cases "v < 0")
  case True
  then show ?thesis
    using strtoll_parts [of "[]" "''-''" "show_nat (nat (- v))" r] assms show_nat_digits
    by (simp add: show_int_def clamp_i64_id)
next
  case False
  then show ?thesis
    using strtoll_parts [of "[]" "[]" "show_nat (nat v)" r] assms show_nat_digits
    by (simp add: show_int_def clamp_i64_id)
qed

lemma atoll_show_int: "in_i64 v \<Longrightarrow> atoll (show_int v) = v"
  using strtoll_show_int [of v "[]"] by (simp add: atoll_def)

text \<open>
  \<^verbatim>\<open>strtoll\<close> reads blanks, an optional sign and a digit run, returns the value
  clamped to the \<^verbatim>\<open>i64\<close> range (glibc's saturation) and reports exactly the bytes it consumed.
\<close>

theorem strtoll_correct:
  assumes "\<forall>c \<in> set ws. is_c_space c" and "sg \<in> {[], ''+'', ''-''}"
    and "ds \<noteq> []" and "\<forall>c \<in> set ds. is_digit c" and "r = [] \<or> \<not> is_digit (hd r)"
  shows "strtoll (ws @ sg @ ds @ r) =
    (max I64_MIN (min I64_MAX (if sg = ''-'' then - int (dec_val ds) else int (dec_val ds))),
     length ws + length sg + length ds)"
  using strtoll_parts [OF assms] by (simp add: clamp_i64_def)

theorem strtoll_correct_witness:
  "strtoll ('' '' @ ''-'' @ ''99999999999999999999'' @ ''|x'') = (I64_MIN, 22)"
  by (subst strtoll_correct)
    (simp_all add: is_c_space_def is_digit_def I64_MIN_def I64_MAX_def dec_val_def digit_val_def)

text \<open>
  Printing and parsing a stamp are inverse: \<^verbatim>\<open>strtoll\<close> of the decimal text of
  any \<^verbatim>\<open>i64\<close>, followed by anything that is not a digit, gives the number back and consumes
  exactly its text.
\<close>

theorem strtoll_roundtrip:
  assumes "I64_MIN \<le> v" and "v \<le> I64_MAX" and "r = [] \<or> \<not> is_digit (hd r)"
  shows "strtoll (show_int v @ r) = (v, length (show_int v))"
  using assms by (intro strtoll_show_int) (simp_all add: in_i64_def)

theorem strtoll_roundtrip_witness: "strtoll (show_int (-42) @ ''|7'') = (-42, length (show_int (-42)))"
  by (rule strtoll_roundtrip) (simp_all add: I64_MIN_def I64_MAX_def is_digit_def)

end
