(* ===== verification/Lww.thy ===== *)
theory Lww
  imports Cstr
begin

text \<open>
  The shared rules of \<^verbatim>\<open>src/src/state.rs\<close> (the \<^verbatim>\<open>static inline\<close> block of the C header): stamps,
  last-writer-wins acceptance, name validation, strict integer parsing.  The second half is the
  abstract specification every replicated table of the hub refines: a map of last-writer-wins
  registers.  Locale \<^verbatim>\<open>lww_order\<close> says what an acceptance rule must satisfy, locale
  \<^verbatim>\<open>lww_store\<close> what a table must promise; the client theorem is convergence (replicas that were
  delivered the same records, in any order and with any repetition, agree).
\<close>

section \<open>Stamps and acceptance\<close>

definition LWW_MAX_FUTURE :: i64 where
  "LWW_MAX_FUTURE = 3600"

definition lww_next_ts :: "env \<Rightarrow> i64 \<Rightarrow> i64" where
  "lww_next_ts e prev = (let n = env_now e in if n > prev then n else saturating_add_i64 prev 1)"

definition ts_ahead :: "env \<Rightarrow> i64 \<Rightarrow> bool" where
  "ts_ahead e ts \<longleftrightarrow> \<not> env_loading e \<and> ts > env_now e + LWW_MAX_FUTURE"

definition lww_accepts :: "env \<Rightarrow> i64 \<Rightarrow> bool \<Rightarrow> i64 \<Rightarrow> bool \<Rightarrow> bool" where
  "lww_accepts e in_ts in_active cur_ts cur_active =
     (if ts_ahead e in_ts then False
      else in_ts > cur_ts \<or> (in_ts = cur_ts \<and> cur_active \<and> \<not> in_active))"

definition opt_accepts :: "env \<Rightarrow> i64 \<Rightarrow> string \<Rightarrow> i64 \<Rightarrow> string \<Rightarrow> bool" where
  "opt_accepts e in_ts in_flags cur_ts cur_flags =
     (if ts_ahead e in_ts then False
      else in_ts > cur_ts \<or> (in_ts = cur_ts \<and> in_flags > cur_flags))"

definition global_value_active :: "string \<Rightarrow> bool" where
  "global_value_active v =
     (case rsplit_once (CHR ''|'') v of Some (_, op) \<Rightarrow> op \<noteq> ''del'' | None \<Rightarrow> True)"

definition name_valid :: "string \<Rightarrow> bool" where
  "name_valid b =
     (if b = [] \<or> length b > 63 then False
      else \<forall>c \<in> set b. is_alnum c \<or> c = CHR ''.'' \<or> c = CHR ''_'' \<or> c = CHR ''-'')"

section \<open>Strict unsigned decimal\<close>

text \<open>
  The crate is built with \<^verbatim>\<open>overflow-checks = true\<close>, so an unsigned subtraction below zero
  panics: a result is either a panic or a value.
\<close>

datatype 'a outcome = Panic | Ret 'a

text \<open>Sequencing, the checked \<^verbatim>\<open>usize\<close> subtraction, and an increment below a limit.\<close>

fun out_bind :: "'a outcome \<Rightarrow> ('a \<Rightarrow> 'b outcome) \<Rightarrow> 'b outcome" where
  "out_bind Panic f = Panic"
| "out_bind (Ret x) f = f x"

definition checked_sub :: "nat \<Rightarrow> nat \<Rightarrow> nat outcome" where
  "checked_sub a b = (if b \<le> a then Ret (a - b) else Panic)"

lemma out_bind_Ret: "out_bind x f = Ret y \<longleftrightarrow> (\<exists>v. x = Ret v \<and> f v = Ret y)"
  by (cases x) auto

text \<open>A \<^verbatim>\<open>for\<close> loop whose body may panic.\<close>

fun out_fold :: "('x \<Rightarrow> 's \<Rightarrow> 's outcome) \<Rightarrow> 'x list \<Rightarrow> 's \<Rightarrow> 's outcome" where
  "out_fold f [] s = Ret s"
| "out_fold f (x # xs) s = out_bind (f x s) (out_fold f xs)"

lemma out_fold_inv:
  assumes "\<And>x s. x \<in> set xs \<Longrightarrow> P s \<Longrightarrow> \<exists>s'. f x s = Ret s' \<and> P s'" "P s"
  shows "\<exists>s'. out_fold f xs s = Ret s' \<and> P s'"
  using assms
proof (induction xs arbitrary: s)
  case (Cons x xs)
  obtain s' where "f x s = Ret s'" "P s'" using Cons.prems(1) [of x s] Cons.prems(2) by auto
  then show ?case using Cons.IH [of s'] Cons.prems(1) by simp
qed simp

lemma checked_sub_Ret [simp]: "b \<le> a \<Longrightarrow> checked_sub a b = Ret (a - b)"
  by (simp add: checked_sub_def)

fun parse_uint_loop :: "nat \<Rightarrow> nat \<Rightarrow> string \<Rightarrow> nat option outcome" where
  "parse_uint_loop mx v [] = Ret (Some v)"
| "parse_uint_loop mx v (c # cs) =
     (if \<not> is_digit c then Ret None
      else let d = digit_val c in
        if mx < d then Panic
        else if v > (mx - d) div 10 then Ret None
        else parse_uint_loop mx (v * 10 + d) cs)"

definition parse_uint :: "string \<Rightarrow> nat \<Rightarrow> nat option outcome" where
  "parse_uint s mx =
     (if s = [] \<or> length s > 10 then Ret None else parse_uint_loop mx 0 s)"

section \<open>Lemmas on the rules\<close>

lemma ts_ahead_mono: "ts_ahead e ts \<Longrightarrow> ts \<le> ts' \<Longrightarrow> ts_ahead e ts'"
  by (auto simp: ts_ahead_def)

lemma lww_next_ts_gt: "prev < I64_MAX \<Longrightarrow> I64_MIN \<le> prev \<Longrightarrow> prev < lww_next_ts e prev"
  by (auto simp: lww_next_ts_def Let_def saturating_add_i64_def)

lemma lww_next_ts_pos: "0 \<le> prev \<Longrightarrow> prev < I64_MAX \<Longrightarrow> 0 < lww_next_ts e prev"
  using lww_next_ts_gt [of prev e] by (auto simp: I64_MIN_def)

lemma lww_next_ts_not_ahead:
  "I64_MIN \<le> prev \<Longrightarrow> prev \<le> env_now e + LWW_MAX_FUTURE - 1 \<Longrightarrow> \<not> ts_ahead e (lww_next_ts e prev)"
  by (auto simp: lww_next_ts_def Let_def ts_ahead_def LWW_MAX_FUTURE_def saturating_add_i64_def
      I64_MIN_def I64_MAX_def)

lemma global_value_active_add [simp]: "global_value_active (v @ ''|add'')"
  using rsplit_once_append [of "CHR ''|''" "''add''" v] by (simp add: global_value_active_def)

lemma global_value_active_del [simp]: "\<not> global_value_active (v @ ''|del'')"
  using rsplit_once_append [of "CHR ''|''" "''del''" v] by (simp add: global_value_active_def)

lemma digit_val_less: "is_digit c \<Longrightarrow> digit_val c < 10"
  by (auto simp: is_digit_def digit_val_def)

lemma foldl_dec_ge: "v \<le> foldl (\<lambda>v c. 10 * v + digit_val c) v cs"
proof (induction cs arbitrary: v)
  case (Cons c cs)
  have "v \<le> 10 * v + digit_val c" by simp
  also have "\<dots> \<le> foldl (\<lambda>v c. 10 * v + digit_val c) (10 * v + digit_val c) cs" by (rule Cons.IH)
  finally show ?case by simp
qed simp

lemma parse_uint_loop_val:
  assumes "9 \<le> mx"
  shows "parse_uint_loop mx v cs =
    (if (\<forall>c \<in> set cs. is_digit c) \<and> (cs = [] \<or> foldl (\<lambda>v c. 10 * v + digit_val c) v cs \<le> mx)
     then Ret (Some (foldl (\<lambda>v c. 10 * v + digit_val c) v cs)) else Ret None)"
proof (induction cs arbitrary: v)
  case (Cons c cs)
  show ?case
  proof (cases "is_digit c")
    case True
    let ?d = "digit_val c"
    have d: "?d < 10" "\<not> mx < ?d" using digit_val_less [OF True] assms by auto
    have guard: "v > (mx - ?d) div 10 \<longleftrightarrow> 10 * v + ?d > mx" using d by auto
    show ?thesis
    proof (cases "10 * v + ?d > mx")
      case big: True
      then have "\<not> foldl (\<lambda>v c. 10 * v + digit_val c) (10 * v + ?d) cs \<le> mx"
        using foldl_dec_ge [of "10 * v + ?d" cs] by simp
      with big guard True d show ?thesis by (simp add: Let_def)
    next
      case False
      then have "\<not> v > (mx - ?d) div 10" using guard by blast
      then have "parse_uint_loop mx v (c # cs) = parse_uint_loop mx (10 * v + ?d) cs"
        using True d by (simp add: Let_def mult.commute)
      then show ?thesis using Cons.IH [of "10 * v + ?d"] True False by auto
    qed
  qed simp
qed simp

text \<open>
  With a bound of at least 9, \<^verbatim>\<open>parse_uint\<close> accepts exactly 1 to 10 ASCII digits
  whose value is at most the bound, returns that value, and never panics.
\<close>

theorem parse_uint_correct:
  assumes "9 \<le> mx"
  shows "parse_uint s mx =
    Ret (if 1 \<le> length s \<and> length s \<le> 10 \<and> (\<forall>c \<in> set s. is_digit c) \<and> dec_val s \<le> mx
         then Some (dec_val s) else None)"
  using parse_uint_loop_val [OF assms, of 0 s]
  by (auto simp: parse_uint_def dec_val_def Suc_le_eq)

theorem parse_uint_correct_witness: "parse_uint ''7000'' 65535 = Ret (Some 7000)"
  by (subst parse_uint_correct) (simp_all add: is_digit_def dec_val_def digit_val_def)

text \<open>
  With a smaller bound, a first digit above the bound makes the guard
  \<^verbatim>\<open>(max - d) / 10\<close> underflow and the parse panics instead of answering \<^verbatim>\<open>None\<close>; the console's
  \<^verbatim>\<open>log=\<close> topic passes the bound 4.
\<close>

theorem parse_uint_panics:
  assumes "is_digit c" and "mx < digit_val c" and "length cs \<le> 9"
  shows "parse_uint (c # cs) mx = Panic"
  using assms by (simp add: parse_uint_def)

theorem parse_uint_panics_witness: "parse_uint ''5'' 4 = Panic"
  by (rule parse_uint_panics) (simp_all add: is_digit_def digit_val_def)

text \<open>
  A change stamped with \<^verbatim>\<open>lww_next_ts\<close> past a record's previous stamp replaces
  that record on every node whose clock does not consider it ahead, whatever the two
  activities are: an add and a remove in the same second cannot tie.
\<close>

theorem next_stamp_wins_everywhere:
  assumes "I64_MIN \<le> prev" and "prev < I64_MAX" and "\<not> ts_ahead e' (lww_next_ts e prev)"
  shows "lww_accepts e' (lww_next_ts e prev) in_active prev cur_active \<and>
    \<not> lww_accepts e' prev cur_active (lww_next_ts e prev) in_active"
  using lww_next_ts_gt [OF assms(2,1), of e] assms(3) by (auto simp: lww_accepts_def)

theorem next_stamp_wins_everywhere_witness:
  "lww_accepts \<lparr>env_now = 100, env_loading = False, env_b64 = Some, env_b64_std = Some\<rparr>
     (lww_next_ts \<lparr>env_now = 100, env_loading = False, env_b64 = Some, env_b64_std = Some\<rparr> 100) False 100 True"
  using next_stamp_wins_everywhere [of 100 "\<lparr>env_now = 100, env_loading = False, env_b64 = Some, env_b64_std = Some\<rparr>"
      "\<lparr>env_now = 100, env_loading = False, env_b64 = Some, env_b64_std = Some\<rparr>" False True]
  by (simp add: I64_MIN_def I64_MAX_def ts_ahead_def lww_next_ts_def saturating_add_i64_def
      LWW_MAX_FUTURE_def)

section \<open>The abstract specification: a map of joined registers\<close>

text \<open>
  The abstract state of a replicated table is a map from keys to values; a delivered (key, value)
  joins the stored value with the delivered one.  Locale \<^verbatim>\<open>join_semi\<close> is what the join must
  satisfy; \<^verbatim>\<open>lww_order\<close> is the case where one of the two values wins outright.
\<close>

definition join_put :: "('v \<Rightarrow> 'v \<Rightarrow> 'v) \<Rightarrow> 'k \<times> 'v \<Rightarrow> ('k \<rightharpoonup> 'v) \<Rightarrow> ('k \<rightharpoonup> 'v)" where
  "join_put join kv m =
     m(fst kv \<mapsto> (case m (fst kv) of None \<Rightarrow> snd kv | Some c \<Rightarrow> join (snd kv) c))"

definition join_puts :: "('v \<Rightarrow> 'v \<Rightarrow> 'v) \<Rightarrow> ('k \<times> 'v) list \<Rightarrow> ('k \<rightharpoonup> 'v) \<Rightarrow> ('k \<rightharpoonup> 'v)" where
  "join_puts join kvs m = fold (join_put join) kvs m"

lemma dom_join_put: "dom (join_put join kv m) = insert (fst kv) (dom m)"
  by (auto simp: join_put_def)

locale join_semi =
  fixes join :: "'v \<Rightarrow> 'v \<Rightarrow> 'v"
  assumes join_commute: "join x y = join y x"
    and join_assoc: "join x (join y z) = join (join x y) z"
    and join_idem: "join x x = x"
begin

lemma join_left_commute: "join x (join y z) = join y (join x z)"
  by (metis join_commute join_assoc)

lemma put_commute: "join_put join a (join_put join b m) = join_put join b (join_put join a m)"
  by (rule ext) (auto simp: join_put_def join_commute join_left_commute split: option.splits)

lemma put_idem: "join_put join a (join_put join a m) = join_put join a m"
  by (rule ext) (auto simp: join_put_def join_assoc join_idem split: option.splits)

text \<open>The order and the repetition of deliveries do not matter: only their set does.\<close>

lemma puts_set:
  assumes "set xs = set ys"
  shows "join_puts join xs m = join_puts join ys m"
proof -
  have c: "comp_fun_idem_on UNIV (join_put join)"
    by unfold_locales (auto simp: put_commute put_idem)
  have "join_puts join zs m = Finite_Set.fold (join_put join) m (set zs)" for zs
    unfolding join_puts_def by (rule comp_fun_idem_on.fold_set_fold [OF c, symmetric]) simp
  with assms show ?thesis by simp
qed

end

section \<open>The contract of a replicated table\<close>

text \<open>
  A table with transition \<^verbatim>\<open>step\<close> on delivered records, abstraction \<^verbatim>\<open>tab\<close> and a capacity:
  a record is either refused as malformed (\<^verbatim>\<open>kv\<close> is \<^const>\<open>None\<close>) or says one key and value, and
  then, while there is room, the step is \<^const>\<open>join_put\<close> on the abstraction; a new key that finds
  no room changes nothing.
\<close>

locale join_store = join_semi join
  for join :: "'v \<Rightarrow> 'v \<Rightarrow> 'v" +
  fixes step :: "'m \<Rightarrow> 's \<Rightarrow> 's"
    and tab :: "'s \<Rightarrow> 'k \<rightharpoonup> 'v"
    and kv :: "'m \<Rightarrow> ('k \<times> 'v) option"
    and room :: nat
    and inv :: "'s \<Rightarrow> bool"
  assumes step_join: "inv s \<Longrightarrow> kv r = Some x \<Longrightarrow>
      fst x \<in> dom (tab s) \<or> card (dom (tab s)) < room \<Longrightarrow> tab (step r s) = join_put join x (tab s)"
    and step_refused: "inv s \<Longrightarrow> kv r = None \<Longrightarrow> tab (step r s) = tab s"
    and step_inv: "inv s \<Longrightarrow> inv (step r s)"
    and tab_finite: "inv s \<Longrightarrow> finite (dom (tab s))"
begin

definition said :: "'m list \<Rightarrow> ('k \<times> 'v) list" where
  "said rs = List.map_filter kv rs"

definition said_keys :: "'m list \<Rightarrow> 'k set" where
  "said_keys rs = fst ` set (said rs)"

lemma set_said: "set (said rs) = {x. \<exists>r \<in> set rs. kv r = Some x}"
  by (force simp: said_def List.map_filter_def)

lemma deliver_inv: "inv s \<Longrightarrow> inv (fold step rs s)"
  by (induction rs arbitrary: s) (auto simp: step_inv)

text \<open>Delivering records to the table is delivering them to the abstract map.\<close>

lemma deliver_puts:
  assumes "inv s" and "card (dom (tab s) \<union> said_keys rs) \<le> room"
  shows "tab (fold step rs s) = join_puts join (said rs) (tab s)"
  using assms
proof (induction rs arbitrary: s)
  case Nil
  then show ?case by (simp add: said_def join_puts_def List.map_filter_def)
next
  case (Cons r rs)
  show ?case
  proof (cases "kv r")
    case None
    then have "said (r # rs) = said rs" by (simp add: said_def List.map_filter_def)
    with Cons None show ?thesis by (simp add: step_refused step_inv said_keys_def)
  next
    case (Some x)
    then have sr: "said (r # rs) = x # said rs" by (simp add: said_def List.map_filter_def)
    have fin: "finite (dom (tab s) \<union> said_keys (r # rs))"
      using tab_finite [OF Cons.prems(1)] by (simp add: said_keys_def)
    have "fst x \<in> dom (tab s) \<or> card (dom (tab s)) < room"
    proof (rule disjCI)
      assume "\<not> card (dom (tab s)) < room"
      then have "dom (tab s) = dom (tab s) \<union> said_keys (r # rs)"
        using Cons.prems(2) card_seteq [OF fin, of "dom (tab s)"] by auto
      then show "fst x \<in> dom (tab s)" by (auto simp: said_keys_def sr)
    qed
    then have st: "tab (step r s) = join_put join x (tab s)"
      using step_join [OF Cons.prems(1) Some] by blast
    have "card (dom (tab (step r s)) \<union> said_keys rs) \<le> room"
      using Cons.prems(2) by (simp add: st dom_join_put said_keys_def sr)
    then have "tab (fold step rs (step r s)) = join_puts join (said rs) (tab (step r s))"
      using Cons.IH Cons.prems(1) step_inv by blast
    then show ?thesis by (simp add: st sr join_puts_def)
  qed
qed

text \<open>Strong eventual consistency of the table.\<close>

lemma deliver_converge:
  assumes "inv s" "inv s'" and "tab s = tab s'" and "set (said rs) = set (said rs')"
    and "card (dom (tab s) \<union> said_keys rs) \<le> room"
  shows "tab (fold step rs s) = tab (fold step rs' s')"
proof -
  have "said_keys rs = said_keys rs'"
    and "join_puts join (said rs) (tab s) = join_puts join (said rs') (tab s)"
    using assms(4) by (auto simp: said_keys_def intro: puts_set)
  with assms deliver_puts [of s rs] deliver_puts [of s' rs'] show ?thesis by simp
qed

end

section \<open>Last writer wins\<close>

definition lww_put :: "('v \<Rightarrow> 'v \<Rightarrow> bool) \<Rightarrow> 'k \<times> 'v \<Rightarrow> ('k \<rightharpoonup> 'v) \<Rightarrow> ('k \<rightharpoonup> 'v)" where
  "lww_put beats kv m =
     (case m (fst kv) of
        None \<Rightarrow> m(fst kv \<mapsto> snd kv)
      | Some c \<Rightarrow> if beats (snd kv) c then m(fst kv \<mapsto> snd kv) else m)"

lemma lww_put_join: "lww_put beats kv m = join_put (\<lambda>x c. if beats x c then x else c) kv m"
  by (auto simp: lww_put_def join_put_def fun_upd_idem split: option.splits)

locale lww_order =
  fixes beats :: "'v \<Rightarrow> 'v \<Rightarrow> bool"
  assumes beats_irrefl: "\<not> beats x x"
    and beats_trans: "beats x y \<Longrightarrow> beats y z \<Longrightarrow> beats x z"
    and beats_total: "beats x y \<or> x = y \<or> beats y x"
begin

lemma beats_asym: "beats x y \<Longrightarrow> \<not> beats y x"
  using beats_irrefl beats_trans by blast

definition pick :: "'v \<Rightarrow> 'v \<Rightarrow> 'v" where
  "pick x c = (if beats x c then x else c)"

lemma pick_commute: "pick x y = pick y x"
  using beats_total [of x y] beats_asym [of x y] by (auto simp: pick_def)

lemma pick_assoc: "pick a (pick b c) = pick (pick a b) c"
  using beats_total [of a b] beats_total [of b c] beats_total [of a c]
    beats_asym [of a b] beats_asym [of b c] beats_asym [of a c]
    beats_trans [of a b c] beats_trans [of a c b] beats_trans [of b a c]
    beats_trans [of b c a] beats_trans [of c a b] beats_trans [of c b a]
  unfolding pick_def by presburger

lemma put_join: "lww_put beats x m = join_put pick x m"
  by (simp add: lww_put_join pick_def [abs_def])

end

text \<open>A winner-takes-all rule is a join, so the first contract applies to it.\<close>

sublocale lww_order \<subseteq> lww_join: join_semi pick
proof
  show "pick x y = pick y x" for x y by (rule pick_commute)
  show "pick x (pick y z) = pick (pick x y) z" for x y z by (rule pick_assoc)
  show "pick x x = x" for x by (simp add: pick_def)
qed

locale lww_store = lww_order beats
  for beats :: "'v \<Rightarrow> 'v \<Rightarrow> bool" +
  fixes step :: "'m \<Rightarrow> 's \<Rightarrow> 's"
    and tab :: "'s \<Rightarrow> 'k \<rightharpoonup> 'v"
    and kv :: "'m \<Rightarrow> ('k \<times> 'v) option"
    and room :: nat
    and inv :: "'s \<Rightarrow> bool"
  assumes step_put: "inv s \<Longrightarrow> kv r = Some x \<Longrightarrow>
      fst x \<in> dom (tab s) \<or> card (dom (tab s)) < room \<Longrightarrow> tab (step r s) = lww_put beats x (tab s)"
    and step_full: "inv s \<Longrightarrow> kv r = Some x \<Longrightarrow> fst x \<notin> dom (tab s) \<Longrightarrow> \<not> card (dom (tab s)) < room \<Longrightarrow>
      tab (step r s) = tab s"
    and step_refused: "inv s \<Longrightarrow> kv r = None \<Longrightarrow> tab (step r s) = tab s"
    and step_inv: "inv s \<Longrightarrow> inv (step r s)"
    and tab_finite: "inv s \<Longrightarrow> finite (dom (tab s))"
begin

text \<open>Whatever the capacity, the table holds nothing nobody said.\<close>

lemma deliver_said:
  assumes "inv s" and "tab (fold step rs s) k = Some v"
  shows "tab s k = Some v \<or> (\<exists>r \<in> set rs. kv r = Some (k, v))"
  using assms
proof (induction rs arbitrary: s)
  case (Cons r rs)
  have IH: "tab (step r s) k = Some v \<or> (\<exists>r \<in> set rs. kv r = Some (k, v))"
    using Cons.IH [of "step r s"] Cons.prems step_inv by simp
  have put: "lww_put beats x m k = Some v \<Longrightarrow> m k = Some v \<or> x = (k, v)" for x m
    by (cases x) (auto simp: lww_put_def split: option.splits if_splits)
  have "tab s k = Some v \<or> kv r = Some (k, v)" if "tab (step r s) k = Some v"
  proof (cases "kv r")
    case None
    with that Cons.prems(1) show ?thesis by (simp add: step_refused)
  next
    case (Some x)
    then have "tab (step r s) = lww_put beats x (tab s) \<or> tab (step r s) = tab s"
      using step_put [OF Cons.prems(1) Some] step_full [OF Cons.prems(1) Some] by blast
    then show ?thesis using that Some put [of x "tab s"] by auto
  qed
  with IH show ?case by auto
qed simp

text \<open>And nothing anybody said beats what it holds, once the key has had room.\<close>

lemma deliver_unbeaten:
  assumes "inv s" and "tab s k = Some w"
  shows "\<exists>v. tab (fold step rs s) k = Some v \<and> \<not> beats w v \<and>
    (\<forall>r \<in> set rs. \<forall>x. kv r = Some (k, x) \<longrightarrow> \<not> beats x v)"
  using assms
proof (induction rs arbitrary: s w)
  case Nil
  then show ?case using beats_irrefl by auto
next
  case (Cons r rs)
  have "\<exists>w'. tab (step r s) k = Some w' \<and> \<not> beats w w' \<and> (\<forall>x. kv r = Some (k, x) \<longrightarrow> \<not> beats x w')"
  proof (cases "kv r")
    case None
    with Cons.prems show ?thesis by (simp add: step_refused beats_irrefl)
  next
    case (Some x)
    show ?thesis
    proof (cases "fst x = k")
      case True
      then have "tab (step r s) = lww_put beats x (tab s)"
        using step_put [OF Cons.prems(1) Some] Cons.prems(2) by blast
      then show ?thesis
        using True Some Cons.prems(2) beats_irrefl beats_asym by (cases x) (auto simp: lww_put_def)
    next
      case False
      have "tab (step r s) = lww_put beats x (tab s) \<or> tab (step r s) = tab s"
        using step_put [OF Cons.prems(1) Some] step_full [OF Cons.prems(1) Some] by blast
      then have "tab (step r s) k = tab s k"
        using False by (auto simp: lww_put_def split: option.splits)
      with False Some Cons.prems(2) beats_irrefl show ?thesis by auto
    qed
  qed
  then obtain w' where w': "tab (step r s) k = Some w'" "\<not> beats w w'" "\<forall>x. kv r = Some (k, x) \<longrightarrow> \<not> beats x w'"
    by blast
  from Cons.IH [OF step_inv [OF Cons.prems(1)] w'(1)] obtain v where
    v: "tab (fold step rs (step r s)) k = Some v" "\<not> beats w' v"
    "\<forall>r \<in> set rs. \<forall>x. kv r = Some (k, x) \<longrightarrow> \<not> beats x v" by blast
  have up: "\<not> beats y v" if "\<not> beats y w'" for y
    using that v(2) beats_total [of w' v] beats_trans [of y v w'] beats_total [of y w'] by metis
  with v w' show ?case by auto
qed

end

sublocale lww_store \<subseteq> lww_join: join_store pick step tab kv room inv
proof
  show "tab (step r s) = join_put pick x (tab s)" if "inv s" "kv r = Some x"
    "fst x \<in> dom (tab s) \<or> card (dom (tab s)) < room" for s r x
    using step_put [OF that] by (simp add: put_join)
qed (simp_all add: step_refused step_inv tab_finite)

section \<open>The acceptance rules are such orders\<close>

text \<open>
  The rule of an add/del record (\<^const>\<open>lww_accepts\<close>) on (stamp, active), the rule of a value
  record (\<^const>\<open>opt_accepts\<close> and the per-bot entries) on (stamp, text); both without the clock
  check, which is part of what makes a record acceptable at all.
\<close>

definition flag_beats :: "i64 \<times> bool \<Rightarrow> i64 \<times> bool \<Rightarrow> bool" where
  "flag_beats x c \<longleftrightarrow> fst x > fst c \<or> (fst x = fst c \<and> snd c \<and> \<not> snd x)"

definition text_beats :: "i64 \<times> string \<Rightarrow> i64 \<times> string \<Rightarrow> bool" where
  "text_beats x c \<longleftrightarrow> fst x > fst c \<or> (fst x = fst c \<and> snd x > snd c)"

lemma lww_accepts_beats:
  "lww_accepts e t a t' a' \<longleftrightarrow> \<not> ts_ahead e t \<and> flag_beats (t, a) (t', a')"
  by (simp add: lww_accepts_def flag_beats_def)

lemma opt_accepts_beats:
  "opt_accepts e t a t' a' \<longleftrightarrow> \<not> ts_ahead e t \<and> text_beats (t, a) (t', a')"
  by (simp add: opt_accepts_def text_beats_def)

interpretation flag_lww: lww_order flag_beats
  by unfold_locales (auto simp: flag_beats_def prod_eq_iff)

interpretation text_lww: lww_order text_beats
  by unfold_locales (auto simp: text_beats_def prod_eq_iff)

end
