(* ===== verification/Hub_State.thy ===== *)
theory Hub_State
  imports Lww
begin

text \<open>
  The constants of \<^verbatim>\<open>src/src/consts.rs\<close> the modelled components use, and the records of
  \<^verbatim>\<open>src/src/state.rs\<close>: the store's records, connections, the per-peer queues and the hub
  state itself.  Fields only unmodelled code reads (keys, sockets, the upgrade engine, console
  objects) are left out.  A \<^verbatim>\<open>HashMap\<close> is a map, a \<^verbatim>\<open>Vec\<close> or \<^verbatim>\<open>VecDeque\<close> a list.
\<close>

section \<open>Constants\<close>

definition MAX_CLIENTS :: nat where "MAX_CLIENTS = 100"
definition MAX_BOTS :: nat where "MAX_BOTS = 100"
definition MAX_PEERS :: nat where "MAX_PEERS = 10"
definition MAX_CHAN :: nat where "MAX_CHAN = 65"
definition MAX_NICK :: nat where "MAX_NICK = 32"
definition MAX_KEY :: nat where "MAX_KEY = 31"
definition MAX_MASK_LEN :: nat where "MAX_MASK_LEN = 256"
definition COMBINED_KEY_LEN :: nat where "COMBINED_KEY_LEN = 64"
definition COMBINED_KEY_B64 :: nat where "COMBINED_KEY_B64 = 88"
definition PURGE_FLOOR_HOLD :: i64 where "PURGE_FLOOR_HOLD = 600"
definition MAX_REVOKED :: nat where "MAX_REVOKED = 1024"
definition MAX_BOT_ENTRIES :: nat where "MAX_BOT_ENTRIES = 64"
definition MAX_CHANNELS :: nat where "MAX_CHANNELS = MAX_BOT_ENTRIES"
definition C_MODES_MAX :: nat where "C_MODES_MAX = 64"
definition C_SETTINGS_MAX :: nat where "C_SETTINGS_MAX = 512"
definition D_SETTINGS_MAX :: nat where "D_SETTINGS_MAX = 512"
definition BAN_MASK_MAX :: nat where "BAN_MASK_MAX = 120"
definition BAN_REASON_MAX :: nat where "BAN_REASON_MAX = 120"
definition BAN_SETTER_MAX :: nat where "BAN_SETTER_MAX = 64"
definition MAX_BANS_PER_CHAN :: nat where "MAX_BANS_PER_CHAN = 100"
definition MAX_GLOBAL_BANS :: nat where "MAX_GLOBAL_BANS = 100"
definition MAX_BANS_TOTAL :: nat where
  "MAX_BANS_TOTAL = MAX_CHANNELS * MAX_BANS_PER_CHAN + MAX_GLOBAL_BANS"
definition C_LINE_MAX :: nat where "C_LINE_MAX = 704"
definition D_LINE_MAX :: nat where "D_LINE_MAX = 640"
definition B_LINE_MAX :: nat where "B_LINE_MAX = 448"
definition K_LINE_MAX :: nat where "K_LINE_MAX = 2 + MAX_CHAN + MAX_KEY + 32"
definition K_MODES_MASK :: nat where "K_MODES_MASK = 192"
definition MAX_GLOBAL_ENTRIES :: nat where
  "MAX_GLOBAL_ENTRIES = MAX_BOT_ENTRIES + MAX_CHANNELS + 1 + MAX_BANS_TOTAL"
definition TOMB_MIN_AGE_OFF :: i64 where "TOMB_MIN_AGE_OFF = 7 * 86400"
definition MODES_RECORDS_MAX :: nat where
  "MODES_RECORDS_MAX = MAX_CHANNELS * C_LINE_MAX + D_LINE_MAX + MAX_BANS_TOTAL * B_LINE_MAX
     + MAX_CHANNELS * K_LINE_MAX"
definition MAX_HUB_USER_RECORDS :: nat where "MAX_HUB_USER_RECORDS = 40"
definition ADMIN_FLOOR_WINDOW :: i64 where "ADMIN_FLOOR_WINDOW = 60"
definition ADMIN_DROP_LOG :: nat where "ADMIN_DROP_LOG = 16"
definition MAX_HUB_USER_MASKS :: nat where "MAX_HUB_USER_MASKS = 200"
definition USER_FLAG_LETTERS :: string where "USER_FLAG_LETTERS = ''abchou''"
definition MAX_HUB_USER_FLAGS :: nat where "MAX_HUB_USER_FLAGS = MAX_HUB_USER_RECORDS"
definition MAX_HUB_CHAN_BINDS :: nat where "MAX_HUB_CHAN_BINDS = 400"
definition USER_ACCESS_MIGRATE_TS :: i64 where "USER_ACCESS_MIGRATE_TS = 1"
definition BOT_SYNC_FIELDS :: nat where "BOT_SYNC_FIELDS = 8"
definition GLOBAL_LINE_MAX :: nat where "GLOBAL_LINE_MAX = 1088"
definition BOT_FIELD_LINE :: nat where "BOT_FIELD_LINE = 320"
definition USER_LINE_MAX :: nat where "USER_LINE_MAX = 384"
definition MASK_LINE_MAX :: nat where "MASK_LINE_MAX = 352"
definition BLINE_MAX :: nat where "BLINE_MAX = 448"
definition PEER_LINE_MAX :: nat where "PEER_LINE_MAX = 256"
definition UF_LINE_MAX :: nat where "UF_LINE_MAX = 96"
definition UC_LINE_MAX :: nat where "UC_LINE_MAX = 160"
definition USER_ACCESS_RECORDS_MAX :: nat where
  "USER_ACCESS_RECORDS_MAX = MAX_HUB_USER_FLAGS * UF_LINE_MAX + MAX_HUB_CHAN_BINDS * UC_LINE_MAX"
definition RV_LINE_MAX :: nat where "RV_LINE_MAX = 256"
definition HS_LINE_MAX :: nat where "HS_LINE_MAX = 96"
definition HUB_GSETTINGS_MAX :: nat where "HUB_GSETTINGS_MAX = 8"
definition HL_ADDR_MAX :: nat where "HL_ADDR_MAX = 80"
definition HL_FP_LEN :: nat where "HL_FP_LEN = 16"
definition HL_ENTRIES_MAX :: nat where "HL_ENTRIES_MAX = 10"
definition HL_VALUE_MAX :: nat where "HL_VALUE_MAX = HL_ENTRIES_MAX * (HL_ADDR_MAX + 1 + HL_FP_LEN + 1)"
definition HL_LINE_MAX :: nat where "HL_LINE_MAX = HL_VALUE_MAX + 64"
definition REVOKE_RECORDS_MAX :: nat where
  "REVOKE_RECORDS_MAX = MAX_REVOKED * RV_LINE_MAX + HUB_GSETTINGS_MAX * HS_LINE_MAX"
definition PAYLOAD_SLACK :: nat where "PAYLOAD_SLACK = 8192"
definition MAX_CONFIG_PAYLOAD :: nat where
  "MAX_CONFIG_PAYLOAD = MAX_BOT_ENTRIES * GLOBAL_LINE_MAX + MAX_HUB_USER_RECORDS * USER_LINE_MAX
     + MAX_HUB_USER_MASKS * MASK_LINE_MAX + USER_ACCESS_RECORDS_MAX + BOT_SYNC_FIELDS * BOT_FIELD_LINE
     + MAX_BOTS * BLINE_MAX + MODES_RECORDS_MAX + PAYLOAD_SLACK"
definition MAX_SYNC_PAYLOAD :: nat where
  "MAX_SYNC_PAYLOAD = MAX_BOT_ENTRIES * GLOBAL_LINE_MAX + MAX_HUB_USER_RECORDS * USER_LINE_MAX
     + MAX_HUB_USER_MASKS * MASK_LINE_MAX + USER_ACCESS_RECORDS_MAX
     + MAX_BOTS * BOT_SYNC_FIELDS * BOT_FIELD_LINE + MAX_BOTS * HL_LINE_MAX
     + MAX_PEERS * PEER_LINE_MAX + MODES_RECORDS_MAX + REVOKE_RECORDS_MAX + PAYLOAD_SLACK"
definition MAX_BULK_PAYLOAD :: nat where
  "MAX_BULK_PAYLOAD = (if MAX_CONFIG_PAYLOAD > MAX_SYNC_PAYLOAD then MAX_CONFIG_PAYLOAD else MAX_SYNC_PAYLOAD)"
definition BOT_PRESENCE_INTERVAL :: i64 where "BOT_PRESENCE_INTERVAL = 60"
definition SYNC_SPLIT_HORIZON_FRESH :: i64 where
  "SYNC_SPLIT_HORIZON_FRESH = 2 * BOT_PRESENCE_INTERVAL + 10"
definition LANE_COUNT :: nat where "LANE_COUNT = 3"
definition MAX_QUEUE_PER_LANE :: nat where "MAX_QUEUE_PER_LANE = 256"
definition MAX_QUEUED_BYTES_PER_PEER :: nat where "MAX_QUEUED_BYTES_PER_PEER = 3 * MAX_BULK_PAYLOAD"
definition MAX_DELTA_SEEN :: nat where "MAX_DELTA_SEEN = 8192"
definition BULK_SOFT_BUDGET_BPS :: i64 where "BULK_SOFT_BUDGET_BPS = 32 * 1024"
definition DELTA_HARD_BUDGET_BPS :: i64 where "DELTA_HARD_BUDGET_BPS = 64 * 1024"
definition MAX_IP_ACL_ENTRIES :: nat where "MAX_IP_ACL_ENTRIES = 64"
definition IP_ACL_PATTERN_MAX :: nat where "IP_ACL_PATTERN_MAX = 19"
definition QUEUE_DROP_LOG_EVERY :: i64 where "QUEUE_DROP_LOG_EVERY = 60"
definition MAX_BUFFER :: nat where "MAX_BUFFER = 16384"
definition GCM_IV_LEN :: nat where "GCM_IV_LEN = 12"
definition GCM_TAG_LEN :: nat where "GCM_TAG_LEN = 16"
definition CMD_PING :: nat where "CMD_PING = 0x01"
definition CMD_CONFIG_DATA :: nat where "CMD_CONFIG_DATA = 0x04"
definition CMD_BOT_TREE :: nat where "CMD_BOT_TREE = 0x58"
definition CMD_ACTIVITY_REPLY :: nat where "CMD_ACTIVITY_REPLY = 0x6B"
definition CMD_CHAN_DO :: nat where "CMD_CHAN_DO = 0x6F"
definition CMD_PEER_SYNC :: nat where "CMD_PEER_SYNC = 0x06"
definition CMD_MESH_STATE :: nat where "CMD_MESH_STATE = 0x07"
definition CMD_SYNC_REQUEST :: nat where "CMD_SYNC_REQUEST = 0x08"
definition CMD_INVITE_REQUEST :: nat where "CMD_INVITE_REQUEST = 0x09"
definition CMD_PEER_BCAST :: nat where "CMD_PEER_BCAST = 0x67"
definition CMD_BOT_RETIRE :: nat where "CMD_BOT_RETIRE = 0x7F"
definition CMD_LINK_SEQ :: nat where "CMD_LINK_SEQ = 0x83"
definition CONSOLE_REPLY :: nat where "CONSOLE_REPLY = 0x00"
definition CONSOLE_CORE_OUTQ_MAX :: nat where "CONSOLE_CORE_OUTQ_MAX = 1024 * 1024"
definition MAX_RECENT_PURGES :: nat where "MAX_RECENT_PURGES = 64"
definition PURGE_DEDUP_WINDOW :: i64 where "PURGE_DEDUP_WINDOW = 3600"
definition PURGE_ID_HEX :: nat where "PURGE_ID_HEX = 16"
definition ACTIVITY_MAX_FUTURE :: i64 where "ACTIVITY_MAX_FUTURE = 300"
definition MAX_OPT_FLAGS :: nat where "MAX_OPT_FLAGS = 32"
definition MESH_MIN_VERSION :: string where "MESH_MIN_VERSION = ''2.5.1''"

lemmas store_caps =
  MAX_BOTS_def MAX_PEERS_def MAX_CHAN_def MAX_NICK_def MAX_KEY_def MAX_MASK_LEN_def
  COMBINED_KEY_LEN_def COMBINED_KEY_B64_def MAX_REVOKED_def MAX_BOT_ENTRIES_def MAX_CHANNELS_def
  C_MODES_MAX_def C_SETTINGS_MAX_def D_SETTINGS_MAX_def BAN_MASK_MAX_def BAN_REASON_MAX_def
  BAN_SETTER_MAX_def MAX_BANS_PER_CHAN_def MAX_GLOBAL_BANS_def MAX_BANS_TOTAL_def C_LINE_MAX_def
  D_LINE_MAX_def B_LINE_MAX_def K_LINE_MAX_def K_MODES_MASK_def MAX_GLOBAL_ENTRIES_def
  MODES_RECORDS_MAX_def MAX_HUB_USER_RECORDS_def MAX_HUB_USER_MASKS_def MAX_HUB_USER_FLAGS_def
  MAX_HUB_CHAN_BINDS_def BOT_SYNC_FIELDS_def GLOBAL_LINE_MAX_def BOT_FIELD_LINE_def USER_LINE_MAX_def
  MASK_LINE_MAX_def BLINE_MAX_def PEER_LINE_MAX_def UF_LINE_MAX_def UC_LINE_MAX_def
  USER_ACCESS_RECORDS_MAX_def RV_LINE_MAX_def HS_LINE_MAX_def HUB_GSETTINGS_MAX_def HL_ADDR_MAX_def
  HL_FP_LEN_def HL_ENTRIES_MAX_def HL_VALUE_MAX_def HL_LINE_MAX_def REVOKE_RECORDS_MAX_def
  PAYLOAD_SLACK_def MAX_CONFIG_PAYLOAD_def MAX_SYNC_PAYLOAD_def MAX_BULK_PAYLOAD_def
  MAX_QUEUE_PER_LANE_def MAX_QUEUED_BYTES_PER_PEER_def

section \<open>Records of the store\<close>

text \<open>\<^verbatim>\<open>ConfigEntry\<close>, \<^verbatim>\<open>ChanLearned\<close>, \<^verbatim>\<open>UserRecord\<close>, \<^verbatim>\<open>MaskRecord\<close>, \<^verbatim>\<open>UflagRecord\<close>, \<^verbatim>\<open>UchanRecord\<close>, \<^verbatim>\<open>BotConfig\<close>, \<^verbatim>\<open>Revoked\<close>.\<close>

record config_entry =
  ce_key :: string
  ce_value :: string
  ce_ts :: i64
  ce_last_used :: i64

record chan_learned_rec =
  cl_chan :: string
  cl_key :: string
  cl_modes :: nat
  cl_ts :: i64

record user_record =
  u_uuid :: string
  u_name :: string
  u_pubkey_b64 :: string
  u_has_pubkey :: bool
  u_typ :: char
  u_is_active :: bool
  u_last_seen :: i64
  u_ts :: i64

record mask_record =
  m_uuid :: string
  m_mask :: string
  m_is_active :: bool
  m_last_used :: i64
  m_ts :: i64

record uflag_record =
  uf_uuid :: string
  uf_flags :: string
  uf_ts :: i64

record uchan_record =
  uc_uuid :: string
  uc_chan :: string
  uc_active :: bool
  uc_ts :: i64

record bot_config =
  b_uuid :: string
  b_entries :: "config_entry list"
  b_is_active :: bool
  b_last_sync_time :: i64

definition bot_get_entry :: "bot_config \<Rightarrow> string \<Rightarrow> config_entry option" where
  "bot_get_entry b key = List.find (\<lambda>e. ce_key e = key) (b_entries b)"

record revoked_rec =
  rv_uuid :: string
  rv_pub_key :: string
  rv_pub_ts :: i64
  rv_nick :: string
  rv_wiped_ts :: i64
  rv_del_ts :: i64

text \<open>The store's index (\<^verbatim>\<open>GlobalIdx\<close> of \<^verbatim>\<open>src/src/storage.rs\<close>).\<close>

record global_idx_rec =
  gi_map :: "string \<rightharpoonup> nat"
  gi_ban_chan :: "string \<rightharpoonup> nat"
  gi_n_old :: nat
  gi_n_c :: nat
  gi_n_d :: nat
  gi_n_b :: nat

definition global_idx_default :: global_idx_rec where
  "global_idx_default =
     \<lparr>gi_map = Map.empty, gi_ban_chan = Map.empty, gi_n_old = 0, gi_n_c = 0, gi_n_d = 0, gi_n_b = 0\<rparr>"

section \<open>Mesh bookkeeping\<close>

record recent_purge =
  rp_cutoff :: i64
  rp_id :: string
  rp_received_at :: i64

record mesh_link =
  ml_uuid :: string
  ml_name :: string
  ml_online :: bool

record mesh_hub =
  mh_uuid :: string
  mh_name :: string
  mh_version :: string
  mh_links :: "mesh_link list"
  mh_have_links :: bool
  mh_reported_at :: i64

record bot_roster =
  br_bot_uuid :: string
  br_ip :: string

record delta_seen_rec =
  ds_origin :: string
  ds_bot :: string
  ds_max_seq :: nat
  ds_last_seen_at :: i64

record peer_config =
  p_ip :: string
  p_port :: i32
  p_friendly_name :: string
  p_uuid :: string
  p_remote_ip :: string
  p_connected :: bool
  p_fd :: i32
  p_remote_version :: string
  p_last_mesh_report :: i64
  p_last_gossip :: string

section \<open>Connection limits\<close>

record ip_rate_limit =
  rl_ip :: string
  rl_active :: i32
  rl_failed :: i32
  rl_last_failed :: i64
  rl_blocked_until :: i64
  rl_first_seen :: i64
  rl_churn_start :: i64
  rl_churn_count :: i32

text \<open>
  \<^verbatim>\<open>IpAcl\<close>: the fixed pattern array and its length are one string, the network and the mask
  32-bit words.
\<close>

record ip_acl =
  acl_pattern :: string
  acl_net :: "32 word"
  acl_mask :: "32 word"
  acl_added :: i64
  acl_console :: bool

definition same_net :: "ip_acl \<Rightarrow> ip_acl \<Rightarrow> bool" where
  "same_net a b \<longleftrightarrow> acl_net a = acl_net b \<and> acl_mask a = acl_mask b \<and> acl_console a = acl_console b"

datatype ip_acl_add_result = Acl_Added | Acl_Duplicate | Acl_Full | Acl_BadList

record conn_cfg_rec =
  cc_preauth :: i32
  cc_preauthip :: i32
  cc_sessions :: i32
  cc_grace :: i32
  cc_authtries :: i32
  cc_idle :: i32
  cc_authfail_n :: i32
  cc_authfail_s :: i32
  cc_connect_n :: i32
  cc_connect_s :: i32
  cc_block :: i32
  cc_cmdrate_n :: i32
  cc_cmdrate_s :: i32
  cc_perip :: i32
  cc_churn_n :: i32
  cc_churn_s :: i32
  cc_churn_block :: i32
  cc_fail_n :: i32
  cc_fail_s :: i32
  cc_fail_block :: i32
  cc_startups_start :: i32
  cc_startups_rate :: i32
  cc_startups_full :: i32

record ssh_ip =
  si_ip :: string
  si_win_start :: i64
  si_conn_n :: i32
  si_fail_last :: i64
  si_fail_n :: i32
  si_blocked_until :: i64
  si_last_block :: i64
  si_level :: i32
  si_last_seen :: i64
  si_last_success :: i64

section \<open>Outbound queues and connections\<close>

datatype lane = Urgent | Delta | Bulk

definition lane_index :: "lane \<Rightarrow> nat" where
  "lane_index l = (case l of Urgent \<Rightarrow> 0 | Delta \<Rightarrow> 1 | Bulk \<Rightarrow> 2)"

record queued_msg =
  qm_cmd :: nat
  qm_lane :: lane
  qm_coalesce_key :: string
  qm_lamport_seq :: nat
  qm_origin :: string
  qm_payload :: string

definition queued_msg_new :: "nat \<Rightarrow> lane \<Rightarrow> string \<Rightarrow> queued_msg option" where
  "queued_msg_new cmd l payload =
     (if length payload > MAX_BULK_PAYLOAD then None
      else Some \<lparr>qm_cmd = cmd, qm_lane = l, qm_coalesce_key = [], qm_lamport_seq = 0, qm_origin = [],
                 qm_payload = payload\<rparr>)"

definition set_coalesce :: "string \<Rightarrow> nat \<Rightarrow> string \<Rightarrow> queued_msg \<Rightarrow> queued_msg" where
  "set_coalesce origin seq key m = m\<lparr>qm_origin := origin, qm_lamport_seq := seq, qm_coalesce_key := key\<rparr>"

abbreviation msg_len :: "queued_msg \<Rightarrow> nat" where
  "msg_len m \<equiv> length (qm_payload m)"

record queue_lane =
  ql_msgs :: "queued_msg list"
  ql_bytes :: nat

datatype client_type = Ct_Bot | Ct_Admin | Ct_Hub

text \<open>
  \<^verbatim>\<open>ConsoleLink\<close> of \<^verbatim>\<open>src/src/console/mod.rs\<close> (its outbound half), and \<^verbatim>\<open>HubClient\<close>.  A
  socket is its presence; what the kernel answers to a send is an input of the operations.
\<close>

record console_link =
  ck_outq :: string
  ck_outq_off :: nat
  ck_drops :: nat

record hub_client =
  c_fd :: i32
  c_ip :: string
  c_id :: string
  c_sock :: bool
  c_session_key :: string
  c_authenticated :: bool
  c_typ :: client_type
  c_superseded :: bool
  c_inbound :: bool
  c_sync_held :: bool
  c_retiring :: bool
  c_retire_sent :: i64
  c_write_wait_since :: i64
  c_drop_logged :: i64
  c_drop_unlogged :: i32
  c_internal :: bool
  c_console :: "console_link option"
  c_last_pong_sent :: i64
  c_refused :: bool
  c_link_offered :: bool
  c_link_go_queued :: bool
  c_link_dir_tx :: nat
  c_link_dir_rx :: nat
  c_link_tx_seq :: bool
  c_link_rx_seq :: bool
  c_link_tx_ctr :: nat
  c_link_rx_ctr :: nat
  c_recv_buf :: string
  c_recv_off :: nat
  c_recv_cap :: nat
  c_out_lanes :: "queue_lane list"
  c_out_total_bytes :: nat
  c_writing_buf :: string
  c_writing_cap :: nat
  c_writing_offset :: nat
  c_bw_window_start :: i64
  c_bw_bytes_in_window :: i64
  c_cfg_sent_hash :: "string option"
  c_tree_sent_hash :: "string option"
  c_chan_ev_window :: i64
  c_chan_ev_count :: i32
  c_chan_ev_dropped :: i32

text \<open>\<^verbatim>\<open>HubClient::new_inner\<close>: three empty lanes, nothing in flight.\<close>

definition client_new :: "env \<Rightarrow> bool \<Rightarrow> i32 \<Rightarrow> string \<Rightarrow> nat \<Rightarrow> hub_client" where
  "client_new e sock fd ip sz =
     \<lparr>c_fd = fd, c_ip = ip, c_id = [], c_sock = sock, c_session_key = replicate 32 (CHR 0x00),
      c_authenticated = False, c_typ = Ct_Bot, c_superseded = False, c_inbound = False,
      c_sync_held = False, c_retiring = False, c_retire_sent = 0, c_write_wait_since = 0, c_drop_logged = 0, c_drop_unlogged = 0,
      c_internal = False, c_console = None, c_last_pong_sent = 0, c_refused = False,
      c_link_offered = False, c_link_go_queued = False, c_link_dir_tx = 0, c_link_dir_rx = 0,
      c_link_tx_seq = False, c_link_rx_seq = False, c_link_tx_ctr = 0, c_link_rx_ctr = 0,
      c_recv_buf = [], c_recv_off = 0, c_recv_cap = sz,
      c_out_lanes = replicate LANE_COUNT \<lparr>ql_msgs = [], ql_bytes = 0\<rparr>, c_out_total_bytes = 0,
      c_writing_buf = [], c_writing_cap = sz + 64, c_writing_offset = 0, c_bw_window_start = 0,
      c_bw_bytes_in_window = 0, c_cfg_sent_hash = None, c_tree_sent_hash = None, c_chan_ev_window = 0,
      c_chan_ev_count = 0, c_chan_ev_dropped = 0\<rparr>"

section \<open>The hub state\<close>

record hub_state =
  hub_uuid :: string
  hub_friendly_name :: string
  bind_ip :: string
  port :: i32
  clients :: "hub_client list"
  bots :: "bot_config list"
  global_entries :: "config_entry list"
  global_idx :: global_idx_rec
  chan_learned :: "chan_learned_rec list"
  user_records :: "user_record list"
  mask_records :: "mask_record list"
  uflag_records :: "uflag_record list"
  uchan_records :: "uchan_record list"
  adrop :: "(string \<times> i64) list"
  adrop_next :: nat
  floor_warned :: bool
  peers :: "peer_config list"
  revoked :: "revoked_rec list"
  ip_limits :: "ip_rate_limit list"
  ip_allow :: "ip_acl list"
  ip_deny :: "ip_acl list"
  ip_acl_changed :: bool
  conn_cfg :: conn_cfg_rec
  ssh_ips :: "ssh_ip list"
  known_ips :: "(string \<times> i64) list"
  startup_logged :: i64
  startup_unlogged :: i32
  purge_days_setting :: i32
  purge_days_ts :: i64
  trust_loopback :: bool
  recent_purges :: "recent_purge list"
  purge_floor :: i64
  purge_floor_until :: i64
  opt_flags :: string
  opt_flags_ts :: i64
  config_dirty :: bool
  bot_config_pending :: bool
  next_lamport_seq :: nat
  delta_seen :: "delta_seen_rec list"
  roster :: "bot_roster list"
  mesh_hubs :: "mesh_hub list"
  tree_dirty :: bool
  bans_swept_at :: i64

definition conn_cfg_default :: conn_cfg_rec where
  "conn_cfg_default =
     \<lparr>cc_preauth = 8, cc_preauthip = 2, cc_sessions = 8, cc_grace = 20, cc_authtries = 3, cc_idle = 1800,
      cc_authfail_n = 3, cc_authfail_s = 3600, cc_connect_n = 6, cc_connect_s = 60, cc_block = 300,
      cc_cmdrate_n = 20, cc_cmdrate_s = 10, cc_perip = 5, cc_churn_n = 30, cc_churn_s = 10,
      cc_churn_block = 30, cc_fail_n = 3, cc_fail_s = 3600, cc_fail_block = 300,
      cc_startups_start = 20, cc_startups_rate = 30, cc_startups_full = 50\<rparr>"

text \<open>\<^verbatim>\<open>HubState::new\<close>.\<close>

definition hub_state_new :: hub_state where
  "hub_state_new =
     \<lparr>hub_uuid = [], hub_friendly_name = [], bind_ip = [], port = 0, clients = [], bots = [], global_entries = [], global_idx = global_idx_default,
      chan_learned = [], user_records = [], mask_records = [], uflag_records = [], uchan_records = [],
      adrop = replicate ADMIN_DROP_LOG ([], 0), adrop_next = 0, floor_warned = False, peers = [],
      revoked = [], ip_limits = [], ip_allow = [], ip_deny = [], ip_acl_changed = False,
      conn_cfg = conn_cfg_default, ssh_ips = [], known_ips = [], startup_logged = 0,
      startup_unlogged = 0, purge_days_setting = 0, purge_days_ts = 0, trust_loopback = False,
      recent_purges = [], purge_floor = 0, purge_floor_until = 0, opt_flags = [], opt_flags_ts = 0,
      config_dirty = False, bot_config_pending = False, next_lamport_seq = 0, delta_seen = [],
      roster = [], mesh_hubs = [], tree_dirty = False, bans_swept_at = 0\<rparr>"

text \<open>An environment for examples: the clock at \<^verbatim>\<open>t\<close>, no load in progress.\<close>

definition env_at :: "i64 \<Rightarrow> env" where
  "env_at t = \<lparr>env_now = t, env_loading = False, env_b64 = Some, env_b64_std = Some\<rparr>"

end
