(* ===== verification/Store_Index.thy ===== *)
theory Store_Index
  imports Hub_State
begin

text \<open>
  The index half of \<^verbatim>\<open>src/src/storage.rs\<close>: record identity, the hash index over the global
  table with its per-class counts and live bans per channel, the purge floor and the
  channel lookup.  The index is derived data; the main theorems say the lookups and counts are
  those of a linear search through the table.
\<close>

section \<open>Identity\<close>

definition first_field :: "string \<Rightarrow> string" where
  "first_field value = takeWhile (\<lambda>c. c \<noteq> CHR ''|'') value"

definition key_is_modes :: "string \<Rightarrow> bool" where
  "key_is_modes key \<longleftrightarrow> key = ''C'' \<or> key = ''D'' \<or> key = ''B''"

text \<open>\<^verbatim>\<open>v[from..].find('|')\<close> as an offset from \<^verbatim>\<open>from\<close>.\<close>

definition find_bar :: "string \<Rightarrow> nat option" where
  "find_bar s = position (\<lambda>c. c = CHR ''|'') s"

fun ident_len_loop :: "string \<Rightarrow> nat \<Rightarrow> nat \<Rightarrow> nat" where
  "ident_len_loop v from 0 = length v"
| "ident_len_loop v from (Suc n) =
     (case find_bar (drop from v) of
        None \<Rightarrow> length v
      | Some bar \<Rightarrow> if n = 0 then from + bar else ident_len_loop v (from + bar + 1) n)"

definition ident_len :: "string \<Rightarrow> string \<Rightarrow> nat" where
  "ident_len key v = ident_len_loop v 0 (if key = ''B'' then 2 else 1)"

definition is_singleton_key :: "string \<Rightarrow> bool" where
  "is_singleton_key key \<longleftrightarrow> key = ''a'' \<or> key = ''p'' \<or> key = ''D''"

definition is_folded_key :: "string \<Rightarrow> bool" where
  "is_folded_key key \<longleftrightarrow> key = ''c'' \<or> key = ''C'' \<or> key = ''B''"

definition global_identity_eq :: "string \<Rightarrow> string \<Rightarrow> string \<Rightarrow> bool" where
  "global_identity_eq key a b =
     (if is_singleton_key key then True
      else let la = ident_len key a; lb = ident_len key b in
        if la \<noteq> lb then False
        else if is_folded_key key then eq_ic (take la a) (take lb b)
        else take la a = take lb b)"

definition gkey :: "string \<Rightarrow> string \<Rightarrow> string" where
  "gkey key value =
     (let k = key @ [CHR 0x00] in
      if is_singleton_key key then k
      else let i = take (ident_len key value) value in
        if is_folded_key key then k @ lower i else k @ i)"

section \<open>The index\<close>

definition global_find :: "hub_state \<Rightarrow> string \<Rightarrow> string \<Rightarrow> nat option" where
  "global_find s key value = gi_map (global_idx s) (gkey key value)"

definition gban_adjust_idx :: "string \<Rightarrow> bool \<Rightarrow> global_idx_rec \<Rightarrow> global_idx_rec" where
  "gban_adjust_idx v up ix =
     (let chan = first_field v in
      if length chan \<ge> MAX_CHAN then ix
      else let n = (case gi_ban_chan ix (lower chan) of None \<Rightarrow> 0 | Some n \<Rightarrow> n) in
        ix\<lparr>gi_ban_chan := (gi_ban_chan ix)(lower chan \<mapsto> (if up then n + 1 else n - 1))\<rparr>)"

definition gban_adjust :: "nat \<Rightarrow> bool \<Rightarrow> hub_state \<Rightarrow> hub_state" where
  "gban_adjust i up s =
     s\<lparr>global_idx := gban_adjust_idx (ce_value (global_entries s ! i)) up (global_idx s)\<rparr>"

definition live_ban :: "config_entry \<Rightarrow> bool" where
  "live_ban e \<longleftrightarrow> ce_key e = ''B'' \<and> global_value_active (ce_value e)"

definition count_class :: "string \<Rightarrow> global_idx_rec \<Rightarrow> global_idx_rec" where
  "count_class key ix =
     (if key = ''C'' then ix\<lparr>gi_n_c := gi_n_c ix + 1\<rparr>
      else if key = ''D'' then ix\<lparr>gi_n_d := gi_n_d ix + 1\<rparr>
      else if key = ''B'' then ix\<lparr>gi_n_b := gi_n_b ix + 1\<rparr>
      else ix\<lparr>gi_n_old := gi_n_old ix + 1\<rparr>)"

definition or_insert :: "'k \<Rightarrow> 'v \<Rightarrow> ('k \<rightharpoonup> 'v) \<Rightarrow> ('k \<rightharpoonup> 'v)" where
  "or_insert k v m = (case m k of None \<Rightarrow> m(k \<mapsto> v) | Some _ \<Rightarrow> m)"

definition global_note_new :: "nat \<Rightarrow> hub_state \<Rightarrow> hub_state" where
  "global_note_new i s =
     (let e = global_entries s ! i;
          ix = global_idx s;
          ix = ix\<lparr>gi_map := or_insert (gkey (ce_key e) (ce_value e)) i (gi_map ix)\<rparr>;
          ix = count_class (ce_key e) ix;
          s = s\<lparr>global_idx := ix\<rparr>
      in if live_ban e then gban_adjust i True s else s)"

definition global_reindex :: "hub_state \<Rightarrow> hub_state" where
  "global_reindex s =
     fold global_note_new [0..<length (global_entries s)] (s\<lparr>global_idx := global_idx_default\<rparr>)"

definition global_room :: "hub_state \<Rightarrow> string \<Rightarrow> bool" where
  "global_room s key =
     (let ix = global_idx s;
          (n, cap) =
            (if key_is_modes key then
               (if key = ''C'' then (gi_n_c ix, MAX_CHANNELS)
                else if key = ''D'' then (gi_n_d ix, 1)
                else (gi_n_b ix, MAX_BANS_TOTAL))
             else (gi_n_old ix, MAX_BOT_ENTRIES))
      in n < cap \<and> length (global_entries s) < MAX_GLOBAL_ENTRIES)"

definition global_ts :: "hub_state \<Rightarrow> string \<Rightarrow> string \<Rightarrow> i64" where
  "global_ts s key value =
     (case global_find s key value of Some i \<Rightarrow> ce_ts (global_entries s ! i) | None \<Rightarrow> 0)"

definition chan_live :: "hub_state \<Rightarrow> string \<Rightarrow> string option" where
  "chan_live s chan =
     (case global_find s ''c'' chan of
        None \<Rightarrow> None
      | Some i \<Rightarrow>
          let v = ce_value (global_entries s ! i) in
          if global_value_active v then Some (trunc_string (first_field v) MAX_CHAN) else None)"

definition bans_live_in :: "hub_state \<Rightarrow> string \<Rightarrow> nat" where
  "bans_live_in s chan =
     (case gi_ban_chan (global_idx s) (lower chan) of None \<Rightarrow> 0 | Some n \<Rightarrow> n)"

section \<open>The purge floor\<close>

definition purge_floor_blocks :: "env \<Rightarrow> hub_state \<Rightarrow> i64 \<Rightarrow> bool" where
  "purge_floor_blocks e s ts \<longleftrightarrow> purge_floor_until s > env_now e \<and> ts < purge_floor s"

definition purge_floor_set :: "env \<Rightarrow> i64 \<Rightarrow> hub_state \<Rightarrow> hub_state" where
  "purge_floor_set e cutoff s =
     (let now = env_now e;
          flr = (if cutoff > 0 then cutoff else now);
          s = (if purge_floor_until s \<le> now \<or> flr > purge_floor s then s\<lparr>purge_floor := flr\<rparr> else s)
      in s\<lparr>purge_floor_until := now + PURGE_FLOOR_HOLD\<rparr>)"

section \<open>Identity as an equivalence\<close>

definition ident :: "string \<Rightarrow> string \<Rightarrow> string" where
  "ident key v = take (ident_len key v) v"

lemma find_bar_None: "find_bar s = None \<longleftrightarrow> CHR ''|'' \<notin> set s"
  by (auto simp: find_bar_def position_None)

lemma find_bar_append: "CHR ''|'' \<notin> set a \<Longrightarrow> find_bar (a @ CHR ''|'' # r) = Some (length a)"
  using find_bar_None [of a] by (simp add: find_bar_def position_append)

lemma find_bar_Some: "find_bar s = Some i \<Longrightarrow> s = take i s @ CHR ''|'' # drop (Suc i) s \<and> CHR ''|'' \<notin> set (take i s)"
  unfolding find_bar_def position_Some
  using id_take_nth_drop [of i s] by (auto simp: in_set_conv_nth)

lemma first_field_append [simp]:
  "CHR ''|'' \<notin> set a \<Longrightarrow> first_field (a @ CHR ''|'' # r) = a"
  by (simp add: first_field_def takeWhile_append)

lemma first_field_free: "CHR ''|'' \<notin> set a \<Longrightarrow> first_field a = a"
  by (auto simp: first_field_def takeWhile_eq_all_conv)

lemma first_field_bar_free: "CHR ''|'' \<notin> set (first_field v)"
  using set_takeWhileD by (fastforce simp: first_field_def)

lemma ident_first_field:
  assumes "key \<noteq> ''B''"
  shows "ident key v = first_field v"
proof (cases "find_bar v")
  case None
  then show ?thesis
    using assms by (simp add: ident_def ident_len_def first_field_free flip: find_bar_None)
next
  case (Some i)
  have "first_field v = take i v"
    using find_bar_Some [OF Some] first_field_append [of "take i v" "drop (Suc i) v"] by metis
  with assms Some show ?thesis by (simp add: ident_def ident_len_def)
qed

definition folded_ident :: "string \<Rightarrow> string \<Rightarrow> string" where
  "folded_ident key v =
     (if is_singleton_key key then [] else if is_folded_key key then lower (ident key v) else ident key v)"

lemma gkey_alt: "gkey key v = key @ [CHR 0x00] @ folded_ident key v"
  by (simp add: gkey_def folded_ident_def ident_def Let_def)

lemma ident_len_le: "ident_len key v \<le> length v"
proof -
  have "ident_len_loop v from n \<le> length v" for "from" n
    by (induction v "from" n rule: ident_len_loop.induct)
      (auto simp: find_bar_def position_Some split: option.splits)
  then show ?thesis by (simp add: ident_len_def)
qed

lemma length_ident: "length (ident key v) = ident_len key v"
  using ident_len_le [of key v] by (simp add: ident_def)

lemma global_identity_eq_alt:
  "global_identity_eq key a b \<longleftrightarrow>
     is_singleton_key key \<or>
     (if is_folded_key key then lower (ident key a) = lower (ident key b) else ident key a = ident key b)"
proof -
  have "ident_len key a = ident_len key b" if "lower (ident key a) = lower (ident key b)"
    using that by (metis length_ident length_map)
  moreover have "ident_len key a = ident_len key b" if "ident key a = ident key b"
    using that by (metis length_ident)
  moreover have "global_identity_eq key a b \<longleftrightarrow>
      is_singleton_key key \<or> (ident_len key a = ident_len key b \<and>
      (if is_folded_key key then lower (ident key a) = lower (ident key b) else ident key a = ident key b))"
    by (simp add: global_identity_eq_def ident_def Let_def eq_ic_def)
  ultimately show ?thesis by (auto split: if_splits)
qed

lemma append_nul_eq:
  "CHR 0x00 \<notin> set a \<Longrightarrow> CHR 0x00 \<notin> set b \<Longrightarrow>
     a @ [CHR 0x00] @ x = b @ [CHR 0x00] @ y \<longleftrightarrow> a = b \<and> x = y"
  by (induction a arbitrary: b) (auto simp: Cons_eq_append_conv, (case_tac b; auto)+)

text \<open>
  The hash key is exactly the identity: two values of NUL-free classes hash alike iff they are
  the same record.
\<close>

lemma gkey_eq:
  assumes "CHR 0x00 \<notin> set key" "CHR 0x00 \<notin> set key'"
  shows "gkey key v = gkey key' v' \<longleftrightarrow> key = key' \<and> global_identity_eq key v v'"
  unfolding gkey_alt append_nul_eq [OF assms]
  by (auto simp: folded_ident_def global_identity_eq_alt)


section \<open>The index is a linear search\<close>

definition n_class :: "string \<Rightarrow> config_entry list \<Rightarrow> nat" where
  "n_class key es = length (filter (\<lambda>e. ce_key e = key) es)"

definition live_bans_of :: "string \<Rightarrow> config_entry list \<Rightarrow> nat" where
  "live_bans_of k es =
     length (filter (\<lambda>e. live_ban e \<and> length (first_field (ce_value e)) < MAX_CHAN
                         \<and> lower (first_field (ce_value e)) = k) es)"

definition idx_of :: "config_entry list \<Rightarrow> global_idx_rec \<Rightarrow> bool" where
  "idx_of es ix \<longleftrightarrow>
     gi_map ix = (\<lambda>k. position (\<lambda>e. gkey (ce_key e) (ce_value e) = k) es) \<and>
     (\<forall>k. (case gi_ban_chan ix k of None \<Rightarrow> 0 | Some n \<Rightarrow> n) = live_bans_of k es) \<and>
     gi_n_c ix = n_class ''C'' es \<and> gi_n_d ix = n_class ''D'' es \<and> gi_n_b ix = n_class ''B'' es \<and>
     gi_n_old ix + n_class ''C'' es + n_class ''D'' es + n_class ''B'' es = length es"

text \<open>The invariant of the global table: the index is the one its entries determine.\<close>

definition idx_ok :: "hub_state \<Rightarrow> bool" where
  "idx_ok s \<longleftrightarrow> idx_of (global_entries s) (global_idx s)"

lemma idx_of_Nil: "idx_of [] global_idx_default"
  by (simp add: idx_of_def global_idx_default_def live_bans_of_def n_class_def)

lemma gban_adjust_idx_fields [simp]:
  "gi_map (gban_adjust_idx v up ix) = gi_map ix" "gi_n_c (gban_adjust_idx v up ix) = gi_n_c ix"
  "gi_n_d (gban_adjust_idx v up ix) = gi_n_d ix" "gi_n_b (gban_adjust_idx v up ix) = gi_n_b ix"
  "gi_n_old (gban_adjust_idx v up ix) = gi_n_old ix"
  by (simp_all add: gban_adjust_idx_def Let_def)

lemma count_class_fields [simp]:
  "gi_map (count_class key ix) = gi_map ix" "gi_ban_chan (count_class key ix) = gi_ban_chan ix"
  "gi_n_c (count_class key ix) = gi_n_c ix + (if key = ''C'' then 1 else 0)"
  "gi_n_d (count_class key ix) = gi_n_d ix + (if key = ''D'' then 1 else 0)"
  "gi_n_b (count_class key ix) = gi_n_b ix + (if key = ''B'' then 1 else 0)"
  "gi_n_old (count_class key ix) = gi_n_old ix + (if key_is_modes key then 0 else 1)"
  by (simp_all add: count_class_def key_is_modes_def)

lemma gban_adjust_idx_count:
  "(case gi_ban_chan (gban_adjust_idx v up ix) k of None \<Rightarrow> 0 | Some n \<Rightarrow> n) =
     (let n = (case gi_ban_chan ix k of None \<Rightarrow> 0 | Some n \<Rightarrow> n) in
      if length (first_field v) < MAX_CHAN \<and> lower (first_field v) = k
      then (if up then n + 1 else n - 1) else n)"
  by (auto simp: gban_adjust_idx_def Let_def)

definition note_idx :: "config_entry \<Rightarrow> nat \<Rightarrow> global_idx_rec \<Rightarrow> global_idx_rec" where
  "note_idx e i ix =
     (let ix = count_class (ce_key e) (ix\<lparr>gi_map := or_insert (gkey (ce_key e) (ce_value e)) i (gi_map ix)\<rparr>)
      in if live_ban e then gban_adjust_idx (ce_value e) True ix else ix)"

lemma global_note_new_alt:
  "global_note_new i s = s\<lparr>global_idx := note_idx (global_entries s ! i) i (global_idx s)\<rparr>"
  by (simp add: global_note_new_def note_idx_def gban_adjust_def Let_def)

lemma or_insert_position:
  "or_insert (f x) (length xs) (\<lambda>k. position (\<lambda>e. f e = k) xs) = (\<lambda>k. position (\<lambda>e. f e = k) (xs @ [x]))"
  by (rule ext) (auto simp: or_insert_def position_append split: option.splits)

lemma n_class_append [simp]: "n_class key (es @ es') = n_class key es + n_class key es'"
  by (simp add: n_class_def)

lemma live_bans_of_append [simp]:
  "live_bans_of k (es @ es') = live_bans_of k es + live_bans_of k es'"
  by (simp add: live_bans_of_def)

lemma idx_of_snoc:
  assumes "idx_of es ix"
  shows "idx_of (es @ [e]) (note_idx e (length es) ix)"
proof -
  let ?m = "or_insert (gkey (ce_key e) (ce_value e)) (length es) (gi_map ix)"
  have m: "?m = (\<lambda>k. position (\<lambda>e. gkey (ce_key e) (ce_value e) = k) (es @ [e]))"
    using assms or_insert_position [of "\<lambda>e. gkey (ce_key e) (ce_value e)" e es]
    by (simp add: idx_of_def)
  have b: "(case gi_ban_chan (note_idx e (length es) ix) k of None \<Rightarrow> 0 | Some n \<Rightarrow> n)
      = live_bans_of k (es @ [e])" for k
    using assms
    by (auto simp: note_idx_def Let_def gban_adjust_idx_count idx_of_def live_bans_of_def [of _ "[e]"])
  have c: "n_class key [e] = (if ce_key e = key then 1 else 0)" for key by (simp add: n_class_def)
  show ?thesis
    using assms m b by (auto simp: idx_of_def note_idx_def Let_def c key_is_modes_def)
qed

lemma global_reindex_fold:
  assumes "n \<le> length (global_entries s)"
  shows "\<exists>ix. fold global_note_new [0..<n] (s\<lparr>global_idx := global_idx_default\<rparr>) = s\<lparr>global_idx := ix\<rparr>
    \<and> idx_of (take n (global_entries s)) ix"
  using assms
proof (induction n)
  case 0
  then show ?case using idx_of_Nil by auto
next
  case (Suc n)
  then obtain ix where ix: "fold global_note_new [0..<n] (s\<lparr>global_idx := global_idx_default\<rparr>) = s\<lparr>global_idx := ix\<rparr>"
    "idx_of (take n (global_entries s)) ix" by auto
  have "take (Suc n) (global_entries s) = take n (global_entries s) @ [global_entries s ! n]"
    using Suc.prems by (simp add: take_Suc_conv_app_nth)
  moreover have "fold global_note_new [0..<Suc n] (s\<lparr>global_idx := global_idx_default\<rparr>)
      = s\<lparr>global_idx := note_idx (global_entries s ! n) n ix\<rparr>"
    using ix(1) by (simp add: global_note_new_alt [of n "s\<lparr>global_idx := ix\<rparr>"])
  ultimately show ?case
    using Suc.prems idx_of_snoc [OF ix(2), of "global_entries s ! n"] by auto
qed

lemma global_reindex_ok: "idx_ok (global_reindex s)"
  using global_reindex_fold [of "length (global_entries s)" s]
  by (auto simp: idx_ok_def global_reindex_def)

lemma global_reindex_state: "\<exists>ix. global_reindex s = s\<lparr>global_idx := ix\<rparr>"
  using global_reindex_fold [of "length (global_entries s)" s] by (auto simp: global_reindex_def)

lemma global_reindex_entries [simp]: "global_entries (global_reindex s) = global_entries s"
  using global_reindex_state [of s] by auto

text \<open>Appending an entry and noting it keeps the invariant.\<close>

definition push_entry :: "config_entry \<Rightarrow> hub_state \<Rightarrow> hub_state" where
  "push_entry e s =
     (let s = s\<lparr>global_entries := global_entries s @ [e]\<rparr> in
      global_note_new (length (global_entries s) - 1) s)"

lemma push_entry_ok: "idx_ok s \<Longrightarrow> idx_ok (push_entry e s)"
  using idx_of_snoc [of "global_entries s" "global_idx s" e]
  by (simp add: idx_ok_def push_entry_def Let_def global_note_new_alt nth_append)

lemma push_entry_entries [simp]: "global_entries (push_entry e s) = global_entries s @ [e]"
  by (simp add: push_entry_def Let_def global_note_new_alt)


text \<open>A value may change in place as long as its identity does not.\<close>

lemma to_lower_bar [simp]: "to_lower c = CHR ''|'' \<longleftrightarrow> c = CHR ''|''"
  by (rule to_lower_eq_non_alpha) simp

lemma first_field_lower: "first_field (lower v) = lower (first_field v)"
  by (simp add: first_field_def takeWhile_map comp_def)

lemma first_field_take_bar: "find_bar v = Some i \<Longrightarrow> first_field v = take i v"
  using find_bar_Some [of v i] first_field_append [of "take i v" "drop (Suc i) v"] by metis

lemma first_field_ident: "first_field (ident key v) = first_field v"
proof (cases "key = ''B''")
  case False
  then show ?thesis by (simp add: ident_first_field first_field_free first_field_bar_free)
next
  case True
  show ?thesis
  proof (cases "find_bar v")
    case None
    with True show ?thesis by (simp add: ident_def ident_len_def numeral_2_eq_2)
  next
    case (Some i)
    have i: "i < length v" "v ! i = CHR ''|''" using Some by (auto simp: find_bar_def position_Some)
    have "ident_len key v > i"
      using Some True i by (auto simp: ident_len_def numeral_2_eq_2 split: option.splits)
    then have "take (Suc i) (ident key v) = take (Suc i) v" by (simp add: ident_def min_def)
    moreover have "take (Suc i) v = take i v @ [CHR ''|'']" using i by (simp add: take_Suc_conv_app_nth)
    ultimately have "ident key v = take i v @ CHR ''|'' # drop (Suc i) (ident key v)"
      by (metis append_Cons append_Nil append_assoc append_take_drop_id)
    then show ?thesis
      using first_field_append [of "take i v"] find_bar_Some [OF Some] first_field_take_bar [OF Some] by metis
  qed
qed

lemma gkey_ban_chan:
  assumes "gkey ''B'' v = gkey ''B'' v'"
  shows "lower (first_field v) = lower (first_field v')"
proof -
  have "lower (ident ''B'' v) = lower (ident ''B'' v')"
    using assms by (simp add: gkey_alt folded_ident_def is_singleton_key_def is_folded_key_def)
  then have "first_field (lower (ident ''B'' v)) = first_field (lower (ident ''B'' v'))" by simp
  then show ?thesis by (simp add: first_field_lower first_field_ident)
qed

lemma filter_update_length:
  assumes "i < length xs"
  shows "length (filter P (xs[i := y])) + (if P (xs ! i) then 1 else 0) = length (filter P xs) + (if P y then 1 else 0)"
proof -
  let ?a = "take i xs" and ?b = "drop (Suc i) xs"
  have "length (filter P xs) = length (filter P (?a @ xs ! i # ?b))"
    using id_take_nth_drop [OF assms] by simp
  moreover have "length (filter P (xs[i := y])) = length (filter P (?a @ y # ?b))"
    using upd_conv_take_nth_drop [OF assms, of y] by simp
  ultimately show ?thesis by simp
qed

lemma n_class_update:
  "i < length es \<Longrightarrow> ce_key e' = ce_key (es ! i) \<Longrightarrow> n_class key (es[i := e']) = n_class key es"
  using filter_update_length [of i es "\<lambda>e. ce_key e = key" e'] by (simp add: n_class_def)

lemma idx_of_update:
  assumes "idx_of es ix" and i: "i < length es"
    and k: "ce_key e' = ce_key (es ! i)"
    and g: "gkey (ce_key e') (ce_value e') = gkey (ce_key e') (ce_value (es ! i))"
  shows "idx_of (es[i := e'])
    (if live_ban (es ! i) = live_ban e' then ix else gban_adjust_idx (ce_value e') (live_ban e') ix)"
    (is "idx_of ?es ?ix")
proof -
  have "position (\<lambda>e. gkey (ce_key e) (ce_value e) = x) ?es =
      position (\<lambda>e. gkey (ce_key e) (ce_value e) = x) es" for x
    using i k g by (intro position_cong) (auto simp: nth_list_update)
  then have m: "gi_map ?ix = (\<lambda>x. position (\<lambda>e. gkey (ce_key e) (ce_value e) = x) ?es)"
    using assms(1) by (simp add: idx_of_def)
  let ?P = "\<lambda>x e. live_ban e \<and> length (first_field (ce_value e)) < MAX_CHAN \<and> lower (first_field (ce_value e)) = x"
  have f: "lower (first_field (ce_value e')) = lower (first_field (ce_value (es ! i)))"
    if "ce_key e' = ''B''" using gkey_ban_chan g that by metis
  then have l: "length (first_field (ce_value e')) = length (first_field (ce_value (es ! i)))"
    if "ce_key e' = ''B''" using that by (metis length_map)
  have "(case gi_ban_chan ?ix x of None \<Rightarrow> 0 | Some n \<Rightarrow> n) = live_bans_of x ?es" for x
  proof -
    have c: "live_bans_of x ?es + (if ?P x (es ! i) then 1 else 0) = live_bans_of x es + (if ?P x e' then 1 else 0)"
      using filter_update_length [OF i, of "?P x" e'] by (simp add: live_bans_of_def)
    have "live_bans_of x es \<ge> 1" if "?P x (es ! i)"
    proof -
      have "es ! i \<in> set (filter (?P x) es)" using that i by simp
      then have "filter (?P x) es \<noteq> []" by force
      then show ?thesis by (simp add: live_bans_of_def Suc_le_eq)
    qed
    then show ?thesis
      using assms(1) c f l k
      by (auto simp: idx_of_def gban_adjust_idx_count Let_def live_ban_def)
  qed
  with m assms(1) show ?thesis by (auto simp: idx_of_def n_class_update [OF i k])
qed

text \<open>
  The O(1) lookup is the linear search: while the index invariant holds and no stored class name
  contains a NUL, \<^verbatim>\<open>global_find\<close> returns the first entry of that class whose stored value is the
  same record as the one asked for, and nothing when there is none.
\<close>

lemma global_find_linear:
  assumes "idx_ok s" and "CHR 0x00 \<notin> set key"
    and "\<forall>e \<in> set (global_entries s). CHR 0x00 \<notin> set (ce_key e)"
  shows "global_find s key value =
    position (\<lambda>e. ce_key e = key \<and> global_identity_eq key (ce_value e) value) (global_entries s)"
proof -
  have "global_find s key value = position (\<lambda>e. gkey (ce_key e) (ce_value e) = gkey key value) (global_entries s)"
    using assms(1) by (simp add: global_find_def idx_ok_def idx_of_def)
  also have "\<dots> = position (\<lambda>e. ce_key e = key \<and> global_identity_eq key (ce_value e) value) (global_entries s)"
    using assms(2,3) by (intro position_cong) (auto simp: gkey_eq)
  finally show ?thesis .
qed

lemma bans_live_in_count:
  assumes "idx_ok s"
  shows "bans_live_in s chan = live_bans_of (lower chan) (global_entries s)"
  using assms by (simp add: bans_live_in_def idx_ok_def idx_of_def)

end
