(* ===== verification/Access.thy ===== *)
theory Access
  imports Store_Index
begin

text \<open>
  \<^verbatim>\<open>src/src/access.rs\<close>: admin flags (\<^verbatim>\<open>uf|\<close>) and oper channel bindings (\<^verbatim>\<open>uc|\<close>), their
  validating writers, the queries the console and the bots' commands ask, migration, remap and
  purge of the tables, the console's binding change, and the admin floor.
\<close>

section \<open>Flag strings\<close>

definition uuid_shape :: "string \<Rightarrow> bool" where
  "uuid_shape u \<longleftrightarrow>
     length u = 36 \<and>
     (\<forall>i < 36. if i \<in> {8, 13, 18, 23} then u ! i = CHR ''-'' else is_hexdigit (u ! i))"

definition flag_at :: "char \<Rightarrow> nat option" where
  "flag_at c = position (\<lambda>l. l = c) USER_FLAG_LETTERS"

definition no_flags :: "bool list" where
  "no_flags = replicate (length USER_FLAG_LETTERS) False"

fun mark_flags :: "string \<Rightarrow> bool list \<Rightarrow> bool list option" where
  "mark_flags [] have = Some have"
| "mark_flags (c # cs) have =
     (case flag_at c of None \<Rightarrow> None | Some i \<Rightarrow> mark_flags cs (have[i := True]))"

definition flags_collect :: "bool list \<Rightarrow> string" where
  "flags_collect have = map fst (filter snd (zip USER_FLAG_LETTERS have))"

definition uflags_canon :: "string \<Rightarrow> string option" where
  "uflags_canon input = map_option flags_collect (mark_flags input no_flags)"

text \<open>The loop of \<^verbatim>\<open>uflags_edit\<close>: \<^verbatim>\<open>sign\<close> is 0, 1 or -1.\<close>

fun edit_loop :: "string \<Rightarrow> int \<Rightarrow> bool \<Rightarrow> bool list \<Rightarrow> (bool \<times> bool list) option" where
  "edit_loop [] sign any have = Some (any, have)"
| "edit_loop (c # cs) sign any have =
     (if c = CHR ''+'' \<or> c = CHR ''-'' then edit_loop cs (if c = CHR ''+'' then 1 else -1) any have
      else case flag_at c of
        None \<Rightarrow> None
      | Some i \<Rightarrow> if sign = 0 then None else edit_loop cs sign True (have[i := sign > 0]))"

definition uflags_edit :: "string \<Rightarrow> string \<Rightarrow> string option" where
  "uflags_edit cur spec =
     (if spec = [] then None
      else if CHR ''-'' \<notin> set spec then
        (let plus = (hd spec = CHR ''+''); body = (if plus then tl spec else spec) in
         if plus \<and> body = [] then None else uflags_canon body)
      else
        let work = (case uflags_canon cur of Some w \<Rightarrow> w | None \<Rightarrow> []) in
        case mark_flags work no_flags of
          None \<Rightarrow> None
        | Some have \<Rightarrow>
            (case edit_loop spec 0 False have of
               None \<Rightarrow> None
             | Some (any, have) \<Rightarrow> if \<not> any then None else Some (flags_collect have)))"

definition uflags_accepts :: "env \<Rightarrow> i64 \<Rightarrow> string \<Rightarrow> i64 \<Rightarrow> string \<Rightarrow> bool" where
  "uflags_accepts e in_ts input cur_ts cur =
     (if ts_ahead e in_ts then False
      else if in_ts \<noteq> cur_ts then in_ts > cur_ts
      else let ia = CHR ''a'' \<in> set input; ca = CHR ''a'' \<in> set cur in
        if ia \<noteq> ca then \<not> ia
        else if length input \<noteq> length cur then length input < length cur
        else input < cur)"

definition uchan_name_ok :: "string \<Rightarrow> bool" where
  "uchan_name_ok chan =
     (if chan = ''*'' then True
      else if length chan < 2 \<or> length chan \<ge> MAX_CHAN \<or> (chan ! 0 \<noteq> CHR ''#'' \<and> chan ! 0 \<noteq> CHR ''&'')
      then False
      else \<forall>c \<in> set chan. byte c > 0x20 \<and> byte c \<noteq> 0x7f \<and> c \<noteq> CHR '','' \<and> c \<noteq> CHR ''|'' \<and> c \<noteq> CHR '':'')"

section \<open>The tables\<close>

definition uflag_find :: "hub_state \<Rightarrow> string \<Rightarrow> nat option" where
  "uflag_find s uuid = position (\<lambda>r. uf_uuid r = uuid) (uflag_records s)"

definition uchan_find :: "hub_state \<Rightarrow> string \<Rightarrow> string \<Rightarrow> nat option" where
  "uchan_find s uuid chan = position (\<lambda>r. uc_uuid r = uuid \<and> eq_ic (uc_chan r) chan) (uchan_records s)"

text \<open>The tail of \<^verbatim>\<open>uflag_put\<close> once the slot is chosen: log a lost \<^verbatim>\<open>a\<close>, then write.\<close>

definition uflag_store :: "nat \<Rightarrow> string \<Rightarrow> string \<Rightarrow> i64 \<Rightarrow> hub_state \<Rightarrow> hub_state" where
  "uflag_store i uuid canon ts s =
     (let s = (if CHR ''a'' \<in> set (uf_flags (uflag_records s ! i)) \<and> CHR ''a'' \<notin> set canon
               then s\<lparr>adrop_next := (adrop_next s + 1) mod ADMIN_DROP_LOG,
                      adrop := (adrop s)[adrop_next s := (uuid, ts)]\<rparr>
               else s)
      in s\<lparr>uflag_records := (uflag_records s)[i := (uflag_records s ! i)\<lparr>uf_flags := canon, uf_ts := ts\<rparr>],
           config_dirty := True\<rparr>)"

definition uflag_put :: "env \<Rightarrow> string \<Rightarrow> string \<Rightarrow> i64 \<Rightarrow> hub_state \<Rightarrow> bool \<times> hub_state" where
  "uflag_put e uuid flags ts s =
     (case uflags_canon flags of
        None \<Rightarrow> (False, s)
      | Some canon \<Rightarrow>
          if \<not> uuid_shape uuid \<or> ts \<le> 0 \<or> ts_ahead e ts then (False, s)
          else (case uflag_find s uuid of
             Some i \<Rightarrow>
               let r = uflag_records s ! i in
               if \<not> uflags_accepts e ts canon (uf_ts r) (uf_flags r) then (False, s)
               else (True, uflag_store i uuid canon ts s)
           | None \<Rightarrow>
               if length (uflag_records s) \<ge> MAX_HUB_USER_FLAGS then (False, s)
               else (True, uflag_store (length (uflag_records s)) uuid canon ts
                       (s\<lparr>uflag_records := uflag_records s @ [\<lparr>uf_uuid = uuid, uf_flags = [], uf_ts = 0\<rparr>]\<rparr>))))"

definition uchan_store :: "nat \<Rightarrow> bool \<Rightarrow> i64 \<Rightarrow> hub_state \<Rightarrow> hub_state" where
  "uchan_store i active ts s =
     s\<lparr>uchan_records := (uchan_records s)[i := (uchan_records s ! i)\<lparr>uc_active := active, uc_ts := ts\<rparr>],
       config_dirty := True\<rparr>"

definition uchan_put :: "env \<Rightarrow> string \<Rightarrow> string \<Rightarrow> bool \<Rightarrow> i64 \<Rightarrow> hub_state \<Rightarrow> bool \<times> hub_state" where
  "uchan_put e uuid chan active ts s =
     (if \<not> uuid_shape uuid \<or> \<not> uchan_name_ok chan \<or> ts \<le> 0 \<or> ts_ahead e ts then (False, s)
      else case uchan_find s uuid chan of
        Some i \<Rightarrow>
          let r = uchan_records s ! i in
          if \<not> lww_accepts e ts active (uc_ts r) (uc_active r) then (False, s)
          else (True, uchan_store i active ts s)
      | None \<Rightarrow>
          if \<not> active \<and> purge_floor_blocks e s ts then (False, s)
          else if length (uchan_records s) \<ge> MAX_HUB_CHAN_BINDS then (False, s)
          else (True, uchan_store (length (uchan_records s)) active ts
                 (s\<lparr>uchan_records := uchan_records s @
                     [\<lparr>uc_uuid = uuid, uc_chan = chan, uc_active = False, uc_ts = 0\<rparr>]\<rparr>)))"

section \<open>Queries\<close>

definition user_flags :: "hub_state \<Rightarrow> string \<Rightarrow> string" where
  "user_flags s uuid = (case uflag_find s uuid of None \<Rightarrow> [] | Some i \<Rightarrow> uf_flags (uflag_records s ! i))"

definition user_has_flag :: "hub_state \<Rightarrow> string \<Rightarrow> char \<Rightarrow> bool" where
  "user_has_flag s uuid flag =
     (let f = user_flags s uuid in CHR ''a'' \<in> set f \<or> (flag \<noteq> CHR 0x00 \<and> flag \<in> set f))"

definition user_chan_ok :: "hub_state \<Rightarrow> string \<Rightarrow> string option \<Rightarrow> bool" where
  "user_chan_ok s uuid chan =
     (\<exists>r \<in> set (uchan_records s). uc_active r \<and> uc_uuid r = uuid \<and>
        (uc_chan r = ''*'' \<or> (case chan of None \<Rightarrow> False | Some c \<Rightarrow> eq_ic (uc_chan r) c)))"

definition live_of :: "hub_state \<Rightarrow> string \<Rightarrow> uchan_record list" where
  "live_of s uuid = filter (\<lambda>r. uc_active r \<and> uc_uuid r = uuid) (uchan_records s)"

definition user_chan_count :: "hub_state \<Rightarrow> string \<Rightarrow> nat \<times> bool" where
  "user_chan_count s uuid =
     foldl (\<lambda>(n, glob) r. (n + 1, glob \<or> uc_chan r = ''*'')) (0, False) (live_of s uuid)"

definition format_uflag :: "uflag_record \<Rightarrow> string" where
  "format_uflag r = ''uf|'' @ uf_uuid r @ ''|'' @ uf_flags r @ ''|'' @ show_int (uf_ts r) @ [CHR 0x0A]"

definition format_uchan :: "uchan_record \<Rightarrow> string" where
  "format_uchan r =
     ''uc|'' @ uc_uuid r @ ''|'' @ uc_chan r @ ''|'' @ (if uc_active r then ''add'' else ''del'') @ ''|'' @
     show_int (uc_ts r) @ [CHR 0x0A]"

definition trim_eol :: "string \<Rightarrow> string" where
  "trim_eol s = rev (dropWhile (\<lambda>c. c = CHR 0x0A \<or> c = CHR 0x0D) (rev s))"

definition ingest :: "env \<Rightarrow> char \<Rightarrow> string \<Rightarrow> bool \<Rightarrow> hub_state \<Rightarrow> bool option \<times> hub_state" where
  "ingest e kind body need_user s =
     (if length body \<ge> UC_LINE_MAX then (None, s)
      else let f = splitn 6 (CHR ''|'') (trim_eol body) in
        if need_user \<and> \<not> (\<exists>u \<in> set (user_records s). u_uuid u = f ! 0) then (None, s)
        else if kind = CHR ''f'' then
          (if length f \<noteq> 3 then (None, s)
           else let (b, s) = uflag_put e (f ! 0) (f ! 1) (atoll (f ! 2)) s in (Some b, s))
        else
          (if length f \<noteq> 4 \<or> (f ! 2 \<noteq> ''add'' \<and> f ! 2 \<noteq> ''del'') then (None, s)
           else let (b, s) = uchan_put e (f ! 0) (f ! 1) (f ! 2 = ''add'') (atoll (f ! 3)) s in (Some b, s)))"


section \<open>Table maintenance\<close>

definition migrate_user :: "env \<Rightarrow> string \<times> char \<Rightarrow> nat \<times> hub_state \<Rightarrow> nat \<times> hub_state" where
  "migrate_user e ut ms =
     (let (uuid, typ) = ut; (made, s) = ms in
      if typ = CHR ''a'' \<and> uflag_find s uuid = None then
        (let (ok, s) = uflag_put e uuid ''a'' USER_ACCESS_MIGRATE_TS s in (if ok then made + 1 else made, s))
      else if typ = CHR ''o'' \<and> \<not> (\<exists>r \<in> set (uchan_records s). uc_uuid r = uuid) then
        (let (ok, s) = uchan_put e uuid ''*'' True USER_ACCESS_MIGRATE_TS s in (if ok then made + 1 else made, s))
      else (made, s))"

definition migrate :: "env \<Rightarrow> hub_state \<Rightarrow> nat \<times> hub_state" where
  "migrate e s =
     (let users = map (\<lambda>u. (u_uuid u, u_typ u)) (filter u_is_active (user_records s))
      in fold (migrate_user e) users (0, s))"

definition remap_uflag :: "env \<Rightarrow> string \<Rightarrow> string \<Rightarrow> nat \<Rightarrow> hub_state \<Rightarrow> hub_state" where
  "remap_uflag e from to i s =
     (let r = uflag_records s ! i in
      if uf_uuid r \<noteq> from then s
      else case uflag_find s to of
        None \<Rightarrow> s\<lparr>uflag_records := (uflag_records s)[i := r\<lparr>uf_uuid := to\<rparr>]\<rparr>
      | Some d \<Rightarrow>
          if d = i then s
          else let dst = uflag_records s ! d in
            if uflags_accepts e (uf_ts r) (uf_flags r) (uf_ts dst) (uf_flags dst)
            then s\<lparr>uflag_records := (uflag_records s)[d := dst\<lparr>uf_flags := uf_flags r, uf_ts := uf_ts r\<rparr>]\<rparr>
            else s)"

definition remap_uchan :: "env \<Rightarrow> string \<Rightarrow> string \<Rightarrow> nat \<Rightarrow> hub_state \<Rightarrow> hub_state" where
  "remap_uchan e from to i s =
     (let r = uchan_records s ! i in
      if uc_uuid r \<noteq> from then s
      else case uchan_find s to (uc_chan r) of
        None \<Rightarrow> s\<lparr>uchan_records := (uchan_records s)[i := r\<lparr>uc_uuid := to\<rparr>]\<rparr>
      | Some d \<Rightarrow>
          if d = i then s
          else let dst = uchan_records s ! d in
            if lww_accepts e (uc_ts r) (uc_active r) (uc_ts dst) (uc_active dst)
            then s\<lparr>uchan_records := (uchan_records s)[d := dst\<lparr>uc_active := uc_active r, uc_ts := uc_ts r\<rparr>]\<rparr>
            else s)"

definition remap_uuid :: "env \<Rightarrow> string \<Rightarrow> string \<Rightarrow> hub_state \<Rightarrow> hub_state" where
  "remap_uuid e from to s =
     (let s = fold (remap_uflag e from to) [0..<length (uflag_records s)] s
      in fold (remap_uchan e from to) [0..<length (uchan_records s)] s)"

fun prune_uflags :: "string list \<Rightarrow> uflag_record list \<Rightarrow> uflag_record list \<Rightarrow> uflag_record list" where
  "prune_uflags users kept [] = kept"
| "prune_uflags users kept (r # rs) =
     prune_uflags users
       (if uf_uuid r \<in> set users \<and> \<not> (\<exists>k \<in> set kept. uf_uuid k = uf_uuid r) then kept @ [r] else kept) rs"

fun prune_uchans :: "string list \<Rightarrow> uchan_record list \<Rightarrow> uchan_record list \<Rightarrow> uchan_record list" where
  "prune_uchans users kept [] = kept"
| "prune_uchans users kept (r # rs) =
     prune_uchans users
       (if uc_uuid r \<in> set users \<and>
           \<not> (\<exists>k \<in> set kept. uc_uuid k = uc_uuid r \<and> eq_ic (uc_chan k) (uc_chan r))
        then kept @ [r] else kept) rs"

definition prune :: "hub_state \<Rightarrow> hub_state" where
  "prune s =
     (let users = map u_uuid (user_records s) in
      s\<lparr>uflag_records := prune_uflags users [] (uflag_records s),
        uchan_records := prune_uchans users [] (uchan_records s)\<rparr>)"

text \<open>What \<^verbatim>\<open>purge\<close> drops of the binding table: orphans, and old tombstones but a live user's \<^verbatim>\<open>*\<close>.\<close>

definition purge_drops :: "hub_state \<Rightarrow> i64 \<Rightarrow> uchan_record \<Rightarrow> bool" where
  "purge_drops s cutoff r \<longleftrightarrow>
     (uc_active r \<and> uc_chan r \<noteq> ''*'' \<and> chan_live s (uc_chan r) = None) \<or>
     (\<not> uc_active r \<and> (cutoff = 0 \<or> uc_ts r < cutoff) \<and>
      \<not> ((\<exists>u \<in> set (user_records s). u_is_active u \<and> u_uuid u = uc_uuid r) \<and> uc_chan r = ''*''))"

definition purge :: "i64 \<Rightarrow> hub_state \<Rightarrow> nat \<times> hub_state" where
  "purge cutoff s =
     (let kept = filter (\<lambda>r. \<not> purge_drops s cutoff r) (uchan_records s);
          dropped = length (uchan_records s) - length kept;
          s' = prune (s\<lparr>uchan_records := kept\<rparr>)
      in (dropped, if dropped > 0 then s'\<lparr>config_dirty := True\<rparr> else s'))"

definition append_access :: "hub_state \<Rightarrow> (string \<Rightarrow> bool) option \<Rightarrow> string" where
  "append_access s keep =
     (let ok = (\<lambda>u. case keep of None \<Rightarrow> True | Some k \<Rightarrow> k u) in
      concat (map format_uflag (filter (\<lambda>r. ok (uf_uuid r)) (uflag_records s))) @
      concat (map format_uchan (filter (\<lambda>r. ok (uc_uuid r)) (uchan_records s))))"

section \<open>Console helpers\<close>

fun user_chans_loop :: "string \<Rightarrow> uchan_record list \<Rightarrow> string" where
  "user_chans_loop out [] = out"
| "user_chans_loop out (r # rs) =
     (let add = (if out = [] then 0 else 1) + length (uc_chan r) in
      if length out + add \<ge> 512 then out
      else user_chans_loop (out @ (if out = [] then [] else '','') @ uc_chan r) rs)"

definition user_chans :: "hub_state \<Rightarrow> string \<Rightarrow> string" where
  "user_chans s uuid =
     (if snd (user_chan_count s uuid) then ''*'' else user_chans_loop [] (live_of s uuid))"

definition next_ts :: "env \<Rightarrow> hub_state \<Rightarrow> string \<Rightarrow> i64" where
  "next_ts e s uuid =
     (let prev = (case uflag_find s uuid of None \<Rightarrow> 0 | Some i \<Rightarrow> uf_ts (uflag_records s ! i));
          prev = foldl (\<lambda>p r. max p (uc_ts r)) prev (filter (\<lambda>r. uc_uuid r = uuid) (uchan_records s))
      in lww_next_ts e prev)"

text \<open>
  \<^verbatim>\<open>chan_change\<close>: the closure \<^verbatim>\<open>emit\<close> writes one binding and appends its line; the state of
  the loop is (lines written, text, hub state) and a failed \<^verbatim>\<open>emit\<close> aborts with the state so far.
\<close>

type_synonym emit_state = "nat \<times> string \<times> hub_state"

definition emit :: "env \<Rightarrow> string \<Rightarrow> i64 \<Rightarrow> string \<Rightarrow> bool \<Rightarrow> emit_state \<Rightarrow> bool \<times> emit_state" where
  "emit e uuid ts c act es =
     (let (n, out, s) = es; (ok, s) = uchan_put e uuid c act ts s in
      if \<not> ok then (False, (n, out, s))
      else (True, (n + 1,
              (case uchan_find s uuid c of
                 None \<Rightarrow> out
               | Some i \<Rightarrow> out @ format_uchan (uchan_records s ! i)), s)))"

fun emit_all :: "env \<Rightarrow> string \<Rightarrow> i64 \<Rightarrow> string list \<Rightarrow> emit_state \<Rightarrow> bool \<times> emit_state" where
  "emit_all e uuid ts [] es = (True, es)"
| "emit_all e uuid ts (c # cs) es =
     (let (ok, es) = emit e uuid ts c False es in if \<not> ok then (False, es) else emit_all e uuid ts cs es)"

definition emit_star_del :: "env \<Rightarrow> string \<Rightarrow> i64 \<Rightarrow> emit_state \<Rightarrow> bool \<times> emit_state" where
  "emit_star_del e uuid ts es =
     (if uchan_find (snd (snd es)) uuid ''*'' = None then emit e uuid ts ''*'' False es else (True, es))"

definition chan_change ::
  "env \<Rightarrow> string \<Rightarrow> bool \<Rightarrow> string \<Rightarrow> string \<Rightarrow> hub_state \<Rightarrow> nat option \<times> string \<times> hub_state" where
  "chan_change e uuid add chan out s =
     (let ts = next_ts e s uuid;
          star = (chan = ''*'');
          es = (0, out, s);
          (ok, es) =
            (if add then
               (let (ok, es) = emit e uuid ts chan True es in
                if \<not> ok then (False, es)
                else let others = filter (\<lambda>c. if star then c \<noteq> ''*'' else c = ''*'')
                                    (map uc_chan (live_of (snd (snd es)) uuid));
                         (ok, es) = emit_all e uuid ts others es
                  in if \<not> ok then (False, es)
                     else if \<not> star then emit_star_del e uuid ts es else (True, es))
             else if star then
               (let (ok, es) = emit_all e uuid ts (map uc_chan (live_of s uuid)) es in
                if \<not> ok then (False, es) else emit_star_del e uuid ts es)
             else emit e uuid ts chan False es)
      in (if ok then Some (fst es) else None, fst (snd es), snd (snd es)))"

section \<open>The admin floor\<close>

definition adrop_match :: "hub_state \<Rightarrow> string \<Rightarrow> i64 \<Rightarrow> bool" where
  "adrop_match s uuid ts \<longleftrightarrow> (\<exists>(u, t) \<in> set (adrop s). t = ts \<and> u = uuid)"

text \<open>
  The scan: \<^const>\<open>None\<close> when a full admin is left, else the candidates (index in
  \<^verbatim>\<open>user_records\<close>, removal stamp) and the newest removal stamp.
\<close>

definition has_full :: "hub_state \<Rightarrow> user_record \<Rightarrow> bool" where
  "has_full s u \<longleftrightarrow> CHR ''a'' \<in> set (user_flags s (u_uuid u))"

definition floor_fr :: "hub_state \<Rightarrow> user_record \<Rightarrow> i64 option" where
  "floor_fr s u = map_option (\<lambda>k. uf_ts (uflag_records s ! k)) (uflag_find s (u_uuid u))"

definition floor_dropped :: "hub_state \<Rightarrow> user_record \<Rightarrow> bool" where
  "floor_dropped s u \<longleftrightarrow>
     \<not> has_full s u \<and> (case floor_fr s u of None \<Rightarrow> False | Some t \<Rightarrow> adrop_match s (u_uuid u) t)"

definition floor_stamp :: "hub_state \<Rightarrow> user_record \<Rightarrow> i64" where
  "floor_stamp s u =
     (let t = (if u_is_active u then 0 else u_ts u) in
      if floor_dropped s u then (case floor_fr s u of Some ft \<Rightarrow> if ft > t then ft else t | None \<Rightarrow> t) else t)"

fun floor_scan :: "hub_state \<Rightarrow> (nat \<times> user_record) list \<Rightarrow> (nat \<times> i64) list \<Rightarrow> i64 \<Rightarrow>
    ((nat \<times> i64) list \<times> i64) option" where
  "floor_scan s [] cand newest = Some (cand, newest)"
| "floor_scan s ((i, u) # us) cand newest =
     (if u_typ u \<noteq> CHR ''a'' then floor_scan s us cand newest
      else if u_is_active u \<and> has_full s u then None
      else if \<not> (floor_dropped s u \<or> (has_full s u \<and> \<not> u_is_active u)) then floor_scan s us cand newest
      else let t = floor_stamp s u in floor_scan s us (cand @ [(i, t)]) (max newest t))"

definition format_user_record :: "user_record \<Rightarrow> string" where
  "format_user_record u =
     [u_typ u] @ ''|'' @ u_uuid u @ ''|'' @ u_name u @ ''|'' @
     (if u_has_pubkey u then u_pubkey_b64 u else []) @ ''|'' @
     (if u_is_active u then ''add'' else ''del'') @ ''|'' @ show_int (u_last_seen u) @ ''|'' @
     show_int (u_ts u) @ ''|'' @ [CHR 0x0A]"

definition format_mask :: "mask_record \<Rightarrow> string" where
  "format_mask m =
     ''m|'' @ m_uuid m @ ''|'' @ m_mask m @ ''|'' @ (if m_is_active m then ''add'' else ''del'') @ ''|'' @
     show_int (m_last_used m) @ ''|'' @ show_int (m_ts m) @ [CHR 0x0A]"

text \<open>One mask of a restored admin: back when the delete dropped it (stamped within 2 s).\<close>

definition restore_mask :: "string \<Rightarrow> i64 \<Rightarrow> mask_record \<Rightarrow> mask_record" where
  "restore_mask uuid del_ts m =
     (if m_is_active m \<or> m_uuid m \<noteq> uuid \<or> m_ts m < del_ts - 2 \<or> m_ts m > saturating_add_i64 del_ts 2
      then m else m\<lparr>m_is_active := True, m_ts := saturating_add_i64 (m_ts m) 1\<rparr>)"

definition restore_masks :: "string \<Rightarrow> i64 \<Rightarrow> hub_state \<Rightarrow> string \<times> hub_state" where
  "restore_masks uuid del_ts s =
     (concat (map (\<lambda>m. if restore_mask uuid del_ts m = m then [] else format_mask (restore_mask uuid del_ts m))
        (mask_records s)),
      s\<lparr>mask_records := map (restore_mask uuid del_ts) (mask_records s)\<rparr>)"

definition restore_user :: "nat \<Rightarrow> hub_state \<Rightarrow> string \<times> hub_state" where
  "restore_user ci s =
     (let u = user_records s ! ci in
      if u_is_active u then ([], s)
      else let u' = u\<lparr>u_is_active := True, u_ts := saturating_add_i64 (u_ts u) 1\<rparr>;
               s = s\<lparr>user_records := (user_records s)[ci := u']\<rparr>;
               (mo, s) = restore_masks (u_uuid u) (u_ts u) s
        in (format_user_record u' @ mo, s))"

definition restore_flag :: "env \<Rightarrow> string \<Rightarrow> hub_state \<Rightarrow> string \<times> hub_state" where
  "restore_flag e uuid s =
     (if CHR ''a'' \<in> set (user_flags s uuid) then ([], s)
      else case uflag_find s uuid of
        None \<Rightarrow> ([], s)
      | Some k \<Rightarrow>
          let (ok, s') = uflag_put e uuid ''a'' (saturating_add_i64 (uf_ts (uflag_records s ! k)) 1) s in
          if ok then (format_uflag (uflag_records s' ! k), s') else ([], s'))"

definition restore_one :: "env \<Rightarrow> i64 \<Rightarrow> nat \<times> i64 \<Rightarrow> emit_state \<Rightarrow> emit_state" where
  "restore_one e newest ct es =
     (let (ci, t) = ct; (n, out, s) = es in
      if t < newest - ADMIN_FLOOR_WINDOW then es
      else let uuid = u_uuid (user_records s ! ci);
               (o1, s) = restore_user ci s;
               (o2, s) = restore_flag e uuid s
        in (n + 1, out @ o1 @ o2, s))"

definition admin_floor_restore :: "env \<Rightarrow> hub_state \<Rightarrow> (string \<times> nat) option \<times> hub_state" where
  "admin_floor_restore e s =
     (case floor_scan s (List.enumerate 0 (user_records s)) [] 0 of
        None \<Rightarrow> (None, s\<lparr>floor_warned := False\<rparr>)
      | Some (cand, newest) \<Rightarrow>
          if cand = [] then (None, s\<lparr>floor_warned := True\<rparr>)
          else let (n, out, s) = fold (restore_one e newest) cand (0, [], s)
            in (Some (out, n), s\<lparr>config_dirty := True, floor_warned := False\<rparr>))"


section \<open>Flag strings are canonical sets\<close>

definition flags_of :: "char set \<Rightarrow> string" where
  "flags_of A = filter (\<lambda>l. l \<in> A) USER_FLAG_LETTERS"

lemma flag_letters [simp]: "length USER_FLAG_LETTERS = 6" "distinct USER_FLAG_LETTERS"
  by (simp_all add: USER_FLAG_LETTERS_def)

lemma flag_at_None: "flag_at c = None \<longleftrightarrow> c \<notin> set USER_FLAG_LETTERS"
  by (auto simp: flag_at_def position_None)

lemma flag_at_Some: "flag_at c = Some i \<longleftrightarrow> i < 6 \<and> USER_FLAG_LETTERS ! i = c"
  by (auto simp: flag_at_def position_Some nth_eq_iff_index_eq)

text \<open>The set a \<^verbatim>\<open>have\<close> array stands for.\<close>

definition have_set :: "bool list \<Rightarrow> char set" where
  "have_set have = {USER_FLAG_LETTERS ! i |i. i < 6 \<and> have ! i}"

lemma have_set_update:
  assumes "length have = 6" "flag_at c = Some i"
  shows "have_set (have[i := b]) = (if b then insert c (have_set have) else have_set have - {c})"
  using assms by (auto simp: have_set_def flag_at_Some nth_list_update nth_eq_iff_index_eq)

lemma have_set_no_flags [simp]: "have_set no_flags = {}"
  by (auto simp: have_set_def no_flags_def)

lemma length_no_flags [simp]: "length no_flags = 6"
  by (simp add: no_flags_def)

lemma mark_flags_spec:
  assumes "length have = 6"
  shows "case mark_flags cs have of
      None \<Rightarrow> \<not> set cs \<subseteq> set USER_FLAG_LETTERS
    | Some h \<Rightarrow> set cs \<subseteq> set USER_FLAG_LETTERS \<and> length h = 6 \<and> have_set h = have_set have \<union> set cs"
  using assms
proof (induction cs arbitrary: "have")
  case (Cons c cs)
  show ?case
  proof (cases "flag_at c")
    case None
    then have "c \<notin> set USER_FLAG_LETTERS" using flag_at_None [of c] by simp
    with None show ?thesis by simp
  next
    case (Some i)
    then have "c \<in> set USER_FLAG_LETTERS" using flag_at_None [of c] by auto
    then show ?thesis
      using Cons.IH [of "have[i := True]"] Cons.prems Some have_set_update [OF Cons.prems Some, of True]
      by (auto split: option.splits)
  qed
qed simp

lemma flags_collect_have:
  assumes "length have = 6"
  shows "flags_collect have = flags_of (have_set have)"
proof -
  have "h = (l \<in> have_set have)" if "(l, h) \<in> set (zip USER_FLAG_LETTERS have)" for l h
    using that assms by (auto simp: have_set_def set_zip nth_eq_iff_index_eq)
  then have "filter snd (zip USER_FLAG_LETTERS have) = filter (\<lambda>x. fst x \<in> have_set have) (zip USER_FLAG_LETTERS have)"
    by (intro filter_cong refl) auto
  then have "flags_collect have = map fst (filter ((\<lambda>l. l \<in> have_set have) \<circ> fst) (zip USER_FLAG_LETTERS have))"
    by (simp add: flags_collect_def comp_def)
  also have "\<dots> = flags_of (have_set have)"
    using assms by (simp add: flags_of_def filter_map [symmetric])
  finally show ?thesis .
qed

lemma uflags_canon_flags:
  "uflags_canon input = (if set input \<subseteq> set USER_FLAG_LETTERS then Some (flags_of (set input)) else None)"
  using mark_flags_spec [of no_flags input]
  by (auto simp: uflags_canon_def flags_collect_have split: option.splits)

lemma set_flags_of: "set (flags_of A) = A \<inter> set USER_FLAG_LETTERS"
  by (auto simp: flags_of_def)

lemma uflags_canon_set: "uflags_canon input = Some c \<Longrightarrow> set c = set input"
  by (auto simp: uflags_canon_flags set_flags_of split: if_splits)

lemma uflags_canon_idem: "uflags_canon input = Some c \<Longrightarrow> uflags_canon c = Some c"
  using uflags_canon_set [of input c] by (auto simp: uflags_canon_flags split: if_splits)

text \<open>
  \<^verbatim>\<open>uflags_canon\<close> accepts exactly the strings over the six letters and returns
  the letters present, once each, in canonical order; two spellings of one set of flags get the
  same canonical string, and canonicalising again changes nothing.
\<close>

theorem uflags_canon_correct:
  "(uflags_canon input = None \<longleftrightarrow> \<not> set input \<subseteq> set USER_FLAG_LETTERS) \<and>
   (\<forall>c. uflags_canon input = Some c \<longrightarrow>
      c = filter (\<lambda>l. l \<in> set input) USER_FLAG_LETTERS \<and> set c = set input \<and> uflags_canon c = Some c)"
proof -
  have "uflags_canon input = None \<longleftrightarrow> \<not> set input \<subseteq> set USER_FLAG_LETTERS"
    by (simp add: uflags_canon_flags)
  moreover have "c = filter (\<lambda>l. l \<in> set input) USER_FLAG_LETTERS" if "uflags_canon input = Some c" for c
    using that by (simp add: uflags_canon_flags flags_of_def split: if_splits)
  ultimately show ?thesis using uflags_canon_set uflags_canon_idem by blast
qed

theorem uflags_canon_correct_witness: "uflags_canon ''ucaac'' = Some ''acu''"
proof -
  have "uflags_canon ''ucaac'' \<noteq> None"
    using uflags_canon_correct [of "''ucaac''"] by (simp add: USER_FLAG_LETTERS_def)
  then obtain c where "uflags_canon ''ucaac'' = Some c" by blast
  with uflags_canon_correct [of "''ucaac''"] show ?thesis by (simp add: USER_FLAG_LETTERS_def)
qed

text \<open>A signed spec as a list of edits, and its effect on a set of flags.\<close>

fun signed :: "string \<Rightarrow> int \<Rightarrow> (bool \<times> char) list" where
  "signed [] sign = []"
| "signed (c # cs) sign =
     (if c = CHR ''+'' then signed cs 1
      else if c = CHR ''-'' then signed cs (-1)
      else (sign > 0, c) # signed cs sign)"

definition apply_edits :: "(bool \<times> char) list \<Rightarrow> char set \<Rightarrow> char set" where
  "apply_edits eds A = foldl (\<lambda>A (b, c). if b then insert c A else A - {c}) A eds"

definition is_sign :: "char \<Rightarrow> bool" where
  "is_sign c \<longleftrightarrow> c = CHR ''+'' \<or> c = CHR ''-''"

lemma flag_not_sign: "c \<in> set USER_FLAG_LETTERS \<Longrightarrow> \<not> is_sign c"
  by (auto simp: is_sign_def USER_FLAG_LETTERS_def)

lemma edit_loop_spec:
  assumes "sign \<noteq> 0" and "length have = 6"
  shows "case edit_loop cs sign any have of
      None \<Rightarrow> \<not> (\<forall>c \<in> set cs. is_sign c \<or> c \<in> set USER_FLAG_LETTERS)
    | Some (any', have') \<Rightarrow>
        (\<forall>c \<in> set cs. is_sign c \<or> c \<in> set USER_FLAG_LETTERS) \<and> length have' = 6 \<and>
        any' = (any \<or> (\<exists>c \<in> set cs. c \<in> set USER_FLAG_LETTERS)) \<and>
        have_set have' = apply_edits (signed cs sign) (have_set have)"
  using assms
proof (induction cs arbitrary: sign any "have")
  case Nil
  then show ?case by (simp add: apply_edits_def)
next
  case (Cons c cs)
  show ?case
  proof (cases "is_sign c")
    case True
    then have c: "c \<notin> set USER_FLAG_LETTERS" using flag_not_sign by blast
    have "edit_loop (c # cs) sign any have = edit_loop cs (if c = CHR ''+'' then 1 else -1) any have"
      "signed (c # cs) sign = signed cs (if c = CHR ''+'' then 1 else -1)"
      using True by (auto simp: is_sign_def)
    then show ?thesis
      using Cons.IH [of "if c = CHR ''+'' then 1 else -1" "have" any] Cons.prems True c
      by (auto split: option.splits)
  next
    case False
    show ?thesis
    proof (cases "flag_at c")
      case None
      then have "c \<notin> set USER_FLAG_LETTERS" using flag_at_None [of c] by simp
      with None False show ?thesis by (simp add: is_sign_def)
    next
      case (Some i)
      then have c: "c \<in> set USER_FLAG_LETTERS" using flag_at_None [of c] by auto
      have "edit_loop (c # cs) sign any have = edit_loop cs sign True (have[i := sign > 0])"
        "signed (c # cs) sign = (sign > 0, c) # signed cs sign"
        using False Some Cons.prems by (auto simp: is_sign_def)
      then show ?thesis
        using Cons.IH [of sign "have[i := sign > 0]" True] Cons.prems c have_set_update [OF Cons.prems(2) Some, of "sign > 0"]
        by (auto simp: apply_edits_def split: option.splits)
    qed
  qed
qed

lemma edit_loop_unsigned:
  "cs \<noteq> [] \<Longrightarrow>
   edit_loop cs 0 any have =
     (if is_sign (hd cs) then edit_loop (tl cs) (if hd cs = CHR ''+'' then 1 else -1) any have else None)"
  by (cases cs) (auto simp: is_sign_def split: option.splits)

lemma signed_tl:
  "cs \<noteq> [] \<Longrightarrow> is_sign (hd cs) \<Longrightarrow> signed cs sign = signed (tl cs) (if hd cs = CHR ''+'' then 1 else -1)"
  by (cases cs) (auto simp: is_sign_def)

lemma mark_flags_canon:
  "\<exists>h. mark_flags (case uflags_canon cur of Some w \<Rightarrow> w | None \<Rightarrow> []) no_flags = Some h \<and> length h = 6 \<and>
     have_set h = (if set cur \<subseteq> set USER_FLAG_LETTERS then set cur else {})"
proof -
  let ?w = "case uflags_canon cur of Some w \<Rightarrow> w | None \<Rightarrow> []"
  have "set ?w = (if set cur \<subseteq> set USER_FLAG_LETTERS then set cur else {})"
    by (auto simp: uflags_canon_flags set_flags_of)
  then show ?thesis
    using mark_flags_spec [of no_flags ?w] by (auto split: option.splits if_splits)
qed

text \<open>
  A spec with a \<^verbatim>\<open>-\<close> edits the current flags: it is accepted exactly when it
  starts with a sign, has only signs and known letters and names at least one letter, and then
  the result is the canonical string of the current set with the signed letters added and removed
  left to right (a current string that is not a flag string counts as no flags).
\<close>

theorem uflags_edit_correct:
  assumes "CHR ''-'' \<in> set spec"
  shows "uflags_edit cur spec =
    (if is_sign (hd spec) \<and> (\<forall>c \<in> set spec. is_sign c \<or> c \<in> set USER_FLAG_LETTERS)
        \<and> (\<exists>c \<in> set spec. c \<in> set USER_FLAG_LETTERS)
     then Some (flags_of (apply_edits (signed spec 0)
            (if set cur \<subseteq> set USER_FLAG_LETTERS then set cur else {})))
     else None)"
proof -
  obtain c cs where spec: "spec = c # cs" using assms by (cases spec) auto
  obtain h where h: "mark_flags (case uflags_canon cur of Some w \<Rightarrow> w | None \<Rightarrow> []) no_flags = Some h"
    "length h = 6" "have_set h = (if set cur \<subseteq> set USER_FLAG_LETTERS then set cur else {})"
    using mark_flags_canon by blast
  have ed: "uflags_edit cur spec =
      (case edit_loop spec 0 False h of None \<Rightarrow> None
       | Some (any, have) \<Rightarrow> if \<not> any then None else Some (flags_collect have))"
    using assms h(1) by (auto simp: uflags_edit_def Let_def)
  show ?thesis
  proof (cases "is_sign c")
    case False
    then show ?thesis using ed edit_loop_unsigned [of spec False h] by (simp add: spec)
  next
    case True
    let ?sg = "if c = CHR ''+'' then 1 else - 1 :: int"
    have eq: "edit_loop spec 0 False h = edit_loop cs ?sg False h" "signed spec 0 = signed cs ?sg"
      using True edit_loop_unsigned [of spec False h] signed_tl [of spec 0] by (simp_all add: spec)
    have c: "c \<notin> set USER_FLAG_LETTERS" using True flag_not_sign by blast
    show ?thesis
    proof (cases "edit_loop cs ?sg False h")
      case None
      then have "\<not> (\<forall>c \<in> set cs. is_sign c \<or> c \<in> set USER_FLAG_LETTERS)"
        using edit_loop_spec [of ?sg h cs False] h(2) by simp
      then show ?thesis using ed eq None by (auto simp: spec)
    next
      case (Some r)
      obtain any' have' where r: "r = (any', have')" by (cases r)
      have sp: "(\<forall>c \<in> set cs. is_sign c \<or> c \<in> set USER_FLAG_LETTERS) \<and> length have' = 6 \<and>
          any' = (\<exists>c \<in> set cs. c \<in> set USER_FLAG_LETTERS) \<and>
          have_set have' = apply_edits (signed cs ?sg) (have_set h)"
        using edit_loop_spec [of ?sg h cs False] h(2) Some by (simp add: r)
      have "uflags_edit cur spec = (if \<not> any' then None else Some (flags_of (have_set have')))"
        using ed eq Some sp by (simp add: r flags_collect_have)
      moreover have "flags_of (have_set have') =
          flags_of (apply_edits (signed spec 0) (if set cur \<subseteq> set USER_FLAG_LETTERS then set cur else {}))"
        using sp by (simp only: eq(2) h(3))
      ultimately show ?thesis using sp c True by (simp only: spec) auto
    qed
  qed
qed

theorem uflags_edit_correct_witness: "uflags_edit ''cu'' ''+b-u'' = Some ''bc''"
  by (subst uflags_edit_correct)
    (auto simp: is_sign_def USER_FLAG_LETTERS_def flags_of_def apply_edits_def)


section \<open>The tables are last-writer-wins stores\<close>

subsection \<open>Flags\<close>

definition uflag_beats :: "i64 \<times> string \<Rightarrow> i64 \<times> string \<Rightarrow> bool" where
  "uflag_beats x c \<longleftrightarrow>
     (if fst x \<noteq> fst c then fst x > fst c
      else let ia = CHR ''a'' \<in> set (snd x); ca = CHR ''a'' \<in> set (snd c) in
        if ia \<noteq> ca then \<not> ia
        else if length (snd x) \<noteq> length (snd c) then length (snd x) < length (snd c)
        else snd x < snd c)"

lemma uflags_accepts_beats:
  "uflags_accepts e t f t' f' \<longleftrightarrow> \<not> ts_ahead e t \<and> uflag_beats (t, f) (t', f')"
  by (simp add: uflags_accepts_def uflag_beats_def Let_def)

interpretation uflag_order: lww_order uflag_beats
proof
  show "\<not> uflag_beats x x" for x by (simp add: uflag_beats_def Let_def)
next
  fix x y z assume "uflag_beats x y" "uflag_beats y z"
  then show "uflag_beats x z" by (auto simp: uflag_beats_def Let_def split: if_splits)
next
  show "uflag_beats x y \<or> x = y \<or> uflag_beats y x" for x y
    by (cases x; cases y) (auto simp: uflag_beats_def Let_def)
qed

type_synonym uflag_msg = "env \<times> string \<times> string \<times> i64"
type_synonym uchan_msg = "env \<times> string \<times> string \<times> bool \<times> i64"

definition uflag_deliver :: "uflag_msg \<Rightarrow> hub_state \<Rightarrow> hub_state" where
  "uflag_deliver m s = (case m of (e, uuid, flags, ts) \<Rightarrow> snd (uflag_put e uuid flags ts s))"

definition uflag_tab :: "hub_state \<Rightarrow> string \<rightharpoonup> i64 \<times> string" where
  "uflag_tab s = rec_tab uf_uuid (\<lambda>r. (uf_ts r, uf_flags r)) (uflag_records s)"

definition uflag_kv :: "uflag_msg \<Rightarrow> (string \<times> i64 \<times> string) option" where
  "uflag_kv m = (case m of (e, uuid, flags, ts) \<Rightarrow>
     (if uuid_shape uuid \<and> ts > 0 \<and> \<not> ts_ahead e ts
      then map_option (\<lambda>c. (uuid, ts, c)) (uflags_canon flags) else None))"

text \<open>
  The table invariant: one record per uuid, the cap, and every record well-formed (a uuid, a
  positive stamp, a canonical flag string).
\<close>

definition uflag_ok :: "uflag_record \<Rightarrow> bool" where
  "uflag_ok r \<longleftrightarrow> uuid_shape (uf_uuid r) \<and> uf_ts r > 0 \<and> uflags_canon (uf_flags r) = Some (uf_flags r)"

definition uflag_inv :: "hub_state \<Rightarrow> bool" where
  "uflag_inv s \<longleftrightarrow>
     distinct (map uf_uuid (uflag_records s)) \<and> length (uflag_records s) \<le> MAX_HUB_USER_FLAGS \<and>
     (\<forall>r \<in> set (uflag_records s). uflag_ok r)"

lemma uflag_store_records [simp]:
  "uflag_records (uflag_store i uuid canon ts s) =
     (uflag_records s)[i := (uflag_records s ! i)\<lparr>uf_flags := canon, uf_ts := ts\<rparr>]"
  by (simp add: uflag_store_def Let_def)

lemma uflag_find_tab: "uflag_find s uuid = None \<longleftrightarrow> uuid \<notin> dom (uflag_tab s)"
  by (auto simp: uflag_find_def uflag_tab_def dom_rec_tab position_None)

lemma uflag_tab_find:
  "uflag_find s uuid = Some i \<Longrightarrow> uflag_tab s uuid = Some (uf_ts (uflag_records s ! i), uf_flags (uflag_records s ! i))"
  by (simp add: uflag_find_def uflag_tab_def rec_tab_def)

text \<open>What \<^verbatim>\<open>uflag_put\<close> does to the table of records, branch by branch.\<close>

lemma uflag_put_cases:
  obtains (refused) "uflag_put e uuid flags ts s = (False, s)"
  | (changed) i canon where "uflag_put e uuid flags ts s = (True, uflag_store i uuid canon ts s)"
      "uflags_canon flags = Some canon" "uflag_find s uuid = Some i" "uuid_shape uuid" "ts > 0" "\<not> ts_ahead e ts"
      "uflag_beats (ts, canon) (uf_ts (uflag_records s ! i), uf_flags (uflag_records s ! i))"
  | (added) canon s1 where "uflag_put e uuid flags ts s = (True, uflag_store (length (uflag_records s)) uuid canon ts s1)"
      "s1 = s\<lparr>uflag_records := uflag_records s @ [\<lparr>uf_uuid = uuid, uf_flags = [], uf_ts = 0\<rparr>]\<rparr>"
      "uflags_canon flags = Some canon" "uflag_find s uuid = None" "uuid_shape uuid" "ts > 0" "\<not> ts_ahead e ts"
      "length (uflag_records s) < MAX_HUB_USER_FLAGS"
  by (cases "fst (uflag_put e uuid flags ts s)")
    (auto simp: uflag_put_def uflags_accepts_beats Let_def not_le split: option.splits if_splits)

lemma uflag_put_inv:
  assumes "uflag_inv s"
  shows "uflag_inv (snd (uflag_put e uuid flags ts s))"
proof (cases rule: uflag_put_cases [of e uuid flags ts s])
  case (changed i canon)
  have i: "i < length (uflag_records s)" "uf_uuid (uflag_records s ! i) = uuid"
    using changed(3) by (auto simp: uflag_find_def dest: position_SomeD)
  then show ?thesis
    using assms changed uflags_canon_idem [OF changed(2)]
    by (auto simp: uflag_inv_def uflag_ok_def intro!: distinct_map_update dest: subsetD [OF set_update_subset_insert])
next
  case (added canon s1)
  have "distinct (map uf_uuid (uflag_records s @ [\<lparr>uf_uuid = uuid, uf_flags = canon, uf_ts = ts\<rparr>]))"
    using assms added(4) by (intro distinct_map_snoc) (auto simp: uflag_inv_def uflag_find_def)
  then show ?thesis
    using assms added uflags_canon_idem [OF added(3)] by (auto simp: uflag_inv_def uflag_ok_def)
qed (use assms in simp)

lemma uflag_put_tab:
  assumes "uflag_inv s" and "uflag_kv (e, uuid, flags, ts) = Some x"
    and "fst x \<in> dom (uflag_tab s) \<or> card (dom (uflag_tab s)) < MAX_HUB_USER_FLAGS"
  shows "uflag_tab (snd (uflag_put e uuid flags ts s)) = lww_put uflag_beats x (uflag_tab s)"
proof -
  obtain canon where x: "x = (uuid, ts, canon)" "uflags_canon flags = Some canon"
    and ok: "uuid_shape uuid" "ts > 0" "\<not> ts_ahead e ts"
    using assms(2) by (auto simp: uflag_kv_def split: if_splits)
  show ?thesis
  proof (cases "uflag_find s uuid")
    case None
    have card: "card (dom (uflag_tab s)) = length (uflag_records s)"
      using assms(1) by (simp add: uflag_tab_def uflag_inv_def card_dom_rec_tab)
    have room: "length (uflag_records s) < MAX_HUB_USER_FLAGS"
      using assms(3) None card by (simp add: uflag_find_tab x)
    let ?r = "\<lparr>uf_uuid = uuid, uf_flags = canon, uf_ts = ts\<rparr>"
    have "uflag_records (snd (uflag_put e uuid flags ts s)) = uflag_records s @ [?r]"
      using None x ok room by (simp add: uflag_put_def)
    then have "uflag_tab (snd (uflag_put e uuid flags ts s)) = (uflag_tab s)(uuid \<mapsto> (ts, canon))"
      using None rec_tab_snoc [of uf_uuid ?r "uflag_records s" "\<lambda>r. (uf_ts r, uf_flags r)"]
      by (simp add: uflag_tab_def uflag_find_def)
    moreover have "uflag_tab s uuid = None" using None uflag_find_tab by blast
    ultimately show ?thesis by (simp add: lww_put_def x)
  next
    case (Some i)
    let ?r = "uflag_records s ! i"
    have u: "rec_tab uf_uuid g ((uflag_records s)[i := ?r\<lparr>uf_flags := canon, uf_ts := ts\<rparr>])
        = (rec_tab uf_uuid g (uflag_records s))(uuid \<mapsto> g (?r\<lparr>uf_flags := canon, uf_ts := ts\<rparr>))"
      for g :: "uflag_record \<Rightarrow> i64 \<times> string"
      using Some by (intro rec_tab_update) (auto simp: uflag_find_def dest: position_SomeD)
    show ?thesis
      using Some x ok uflag_tab_find [OF Some] u
      by (auto simp: uflag_put_def uflags_accepts_beats Let_def lww_put_def uflag_tab_def)
  qed
qed

lemma uflag_put_refused: "uflag_kv (e, uuid, flags, ts) = None \<Longrightarrow> uflag_put e uuid flags ts s = (False, s)"
  by (auto simp: uflag_kv_def uflag_put_def split: option.splits if_splits)

lemma uflag_put_full:
  assumes "uflag_inv s" and "uuid \<notin> dom (uflag_tab s)" and "\<not> card (dom (uflag_tab s)) < MAX_HUB_USER_FLAGS"
  shows "uflag_put e uuid flags ts s = (False, s)"
proof -
  have "card (dom (uflag_tab s)) = length (uflag_records s)"
    using assms(1) by (simp add: uflag_tab_def uflag_inv_def card_dom_rec_tab)
  then show ?thesis
    using assms(2,3) uflag_find_tab [of s uuid] by (auto simp: uflag_put_def split: option.splits)
qed

lemma uflag_kv_key: "uflag_kv (e, uuid, flags, ts) = Some x \<Longrightarrow> fst x = uuid"
  by (auto simp: uflag_kv_def split: if_splits)

interpretation uf_lww: lww_store uflag_beats uflag_deliver uflag_tab uflag_kv MAX_HUB_USER_FLAGS uflag_inv
proof
  fix s r x assume "uflag_inv s" "uflag_kv r = Some x"
    "fst x \<in> dom (uflag_tab s) \<or> card (dom (uflag_tab s)) < MAX_HUB_USER_FLAGS"
  then show "uflag_tab (uflag_deliver r s) = lww_put uflag_beats x (uflag_tab s)"
    by (cases r) (auto simp: uflag_deliver_def intro: uflag_put_tab)
next
  fix s r x assume "uflag_inv s" "uflag_kv r = Some x" "fst x \<notin> dom (uflag_tab s)"
    "\<not> card (dom (uflag_tab s)) < MAX_HUB_USER_FLAGS"
  then show "uflag_tab (uflag_deliver r s) = uflag_tab s"
    by (cases r) (simp add: uflag_deliver_def uflag_put_full uflag_kv_key)
next
  fix s r assume "uflag_inv s" "uflag_kv r = None"
  then show "uflag_tab (uflag_deliver r s) = uflag_tab s"
    by (cases r) (auto simp: uflag_deliver_def uflag_put_refused)
next
  fix s r assume "uflag_inv s"
  then show "uflag_inv (uflag_deliver r s)"
    by (cases r) (auto simp: uflag_deliver_def intro: uflag_put_inv)
next
  fix s show "finite (dom (uflag_tab s))" by (simp add: uflag_tab_def)
qed


text \<open>The flags a user holds are what the table says.\<close>

lemma user_flags_tab: "user_flags s uuid = (case uflag_tab s uuid of None \<Rightarrow> [] | Some v \<Rightarrow> snd v)"
proof (cases "uflag_find s uuid")
  case None
  then have "uflag_tab s uuid = None" using uflag_find_tab by blast
  with None show ?thesis by (simp add: user_flags_def)
next
  case (Some i)
  with uflag_tab_find [OF Some] show ?thesis by (simp add: user_flags_def)
qed

definition uflag_says :: "string \<times> string \<times> i64 \<Rightarrow> (string \<times> i64 \<times> string) option" where
  "uflag_says r = (case r of (uuid, flags, ts) \<Rightarrow>
     (if uuid_shape uuid \<and> ts > 0 then map_option (\<lambda>c. (uuid, ts, c)) (uflags_canon flags) else None))"

definition uflag_on_time :: "uflag_msg list \<Rightarrow> bool" where
  "uflag_on_time ms \<longleftrightarrow> (\<forall>(e, uuid, flags, ts) \<in> set ms. \<not> ts_ahead e ts)"

lemma uflag_said_set:
  assumes "uflag_on_time ms"
  shows "set (uf_lww.lww_join.said ms) = {x. \<exists>r \<in> snd ` set ms. uflag_says r = Some x}"
proof -
  have "uflag_kv m = uflag_says (snd m)" if "m \<in> set ms" for m
    using assms that by (cases m) (auto simp: uflag_on_time_def uflag_kv_def uflag_says_def)
  then show ?thesis by (auto simp: uf_lww.lww_join.set_said)
qed

lemma uflag_says_key: "uflag_says r = Some x \<Longrightarrow> fst x = fst r"
  by (cases r) (auto simp: uflag_says_def split: if_splits)

text \<open>
  Property C26.  Admin flags converge.  Two hubs whose flag tables agree, each delivered the same
  set of \<^verbatim>\<open>uf|\<close> records in any order and with any repetition, at whatever clock readings do not
  put a record more than an hour ahead, and with room for every uuid named, end with the same
  table, so the same answer to every flag check.
\<close>

theorem uflag_converge:
  assumes "uflag_inv s" "uflag_inv s'" and "uflag_tab s = uflag_tab s'"
    and "uflag_on_time ms" "uflag_on_time ms'" and "snd ` set ms = snd ` set ms'"
    and "card (dom (uflag_tab s) \<union> (fst \<circ> snd) ` set ms) \<le> MAX_HUB_USER_FLAGS"
  shows "user_has_flag (fold uflag_deliver ms s) uuid flag = user_has_flag (fold uflag_deliver ms' s') uuid flag"
proof -
  have said: "set (uf_lww.lww_join.said ms) = set (uf_lww.lww_join.said ms')"
    by (simp add: uflag_said_set assms(4-6))
  have "uf_lww.lww_join.said_keys ms \<subseteq> (fst \<circ> snd) ` set ms"
    unfolding uf_lww.lww_join.said_keys_def uflag_said_set [OF assms(4)]
    using uflag_says_key by (force simp: image_iff)
  then have "card (dom (uflag_tab s) \<union> uf_lww.lww_join.said_keys ms) \<le> card (dom (uflag_tab s) \<union> (fst \<circ> snd) ` set ms)"
    by (intro card_mono) (auto simp: uflag_tab_def)
  then have "uflag_tab (fold uflag_deliver ms s) = uflag_tab (fold uflag_deliver ms' s')"
    using uf_lww.lww_join.deliver_converge [OF assms(1-3) said] assms(7) by simp
  then show ?thesis by (simp add: user_has_flag_def user_flags_tab)
qed

definition example_uuid :: "char \<Rightarrow> string" where
  "example_uuid d =
     replicate 8 d @ ''-'' @ replicate 4 d @ ''-'' @ replicate 4 d @ ''-'' @ replicate 4 d @ ''-'' @ replicate 12 d"

definition example_uf :: "i64 \<Rightarrow> i64 \<Rightarrow> string \<Rightarrow> uflag_msg" where
  "example_uf t ts fl = (env_at t, example_uuid (CHR ''1''), fl, ts)"

theorem uflag_converge_witness:
  "user_has_flag (fold uflag_deliver [example_uf 100 50 ''a'', example_uf 101 50 ''cu''] hub_state_new)
     (example_uuid (CHR ''1'')) (CHR ''c'') =
   user_has_flag (fold uflag_deliver [example_uf 200 50 ''cu'', example_uf 100 50 ''a''] hub_state_new)
     (example_uuid (CHR ''1'')) (CHR ''c'')"
proof (rule uflag_converge)
  show "uflag_inv hub_state_new" "uflag_inv hub_state_new" by (simp_all add: uflag_inv_def hub_state_new_def)
  have "(fst \<circ> snd) ` set [example_uf 100 50 ''a'', example_uf 101 50 ''cu''] = {example_uuid (CHR ''1'')}"
    by (auto simp: example_uf_def)
  then show "card (dom (uflag_tab hub_state_new) \<union>
      (fst \<circ> snd) ` set [example_uf 100 50 ''a'', example_uf 101 50 ''cu'']) \<le> MAX_HUB_USER_FLAGS"
    by (simp add: uflag_tab_def dom_rec_tab hub_state_new_def MAX_HUB_USER_FLAGS_def MAX_HUB_USER_RECORDS_def)
qed (auto simp: uflag_on_time_def example_uf_def ts_ahead_def env_at_def LWW_MAX_FUTURE_def)


subsection \<open>Channel bindings\<close>

definition uchan_key :: "uchan_record \<Rightarrow> string \<times> string" where
  "uchan_key r = (uc_uuid r, lower (uc_chan r))"

definition uchan_deliver :: "uchan_msg \<Rightarrow> hub_state \<Rightarrow> hub_state" where
  "uchan_deliver m s = (case m of (e, uuid, chan, active, ts) \<Rightarrow> snd (uchan_put e uuid chan active ts s))"

definition uchan_tab :: "hub_state \<Rightarrow> string \<times> string \<rightharpoonup> i64 \<times> bool" where
  "uchan_tab s = rec_tab uchan_key (\<lambda>r. (uc_ts r, uc_active r)) (uchan_records s)"

definition uchan_says :: "string \<times> string \<times> bool \<times> i64 \<Rightarrow> ((string \<times> string) \<times> i64 \<times> bool) option" where
  "uchan_says m = (case m of (uuid, chan, active, ts) \<Rightarrow>
     (if uuid_shape uuid \<and> uchan_name_ok chan \<and> ts > 0 then Some ((uuid, lower chan), ts, active) else None))"

definition uchan_kv :: "uchan_msg \<Rightarrow> ((string \<times> string) \<times> i64 \<times> bool) option" where
  "uchan_kv m = (case m of (e, uuid, chan, active, ts) \<Rightarrow>
     (if ts_ahead e ts then None else uchan_says (uuid, chan, active, ts)))"

definition uchan_ok :: "uchan_record \<Rightarrow> bool" where
  "uchan_ok r \<longleftrightarrow> uuid_shape (uc_uuid r) \<and> uc_ts r > 0 \<and> uchan_name_ok (uc_chan r)"

definition uchan_inv :: "hub_state \<Rightarrow> bool" where
  "uchan_inv s \<longleftrightarrow>
     distinct (map uchan_key (uchan_records s)) \<and> length (uchan_records s) \<le> MAX_HUB_CHAN_BINDS \<and>
     (\<forall>r \<in> set (uchan_records s). uchan_ok r)"

text \<open>No purge has set a floor: every stamp a valid record can have is above it.\<close>

definition no_floor :: "hub_state \<Rightarrow> bool" where
  "no_floor s \<longleftrightarrow> purge_floor s \<le> 1"

lemma uchan_find_key: "uchan_find s uuid chan = position (\<lambda>r. uchan_key r = (uuid, lower chan)) (uchan_records s)"
  by (simp add: uchan_find_def uchan_key_def eq_ic_def)

lemma uchan_store_records [simp]:
  "uchan_records (uchan_store i active ts s) =
     (uchan_records s)[i := (uchan_records s ! i)\<lparr>uc_active := active, uc_ts := ts\<rparr>]"
  by (simp add: uchan_store_def)

lemma uchan_put_cases:
  obtains (refused) "uchan_put e uuid chan active ts s = (False, s)"
  | (changed) i where "uchan_put e uuid chan active ts s = (True, uchan_store i active ts s)"
      "uchan_find s uuid chan = Some i" "uuid_shape uuid" "uchan_name_ok chan" "ts > 0" "\<not> ts_ahead e ts"
      "flag_beats (ts, active) (uc_ts (uchan_records s ! i), uc_active (uchan_records s ! i))"
  | (added) s1 where "uchan_put e uuid chan active ts s = (True, uchan_store (length (uchan_records s)) active ts s1)"
      "s1 = s\<lparr>uchan_records := uchan_records s @ [\<lparr>uc_uuid = uuid, uc_chan = chan, uc_active = False, uc_ts = 0\<rparr>]\<rparr>"
      "uchan_find s uuid chan = None" "uuid_shape uuid" "uchan_name_ok chan" "ts > 0" "\<not> ts_ahead e ts"
      "length (uchan_records s) < MAX_HUB_CHAN_BINDS" "active \<or> \<not> purge_floor_blocks e s ts"
  by (cases "fst (uchan_put e uuid chan active ts s)")
    (auto simp: uchan_put_def lww_accepts_beats Let_def not_le split: option.splits if_splits)

lemma uchan_put_inv:
  assumes "uchan_inv s"
  shows "uchan_inv (snd (uchan_put e uuid chan active ts s))"
proof (cases rule: uchan_put_cases [of e uuid chan active ts s])
  case (changed i)
  have i: "i < length (uchan_records s)" "uchan_ok (uchan_records s ! i)"
    using changed(2) assms by (auto simp: uchan_find_key uchan_inv_def dest: position_SomeD)
  then show ?thesis
    using assms changed
    by (auto simp: uchan_inv_def uchan_ok_def uchan_key_def intro!: distinct_map_update
        dest: subsetD [OF set_update_subset_insert])
next
  case (added s1)
  have "distinct (map uchan_key (uchan_records s @ [\<lparr>uc_uuid = uuid, uc_chan = chan, uc_active = active, uc_ts = ts\<rparr>]))"
    using assms added(3) by (intro distinct_map_snoc) (auto simp: uchan_inv_def uchan_find_key uchan_key_def)
  then show ?thesis using assms added by (auto simp: uchan_inv_def uchan_ok_def)
qed (use assms in simp)

lemma uchan_put_floor: "purge_floor (snd (uchan_put e uuid chan active ts s)) = purge_floor s"
  by (cases rule: uchan_put_cases [of e uuid chan active ts s]) (simp_all add: uchan_store_def)

lemma uchan_tab_find:
  "uchan_find s uuid chan = Some i \<Longrightarrow>
     uchan_tab s (uuid, lower chan) = Some (uc_ts (uchan_records s ! i), uc_active (uchan_records s ! i))"
  by (simp add: uchan_find_key uchan_tab_def rec_tab_def)

lemma uchan_find_tab: "uchan_find s uuid chan = None \<longleftrightarrow> (uuid, lower chan) \<notin> dom (uchan_tab s)"
  unfolding uchan_find_key uchan_tab_def dom_rec_tab position_None by (metis imageE image_eqI)

lemma uchan_put_tab:
  assumes "uchan_inv s" "no_floor s" and "uchan_kv (e, uuid, chan, active, ts) = Some x"
    and "fst x \<in> dom (uchan_tab s) \<or> card (dom (uchan_tab s)) < MAX_HUB_CHAN_BINDS"
  shows "uchan_tab (snd (uchan_put e uuid chan active ts s)) = lww_put flag_beats x (uchan_tab s)"
proof -
  have x: "x = ((uuid, lower chan), ts, active)"
    and ok: "uuid_shape uuid" "uchan_name_ok chan" "ts > 0" "\<not> ts_ahead e ts"
    using assms(3) by (auto simp: uchan_kv_def uchan_says_def split: if_splits)
  show ?thesis
  proof (cases "uchan_find s uuid chan")
    case None
    have card: "card (dom (uchan_tab s)) = length (uchan_records s)"
      using assms(1) by (simp add: uchan_tab_def uchan_inv_def card_dom_rec_tab)
    have room: "length (uchan_records s) < MAX_HUB_CHAN_BINDS"
      using assms(4) None card by (simp add: uchan_find_tab x)
    have nb: "\<not> purge_floor_blocks e s ts"
      using assms(2) ok(3) by (simp add: no_floor_def purge_floor_blocks_def)
    let ?r = "\<lparr>uc_uuid = uuid, uc_chan = chan, uc_active = active, uc_ts = ts\<rparr>"
    have "uchan_records (snd (uchan_put e uuid chan active ts s)) = uchan_records s @ [?r]"
      using None ok room nb by (simp add: uchan_put_def)
    then have "uchan_tab (snd (uchan_put e uuid chan active ts s)) = (uchan_tab s)((uuid, lower chan) \<mapsto> (ts, active))"
      using None rec_tab_snoc [of uchan_key ?r "uchan_records s" "\<lambda>r. (uc_ts r, uc_active r)"]
      by (simp add: uchan_tab_def uchan_find_key uchan_key_def)
    moreover have "uchan_tab s (uuid, lower chan) = None" using None uchan_find_tab by blast
    ultimately show ?thesis by (simp add: lww_put_def x)
  next
    case (Some i)
    let ?r = "uchan_records s ! i"
    have "uchan_key (?r\<lparr>uc_active := active, uc_ts := ts\<rparr>) = (uuid, lower chan)"
      using Some by (auto simp: uchan_find_key uchan_key_def dest: position_SomeD)
    then have u: "rec_tab uchan_key g ((uchan_records s)[i := ?r\<lparr>uc_active := active, uc_ts := ts\<rparr>])
        = (rec_tab uchan_key g (uchan_records s))((uuid, lower chan) \<mapsto> g (?r\<lparr>uc_active := active, uc_ts := ts\<rparr>))"
      for g :: "uchan_record \<Rightarrow> i64 \<times> bool"
      using Some by (intro rec_tab_update) (auto simp: uchan_find_key)
    show ?thesis
      using Some x ok uchan_tab_find [OF Some] u
      by (auto simp: uchan_put_def lww_accepts_beats Let_def lww_put_def uchan_tab_def)
  qed
qed

lemma uchan_put_refused: "uchan_kv (e, uuid, chan, active, ts) = None \<Longrightarrow> uchan_put e uuid chan active ts s = (False, s)"
  by (auto simp: uchan_kv_def uchan_says_def uchan_put_def split: if_splits)

lemma uchan_put_full:
  assumes "uchan_inv s" and "(uuid, lower chan) \<notin> dom (uchan_tab s)"
    and "\<not> card (dom (uchan_tab s)) < MAX_HUB_CHAN_BINDS"
  shows "uchan_put e uuid chan active ts s = (False, s)"
proof -
  have "card (dom (uchan_tab s)) = length (uchan_records s)"
    using assms(1) by (simp add: uchan_tab_def uchan_inv_def card_dom_rec_tab)
  then show ?thesis
    using assms(2,3) uchan_find_tab [of s uuid chan] by (auto simp: uchan_put_def split: option.splits)
qed

lemma uchan_kv_key: "uchan_kv (e, uuid, chan, active, ts) = Some x \<Longrightarrow> fst x = (uuid, lower chan)"
  by (auto simp: uchan_kv_def uchan_says_def split: if_splits)

interpretation uc_lww: lww_store flag_beats uchan_deliver uchan_tab uchan_kv MAX_HUB_CHAN_BINDS
  "\<lambda>s. uchan_inv s \<and> no_floor s"
proof
  fix s r x assume "uchan_inv s \<and> no_floor s" "uchan_kv r = Some x"
    "fst x \<in> dom (uchan_tab s) \<or> card (dom (uchan_tab s)) < MAX_HUB_CHAN_BINDS"
  then show "uchan_tab (uchan_deliver r s) = lww_put flag_beats x (uchan_tab s)"
    by (cases r) (auto simp: uchan_deliver_def intro: uchan_put_tab)
next
  fix s r x assume "uchan_inv s \<and> no_floor s" "uchan_kv r = Some x" "fst x \<notin> dom (uchan_tab s)"
    "\<not> card (dom (uchan_tab s)) < MAX_HUB_CHAN_BINDS"
  then show "uchan_tab (uchan_deliver r s) = uchan_tab s"
    by (cases r) (simp add: uchan_deliver_def uchan_put_full uchan_kv_key)
next
  fix s r assume "uchan_inv s \<and> no_floor s" "uchan_kv r = None"
  then show "uchan_tab (uchan_deliver r s) = uchan_tab s"
    by (cases r) (auto simp: uchan_deliver_def uchan_put_refused)
next
  fix s r assume "uchan_inv s \<and> no_floor s"
  then show "uchan_inv (uchan_deliver r s) \<and> no_floor (uchan_deliver r s)"
    by (cases r) (auto simp: uchan_deliver_def no_floor_def uchan_put_floor intro: uchan_put_inv)
next
  fix s show "finite (dom (uchan_tab s))" by (simp add: uchan_tab_def)
qed

lemma star_lower: "lower x = ''*'' \<longleftrightarrow> x = ''*''"
proof -
  have "to_lower c = CHR ''*'' \<longleftrightarrow> c = CHR ''*''" for c by (rule to_lower_eq_non_alpha) simp
  then show ?thesis by (auto simp: map_eq_Cons_conv)
qed

text \<open>A binding check is a lookup of two keys in the table.\<close>

lemma user_chan_ok_tab:
  assumes "uchan_inv s"
  shows "user_chan_ok s uuid chan \<longleftrightarrow>
    (\<exists>k \<in> {''*''} \<union> (case chan of None \<Rightarrow> {} | Some c \<Rightarrow> {lower c}).
       case uchan_tab s (uuid, k) of None \<Rightarrow> False | Some v \<Rightarrow> snd v)"
proof -
  have d: "distinct (map uchan_key (uchan_records s))" using assms by (simp add: uchan_inv_def)
  have live: "(case uchan_tab s (uuid, k) of None \<Rightarrow> False | Some v \<Rightarrow> snd v) \<longleftrightarrow>
      (\<exists>r \<in> set (uchan_records s). uc_active r \<and> uchan_key r = (uuid, k))" for k
  proof (cases "position (\<lambda>r. uchan_key r = (uuid, k)) (uchan_records s)")
    case None
    then have "\<forall>r \<in> set (uchan_records s). uchan_key r \<noteq> (uuid, k)" by (simp add: position_None)
    with None show ?thesis by (simp add: uchan_tab_def rec_tab_def)
  next
    case (Some i)
    note i = position_SomeD [OF Some]
    have "r = uchan_records s ! i" if "r \<in> set (uchan_records s)" "uchan_key r = (uuid, k)" for r
      using that i d by (auto simp: distinct_map inj_on_def)
    with i Some show ?thesis by (auto simp: uchan_tab_def rec_tab_def)
  qed
  show ?thesis
    unfolding live by (cases chan) (auto simp: user_chan_ok_def uchan_key_def eq_ic_def star_lower)
qed


definition uchan_on_time :: "uchan_msg list \<Rightarrow> bool" where
  "uchan_on_time ms \<longleftrightarrow> (\<forall>(e, uuid, chan, active, ts) \<in> set ms. \<not> ts_ahead e ts)"

lemma uchan_said_set:
  assumes "uchan_on_time ms"
  shows "set (uc_lww.lww_join.said ms) = {x. \<exists>r \<in> snd ` set ms. uchan_says r = Some x}"
proof -
  have "uchan_kv m = uchan_says (snd m)" if "m \<in> set ms" for m
    using assms that by (cases m) (auto simp: uchan_on_time_def uchan_kv_def)
  then show ?thesis by (auto simp: uc_lww.lww_join.set_said)
qed

definition uchan_msg_key :: "uchan_msg \<Rightarrow> string \<times> string" where
  "uchan_msg_key m = (case m of (e, uuid, chan, active, ts) \<Rightarrow> (uuid, lower chan))"

text \<open>
  The purge floor only refuses deletions of bindings a hub does not hold.  A hub that hears no
  deletion below its floor writes what it would write with the floor lifted.
\<close>

definition above_floor :: "hub_state \<Rightarrow> uchan_msg list \<Rightarrow> bool" where
  "above_floor s ms \<longleftrightarrow> (\<forall>(e, uuid, chan, active, ts) \<in> set ms. active \<or> \<not> purge_floor_blocks e s ts)"

definition lift_floor :: "hub_state \<Rightarrow> hub_state" where
  "lift_floor s = s\<lparr>purge_floor := 0\<rparr>"

lemma lift_floor_simps [simp]:
  "uchan_records (lift_floor s) = uchan_records s" "uchan_inv (lift_floor s) = uchan_inv s"
  "uchan_tab (lift_floor s) = uchan_tab s" "no_floor (lift_floor s)"
  by (simp_all add: lift_floor_def uchan_inv_def uchan_tab_def no_floor_def)

lemma uchan_put_lifted:
  assumes "active \<or> \<not> purge_floor_blocks e s ts"
  shows "snd (uchan_put e uuid chan active ts (lift_floor s)) = lift_floor (snd (uchan_put e uuid chan active ts s))"
  using assms
  by (auto simp: uchan_put_def lift_floor_def uchan_find_def uchan_store_def Let_def purge_floor_blocks_def
      split: option.splits)

lemma uchan_deliver_floor:
  "purge_floor (uchan_deliver m s) = purge_floor s" "purge_floor_until (uchan_deliver m s) = purge_floor_until s"
  by (auto simp: uchan_deliver_def uchan_put_def uchan_store_def Let_def split: prod.splits option.splits)

lemma uchan_fold_lifted:
  assumes "above_floor s ms"
  shows "fold uchan_deliver ms (lift_floor s) = lift_floor (fold uchan_deliver ms s)"
  using assms
proof (induction ms arbitrary: s)
  case (Cons m ms)
  have "above_floor (uchan_deliver m s) ms"
    using Cons.prems by (auto simp: above_floor_def purge_floor_blocks_def uchan_deliver_floor)
  moreover have "uchan_deliver m (lift_floor s) = lift_floor (uchan_deliver m s)"
    using Cons.prems by (cases m) (simp add: above_floor_def uchan_deliver_def uchan_put_lifted)
  ultimately show ?case by (simp add: Cons.IH)
qed simp

text \<open>
  Property C27.  Channel bindings converge.  Two hubs whose binding tables agree, each delivered the
  same set of \<^verbatim>\<open>uc|\<close> records in any order and with any repetition, give the same answer to every
  access check.  The conditions: no record is stamped too far ahead, the table has room for every
  (user, channel) named, and no deletion among the records lies below the purge floor of the hub
  that hears it (as it may on a hub that has just run a purge).
\<close>

theorem uchan_converge:
  assumes "uchan_inv s" "uchan_inv s'" and "uchan_tab s = uchan_tab s'"
    and "above_floor s ms" "above_floor s' ms'"
    and "uchan_on_time ms" "uchan_on_time ms'" and "snd ` set ms = snd ` set ms'"
    and "card (dom (uchan_tab s) \<union> uchan_msg_key ` set ms) \<le> MAX_HUB_CHAN_BINDS"
  shows "user_chan_ok (fold uchan_deliver ms s) uuid chan = user_chan_ok (fold uchan_deliver ms' s') uuid chan"
proof -
  let ?s = "lift_floor s" and ?s' = "lift_floor s'"
  have said: "set (uc_lww.lww_join.said ms) = set (uc_lww.lww_join.said ms')"
    by (simp add: uchan_said_set assms)
  have "uchan_kv m = Some x \<Longrightarrow> fst x = uchan_msg_key m" for m x
    by (cases m) (auto simp: uchan_kv_def uchan_says_def uchan_msg_key_def split: if_splits)
  then have "uc_lww.lww_join.said_keys ms \<subseteq> uchan_msg_key ` set ms"
    unfolding uc_lww.lww_join.said_keys_def uc_lww.lww_join.set_said by blast
  then have "card (dom (uchan_tab s) \<union> uc_lww.lww_join.said_keys ms) \<le> card (dom (uchan_tab s) \<union> uchan_msg_key ` set ms)"
    by (intro card_mono) (auto simp: uchan_tab_def)
  then have eq: "uchan_tab (fold uchan_deliver ms ?s) = uchan_tab (fold uchan_deliver ms' ?s')"
    using uc_lww.lww_join.deliver_converge [OF _ _ _ said, of ?s ?s'] assms(1-3,9) by simp
  have "uchan_inv (fold uchan_deliver ms ?s)" "uchan_inv (fold uchan_deliver ms' ?s')"
    using uc_lww.lww_join.deliver_inv [of ?s] uc_lww.lww_join.deliver_inv [of ?s'] assms(1,2) by simp_all
  then show ?thesis using eq by (simp add: uchan_fold_lifted assms user_chan_ok_tab)
qed

definition example_uc :: "i64 \<Rightarrow> bool \<Rightarrow> string \<Rightarrow> uchan_msg" where
  "example_uc t act chan = (env_at t, example_uuid (CHR ''1''), chan, act, 50)"

lemma example_state: "uflag_inv hub_state_new" "uchan_inv hub_state_new" "no_floor hub_state_new"
    "purge_floor hub_state_new = 0"
  by (simp_all add: uflag_inv_def uchan_inv_def no_floor_def hub_state_new_def)

theorem uchan_converge_witness:
  "user_chan_ok (fold uchan_deliver [example_uc 100 True ''#ops'', example_uc 101 False ''#OPS''] hub_state_new)
     (example_uuid (CHR ''1'')) (Some ''#Ops'') =
   user_chan_ok (fold uchan_deliver [example_uc 102 False ''#OPS'', example_uc 103 True ''#ops'', example_uc 104 False ''#OPS'']
     hub_state_new) (example_uuid (CHR ''1'')) (Some ''#Ops'')"
proof (rule uchan_converge)
  let ?ms = "[example_uc 100 True ''#ops'', example_uc 101 False ''#OPS'']"
  have "card (uchan_msg_key ` set ?ms) \<le> card (set ?ms)" by (rule card_image_le) simp
  also have "\<dots> \<le> length ?ms" by (rule card_length)
  finally show "card (dom (uchan_tab hub_state_new) \<union> uchan_msg_key ` set ?ms) \<le> MAX_HUB_CHAN_BINDS"
    by (simp add: uchan_tab_def dom_rec_tab hub_state_new_def MAX_HUB_CHAN_BINDS_def)
qed (auto simp: example_state uchan_on_time_def example_uc_def ts_ahead_def env_at_def LWW_MAX_FUTURE_def
    above_floor_def purge_floor_blocks_def)

text \<open>
  Property C28.  Access fails closed.  On a fresh hub nobody holds a flag or a channel; and
  whatever records are then delivered, in whatever order, a flag check only passes for a uuid some
  delivered valid \<^verbatim>\<open>uf|\<close> record granted that flag or \<^verbatim>\<open>a\<close>.
\<close>

theorem flags_fail_closed:
  assumes "user_has_flag (fold uflag_deliver ms hub_state_new) uuid flag"
  shows "\<exists>e flags ts. (e, uuid, flags, ts) \<in> set ms \<and> uuid_shape uuid \<and> ts > 0 \<and> \<not> ts_ahead e ts \<and>
    (CHR ''a'' \<in> set flags \<or> flag \<in> set flags)"
proof -
  obtain v where v: "uflag_tab (fold uflag_deliver ms hub_state_new) uuid = Some v"
    and fl: "CHR ''a'' \<in> set (snd v) \<or> flag \<in> set (snd v)"
    using assms by (cases "uflag_tab (fold uflag_deliver ms hub_state_new) uuid")
      (auto simp: user_has_flag_def Let_def user_flags_tab)
  have "uflag_tab hub_state_new uuid = None" by (simp add: uflag_tab_def rec_tab_def hub_state_new_def)
  then obtain e u flags t where m: "(e, u, flags, t) \<in> set ms" "uflag_kv (e, u, flags, t) = Some (uuid, v)"
    using uf_lww.deliver_said [OF example_state(1) v] by auto
  then have "u = uuid" using uflag_kv_key by fastforce
  with m fl show ?thesis
    by (fastforce simp: uflag_kv_def dest: uflags_canon_set split: if_splits)
qed

theorem flags_fail_closed_witness:
  "\<exists>e flags ts. (e, example_uuid (CHR ''1''), flags, ts) \<in> set [example_uf 100 50 ''cu''] \<and>
     uuid_shape (example_uuid (CHR ''1'')) \<and> ts > 0 \<and> \<not> ts_ahead e ts \<and> (CHR ''a'' \<in> set flags \<or> CHR ''c'' \<in> set flags)"
  by (rule flags_fail_closed) code_simp


text \<open>
  Nor is a channel ever open by default: on a hub that started empty, an oper
  passes a channel check only when a delivered valid \<^verbatim>\<open>uc|\<close> add bound that very uuid to that
  channel (in any case) or to \<^verbatim>\<open>*\<close>.
\<close>

theorem chans_fail_closed:
  assumes "user_chan_ok (fold uchan_deliver ms hub_state_new) uuid (Some chan)"
  shows "\<exists>e c ts. (e, uuid, c, True, ts) \<in> set ms \<and> uuid_shape uuid \<and> uchan_name_ok c \<and> ts > 0 \<and>
    \<not> ts_ahead e ts \<and> (c = ''*'' \<or> eq_ic c chan)"
proof -
  have init: "uchan_inv hub_state_new \<and> no_floor hub_state_new" using example_state by simp
  then have "uchan_inv (fold uchan_deliver ms hub_state_new)" using uc_lww.lww_join.deliver_inv by blast
  then obtain k v where k: "k = ''*'' \<or> k = lower chan"
    and v: "uchan_tab (fold uchan_deliver ms hub_state_new) (uuid, k) = Some v" "snd v"
    using assms by (auto simp: user_chan_ok_tab split: option.splits)
  have "uchan_tab hub_state_new (uuid, k) = None" by (simp add: uchan_tab_def rec_tab_def hub_state_new_def)
  then obtain e u c a t where m: "(e, u, c, a, t) \<in> set ms" "uchan_kv (e, u, c, a, t) = Some ((uuid, k), v)"
    using uc_lww.deliver_said [OF init v(1)] by auto
  then have "u = uuid" "k = lower c" "a" "uuid_shape uuid" "uchan_name_ok c" "t > 0" "\<not> ts_ahead e t"
    using v(2) by (auto simp: uchan_kv_def uchan_says_def split: if_splits)
  with m(1) k show ?thesis using star_lower [of c] by (auto simp: eq_ic_def)
qed

theorem chans_fail_closed_witness:
  "\<exists>e c ts. (e, example_uuid (CHR ''1''), c, True, ts) \<in> set [example_uc 100 True ''#ops''] \<and>
     uuid_shape (example_uuid (CHR ''1'')) \<and> uchan_name_ok c \<and> ts > 0 \<and> \<not> ts_ahead e ts \<and>
     (c = ''*'' \<or> eq_ic c ''#Ops'')"
  by (rule chans_fail_closed) code_simp


section \<open>The console's binding change\<close>

definition live_chans :: "hub_state \<Rightarrow> string \<Rightarrow> string set" where
  "live_chans s uuid = {k. \<exists>t. uchan_tab s (uuid, k) = Some (t, True)}"

lemma live_chans_of:
  assumes "uchan_inv s"
  shows "live_chans s uuid = (\<lambda>r. lower (uc_chan r)) ` set (live_of s uuid)"
proof -
  have "k \<in> live_chans s uuid \<longleftrightarrow> (\<exists>r \<in> set (uchan_records s). uc_active r \<and> uchan_key r = (uuid, k))" for k
  proof (cases "position (\<lambda>r. uchan_key r = (uuid, k)) (uchan_records s)")
    case None
    then have "\<forall>r \<in> set (uchan_records s). uchan_key r \<noteq> (uuid, k)" by (simp add: position_None)
    with None show ?thesis by (simp add: live_chans_def uchan_tab_def rec_tab_def)
  next
    case (Some i)
    note i = position_SomeD [OF Some]
    have "r = uchan_records s ! i" if "r \<in> set (uchan_records s)" "uchan_key r = (uuid, k)" for r
      using that i assms by (auto simp: uchan_inv_def distinct_map inj_on_def)
    with i Some show ?thesis by (auto simp: live_chans_def uchan_tab_def rec_tab_def)
  qed
  then show ?thesis by (auto simp: live_of_def uchan_key_def image_iff)
qed

text \<open>A write that is newer than what its key holds is always stored.\<close>

definition writable :: "env \<Rightarrow> string \<Rightarrow> i64 \<Rightarrow> string \<Rightarrow> hub_state \<Rightarrow> bool" where
  "writable e uuid ts c s \<longleftrightarrow>
     uchan_inv s \<and> uuid_shape uuid \<and> uchan_name_ok c \<and> ts > 0 \<and> \<not> ts_ahead e ts \<and> \<not> purge_floor_blocks e s ts \<and>
     (case uchan_tab s (uuid, lower c) of None \<Rightarrow> length (uchan_records s) < MAX_HUB_CHAN_BINDS | Some v \<Rightarrow> fst v < ts)"

text \<open>The part of a state that decides later writes of the same change.\<close>

definition same_floor :: "hub_state \<Rightarrow> hub_state \<Rightarrow> bool" where
  "same_floor s s' \<longleftrightarrow> purge_floor s' = purge_floor s \<and> purge_floor_until s' = purge_floor_until s
     \<and> user_records s' = user_records s \<and> uflag_records s' = uflag_records s"

lemma uchan_put_newer:
  assumes "writable e uuid ts c s"
  obtains s' where "uchan_put e uuid c act ts s = (True, s')"
    "uchan_tab s' = (uchan_tab s)((uuid, lower c) \<mapsto> (ts, act))" "uchan_inv s'"
    "length (uchan_records s') = length (uchan_records s) + (if (uuid, lower c) \<in> dom (uchan_tab s) then 0 else 1)"
    "same_floor s s'"
proof -
  obtain ok s' where put: "uchan_put e uuid c act ts s = (ok, s')" by (cases "uchan_put e uuid c act ts s")
  have inv: "uchan_inv s'" using uchan_put_inv [of s e uuid c act ts] assms put by (simp add: writable_def)
  have card: "card (dom (uchan_tab t)) = length (uchan_records t)" if "uchan_inv t" for t
    using that by (simp add: uchan_tab_def uchan_inv_def card_dom_rec_tab)
  have ok: ok
    using assms put uchan_find_tab [of s uuid c] uchan_tab_find [of s uuid c]
    by (auto simp: writable_def uchan_put_def lww_accepts_def Let_def split: option.splits if_splits)
  have tab: "uchan_tab s' = (uchan_tab s)((uuid, lower c) \<mapsto> (ts, act))"
  proof (cases "uchan_find s uuid c")
    case None
    let ?r = "\<lparr>uc_uuid = uuid, uc_chan = c, uc_active = act, uc_ts = ts\<rparr>"
    have "uchan_records s' = uchan_records s @ [?r]"
      using None ok put by (auto simp: uchan_put_def split: if_splits)
    then show ?thesis
      using None rec_tab_snoc [of uchan_key ?r "uchan_records s" "\<lambda>r. (uc_ts r, uc_active r)"]
      by (simp add: uchan_tab_def uchan_find_key uchan_key_def)
  next
    case (Some i)
    let ?r = "(uchan_records s ! i)\<lparr>uc_active := act, uc_ts := ts\<rparr>"
    have "uchan_records s' = (uchan_records s)[i := ?r]"
      using Some ok put by (auto simp: uchan_put_def Let_def split: if_splits)
    moreover have "uchan_key ?r = (uuid, lower c)"
      using Some by (auto simp: uchan_find_key uchan_key_def dest: position_SomeD)
    ultimately show ?thesis
      using Some by (simp add: uchan_tab_def uchan_find_key rec_tab_update)
  qed
  have "uchan_inv s" using assms by (simp add: writable_def)
  then have len: "length (uchan_records s') = length (uchan_records s) + (if (uuid, lower c) \<in> dom (uchan_tab s) then 0 else 1)"
    using card [OF inv] card [of s] tab finite_dom_rec_tab [of uchan_key _ "uchan_records s"]
    by (simp add: uchan_tab_def card_insert_if split: if_splits)
  have "same_floor s s'"
    by (cases rule: uchan_put_cases [of e uuid c act ts s])
      (use put in \<open>auto simp: uchan_store_def same_floor_def\<close>)
  with that [of s'] put ok tab inv len show ?thesis by simp
qed

lemma emit_newer:
  assumes "writable e uuid ts c s"
  obtains n' out' s' where "emit e uuid ts c act (n, out, s) = (True, (n', out', s'))"
    "uchan_tab s' = (uchan_tab s)((uuid, lower c) \<mapsto> (ts, act))" "uchan_inv s'" "same_floor s s'"
    "length (uchan_records s') = length (uchan_records s) + (if (uuid, lower c) \<in> dom (uchan_tab s) then 0 else 1)"
proof -
  obtain s' where "uchan_put e uuid c act ts s = (True, s')"
    "uchan_tab s' = (uchan_tab s)((uuid, lower c) \<mapsto> (ts, act))" "uchan_inv s'"
    "length (uchan_records s') = length (uchan_records s) + (if (uuid, lower c) \<in> dom (uchan_tab s) then 0 else 1)"
    "same_floor s s'"
    by (rule uchan_put_newer [OF assms, of act])
  with that show ?thesis by (simp add: emit_def)
qed

lemma emit_all_newer:
  assumes "\<forall>c \<in> set cs. writable e uuid ts c s \<and> (uuid, lower c) \<in> dom (uchan_tab s)" and "distinct (map lower cs)"
    and "uchan_inv s"
  obtains n' out' s' where "emit_all e uuid ts cs (n, out, s) = (True, (n', out', s'))"
    "uchan_tab s' = (\<lambda>k. if fst k = uuid \<and> snd k \<in> lower ` set cs then Some (ts, False) else uchan_tab s k)"
    "uchan_inv s'" "same_floor s s'" "length (uchan_records s') = length (uchan_records s)"
proof -
  have "\<exists>n' out' s'. emit_all e uuid ts cs (n, out, s) = (True, (n', out', s')) \<and>
      uchan_tab s' = (\<lambda>k. if fst k = uuid \<and> snd k \<in> lower ` set cs then Some (ts, False) else uchan_tab s k) \<and>
      uchan_inv s' \<and> same_floor s s' \<and> length (uchan_records s') = length (uchan_records s)"
    using assms
  proof (induction cs arbitrary: n out s)
    case Nil
    then show ?case by (auto simp: same_floor_def)
  next
    case (Cons c cs)
    have w: "writable e uuid ts c s" using Cons.prems(1) by simp
    obtain n1 out1 s1 where s1: "emit e uuid ts c False (n, out, s) = (True, (n1, out1, s1))"
      "uchan_tab s1 = (uchan_tab s)((uuid, lower c) \<mapsto> (ts, False))" "uchan_inv s1" "same_floor s s1"
      "length (uchan_records s1) = length (uchan_records s)"
      using emit_newer [OF w, of False n out] Cons.prems(1) by auto
    have "writable e uuid ts d s1 \<and> (uuid, lower d) \<in> dom (uchan_tab s1)" if "d \<in> set cs" for d
    proof -
      have "lower d \<noteq> lower c" using that Cons.prems(2) by (metis distinct.simps(2) image_eqI list.set_map list.simps(9))
      then show ?thesis
        using that Cons.prems(1) s1 by (auto simp: writable_def same_floor_def purge_floor_blocks_def)
    qed
    then obtain n' out' s' where "emit_all e uuid ts cs (n1, out1, s1) = (True, (n', out', s'))"
      "uchan_tab s' = (\<lambda>k. if fst k = uuid \<and> snd k \<in> lower ` set cs then Some (ts, False) else uchan_tab s1 k)"
      "uchan_inv s'" "same_floor s1 s'" "length (uchan_records s') = length (uchan_records s1)"
      using Cons.IH [of s1 n1 out1] Cons.prems(2) s1(3) by auto
    with s1 show ?case by (auto simp: same_floor_def fun_eq_iff)
  qed
  with that show ?thesis by blast
qed


lemma foldl_max_ge:
  "p \<le> foldl (\<lambda>p r. max p (f r)) p rs \<and> (\<forall>r \<in> set rs. f r \<le> foldl (\<lambda>p r. max p (f r)) p rs)" for p :: int
proof (induction rs arbitrary: p)
  case (Cons r rs)
  from Cons.IH [of "max p (f r)"] show ?case by auto
qed simp

lemma foldl_max_le: "p < b \<Longrightarrow> \<forall>r \<in> set rs. f r < b \<Longrightarrow> foldl (\<lambda>p r. max p (f r)) p rs < b" for p :: int
  by (induction rs arbitrary: p) auto

text \<open>The stamps a hub can pass on: below the end of the \<^verbatim>\<open>i64\<close> range.\<close>

definition stamps_sane :: "hub_state \<Rightarrow> bool" where
  "stamps_sane s \<longleftrightarrow>
     (\<forall>r \<in> set (uflag_records s). uf_ts r < I64_MAX) \<and> (\<forall>r \<in> set (uchan_records s). uc_ts r < I64_MAX)"

lemma next_ts_newer:
  assumes "uflag_inv s" "stamps_sane s"
  shows "0 < next_ts e s uuid" and "\<And>k v. uchan_tab s (uuid, k) = Some v \<Longrightarrow> fst v < next_ts e s uuid"
proof -
  define p0 where "p0 = (case uflag_find s uuid of None \<Rightarrow> 0 | Some i \<Rightarrow> uf_ts (uflag_records s ! i))"
  define rs where "rs = filter (\<lambda>r. uc_uuid r = uuid) (uchan_records s)"
  define p where "p = foldl (\<lambda>p r. max p (uc_ts r)) p0 rs"
  have "0 < uf_ts (uflag_records s ! i) \<and> uf_ts (uflag_records s ! i) < I64_MAX" if "uflag_find s uuid = Some i" for i
    using that assms by (auto simp: uflag_find_def uflag_inv_def uflag_ok_def stamps_sane_def dest!: position_SomeD)
  then have p0: "0 \<le> p0" "p0 < I64_MAX"
    by (auto simp: p0_def I64_MAX_def less_imp_le split: option.splits)
  have ge: "p0 \<le> p" "\<forall>r \<in> set rs. uc_ts r \<le> p" using foldl_max_ge [of p0 uc_ts rs] by (auto simp: p_def)
  have lt: "p < I64_MAX"
    unfolding p_def using p0(2) assms(2) by (intro foldl_max_le) (auto simp: stamps_sane_def rs_def)
  have "next_ts e s uuid = lww_next_ts e p" by (simp add: next_ts_def p_def p0_def rs_def)
  then have n: "p < next_ts e s uuid"
    using lww_next_ts_gt [of p e] lt p0 ge(1) by (simp add: I64_MIN_def)
  with p0 ge show "0 < next_ts e s uuid" by linarith
  show "fst v < next_ts e s uuid" if v: "uchan_tab s (uuid, k) = Some v" for k v
  proof -
    obtain i where i: "position (\<lambda>r. uchan_key r = (uuid, k)) (uchan_records s) = Some i"
      "v = (uc_ts (uchan_records s ! i), uc_active (uchan_records s ! i))"
      using v by (auto simp: uchan_tab_def rec_tab_def)
    then have "uchan_records s ! i \<in> set rs"
      using position_SomeD [OF i(1)] by (auto simp: uchan_key_def rs_def)
    with ge(2) n i(2) show ?thesis by fastforce
  qed
qed

lemma live_names:
  assumes "uchan_inv s"
  shows "distinct (map (\<lambda>r. lower (uc_chan r)) (live_of s uuid))"
    and "r \<in> set (live_of s uuid) \<Longrightarrow> uchan_name_ok (uc_chan r) \<and> (uuid, lower (uc_chan r)) \<in> dom (uchan_tab s)"
proof -
  have "distinct (map uchan_key (live_of s uuid))"
    using assms by (simp add: uchan_inv_def live_of_def distinct_map_filter)
  moreover have "map uchan_key (live_of s uuid) = map (Pair uuid) (map (\<lambda>r. lower (uc_chan r)) (live_of s uuid))"
    by (auto simp: live_of_def uchan_key_def)
  ultimately show "distinct (map (\<lambda>r. lower (uc_chan r)) (live_of s uuid))" using distinct_map by metis
  show "uchan_name_ok (uc_chan r) \<and> (uuid, lower (uc_chan r)) \<in> dom (uchan_tab s)" if "r \<in> set (live_of s uuid)"
    using that assms
    by (auto simp: live_of_def uchan_inv_def uchan_ok_def uchan_tab_def dom_rec_tab uchan_key_def image_iff)
qed

definition changed_chans :: "bool \<Rightarrow> string \<Rightarrow> string set \<Rightarrow> string set" where
  "changed_chans add chan L =
     (if add then (if chan = ''*'' then {''*''} else insert (lower chan) (L - {''*''}))
      else (if chan = ''*'' then {} else L - {lower chan}))"

lemma emit_star_del_ok:
  assumes "uchan_inv s" "uuid_shape uuid" "ts > 0" "\<not> ts_ahead e ts" "\<not> purge_floor_blocks e s ts"
    "length (uchan_records s) < MAX_HUB_CHAN_BINDS"
  obtains n' out' s' where "emit_star_del e uuid ts (n, out, s) = (True, (n', out', s'))" "uchan_inv s'"
    "\<And>u. live_chans s' u = live_chans s u" "(uuid, ''*'') \<in> dom (uchan_tab s')"
proof (cases "uchan_find s uuid ''*''")
  case None
  then have n: "uchan_tab s (uuid, ''*'') = None" using uchan_find_tab [of s uuid "''*''"] star_lower [of "''*''"] by auto
  then have "writable e uuid ts ''*'' s" using assms star_lower [of "''*''"] by (simp add: writable_def uchan_name_ok_def)
  from emit_newer [OF this, of False n out] obtain n' out' s'
    where s': "emit e uuid ts ''*'' False (n, out, s) = (True, (n', out', s'))"
    "uchan_tab s' = (uchan_tab s)((uuid, lower ''*'') \<mapsto> (ts, False))" "uchan_inv s'" by metis
  have "live_chans s' u = live_chans s u" for u
    using n s'(2) star_lower [of "''*''"] by (auto simp: live_chans_def)
  with that [of n' out' s'] s' None star_lower [of "''*''"] show ?thesis by (simp add: emit_star_del_def)
next
  case (Some i)
  then have "(uuid, ''*'') \<in> dom (uchan_tab s)" using uchan_find_tab [of s uuid "''*''"] star_lower [of "''*''"] by auto
  with that [of n out s] Some assms(1) show ?thesis by (simp add: emit_star_del_def)
qed


lemma chan_change_add:
  assumes inv: "uchan_inv s" and u: "uuid_shape uuid" and c: "uchan_name_ok chan"
    and ts: "ts > 0" "\<not> ts_ahead e ts" "\<not> purge_floor_blocks e s ts"
    and newer: "\<forall>k v. uchan_tab s (uuid, k) = Some v \<longrightarrow> fst v < ts"
    and room: "length (uchan_records s) + 2 \<le> MAX_HUB_CHAN_BINDS"
  shows "\<exists>n1 out1 s1 n2 out2 s2. emit e uuid ts chan True (n, out, s) = (True, (n1, out1, s1)) \<and>
    emit_all e uuid ts (filter (\<lambda>c. if chan = ''*'' then c \<noteq> ''*'' else c = ''*'') (map uc_chan (live_of s1 uuid)))
      (n1, out1, s1) = (True, (n2, out2, s2)) \<and> uchan_inv s2 \<and> same_floor s s2 \<and>
    length (uchan_records s2) < MAX_HUB_CHAN_BINDS \<and>
    live_chans s2 uuid = changed_chans True chan (live_chans s uuid) \<and>
    (\<forall>v. v \<noteq> uuid \<longrightarrow> live_chans s2 v = live_chans s v)"
proof -
  have w: "writable e uuid ts chan s"
    using inv u c ts newer [rule_format, of "lower chan"] room by (auto simp: writable_def split: option.splits)
  from emit_newer [OF w, of True n out] obtain n1 out1 s1 where s1: "emit e uuid ts chan True (n, out, s) = (True, (n1, out1, s1))"
    "uchan_tab s1 = (uchan_tab s)((uuid, lower chan) \<mapsto> (ts, True))" "uchan_inv s1" "same_floor s s1"
    "length (uchan_records s1) = length (uchan_records s) + (if (uuid, lower chan) \<in> dom (uchan_tab s) then 0 else 1)" by metis
  let ?sel = "\<lambda>c. if chan = ''*'' then c \<noteq> ''*'' else c = ''*''"
  let ?cs = "filter ?sel (map uc_chan (live_of s1 uuid))"
  have sel: "lower d \<noteq> lower chan" if "?sel d" for d
    using that star_lower [of d] star_lower [of chan] by (metis star_lower)
  have m: "map lower ?cs = map (\<lambda>r. lower (uc_chan r)) (filter (?sel \<circ> uc_chan) (live_of s1 uuid))"
    by (simp add: filter_map comp_def)
  have d: "distinct (map lower ?cs)"
    unfolding m by (rule distinct_map_filter) (rule live_names(1) [OF s1(3)])
  have W: "writable e uuid ts d s1 \<and> (uuid, lower d) \<in> dom (uchan_tab s1)" if "d \<in> set ?cs" for d
  proof -
    have "uchan_name_ok d" and dom: "(uuid, lower d) \<in> dom (uchan_tab s1)" and "lower d \<noteq> lower chan"
      using that live_names(2) [OF s1(3)] sel [of d] by auto
    then show ?thesis
      using s1 u ts newer [rule_format, of "lower d"] by (auto simp: writable_def same_floor_def purge_floor_blocks_def)
  qed
  have W': "\<forall>d \<in> set ?cs. writable e uuid ts d s1 \<and> (uuid, lower d) \<in> dom (uchan_tab s1)" using W by blast
  obtain n2 out2 s2 where s2: "emit_all e uuid ts ?cs (n1, out1, s1) = (True, (n2, out2, s2))"
    "uchan_tab s2 = (\<lambda>k. if fst k = uuid \<and> snd k \<in> lower ` set ?cs then Some (ts, False) else uchan_tab s1 k)"
    "uchan_inv s2" "same_floor s1 s2" "length (uchan_records s2) = length (uchan_records s1)"
    by (rule emit_all_newer [OF W' d s1(3), of n1 out1])
  have L1: "live_chans s1 uuid = insert (lower chan) (live_chans s uuid)"
    using s1(2) by (auto simp: live_chans_def)
  have cs: "lower ` set ?cs = {k \<in> live_chans s1 uuid. if chan = ''*'' then k \<noteq> ''*'' else k = ''*''}"
  proof -
    have gen: "f ` {d \<in> A. P d} = {k \<in> f ` A. Q k}" if "\<And>d. P d = Q (f d)"
      for f :: "string \<Rightarrow> string" and A P Q using that by auto
    have "set ?cs = {d \<in> uc_chan ` set (live_of s1 uuid). ?sel d}" by auto
    then have "lower ` set ?cs = {k \<in> lower ` (uc_chan ` set (live_of s1 uuid)). ?sel k}"
      using gen [of ?sel ?sel lower] star_lower by presburger
    then show ?thesis by (simp only: live_chans_of [OF s1(3)] image_image)
  qed
  have "live_chans s2 uuid = live_chans s1 uuid - lower ` set ?cs"
    using s2(2) by (auto simp: live_chans_def)
  also have "\<dots> = changed_chans True chan (live_chans s uuid)"
    unfolding cs L1 changed_chans_def using star_lower [of chan] by auto
  finally have "live_chans s2 uuid = changed_chans True chan (live_chans s uuid)" .
  moreover have "live_chans s2 v = live_chans s v" if "v \<noteq> uuid" for v
    using s1(2) s2(2) that by (auto simp: live_chans_def)
  moreover have "same_floor s s2" using s1(4) s2(4) by (simp add: same_floor_def)
  moreover have "length (uchan_records s2) < MAX_HUB_CHAN_BINDS" using s1(5) s2(5) room by auto
  ultimately show ?thesis using s1(1) s2 by auto
qed

lemma chan_change_clear:
  assumes inv: "uchan_inv s" and u: "uuid_shape uuid"
    and ts: "ts > 0" "\<not> ts_ahead e ts" "\<not> purge_floor_blocks e s ts"
    and newer: "\<forall>k v. uchan_tab s (uuid, k) = Some v \<longrightarrow> fst v < ts"
  shows "\<exists>n1 out1 s1. emit_all e uuid ts (map uc_chan (live_of s uuid)) (n, out, s) = (True, (n1, out1, s1)) \<and>
    uchan_inv s1 \<and> same_floor s s1 \<and> length (uchan_records s1) = length (uchan_records s) \<and>
    live_chans s1 uuid = {} \<and> (\<forall>v. v \<noteq> uuid \<longrightarrow> live_chans s1 v = live_chans s v)"
proof -
  let ?cs = "map uc_chan (live_of s uuid)"
  have "writable e uuid ts d s \<and> (uuid, lower d) \<in> dom (uchan_tab s)" if "d \<in> set ?cs" for d
  proof -
    have d: "uchan_name_ok d" "(uuid, lower d) \<in> dom (uchan_tab s)" using that live_names(2) [OF inv] by auto
    then obtain v where "uchan_tab s (uuid, lower d) = Some v" by blast
    with d inv u ts newer [rule_format, of "lower d"] show ?thesis by (simp add: writable_def)
  qed
  then have W: "\<forall>d \<in> set ?cs. writable e uuid ts d s \<and> (uuid, lower d) \<in> dom (uchan_tab s)" by blast
  have d: "distinct (map lower ?cs)" using live_names(1) [OF inv] by (simp add: comp_def)
  obtain n1 out1 s1 where s1: "emit_all e uuid ts ?cs (n, out, s) = (True, (n1, out1, s1))"
    "uchan_tab s1 = (\<lambda>k. if fst k = uuid \<and> snd k \<in> lower ` set ?cs then Some (ts, False) else uchan_tab s k)"
    "uchan_inv s1" "same_floor s s1" "length (uchan_records s1) = length (uchan_records s)"
    by (rule emit_all_newer [OF W d inv, of n out])
  have "lower ` set ?cs = live_chans s uuid" by (simp add: live_chans_of [OF inv] image_image)
  then have "live_chans s1 uuid = {}" using s1(2) by (auto simp: live_chans_def)
  moreover have "live_chans s1 v = live_chans s v" if "v \<noteq> uuid" for v
    using s1(2) that by (auto simp: live_chans_def)
  ultimately show ?thesis using s1 by auto
qed

text \<open>
  Property C32.  A console binding change does what it says.  On a well-formed table with room
  for two records, for a valid user and channel and a stamp no clock or purge floor rejects,
  \<^verbatim>\<open>chan_change\<close> succeeds, keeps the table well-formed, and leaves the user bound to exactly:
  only \<^verbatim>\<open>*\<close> after adding \<^verbatim>\<open>*\<close>; the channel and the old channels but not \<^verbatim>\<open>*\<close> after adding a
  channel; nothing after removing \<^verbatim>\<open>*\<close>; the rest after removing a channel.  No other user's
  bindings change.
\<close>

theorem chan_change_correct:
  assumes inv: "uchan_inv s" "uflag_inv s" "stamps_sane s" and u: "uuid_shape uuid" and c: "uchan_name_ok chan"
    and ts: "\<not> ts_ahead e (next_ts e s uuid)" "\<not> purge_floor_blocks e s (next_ts e s uuid)"
    and room: "length (uchan_records s) + 2 \<le> MAX_HUB_CHAN_BINDS"
  shows "\<exists>n out' s'. chan_change e uuid add chan out s = (Some n, out', s') \<and> uchan_inv s' \<and>
    live_chans s' uuid = changed_chans add chan (live_chans s uuid) \<and>
    (\<forall>v. v \<noteq> uuid \<longrightarrow> live_chans s' v = live_chans s v)"
proof -
  let ?ts = "next_ts e s uuid"
  have pos: "0 < ?ts" and newer: "\<forall>k v. uchan_tab s (uuid, k) = Some v \<longrightarrow> fst v < ?ts"
    using next_ts_newer [OF inv(2,3)] by blast+
  consider (add) add | (clear) "\<not> add" "chan = ''*''" | (del) "\<not> add" "chan \<noteq> ''*''" by blast
  then show ?thesis
  proof cases
    case add
    obtain n1 out1 s1 n2 out2 s2 where 1: "emit e uuid ?ts chan True (0, out, s) = (True, (n1, out1, s1))"
      "emit_all e uuid ?ts (filter (\<lambda>c. if chan = ''*'' then c \<noteq> ''*'' else c = ''*'') (map uc_chan (live_of s1 uuid)))
        (n1, out1, s1) = (True, (n2, out2, s2))" "uchan_inv s2" "same_floor s s2" "length (uchan_records s2) < MAX_HUB_CHAN_BINDS"
      "live_chans s2 uuid = changed_chans True chan (live_chans s uuid)"
      "\<forall>v. v \<noteq> uuid \<longrightarrow> live_chans s2 v = live_chans s v"
      using chan_change_add [where n = 0 and out = out, OF inv(1) u c pos ts newer room]
      by blast
    have nb: "\<not> purge_floor_blocks e s2 ?ts" using ts(2) 1(4) by (simp add: same_floor_def purge_floor_blocks_def)
    show ?thesis
    proof (cases "chan = ''*''")
      case True
      with 1 add show ?thesis by (simp add: chan_change_def Let_def)
    next
      case False
      obtain n3 out3 s3 where "emit_star_del e uuid ?ts (n2, out2, s2) = (True, (n3, out3, s3))" "uchan_inv s3"
        "\<And>v. live_chans s3 v = live_chans s2 v"
        using emit_star_del_ok [OF 1(3) u pos ts(1) nb 1(5), of n2 out2] by metis
      with 1 add False show ?thesis by (simp add: chan_change_def Let_def)
    qed
  next
    case clear
    obtain n2 out2 s1 where 1: "emit_all e uuid ?ts (map uc_chan (live_of s uuid)) (0, out, s) = (True, (n2, out2, s1))"
      "uchan_inv s1" "same_floor s s1" "length (uchan_records s1) = length (uchan_records s)"
      "live_chans s1 uuid = {}" "\<forall>v. v \<noteq> uuid \<longrightarrow> live_chans s1 v = live_chans s v"
      using chan_change_clear [where n = 0 and out = out, OF inv(1) u pos ts newer] by blast
    have nb: "\<not> purge_floor_blocks e s1 ?ts" using ts(2) 1(3) by (simp add: same_floor_def purge_floor_blocks_def)
    have rm: "length (uchan_records s1) < MAX_HUB_CHAN_BINDS" using 1(4) room by simp
    obtain n3 out3 s3 where "emit_star_del e uuid ?ts (n2, out2, s1) = (True, (n3, out3, s3))" "uchan_inv s3"
      "\<And>v. live_chans s3 v = live_chans s1 v"
      using emit_star_del_ok [OF 1(2) u pos ts(1) nb rm, of n2 out2] by metis
    with 1 clear show ?thesis by (simp add: chan_change_def Let_def changed_chans_def)
  next
    case del
    have w: "writable e uuid ?ts chan s"
      using inv u c ts pos newer [rule_format, of "lower chan"] room by (auto simp: writable_def split: option.splits)
    from emit_newer [OF w, of False 0 out] obtain n1 out1 s1 where
      "emit e uuid ?ts chan False (0, out, s) = (True, (n1, out1, s1))"
      "uchan_tab s1 = (uchan_tab s)((uuid, lower chan) \<mapsto> (?ts, False))" "uchan_inv s1" by metis
    with del show ?thesis by (auto simp: chan_change_def Let_def changed_chans_def live_chans_def)
  qed
qed


lemma example_uuid_shape: "uuid_shape (example_uuid (CHR ''1''))"
  by code_simp

theorem chan_change_correct_witness:
  "\<exists>n out' s'. chan_change (env_at 100) (example_uuid (CHR ''1'')) True ''#Ops'' [] hub_state_new = (Some n, out', s')
     \<and> uchan_inv s' \<and> live_chans s' (example_uuid (CHR ''1'')) = {''#ops''}"
proof -
  have L: "live_chans hub_state_new u = {}" for u
    by (simp add: live_chans_def uchan_tab_def rec_tab_def hub_state_new_def)
  have "lower ''#Ops'' = ''#ops''" by code_simp
  then have c: "changed_chans True ''#Ops'' {} = {''#ops''}" by (simp add: changed_chans_def)
  have "uchan_name_ok ''#Ops''" by code_simp
  moreover have "next_ts (env_at 100) hub_state_new (example_uuid (CHR ''1'')) = 100" by code_simp
  moreover have "\<not> ts_ahead (env_at 100) 100" "\<not> purge_floor_blocks (env_at 100) hub_state_new 100" by code_simp+
  moreover have "stamps_sane hub_state_new" "length (uchan_records hub_state_new) + 2 \<le> MAX_HUB_CHAN_BINDS"
    by (simp_all add: stamps_sane_def hub_state_new_def MAX_HUB_CHAN_BINDS_def)
  ultimately show ?thesis
    using chan_change_correct [OF example_state(2,1), of "example_uuid (CHR ''1'')" "''#Ops''" "env_at 100" True "[]"]
      example_uuid_shape L c by auto
qed

section \<open>Round trip of the record lines\<close>

lemma trim_eol_line:
  assumes "body = [] \<or> (last body \<noteq> CHR 0x0A \<and> last body \<noteq> CHR 0x0D)"
  shows "trim_eol (body @ [CHR 0x0A]) = body"
  using assms by (cases body rule: rev_cases) (auto simp: trim_eol_def)

lemma show_int_last: "show_int n \<noteq> [] \<and> last (show_int n) \<noteq> CHR 0x0A \<and> last (show_int n) \<noteq> CHR 0x0D"
proof -
  have ne: "show_nat k \<noteq> []" for k by (subst show_nat.simps) auto
  then have "show_int n \<noteq> []" by (auto simp: show_int_def)
  moreover have "CHR 0x0A \<notin> set (show_int n)" "CHR 0x0D \<notin> set (show_int n)"
    by (rule set_show_int_notin; simp add: is_digit_def)+
  ultimately show ?thesis using last_in_set by metis
qed

lemma uuid_shape_no_bar: "uuid_shape u \<Longrightarrow> CHR ''|'' \<notin> set u"
  by (fastforce simp: uuid_shape_def in_set_conv_nth is_hexdigit_def is_digit_def split: if_splits)

lemma uflags_no_bar:
  assumes "uflags_canon f = Some f"
  shows "CHR ''|'' \<notin> set f \<and> length f \<le> 6"
proof -
  have sub: "set f \<subseteq> set USER_FLAG_LETTERS" and eq: "f = flags_of (set f)"
    using assms by (auto simp: uflags_canon_flags split: if_splits)
  have "length (flags_of (set f)) \<le> 6"
    using length_filter_le [of "\<lambda>l. l \<in> set f" USER_FLAG_LETTERS] by (simp add: flags_of_def)
  then have "length f \<le> 6" using eq by simp
  moreover have "CHR ''|'' \<notin> set USER_FLAG_LETTERS" by (simp add: USER_FLAG_LETTERS_def)
  ultimately show ?thesis using sub by blast
qed


lemma length_show_int:
  assumes "in_i64 n"
  shows "length (show_int n) \<le> 20"
proof -
  have "nat n < 10 ^ 19" "nat (- n) < 10 ^ 19"
    using assms unfolding in_i64_def I64_MAX_def I64_MIN_def by simp_all linarith+
  then have "length (show_nat (nat n)) \<le> 19" "length (show_nat (nat (- n))) \<le> 19"
    by (auto intro: length_show_nat)
  then show ?thesis by (simp add: show_int_def)
qed

lemma ingest_uf:
  assumes "length body < UC_LINE_MAX" and "splitn 6 (CHR ''|'') (trim_eol body) = [a, b, t]"
    and "need_user \<longrightarrow> (\<exists>u \<in> set (user_records s). u_uuid u = a)"
  shows "ingest e (CHR ''f'') body need_user s = (let (x, s') = uflag_put e a b (atoll t) s in (Some x, s'))"
  using assms by (auto simp: ingest_def Let_def)

lemma ingest_uc:
  assumes "length body < UC_LINE_MAX" and "splitn 6 (CHR ''|'') (trim_eol body) = [a, b, op, t]"
    and "op = ''add'' \<or> op = ''del''" and "need_user \<longrightarrow> (\<exists>u \<in> set (user_records s). u_uuid u = a)"
  shows "ingest e (CHR ''c'') body need_user s =
    (let (x, s') = uchan_put e a b (op = ''add'') (atoll t) s in (Some x, s'))"
  using assms by (auto simp: ingest_def Let_def)

text \<open>
  Property C37.  Every record the hub writes, it reads back: ingesting the body of a formatted
  \<^verbatim>\<open>uf|\<close> or \<^verbatim>\<open>uc|\<close> line of a well-formed record is exactly the store's own \<^verbatim>\<open>uflag_put\<close> or
  \<^verbatim>\<open>uchan_put\<close> of that record (never a parse error), provided the user is known where that is
  required.
\<close>

theorem access_line_roundtrip:
  assumes "uflag_ok r" "in_i64 (uf_ts r)" "uchan_ok c" "in_i64 (uc_ts c)"
    and "need_user \<longrightarrow> (\<exists>u \<in> set (user_records s). u_uuid u = uf_uuid r) \<and> (\<exists>u \<in> set (user_records s). u_uuid u = uc_uuid c)"
  shows "ingest e (CHR ''f'') (drop 3 (format_uflag r)) need_user s =
      (let (b, s') = uflag_put e (uf_uuid r) (uf_flags r) (uf_ts r) s in (Some b, s')) \<and>
    ingest e (CHR ''c'') (drop 3 (format_uchan c)) need_user s =
      (let (b, s') = uchan_put e (uc_uuid c) (uc_chan c) (uc_active c) (uc_ts c) s in (Some b, s'))"
proof -
  let ?bar = "CHR ''|''"
  have nb: "CHR ''|'' \<notin> set (show_int n)" for n by (rule set_show_int_notin) (simp_all add: is_digit_def)
  have trim: "trim_eol (x @ show_int n @ [CHR 0x0A]) = x @ show_int n" for x n
    using trim_eol_line [of "x @ show_int n"] show_int_last [of n] by simp
  let ?f = "[uf_uuid r, uf_flags r, show_int (uf_ts r)]"
  have f: "drop 3 (format_uflag r) = join_with ?bar ?f @ [CHR 0x0A]" by (simp add: format_uflag_def)
  have u: "CHR ''|'' \<notin> set (uf_uuid r)" "length (uf_uuid r) = 36"
    using assms(1) uuid_shape_no_bar by (auto simp: uflag_ok_def uuid_shape_def)
  have fl: "CHR ''|'' \<notin> set (uf_flags r)" "length (uf_flags r) \<le> 6"
    using assms(1) uflags_no_bar by (auto simp: uflag_ok_def)
  have sf: "splitn 6 ?bar (join_with ?bar ?f) = ?f" using u fl nb by (intro splitn_join) auto
  have tf: "trim_eol (join_with ?bar ?f @ [CHR 0x0A]) = join_with ?bar ?f"
    using trim [of "uf_uuid r @ ?bar # uf_flags r @ [?bar]"] by simp
  have lf: "length (drop 3 (format_uflag r)) < UC_LINE_MAX"
    using u fl length_show_int [OF assms(2)] by (simp add: f UC_LINE_MAX_def)
  let ?op = "if uc_active c then ''add'' else ''del''"
  let ?c = "[uc_uuid c, uc_chan c, ?op, show_int (uc_ts c)]"
  have c: "drop 3 (format_uchan c) = join_with ?bar ?c @ [CHR 0x0A]" by (simp add: format_uchan_def)
  have cu: "CHR ''|'' \<notin> set (uc_uuid c)" "length (uc_uuid c) = 36"
    using assms(3) uuid_shape_no_bar by (auto simp: uchan_ok_def uuid_shape_def)
  have cc: "CHR ''|'' \<notin> set (uc_chan c)" "length (uc_chan c) < 65"
    using assms(3) by (auto simp: uchan_ok_def uchan_name_ok_def MAX_CHAN_def split: if_splits)
  have sc: "splitn 6 ?bar (join_with ?bar ?c) = ?c" using cu cc nb by (intro splitn_join) auto
  have tc: "trim_eol (join_with ?bar ?c @ [CHR 0x0A]) = join_with ?bar ?c"
    using trim [of "uc_uuid c @ ?bar # uc_chan c @ ?bar # ?op @ [?bar]"] by simp
  have lc: "length (drop 3 (format_uchan c)) < UC_LINE_MAX"
    using cu cc length_show_int [OF assms(4)] by (simp add: c UC_LINE_MAX_def)
  have "ingest e (CHR ''f'') (drop 3 (format_uflag r)) need_user s =
      (let (b, s') = uflag_put e (uf_uuid r) (uf_flags r) (uf_ts r) s in (Some b, s'))"
    using assms(5) ingest_uf [OF lf, of "uf_uuid r" "uf_flags r" "show_int (uf_ts r)"] sf tf
    by (simp add: f atoll_show_int [OF assms(2)] del: join_with.simps)
  moreover have "ingest e (CHR ''c'') (drop 3 (format_uchan c)) need_user s =
      (let (b, s') = uchan_put e (uc_uuid c) (uc_chan c) (uc_active c) (uc_ts c) s in (Some b, s'))"
    using assms(5) ingest_uc [OF lc, of "uc_uuid c" "uc_chan c" ?op "show_int (uc_ts c)"] sc tc
    by (simp add: c atoll_show_int [OF assms(4)] del: join_with.simps)
  ultimately show ?thesis by blast
qed

definition example_uflag :: uflag_record where
  "example_uflag = \<lparr>uf_uuid = example_uuid (CHR ''1''), uf_flags = ''cu'', uf_ts = 50\<rparr>"

definition example_uchan :: uchan_record where
  "example_uchan = \<lparr>uc_uuid = example_uuid (CHR ''1''), uc_chan = ''#ops'', uc_active = True, uc_ts = 50\<rparr>"

theorem access_line_roundtrip_witness:
  "fst (ingest (env_at 100) (CHR ''f'') (drop 3 (format_uflag example_uflag)) False hub_state_new) = Some True"
proof -
  have "uflag_ok example_uflag" "uchan_ok example_uchan" "in_i64 50"
    "fst (uflag_put (env_at 100) (uf_uuid example_uflag) (uf_flags example_uflag) (uf_ts example_uflag) hub_state_new)"
    by code_simp+
  then show ?thesis
    using access_line_roundtrip [of example_uflag example_uchan False hub_state_new "env_at 100"]
    by (simp add: example_uflag_def example_uchan_def case_prod_beta)
qed


section \<open>Purging never widens access\<close>

lemma prune_uchans_filter:
  "distinct (map uchan_key (kept @ rs)) \<Longrightarrow>
     prune_uchans users kept rs = kept @ filter (\<lambda>r. uc_uuid r \<in> set users) rs"
proof (induction users kept rs rule: prune_uchans.induct)
  case (2 users kept r rs)
  have "\<not> (\<exists>k \<in> set kept. uc_uuid k = uc_uuid r \<and> eq_ic (uc_chan k) (uc_chan r))"
    using "2.prems" by (auto simp: uchan_key_def eq_ic_def image_iff)
  with 2 show ?case by auto
qed simp

lemma prune_uflags_filter:
  "distinct (map uf_uuid (kept @ rs)) \<Longrightarrow>
     prune_uflags users kept rs = kept @ filter (\<lambda>r. uf_uuid r \<in> set users) rs"
proof (induction users kept rs rule: prune_uflags.induct)
  case (2 users kept r rs)
  have "\<not> (\<exists>k \<in> set kept. uf_uuid k = uf_uuid r)" using "2.prems" by (auto simp: image_iff)
  with 2 show ?case by (auto simp: distinct_map)
qed simp

lemma prune_records:
  assumes "uflag_inv s" "uchan_inv s"
  shows "uflag_records (prune s) = filter (\<lambda>r. uf_uuid r \<in> u_uuid ` set (user_records s)) (uflag_records s)"
    and "uchan_records (prune s) = filter (\<lambda>r. uc_uuid r \<in> u_uuid ` set (user_records s)) (uchan_records s)"
  using assms prune_uflags_filter [of "[]" "uflag_records s"] prune_uchans_filter [of "[]" "uchan_records s"]
  by (simp_all add: prune_def uflag_inv_def uchan_inv_def)

lemma filter_inv:
  assumes "uchan_inv s" and "uchan_records s' = filter P (uchan_records s)"
  shows "uchan_inv s'"
  using assms by (auto simp: uchan_inv_def distinct_map_filter intro: le_trans [OF length_filter_le])

lemma uflag_filter_inv:
  assumes "uflag_inv s" and "uflag_records s' = filter P (uflag_records s)"
  shows "uflag_inv s'"
  using assms by (auto simp: uflag_inv_def distinct_map_filter intro: le_trans [OF length_filter_le])

lemma purge_records:
  assumes "uflag_inv s" "uchan_inv s"
  shows "uchan_records (snd (purge cutoff s)) =
      filter (\<lambda>r. uc_uuid r \<in> u_uuid ` set (user_records s) \<and> \<not> purge_drops s cutoff r) (uchan_records s)"
    and "uflag_records (snd (purge cutoff s)) = filter (\<lambda>r. uf_uuid r \<in> u_uuid ` set (user_records s)) (uflag_records s)"
    and "user_records (snd (purge cutoff s)) = user_records s"
proof -
  let ?s1 = "s\<lparr>uchan_records := filter (\<lambda>r. \<not> purge_drops s cutoff r) (uchan_records s)\<rparr>"
  have "uflag_inv ?s1" "uchan_inv ?s1"
    using assms(1) filter_inv [OF assms(2), of ?s1] by (auto simp: uflag_inv_def)
  from prune_records [OF this]
  show "uchan_records (snd (purge cutoff s)) =
      filter (\<lambda>r. uc_uuid r \<in> u_uuid ` set (user_records s) \<and> \<not> purge_drops s cutoff r) (uchan_records s)"
    "uflag_records (snd (purge cutoff s)) = filter (\<lambda>r. uf_uuid r \<in> u_uuid ` set (user_records s)) (uflag_records s)"
    "user_records (snd (purge cutoff s)) = user_records s"
    by (simp_all add: purge_def Let_def prune_def conj_commute)
qed

lemma uchan_put_other:
  assumes "k \<noteq> (uuid, lower c)"
  shows "uchan_tab (snd (uchan_put e uuid c act ts s)) k = uchan_tab s k"
proof (cases rule: uchan_put_cases [of e uuid c act ts s])
  case (changed i)
  let ?r = "(uchan_records s ! i)\<lparr>uc_active := act, uc_ts := ts\<rparr>"
  have "uchan_key ?r = (uuid, lower c)"
    using changed(2) by (auto simp: uchan_find_key uchan_key_def dest: position_SomeD)
  with changed assms show ?thesis by (simp add: uchan_tab_def uchan_find_key rec_tab_update)
next
  case (added s1)
  let ?r = "\<lparr>uc_uuid = uuid, uc_chan = c, uc_active = act, uc_ts = ts\<rparr>"
  from added assms show ?thesis
    using rec_tab_snoc [of uchan_key ?r "uchan_records s" "\<lambda>r. (uc_ts r, uc_active r)"]
    by (simp add: uchan_tab_def uchan_find_key uchan_key_def)
qed simp

lemma uflag_put_uchan [simp]: "uchan_records (snd (uflag_put e uuid flags ts s)) = uchan_records s"
  by (auto simp: uflag_put_def uflag_store_def Let_def split: option.splits)

lemma migrate_user_keeps:
  assumes "uchan_tab s (uuid, ''*'') = Some v"
  shows "uchan_tab (snd (migrate_user e ut (made, s))) (uuid, ''*'') = Some v"
proof -
  have dom: "\<exists>r \<in> set (uchan_records s). uc_uuid r = uuid"
    using assms by (auto simp: uchan_tab_def rec_tab_def uchan_key_def dest!: position_SomeD)
  have t: "uchan_tab (snd (uflag_put e u f t s)) = uchan_tab s" for u f t by (simp add: uchan_tab_def)
  show ?thesis
    using assms dom uchan_put_other [of "(uuid, ''*'')" "fst ut" "''*''" e True USER_ACCESS_MIGRATE_TS s] t
    by (cases "fst ut = uuid") (auto simp: migrate_user_def case_prod_beta Let_def)
qed

text \<open>
  Property C29.  A channel-bound oper stays channel-bound: the \<^verbatim>\<open>*\<close> tombstone of a live user
  survives every purge, at any cutoff, and a migration that runs after it leaves the oper without
  a live \<^verbatim>\<open>*\<close> binding.
\<close>

theorem purge_migrate_no_escalation:
  assumes "uflag_inv s" "uchan_inv s" and "uchan_tab s (uuid, ''*'') = Some (t, False)"
    and "\<exists>u \<in> set (user_records s). u_uuid u = uuid \<and> u_is_active u"
  shows "uchan_tab (snd (migrate e (snd (purge cutoff s)))) (uuid, ''*'') = Some (t, False)"
proof -
  let ?s = "snd (purge cutoff s)"
  have d: "distinct (map uchan_key (uchan_records s))" using assms(2) by (simp add: uchan_inv_def)
  obtain r where r: "r \<in> set (uchan_records s)" "uchan_key r = (uuid, ''*'')" "uc_ts r = t" "\<not> uc_active r"
    using assms(3) unfolding uchan_tab_def rec_tab_mem [OF d] by auto
  then have "uc_chan r = ''*''" "uc_uuid r = uuid" using star_lower [of "uc_chan r"] by (auto simp: uchan_key_def)
  moreover have "uuid \<in> u_uuid ` set (user_records s)" using assms(4) by blast
  ultimately have "r \<in> set (uchan_records ?s)"
    using r assms(4) by (auto simp: purge_records [OF assms(1,2)] purge_drops_def)
  moreover have "distinct (map uchan_key (uchan_records ?s))"
    unfolding purge_records(1) [OF assms(1,2)] by (rule distinct_map_filter) (rule d)
  ultimately have "uchan_tab ?s (uuid, ''*'') = Some (t, False)"
    using r unfolding uchan_tab_def by (subst rec_tab_mem) auto
  then have "uchan_tab (snd (fold (migrate_user e) us (n, ?s))) (uuid, ''*'') = Some (t, False)" for us n
  proof (induction us arbitrary: n rule: rev_induct)
    case (snoc ut us)
    obtain n' s' where f: "fold (migrate_user e) us (n, ?s) = (n', s')" by fastforce
    have "uchan_tab s' (uuid, ''*'') = Some (t, False)" using snoc.IH [OF snoc.prems, of n] f by simp
    from migrate_user_keeps [OF this, of e ut n'] f show ?case by simp
  qed simp
  then show ?thesis by (simp add: migrate_def Let_def)
qed

definition example_oper :: user_record where
  "example_oper = \<lparr>u_uuid = example_uuid (CHR ''1''), u_name = ''ann'', u_pubkey_b64 = [], u_has_pubkey = False,
     u_typ = CHR ''o'', u_is_active = True, u_last_seen = 0, u_ts = 10\<rparr>"

definition example_bound :: hub_state where
  "example_bound = snd (uchan_put (env_at 100) (example_uuid (CHR ''1'')) ''*'' False 50
     (hub_state_new\<lparr>user_records := [example_oper]\<rparr>))"

theorem purge_migrate_no_escalation_witness:
  "uchan_tab (snd (migrate (env_at 200) (snd (purge 0 example_bound)))) (example_uuid (CHR ''1''), ''*'') = Some (50, False)"
proof (rule purge_migrate_no_escalation)
  have "uchan_inv (hub_state_new\<lparr>user_records := [example_oper]\<rparr>)"
    by (simp add: uchan_inv_def hub_state_new_def)
  then show "uchan_inv example_bound" unfolding example_bound_def by (rule uchan_put_inv)
  show "uflag_inv example_bound" "uchan_tab example_bound (example_uuid (CHR ''1''), ''*'') = Some (50, False)"
    "\<exists>u \<in> set (user_records example_bound). u_uuid u = example_uuid (CHR ''1'') \<and> u_is_active u"
    by code_simp+
qed


section \<open>The admin floor brings a full admin back\<close>

definition is_full :: "hub_state \<Rightarrow> user_record \<Rightarrow> bool" where
  "is_full s u \<longleftrightarrow> u_typ u = CHR ''a'' \<and> u_is_active u \<and> has_full s u"

text \<open>A candidate: a deleted admin that holds \<^verbatim>\<open>a\<close>, or one whose \<^verbatim>\<open>uf|\<close> is a logged drop of \<^verbatim>\<open>a\<close>.\<close>

definition floor_cand :: "hub_state \<Rightarrow> user_record \<Rightarrow> bool" where
  "floor_cand s u \<longleftrightarrow> u_typ u = CHR ''a'' \<and> (floor_dropped s u \<or> (has_full s u \<and> \<not> u_is_active u))"

definition cands_of :: "hub_state \<Rightarrow> (nat \<times> user_record) list \<Rightarrow> (nat \<times> i64) list" where
  "cands_of s us = map (\<lambda>(i, u). (i, floor_stamp s u)) (filter (\<lambda>(i, u). floor_cand s u) us)"

lemma floor_scan_spec:
  "floor_scan s us cand newest =
     (if \<exists>(i, u) \<in> set us. is_full s u then None
      else Some (cand @ cands_of s us, foldl max newest (map snd (cands_of s us))))"
proof (induction us arbitrary: cand newest)
  case Nil
  then show ?case by (simp add: cands_of_def)
next
  case (Cons iu us)
  obtain i u where iu: "iu = (i, u)" by (cases iu)
  consider (other) "u_typ u \<noteq> CHR ''a''" | (full) "is_full s u"
    | (skip) "u_typ u = CHR ''a''" "\<not> is_full s u" "\<not> floor_cand s u" | (cand) "\<not> is_full s u" "floor_cand s u"
    by blast
  then show ?case
  proof cases
    case other
    then have "\<not> is_full s u" "\<not> floor_cand s u" by (simp_all add: is_full_def floor_cand_def)
    with other Cons.IH iu show ?thesis by (simp add: cands_of_def)
  next
    case full
    then show ?thesis by (simp add: iu is_full_def)
  next
    case skip
    then have "floor_scan s (iu # us) cand newest = floor_scan s us cand newest"
      by (auto simp: iu is_full_def floor_cand_def)
    with skip Cons.IH iu show ?thesis by (simp add: cands_of_def)
  next
    case cand
    then have "floor_scan s (iu # us) cand newest =
        floor_scan s us (cand @ [(i, floor_stamp s u)]) (max newest (floor_stamp s u))"
      by (auto simp: iu is_full_def floor_cand_def Let_def)
    with cand Cons.IH iu show ?thesis by (simp add: cands_of_def)
  qed
qed

lemma foldl_max_in: "foldl max a xs = a \<or> foldl max a xs \<in> set xs" for a :: int
proof (induction xs arbitrary: a)
  case (Cons x xs)
  from Cons.IH [of "max a x"] show ?case by (auto simp: max_def split: if_splits)
qed simp

text \<open>What every restore keeps of the state it started from.\<close>

definition floor_keeps :: "hub_state \<Rightarrow> hub_state \<Rightarrow> bool" where
  "floor_keeps s0 s \<longleftrightarrow> uflag_inv s \<and>
     length (user_records s) = length (user_records s0) \<and>
     (\<forall>i < length (user_records s0).
        u_uuid (user_records s ! i) = u_uuid (user_records s0 ! i) \<and>
        u_typ (user_records s ! i) = u_typ (user_records s0 ! i)) \<and>
     (\<forall>uuid. CHR ''a'' \<in> set (user_flags s uuid) \<or>
        (uflag_tab s uuid = uflag_tab s0 uuid \<and> CHR ''a'' \<notin> set (user_flags s0 uuid)))"

lemma floor_keeps_refl: "uflag_inv s \<Longrightarrow> floor_keeps s s"
  by (auto simp: floor_keeps_def)

lemma restore_user_effect:
  assumes "restore_user ci s = (o1, s1)" and "ci < length (user_records s)"
  shows "uflag_records s1 = uflag_records s" "length (user_records s1) = length (user_records s)"
    "u_is_active (user_records s1 ! ci)"
    "\<And>i. i < length (user_records s) \<Longrightarrow> u_uuid (user_records s1 ! i) = u_uuid (user_records s ! i) \<and>
       u_typ (user_records s1 ! i) = u_typ (user_records s ! i) \<and>
       (u_is_active (user_records s ! i) \<longrightarrow> u_is_active (user_records s1 ! i))"
  using assms by (auto simp: restore_user_def restore_masks_def Let_def nth_list_update split: if_splits)

lemma user_flags_cong: "uflag_records s1 = uflag_records s \<Longrightarrow> user_flags s1 = user_flags s"
  by (rule ext) (simp add: user_flags_def uflag_find_def split: option.split)

lemma uflag_tab_cong: "uflag_records s1 = uflag_records s \<Longrightarrow> uflag_tab s1 = uflag_tab s"
  by (simp add: uflag_tab_def)

lemma uflag_put_users [simp]: "user_records (snd (uflag_put e uuid flags ts s)) = user_records s"
  by (auto simp: uflag_put_def uflag_store_def Let_def split: option.splits)

text \<open>Putting \<^verbatim>\<open>a\<close> back one second after the stored stamp.\<close>

lemma uflag_raise:
  assumes "uflag_inv s" and "uflag_tab s uuid = Some (t, f)" and "t < I64_MAX" and "\<not> ts_ahead e (t + 1)"
  shows "uflag_tab (snd (uflag_put e uuid ''a'' (saturating_add_i64 t 1) s)) = (uflag_tab s)(uuid \<mapsto> (t + 1, ''a''))"
    and "fst (uflag_put e uuid ''a'' (saturating_add_i64 t 1) s)"
proof -
  obtain i where i: "uflag_find s uuid = Some i" using assms(2) uflag_find_tab [of s uuid] by fastforce
  then have r: "uf_ts (uflag_records s ! i) = t" "uf_flags (uflag_records s ! i) = f"
    using uflag_tab_find [OF i] assms(2) by auto
  have "uflag_ok (uflag_records s ! i)" "uf_uuid (uflag_records s ! i) = uuid"
    using i assms(1) by (auto simp: uflag_inv_def uflag_find_def dest!: position_SomeD)
  then have u: "uuid_shape uuid" "0 < t" using r by (auto simp: uflag_ok_def)
  have sat: "saturating_add_i64 t 1 = t + 1"
    using assms(3) u by (simp add: saturating_add_i64_def I64_MAX_def I64_MIN_def)
  have canon: "uflags_canon ''a'' = Some ''a''" by code_simp
  then have kv: "uflag_kv (e, uuid, ''a'', t + 1) = Some (uuid, t + 1, ''a'')"
    using u assms(4) by (simp add: uflag_kv_def)
  have "uuid \<in> dom (uflag_tab s)" using assms(2) by auto
  then have "uflag_tab (snd (uflag_put e uuid ''a'' (t + 1) s)) = lww_put uflag_beats (uuid, t + 1, ''a'') (uflag_tab s)"
    using uflag_put_tab [OF assms(1) kv] by simp
  then show "uflag_tab (snd (uflag_put e uuid ''a'' (saturating_add_i64 t 1) s)) = (uflag_tab s)(uuid \<mapsto> (t + 1, ''a''))"
    using assms(2) sat by (simp add: lww_put_def uflag_beats_def)
  show "fst (uflag_put e uuid ''a'' (saturating_add_i64 t 1) s)"
    using i r u canon assms(4) sat by (simp add: uflag_put_def uflags_accepts_def Let_def)
qed


text \<open>One restore step keeps the state, never demotes a full admin, and makes its candidate full.\<close>

lemma restore_one_step:
  assumes keep: "floor_keeps s0 s" and ci: "ci < length (user_records s0)"
    and cand: "floor_cand s0 (user_records s0 ! ci)" and t: "\<not> t < newest - ADMIN_FLOOR_WINDOW"
    and stamps: "\<forall>r \<in> set (uflag_records s0). uf_ts r < I64_MAX \<and> \<not> ts_ahead e (uf_ts r + 1)"
    and inv0: "uflag_inv s0"
  obtains out' s' where "restore_one e newest (ci, t) (n, out, s) = (Suc n, out', s')" "floor_keeps s0 s'"
    "is_full s' (user_records s' ! ci)"
    "\<forall>i < length (user_records s0). is_full s (user_records s ! i) \<longrightarrow> is_full s' (user_records s' ! i)"
proof -
  let ?uuid = "u_uuid (user_records s ! ci)"
  have ci': "ci < length (user_records s)" and u0: "?uuid = u_uuid (user_records s0 ! ci)"
    and ty: "u_typ (user_records s ! ci) = CHR ''a''"
    using keep ci cand by (auto simp: floor_keeps_def floor_cand_def)
  obtain o1 s1 where r1: "restore_user ci s = (o1, s1)" by fastforce
  note e1 = restore_user_effect [OF r1 ci']
  have fl1: "user_flags s1 = user_flags s" and tab1: "uflag_tab s1 = uflag_tab s"
    using e1(1) user_flags_cong uflag_tab_cong by metis+
  have inv1: "uflag_inv s1" using keep e1(1) by (simp add: floor_keeps_def uflag_inv_def)
  obtain o2 s2 where r2: "restore_flag e ?uuid s1 = (o2, s2)" by fastforce
  have users2: "user_records s2 = user_records s1"
    using r2 uflag_put_users [of e ?uuid "''a''" _ s1]
    by (auto simp: restore_flag_def case_prod_beta Let_def split: if_splits option.splits)
  have flags2: "uflag_inv s2 \<and> (CHR ''a'' \<in> set (user_flags s2 ?uuid)) \<and>
      (\<forall>v. v \<noteq> ?uuid \<longrightarrow> uflag_tab s2 v = uflag_tab s1 v)"
  proof (cases "CHR ''a'' \<in> set (user_flags s1 ?uuid)")
    case True
    then show ?thesis using r2 inv1 by (auto simp: restore_flag_def)
  next
    case False
    then have tab: "uflag_tab s ?uuid = uflag_tab s0 ?uuid" and no: "CHR ''a'' \<notin> set (user_flags s0 ?uuid)"
      using keep fl1 by (auto simp: floor_keeps_def)
    obtain k where k: "uflag_find s0 ?uuid = Some k"
      using cand no u0
      by (auto simp: floor_cand_def has_full_def floor_dropped_def floor_fr_def split: option.splits)
    let ?r = "uflag_records s0 ! k"
    have v: "uflag_tab s1 ?uuid = Some (uf_ts ?r, uf_flags ?r)" using uflag_tab_find [OF k] tab tab1 by simp
    have "?r \<in> set (uflag_records s0)" using k by (auto simp: uflag_find_def dest: position_SomeD)
    then have ok: "uf_ts ?r < I64_MAX" "\<not> ts_ahead e (uf_ts ?r + 1)" using stamps by auto
    obtain k1 where k1: "uflag_find s1 ?uuid = Some k1" using v uflag_find_tab [of s1 ?uuid] by fastforce
    then have "uf_ts (uflag_records s1 ! k1) = uf_ts ?r" using uflag_tab_find [OF k1] v by simp
    then have s2: "s2 = snd (uflag_put e ?uuid ''a'' (saturating_add_i64 (uf_ts ?r) 1) s1)"
      using r2 False k1 uflag_raise(2) [OF inv1 v ok] by (simp add: restore_flag_def case_prod_beta Let_def)
    have tab2: "uflag_tab s2 = (uflag_tab s1)(?uuid \<mapsto> (uf_ts ?r + 1, ''a''))"
      using uflag_raise(1) [OF inv1 v ok] s2 by simp
    then show ?thesis using uflag_put_inv [OF inv1] s2 by (simp add: user_flags_tab)
  qed
  have uf2: "CHR ''a'' \<in> set (user_flags s2 v)" if "CHR ''a'' \<in> set (user_flags s v)" for v
    using flags2 fl1 that by (cases "v = ?uuid") (auto simp: user_flags_tab tab1)
  have keep2: "floor_keeps s0 s2"
    unfolding floor_keeps_def
  proof (intro conjI allI impI)
    fix v show "CHR ''a'' \<in> set (user_flags s2 v) \<or> uflag_tab s2 v = uflag_tab s0 v \<and> CHR ''a'' \<notin> set (user_flags s0 v)"
      using flags2 keep uf2 [of v] tab1 by (cases "v = ?uuid") (auto simp: floor_keeps_def)
  qed (use flags2 users2 e1 keep ci' in \<open>auto simp: floor_keeps_def\<close>)
  have full: "is_full s2 (user_records s2 ! i)"
    if "i < length (user_records s0)" "is_full s (user_records s ! i)" for i
    using that keep e1(4) [of i] uf2 users2 by (auto simp: is_full_def has_full_def floor_keeps_def)
  have "is_full s2 (user_records s2 ! ci)"
    using ty e1(3) e1(4) [OF ci'] flags2 users2 by (auto simp: is_full_def has_full_def)
  moreover have "restore_one e newest (ci, t) (n, out, s) = (Suc n, out @ o1 @ o2, s2)"
    using t r1 r2 by (simp add: restore_one_def)
  ultimately show ?thesis using that [of "out @ o1 @ o2" s2] keep2 full by blast
qed


lemma restore_fold:
  assumes "\<forall>(ci, t) \<in> set cs. ci < length (user_records s0) \<and> floor_cand s0 (user_records s0 ! ci)"
    and "\<forall>r \<in> set (uflag_records s0). uf_ts r < I64_MAX \<and> \<not> ts_ahead e (uf_ts r + 1)" and "uflag_inv s0"
    and "floor_keeps s0 s"
  shows "\<exists>n' out' s'. fold (restore_one e newest) cs (n, out, s) = (n', out', s') \<and> floor_keeps s0 s' \<and> n \<le> n' \<and>
    (\<forall>i < length (user_records s0). is_full s (user_records s ! i) \<longrightarrow> is_full s' (user_records s' ! i)) \<and>
    (\<forall>(ci, t) \<in> set cs. \<not> t < newest - ADMIN_FLOOR_WINDOW \<longrightarrow> n < n' \<and> is_full s' (user_records s' ! ci))"
  using assms(1,4)
proof (induction cs arbitrary: n out s)
  case Nil
  then show ?case by auto
next
  case (Cons ct cs)
  obtain ci t where ct: "ct = (ci, t)" by (cases ct)
  show ?case
  proof (cases "t < newest - ADMIN_FLOOR_WINDOW")
    case True
    then have "restore_one e newest ct (n, out, s) = (n, out, s)" by (simp add: ct restore_one_def)
    with Cons.IH [of s n out] Cons.prems True ct show ?thesis by auto
  next
    case False
    have ci: "ci < length (user_records s0)" "floor_cand s0 (user_records s0 ! ci)" using Cons.prems(1) ct by auto
    obtain out1 s1 where s1: "restore_one e newest (ci, t) (n, out, s) = (Suc n, out1, s1)" "floor_keeps s0 s1"
      "is_full s1 (user_records s1 ! ci)"
      "\<forall>i < length (user_records s0). is_full s (user_records s ! i) \<longrightarrow> is_full s1 (user_records s1 ! i)"
      by (rule restore_one_step [OF Cons.prems(2) ci False assms(2,3), of n out])
    have "\<forall>(ci, t) \<in> set cs. ci < length (user_records s0) \<and> floor_cand s0 (user_records s0 ! ci)"
      using Cons.prems(1) by auto
    from Cons.IH [OF this s1(2), of "Suc n" out1] obtain n' out' s' where
      IH: "fold (restore_one e newest) cs (Suc n, out1, s1) = (n', out', s')" "floor_keeps s0 s'" "Suc n \<le> n'"
      "\<forall>i < length (user_records s0). is_full s1 (user_records s1 ! i) \<longrightarrow> is_full s' (user_records s' ! i)"
      "\<forall>(ci, t) \<in> set cs. \<not> t < newest - ADMIN_FLOOR_WINDOW \<longrightarrow> Suc n < n' \<and> is_full s' (user_records s' ! ci)"
      by blast
    have "fold (restore_one e newest) (ct # cs) (n, out, s) = (n', out', s')" using s1(1) IH(1) by (simp add: ct)
    moreover have "is_full s' (user_records s' ! ci)" using IH(4) s1(3) ci(1) by blast
    ultimately show ?thesis using IH s1(4) ct by fastforce
  qed
qed

text \<open>
  Property C30.  The admin floor.  When no active admin holds \<^verbatim>\<open>a\<close> and some removal can be undone,
  the floor restores at least one: afterwards an active full admin exists.  It does nothing (but
  for its warning flag) when a full admin is left, or when there is no removal to undo.
\<close>

theorem admin_floor_restores:
  assumes "uflag_inv s" and "\<forall>u \<in> set (user_records s). 0 \<le> u_ts u"
    and "\<forall>r \<in> set (uflag_records s). uf_ts r < I64_MAX \<and> \<not> ts_ahead e (uf_ts r + 1)"
  shows "case admin_floor_restore e s of
      (None, s') \<Rightarrow> (\<exists>w. s' = s\<lparr>floor_warned := w\<rparr>) \<and>
        ((\<exists>u \<in> set (user_records s). is_full s u) \<or> (\<forall>u \<in> set (user_records s). \<not> floor_cand s u))
    | (Some (out, n), s') \<Rightarrow> 0 < n \<and> (\<forall>u \<in> set (user_records s). \<not> is_full s u) \<and>
        (\<exists>u \<in> set (user_records s'). is_full s' u)"
proof -
  let ?us = "List.enumerate 0 (user_records s)"
  let ?cs = "cands_of s ?us" and ?new = "foldl max 0 (map snd (cands_of s (List.enumerate 0 (user_records s))))"
  have us: "(i, u) \<in> set ?us \<longleftrightarrow> i < length (user_records s) \<and> u = user_records s ! i" for i u
    by (auto simp: in_set_enumerate_eq)
  have snds: "set (user_records s) = snd ` set ?us" by (metis list.set_map map_snd_enumerate)
  have full: "(\<exists>(i, u) \<in> set ?us. is_full s u) \<longleftrightarrow> (\<exists>u \<in> set (user_records s). is_full s u)"
    by (simp add: snds case_prod_beta)
  have cs_nil: "?cs = [] \<longleftrightarrow> (\<forall>u \<in> set (user_records s). \<not> floor_cand s u)"
    by (simp add: snds cands_of_def filter_empty_conv case_prod_beta)
  have sc: "floor_scan s ?us [] 0 = (if \<exists>(i, u) \<in> set ?us. is_full s u then None else Some (?cs, ?new))"
    by (simp add: floor_scan_spec)
  show ?thesis
  proof (cases "(\<exists>u \<in> set (user_records s). is_full s u) \<or> ?cs = []")
    case True
    then show ?thesis using sc full cs_nil by (auto simp: admin_floor_restore_def)
  next
    case False
    have mem: "ci < length (user_records s) \<and> floor_cand s (user_records s ! ci) \<and> t = floor_stamp s (user_records s ! ci)"
      if "(ci, t) \<in> set ?cs" for ci t using that us by (auto simp: cands_of_def)
    have st: "0 \<le> floor_stamp s u" if "u \<in> set (user_records s)" for u
      using that assms(2) by (auto simp: floor_stamp_def Let_def split: option.splits)
    have "\<exists>ci t. (ci, t) \<in> set ?cs \<and> \<not> t < ?new - ADMIN_FLOOR_WINDOW"
    proof (cases "?new \<in> set (map snd ?cs)")
      case True
      then show ?thesis by (force simp: ADMIN_FLOOR_WINDOW_def)
    next
      case no: False
      then have "?new = 0" using foldl_max_in [of 0 "map snd ?cs"] by blast
      moreover obtain ci t where c: "(ci, t) \<in> set ?cs" using False by (cases "?cs") auto
      moreover have "0 \<le> t" using mem [OF c] st by auto
      ultimately show ?thesis by (force simp: ADMIN_FLOOR_WINDOW_def)
    qed
    then obtain ci t where ct: "(ci, t) \<in> set ?cs" "\<not> t < ?new - ADMIN_FLOOR_WINDOW" by blast
    have all: "\<forall>(ci, t) \<in> set ?cs. ci < length (user_records s) \<and> floor_cand s (user_records s ! ci)"
      using mem by blast
    from restore_fold [OF all assms(3,1) floor_keeps_refl [OF assms(1)], of ?new 0 "[]"] obtain n out s'
      where f: "fold (restore_one e ?new) ?cs (0, [], s) = (n, out, s')" "floor_keeps s s'"
      "\<forall>(ci, t) \<in> set ?cs. \<not> t < ?new - ADMIN_FLOOR_WINDOW \<longrightarrow> 0 < n \<and> is_full s' (user_records s' ! ci)" by blast
    have "0 < n" "is_full s' (user_records s' ! ci)" using f(3) ct by auto
    moreover have "user_records s' ! ci \<in> set (user_records s')"
      using mem [OF ct(1)] f(2) by (simp add: floor_keeps_def)
    moreover have "is_full (s'\<lparr>config_dirty := True, floor_warned := False\<rparr>) u = is_full s' u" for u
      by (simp add: is_full_def has_full_def user_flags_def uflag_find_def)
    moreover have "\<not> (\<exists>(i, u) \<in> set ?us. is_full s u)" "?cs \<noteq> []" using False full by blast+
    ultimately show ?thesis
      using f(1) sc False by (auto simp: admin_floor_restore_def)
  qed
qed

definition example_admin :: user_record where
  "example_admin = example_oper\<lparr>u_typ := CHR ''a'', u_is_active := False\<rparr>"

definition example_floor :: hub_state where
  "example_floor = snd (uflag_put (env_at 100) (example_uuid (CHR ''1'')) ''a'' 5
     (hub_state_new\<lparr>user_records := [example_admin]\<rparr>))"

theorem admin_floor_restores_witness:
  "\<exists>u \<in> set (user_records (snd (admin_floor_restore (env_at 200) example_floor))).
     is_full (snd (admin_floor_restore (env_at 200) example_floor)) u"
proof -
  have "uflag_inv example_floor" "\<forall>u \<in> set (user_records example_floor). 0 \<le> u_ts u"
    "\<forall>r \<in> set (uflag_records example_floor). uf_ts r < I64_MAX \<and> \<not> ts_ahead (env_at 200) (uf_ts r + 1)"
    "fst (admin_floor_restore (env_at 200) example_floor) \<noteq> None"
    by code_simp+
  then show ?thesis
    using admin_floor_restores [of example_floor "env_at 200"]
    by (auto simp: case_prod_beta split: option.splits)
qed

end
