(* ===== verification/Revoke.thy ===== *)
theory Revoke
  imports Store_Index
begin

text \<open>
  \<^verbatim>\<open>src/src/revoke.rs\<close>: the mesh-wide hub settings (\<^verbatim>\<open>hs|\<close>, last writer wins) and the revoke
  list (\<^verbatim>\<open>rv|\<close>, a union whose records merge field by field).  The settings refine the
  last-writer-wins contract, the revoke list the join contract (for every field but the nick).
\<close>

section \<open>Hub settings\<close>

definition GSET :: "(string \<times> i32) list" where
  "GSET = [(''autopurge'', 36500)]"

definition gs_find :: "string \<Rightarrow> (string \<times> i32) option" where
  "gs_find name = List.find (\<lambda>g. fst g = name) GSET"

definition gs_get :: "hub_state \<Rightarrow> string \<Rightarrow> i32 \<times> i64" where
  "gs_get s name = (if name = ''autopurge'' then (purge_days_setting s, purge_days_ts s) else (0, 0))"

definition gs_put :: "string \<Rightarrow> i32 \<Rightarrow> i64 \<Rightarrow> hub_state \<Rightarrow> hub_state" where
  "gs_put name v ts s =
     (if name = ''autopurge'' then s\<lparr>purge_days_setting := v, purge_days_ts := ts\<rparr> else s)"

definition gsetting_format :: "hub_state \<Rightarrow> string \<Rightarrow> string option" where
  "gsetting_format s name =
     (case gs_find name of
        None \<Rightarrow> None
      | Some g \<Rightarrow> let (v, ts) = gs_get s (fst g) in
          Some (''hs|'' @ fst g @ ''|'' @ show_int v @ ''|'' @ show_int ts @ [CHR 0x0A]))"

definition gsetting_set :: "env \<Rightarrow> string \<Rightarrow> i32 \<Rightarrow> hub_state \<Rightarrow> bool \<times> hub_state" where
  "gsetting_set e name v s =
     (case gs_find name of
        None \<Rightarrow> (False, s)
      | Some g \<Rightarrow>
          if v < 0 \<or> v > snd g then (False, s)
          else let (_, ts) = gs_get s (fst g) in
            (True, (gs_put (fst g) v (lww_next_ts e ts) s)\<lparr>config_dirty := True\<rparr>))"

definition gsetting_ingest :: "env \<Rightarrow> string \<Rightarrow> hub_state \<Rightarrow> bool option \<times> hub_state" where
  "gsetting_ingest e rest s =
     (case split_once (CHR ''|'') rest of
        None \<Rightarrow> (None, s)
      | Some (name, after) \<Rightarrow>
          (case gs_find name of
             None \<Rightarrow> (None, s)
           | Some g \<Rightarrow>
               let (v, n) = strtoll after in
               if n = 0 \<or> \<not> (n < length after \<and> after ! n = CHR ''|'') \<or> v < 0 \<or> v > snd g then (None, s)
               else let ts_s = drop (n + 1) after; (ts, m) = strtoll ts_s in
                 if m = 0 \<or> m \<noteq> length ts_s \<or> ts \<le> 0 \<or> ts_ahead e ts then (None, s)
                 else let (cur, cur_ts) = gs_get s (fst g) in
                   if ts > cur_ts \<or> (ts = cur_ts \<and> as_i32 v > cur)
                   then (Some True, (gs_put (fst g) (as_i32 v) ts s)\<lparr>config_dirty := True\<rparr>)
                   else (Some False, s)))"

definition gsetting_append :: "hub_state \<Rightarrow> string" where
  "gsetting_append s =
     concat (map (\<lambda>g. if snd (gs_get s (fst g)) > 0
                      then (case gsetting_format s (fst g) of Some l \<Rightarrow> l | None \<Rightarrow> []) else []) GSET)"

section \<open>The revoke list\<close>

definition b64_decode :: "env \<Rightarrow> string \<Rightarrow> string option" where
  "b64_decode e s = (case env_b64 e s of None \<Rightarrow> None | Some v \<Rightarrow> if v = [] then None else Some v)"

definition pub_ok :: "env \<Rightarrow> string \<Rightarrow> bool" where
  "pub_ok e s \<longleftrightarrow> length s = COMBINED_KEY_B64 \<and>
     (case b64_decode e s of None \<Rightarrow> False | Some d \<Rightarrow> length d = COMBINED_KEY_LEN)"

definition nick_clean :: "string \<Rightarrow> string" where
  "nick_clean src =
     (if length src \<ge> MAX_NICK \<or>
         (\<exists>c \<in> set src. byte c \<le> 0x20 \<or> byte c = 0x7f \<or> c = CHR ''|'' \<or> byte c \<ge> 0x80)
      then [] else src)"

definition revoke_find :: "hub_state \<Rightarrow> string \<Rightarrow> revoked_rec option" where
  "revoke_find s uuid = List.find (\<lambda>r. rv_uuid r = uuid) (revoked s)"

definition is_revoked :: "hub_state \<Rightarrow> string \<Rightarrow> bool" where
  "is_revoked s uuid \<longleftrightarrow> revoke_find s uuid \<noteq> None"

definition rv_older :: "revoked_rec \<Rightarrow> revoked_rec \<Rightarrow> bool" where
  "rv_older a b \<longleftrightarrow> rv_del_ts a < rv_del_ts b \<or> (rv_del_ts a = rv_del_ts b \<and> rv_uuid a < rv_uuid b)"

abbreviation rv_oldest :: "revoked_rec list \<Rightarrow> nat list \<Rightarrow> nat \<Rightarrow> nat" where
  "rv_oldest \<equiv> scan_best rv_older"

text \<open>The field-by-field merge of an incoming record into the stored one, and whether it changed.\<close>

definition rv_join :: "revoked_rec \<Rightarrow> revoked_rec \<Rightarrow> revoked_rec" where
  "rv_join inp r =
     (let r = (if rv_pub_ts inp > rv_pub_ts r \<or> (rv_pub_ts inp = rv_pub_ts r \<and> rv_pub_key inp > rv_pub_key r)
               then r\<lparr>rv_pub_key := rv_pub_key inp, rv_pub_ts := rv_pub_ts inp\<rparr> else r);
          r = (if rv_nick r = [] \<and> rv_nick inp \<noteq> [] then r\<lparr>rv_nick := rv_nick inp\<rparr> else r);
          r = (if rv_wiped_ts inp > rv_wiped_ts r then r\<lparr>rv_wiped_ts := rv_wiped_ts inp\<rparr> else r)
      in (if rv_del_ts inp < rv_del_ts r then r\<lparr>rv_del_ts := rv_del_ts inp\<rparr> else r))"

definition rv_changes :: "revoked_rec \<Rightarrow> revoked_rec \<Rightarrow> bool" where
  "rv_changes inp r \<longleftrightarrow>
     rv_pub_ts inp > rv_pub_ts r \<or> (rv_pub_ts inp = rv_pub_ts r \<and> rv_pub_key inp > rv_pub_key r) \<or>
     (rv_nick r = [] \<and> rv_nick inp \<noteq> []) \<or> rv_wiped_ts inp > rv_wiped_ts r \<or> rv_del_ts inp < rv_del_ts r"

definition merge :: "revoked_rec \<Rightarrow> hub_state \<Rightarrow> bool \<times> hub_state" where
  "merge inp s =
     (case position (\<lambda>r. rv_uuid r = rv_uuid inp) (revoked s) of
        None \<Rightarrow>
          (if length (revoked s) \<ge> MAX_REVOKED then
             (let old = rv_oldest (revoked s) [1..<length (revoked s)] 0 in
              if rv_older inp (revoked s ! old) then (False, s)
              else (True, s\<lparr>revoked := swap_remove old (revoked s) @ [inp], config_dirty := True\<rparr>))
           else (True, s\<lparr>revoked := revoked s @ [inp], config_dirty := True\<rparr>))
      | Some i \<Rightarrow>
          let r = revoked s ! i; s' = s\<lparr>revoked := (revoked s)[i := rv_join inp r]\<rparr> in
          (rv_changes inp r, if rv_changes inp r then s'\<lparr>config_dirty := True\<rparr> else s'))"

definition rv_num :: "string \<Rightarrow> i64 option" where
  "rv_num s =
     (if s = [] \<or> length s \<ge> 24 then None
      else let (v, n) = strtoll s in if n = length s \<and> v \<ge> 0 then Some v else None)"

definition revoke_parse :: "env \<Rightarrow> string \<Rightarrow> revoked_rec option" where
  "revoke_parse e rest =
     (let f = split_on (CHR ''|'') rest in
      if length f \<noteq> 6 \<or> \<not> is_uuid (f ! 0) \<or> \<not> pub_ok e (f ! 1) then None
      else case (rv_num (f ! 2), rv_num (f ! 4), rv_num (f ! 5)) of
        (Some p, Some w, Some d) \<Rightarrow>
          if d > 0 then Some \<lparr>rv_uuid = f ! 0, rv_pub_key = f ! 1, rv_pub_ts = p, rv_nick = nick_clean (f ! 3),
                              rv_wiped_ts = w, rv_del_ts = d\<rparr>
          else None
      | _ \<Rightarrow> None)"

definition revoke_format :: "revoked_rec \<Rightarrow> string" where
  "revoke_format r =
     ''rv|'' @ rv_uuid r @ ''|'' @ rv_pub_key r @ ''|'' @ show_int (rv_pub_ts r) @ ''|'' @ rv_nick r @ ''|'' @
     show_int (rv_wiped_ts r) @ ''|'' @ show_int (rv_del_ts r) @ [CHR 0x0A]"

definition revoke_append :: "hub_state \<Rightarrow> string" where
  "revoke_append s = concat (map revoke_format (revoked s))"

text \<open>\<^verbatim>\<open>from_bot\<close>: the loop over the bot's entries (last one of each key counts).\<close>

definition from_bot_entry :: "env \<Rightarrow> config_entry \<Rightarrow> revoked_rec \<times> bool \<Rightarrow> revoked_rec \<times> bool" where
  "from_bot_entry e c rh =
     (let (r, have_pub) = rh in
      if ce_key c = ''pub'' \<and> pub_ok e (ce_value c)
      then (r\<lparr>rv_pub_key := ce_value c, rv_pub_ts := ce_ts c\<rparr>, True)
      else if ce_key c = ''n'' then (r\<lparr>rv_nick := nick_clean (ce_value c)\<rparr>, have_pub)
      else if ce_key c = ''d'' then (r\<lparr>rv_del_ts := ce_ts c\<rparr>, have_pub)
      else (r, have_pub))"

definition from_bot :: "env \<Rightarrow> bot_config \<Rightarrow> hub_state \<Rightarrow> bool \<times> hub_state" where
  "from_bot e b s =
     (if b_is_active b \<or> \<not> is_uuid (b_uuid b) then (False, s)
      else let (r, have_pub) = fold (from_bot_entry e) (b_entries b)
             (\<lparr>rv_uuid = b_uuid b, rv_pub_key = [], rv_pub_ts = 0, rv_nick = [], rv_wiped_ts = 0, rv_del_ts = 0\<rparr>, False)
        in if \<not> have_pub \<or> rv_del_ts r \<le> 0 then (False, s) else merge r s)"

definition mark_wiped :: "string \<Rightarrow> i64 \<Rightarrow> hub_state \<Rightarrow> string option \<times> hub_state" where
  "mark_wiped uuid now s =
     (case position (\<lambda>r. rv_uuid r = uuid) (revoked s) of
        None \<Rightarrow> (None, s)
      | Some i \<Rightarrow>
          let r = revoked s ! i;
              r' = (if now > rv_wiped_ts r then r\<lparr>rv_wiped_ts := now\<rparr> else r)
          in (Some (revoke_format r'), s\<lparr>revoked := (revoked s)[i := r'], config_dirty := True\<rparr>))"


section \<open>The revoke list is a join store\<close>

type_synonym rv_val = "(i64 \<times> string) \<times> i64 \<times> i64"

text \<open>What the mesh agrees on of a record: the newest key, the latest wipe, the earliest delete.\<close>

definition rv_val_of :: "revoked_rec \<Rightarrow> rv_val" where
  "rv_val_of r = ((rv_pub_ts r, rv_pub_key r), rv_wiped_ts r, rv_del_ts r)"

definition val_join :: "rv_val \<Rightarrow> rv_val \<Rightarrow> rv_val" where
  "val_join x y =
     (if text_beats (fst x) (fst y) then fst x else fst y,
      max (fst (snd x)) (fst (snd y)), min (snd (snd x)) (snd (snd y)))"

lemma rv_val_join: "rv_val_of (rv_join inp r) = val_join (rv_val_of inp) (rv_val_of r)"
  by (auto simp: rv_val_of_def rv_join_def val_join_def text_beats_def Let_def)

lemma rv_join_uuid [simp]: "rv_uuid (rv_join inp r) = rv_uuid r"
  by (simp add: rv_join_def Let_def)

lemma rv_join_unchanged: "\<not> rv_changes inp r \<Longrightarrow> rv_join inp r = r"
  by (auto simp: rv_join_def rv_changes_def Let_def)

lemma val_join_pick:
  "val_join x y = (text_lww.pick (fst x) (fst y), max (fst (snd x)) (fst (snd y)), min (snd (snd x)) (snd (snd y)))"
  by (simp add: val_join_def text_lww.pick_def)

definition rv_tab :: "hub_state \<Rightarrow> string \<rightharpoonup> rv_val" where
  "rv_tab s = rec_tab rv_uuid rv_val_of (revoked s)"

definition rv_inv :: "hub_state \<Rightarrow> bool" where
  "rv_inv s \<longleftrightarrow> distinct (map rv_uuid (revoked s)) \<and> length (revoked s) \<le> MAX_REVOKED"

definition rv_deliver :: "revoked_rec \<Rightarrow> hub_state \<Rightarrow> hub_state" where
  "rv_deliver r s = snd (merge r s)"

definition rv_kv :: "revoked_rec \<Rightarrow> (string \<times> rv_val) option" where
  "rv_kv r = Some (rv_uuid r, rv_val_of r)"

lemma is_revoked_tab: "is_revoked s uuid \<longleftrightarrow> uuid \<in> dom (rv_tab s)"
  by (auto simp: is_revoked_def revoke_find_def rv_tab_def dom_rec_tab find_None_iff)

lemma merge_inv: "rv_inv s \<Longrightarrow> rv_inv (snd (merge inp s))"
proof (cases "position (\<lambda>r. rv_uuid r = rv_uuid inp) (revoked s)")
  case (Some i)
  assume "rv_inv s"
  with Some show ?thesis by (auto simp: rv_inv_def merge_def Let_def intro!: distinct_map_update)
next
  case None
  assume inv: "rv_inv s"
  let ?old = "rv_oldest (revoked s) [1..<length (revoked s)] 0"
  have new: "rv_uuid inp \<notin> rv_uuid ` set (revoked s)" using None by (auto simp: position_None)
  have old: "length (revoked s) \<ge> MAX_REVOKED \<Longrightarrow> ?old < length (revoked s)"
    by (rule scan_best_range) (auto simp: MAX_REVOKED_def)
  show ?thesis
  proof (cases "length (revoked s) \<ge> MAX_REVOKED")
    case True
    have "set (swap_remove ?old (revoked s)) \<subseteq> set (revoked s)" by (rule set_swap_remove_subset)
    then have "rv_uuid inp \<notin> rv_uuid ` set (swap_remove ?old (revoked s))" using new by (meson image_mono subsetD)
    moreover have "length (swap_remove ?old (revoked s)) < MAX_REVOKED"
      using old [OF True] inv True length_swap_remove [of ?old "revoked s"] by (auto simp: rv_inv_def MAX_REVOKED_def)
    ultimately show ?thesis
      using None True inv distinct_swap_remove [of rv_uuid "revoked s" ?old]
      by (auto simp: merge_def rv_inv_def Let_def)
  next
    case False
    then show ?thesis using None inv new by (auto simp: merge_def rv_inv_def)
  qed
qed

lemma merge_tab:
  assumes "rv_inv s" and "rv_uuid inp \<in> dom (rv_tab s) \<or> card (dom (rv_tab s)) < MAX_REVOKED"
  shows "rv_tab (snd (merge inp s)) = join_put val_join (rv_uuid inp, rv_val_of inp) (rv_tab s)"
proof (cases "position (\<lambda>r. rv_uuid r = rv_uuid inp) (revoked s)")
  case None
  then have no: "rv_tab s (rv_uuid inp) = None" by (simp add: rv_tab_def rec_tab_def)
  then have "length (revoked s) < MAX_REVOKED"
    using assms card_dom_rec_tab [of rv_uuid "revoked s" rv_val_of] by (auto simp: rv_tab_def rv_inv_def)
  then have "revoked (snd (merge inp s)) = revoked s @ [inp]" using None by (simp add: merge_def)
  then show ?thesis
    using no None rec_tab_snoc [of rv_uuid inp "revoked s" rv_val_of] by (simp add: rv_tab_def join_put_def)
next
  case (Some i)
  let ?r = "revoked s ! i"
  have "rv_uuid ?r = rv_uuid inp" using position_SomeD [OF Some] by simp
  then have "rv_tab (snd (merge inp s)) = (rv_tab s)(rv_uuid inp \<mapsto> rv_val_of (rv_join inp ?r))"
    using Some rec_tab_update [OF Some, of "rv_join inp ?r" rv_val_of] by (simp add: merge_def Let_def rv_tab_def)
  moreover have "rv_tab s (rv_uuid inp) = Some (rv_val_of ?r)" using Some by (simp add: rv_tab_def rec_tab_def)
  ultimately show ?thesis by (simp add: join_put_def rv_val_join)
qed

interpretation rv_store: join_store val_join rv_deliver rv_tab rv_kv MAX_REVOKED rv_inv
proof
  show "val_join x y = val_join y x" for x y
    by (simp add: val_join_pick text_lww.pick_commute [of "fst x"] max.commute min.commute)
  show "val_join x (val_join y z) = val_join (val_join x y) z" for x y z
    by (simp add: val_join_pick text_lww.pick_assoc max.assoc min.assoc)
  show "val_join x x = x" for x by (simp add: val_join_def)
  show "rv_tab (rv_deliver r s) = join_put val_join x (rv_tab s)"
    if "rv_inv s" "rv_kv r = Some x" "fst x \<in> dom (rv_tab s) \<or> card (dom (rv_tab s)) < MAX_REVOKED" for s r x
    using that merge_tab [of s r] unfolding rv_deliver_def rv_kv_def by (metis fst_conv option.inject)
qed (auto simp: rv_kv_def rv_deliver_def rv_tab_def merge_inv)


text \<open>
  Property C31.  The revoke list is a union.  Two hubs with the same list (up to order and nicks),
  each told the same revocations in any order and with any repetition, with room for all of them,
  agree on who is revoked and on every revoked bot's key, wipe stamp and delete stamp.
\<close>

theorem revoke_converge:
  assumes "rv_inv s" "rv_inv s'" and "rv_tab s = rv_tab s'" and "set rs = set rs'"
    and "card (dom (rv_tab s) \<union> rv_uuid ` set rs) \<le> MAX_REVOKED"
  shows "rv_tab (fold rv_deliver rs s) = rv_tab (fold rv_deliver rs' s') \<and>
    is_revoked (fold rv_deliver rs s) uuid = is_revoked (fold rv_deliver rs' s') uuid"
proof -
  have "set (rv_store.said rs) = set (rv_store.said rs')" by (simp add: rv_store.set_said assms(4))
  moreover have "rv_store.said_keys rs = rv_uuid ` set rs"
    by (force simp: rv_store.said_keys_def rv_store.set_said rv_kv_def)
  ultimately have "rv_tab (fold rv_deliver rs s) = rv_tab (fold rv_deliver rs' s')"
    using rv_store.deliver_converge [OF assms(1-3), of rs rs'] assms(5) by simp
  then show ?thesis by (simp add: is_revoked_tab)
qed

definition example_rv :: "i64 \<Rightarrow> string \<Rightarrow> revoked_rec" where
  "example_rv d nick = \<lparr>rv_uuid = ''u'', rv_pub_key = ''k'', rv_pub_ts = 5, rv_nick = nick, rv_wiped_ts = 0, rv_del_ts = d\<rparr>"

theorem revoke_converge_witness:
  "rv_tab (fold rv_deliver [example_rv 9 [], example_rv 8 ''al''] hub_state_new) =
   rv_tab (fold rv_deliver [example_rv 8 ''al'', example_rv 9 []] hub_state_new)"
proof -
  have "rv_inv hub_state_new" by (simp add: rv_inv_def hub_state_new_def)
  moreover have "card (dom (rv_tab hub_state_new) \<union> rv_uuid ` set [example_rv 9 [], example_rv 8 ''al'']) \<le> MAX_REVOKED"
    by (simp add: rv_tab_def dom_rec_tab hub_state_new_def example_rv_def MAX_REVOKED_def)
  moreover have "set [example_rv 9 [], example_rv 8 ''al''] = set [example_rv 8 ''al'', example_rv 9 []]" by auto
  ultimately show ?thesis using revoke_converge [OF _ _ refl] by meson
qed

text \<open>
  The nick is the exception: it is kept by the first writer, so two hubs that learn
  of one revocation with two different nicks, in opposite orders, keep different nicks however
  often they exchange their records.
\<close>

theorem revoke_nick_diverges:
  assumes "rv_nick a \<noteq> []" "rv_nick b \<noteq> []" "rv_uuid a = rv_uuid b" "rv_nick a \<noteq> rv_nick b"
    and "set rs \<subseteq> {a, b}" "set rs' \<subseteq> {a, b}"
  shows "map_option rv_nick (revoke_find (fold rv_deliver (a # b # rs) hub_state_new) (rv_uuid a)) = Some (rv_nick a) \<and>
    map_option rv_nick (revoke_find (fold rv_deliver (b # a # rs') hub_state_new) (rv_uuid a)) = Some (rv_nick b)"
proof -
  have keep: "\<exists>r'. revoked (fold rv_deliver ms s) = [r'] \<and> rv_uuid r' = rv_uuid a \<and> rv_nick r' = nk"
    if "set ms \<subseteq> {a, b}" "revoked s = [r]" "rv_uuid r = rv_uuid a" "rv_nick r = nk" "nk \<noteq> []" for ms s r nk
    using that
  proof (induction ms arbitrary: s r)
    case (Cons m ms)
    have u: "rv_uuid m = rv_uuid r" using Cons.prems assms(3) by auto
    then have "revoked (rv_deliver m s) = [rv_join m r]"
      using Cons.prems(2) by (simp add: rv_deliver_def merge_def Let_def)
    moreover have "rv_nick (rv_join m r) = nk" using Cons.prems by (simp add: rv_join_def Let_def)
    ultimately show ?case using Cons.IH [of "rv_deliver m s" "rv_join m r"] Cons.prems by auto
  qed auto
  have first: "revoked (rv_deliver m hub_state_new) = [m]" for m
    by (simp add: rv_deliver_def merge_def hub_state_new_def MAX_REVOKED_def)
  have sub: "set (b # rs) \<subseteq> {a, b}" "set (a # rs') \<subseteq> {a, b}" using assms(5,6) by auto
  show ?thesis
    using keep [OF sub(1) first [of a] refl refl assms(1)] keep [OF sub(2) first [of b] assms(3) [symmetric] refl assms(2)]
    by (auto simp: revoke_find_def)
qed

theorem revoke_nick_diverges_witness:
  "map_option rv_nick (revoke_find (fold rv_deliver [example_rv 9 ''al'', example_rv 9 ''bo''] hub_state_new) ''u'') \<noteq>
   map_option rv_nick (revoke_find (fold rv_deliver [example_rv 9 ''bo'', example_rv 9 ''al''] hub_state_new) ''u'')"
proof -
  have f: "rv_uuid (example_rv d n) = ''u''" "rv_nick (example_rv d n) = n" for d n by (simp_all add: example_rv_def)
  show ?thesis using revoke_nick_diverges [of "example_rv 9 ''al''" "example_rv 9 ''bo''" "[]" "[]"] by (auto simp: f)
qed

text \<open>
  Revocation is permanent while the list has room: merging any record, or marking a
  wipe, keeps every revoked uuid revoked, only ever lowers its delete stamp and raises its wipe stamp.
\<close>

theorem revoke_monotone:
  assumes "rv_inv s" and "length (revoked s) < MAX_REVOKED" and "rv_tab s uuid = Some (p, w, d)"
  shows "(\<exists>p' w' d'. rv_tab (snd (merge inp s)) uuid = Some (p', w', d') \<and> w \<le> w' \<and> d' \<le> d) \<and>
    (\<exists>w'. rv_tab (snd (mark_wiped u now s)) uuid = Some (p, w', d) \<and> w \<le> w')"
proof
  have "card (dom (rv_tab s)) < MAX_REVOKED"
    using assms(1,2) by (simp add: rv_tab_def rv_inv_def card_dom_rec_tab)
  then have "rv_tab (snd (merge inp s)) = join_put val_join (rv_uuid inp, rv_val_of inp) (rv_tab s)"
    using merge_tab [OF assms(1)] by blast
  with assms(3) show "\<exists>p' w' d'. rv_tab (snd (merge inp s)) uuid = Some (p', w', d') \<and> w \<le> w' \<and> d' \<le> d"
    by (auto simp: join_put_def val_join_def)
  show "\<exists>w'. rv_tab (snd (mark_wiped u now s)) uuid = Some (p, w', d) \<and> w \<le> w'"
  proof (cases "position (\<lambda>r. rv_uuid r = u) (revoked s)")
    case None
    with assms(3) show ?thesis by (simp add: mark_wiped_def)
  next
    case (Some i)
    let ?r = "revoked s ! i"
    let ?r' = "if now > rv_wiped_ts ?r then ?r\<lparr>rv_wiped_ts := now\<rparr> else ?r"
    have u: "rv_uuid ?r' = u" using position_SomeD [OF Some] by simp
    have "rv_tab (snd (mark_wiped u now s)) = (rv_tab s)(u \<mapsto> rv_val_of ?r')"
      using Some rec_tab_update [OF Some u, of rv_val_of] by (simp add: mark_wiped_def Let_def rv_tab_def)
    moreover have "rv_tab s u = Some (rv_val_of ?r)" using Some by (simp add: rv_tab_def rec_tab_def)
    ultimately show ?thesis using assms(3) by (cases "uuid = u") (auto simp: rv_val_of_def)
  qed
qed

theorem revoke_monotone_witness:
  "\<exists>p' w' d'. rv_tab (snd (merge (example_rv 7 []) (snd (merge (example_rv 9 []) hub_state_new)))) ''u'' = Some (p', w', d')
     \<and> 0 \<le> w' \<and> d' \<le> 9"
proof -
  let ?s = "snd (merge (example_rv 9 []) hub_state_new)"
  have "rv_inv ?s" by (rule merge_inv) (simp add: rv_inv_def hub_state_new_def)
  moreover have "length (revoked ?s) < MAX_REVOKED" "rv_tab ?s ''u'' = Some ((5, ''k''), 0, 9)" by code_simp+
  ultimately show ?thesis using revoke_monotone [of ?s "''u''" "(5, ''k'')" 0 9 "example_rv 7 []"] by blast
qed


section \<open>The \<^verbatim>\<open>rv|\<close> line round trip\<close>

definition rv_ok :: "env \<Rightarrow> revoked_rec \<Rightarrow> bool" where
  "rv_ok e r \<longleftrightarrow> is_uuid (rv_uuid r) \<and> pub_ok e (rv_pub_key r) \<and> nick_clean (rv_nick r) = rv_nick r \<and>
     0 \<le> rv_pub_ts r \<and> 0 \<le> rv_wiped_ts r \<and> 0 < rv_del_ts r \<and>
     in_i64 (rv_pub_ts r) \<and> in_i64 (rv_wiped_ts r) \<and> in_i64 (rv_del_ts r)"

lemma rv_num_show:
  assumes "0 \<le> n" "in_i64 n"
  shows "rv_num (show_int n) = Some n"
proof -
  have s: "strtoll (show_int n) = (n, length (show_int n))" using strtoll_show_int [OF assms(2), of "[]"] by simp
  have ne: "show_int n \<noteq> []" using assms(1) show_nat.simps [of "nat n"] by (auto simp: show_int_def)
  have "nat n < 10 ^ 19" using assms unfolding in_i64_def I64_MAX_def by simp linarith
  then have "length (show_int n) \<le> 19" using assms(1) length_show_nat [of "nat n" 19] by (simp add: show_int_def)
  with s ne assms(1) show ?thesis by (simp add: rv_num_def)
qed

lemma is_uuid_no_bar: "is_uuid u \<Longrightarrow> CHR ''|'' \<notin> set u"
proof
  assume u: "is_uuid u" and "CHR ''|'' \<in> set u"
  then obtain i where i: "i < length u" "u ! i = CHR ''|''" by (auto simp: in_set_conv_nth)
  then have "(i, CHR ''|'') \<in> set (List.enumerate 0 u)" by (simp add: in_set_enumerate_eq)
  with u show False by (auto simp: is_uuid_def is_hexdigit_def is_digit_def split: if_splits)
qed

text \<open>
  Every \<^verbatim>\<open>rv|\<close> line the hub writes for a well-formed revocation parses back to exactly
  that record.  The base64 decoder is assumed to refuse a text with a \<^verbatim>\<open>|\<close>, which is not in its
  alphabet.
\<close>

theorem revoke_line_roundtrip:
  assumes "rv_ok e r" and b64: "\<forall>x y. env_b64 e x = Some y \<longrightarrow> CHR ''|'' \<notin> set x"
  shows "revoke_parse e (drop 3 (butlast (revoke_format r))) = Some r"
proof -
  let ?bar = "CHR ''|''"
  let ?f = "[rv_uuid r, rv_pub_key r, show_int (rv_pub_ts r), rv_nick r, show_int (rv_wiped_ts r), show_int (rv_del_ts r)]"
  have "revoke_format r = ''rv|'' @ join_with ?bar ?f @ [CHR 0x0A]" by (simp add: revoke_format_def)
  then have body: "drop 3 (butlast (revoke_format r)) = join_with ?bar ?f" by (simp add: butlast_append del: join_with.simps)
  have nb: "?bar \<notin> set (show_int n)" for n by (rule set_show_int_notin) (simp_all add: is_digit_def)
  have u: "?bar \<notin> set (rv_uuid r)" using assms(1) is_uuid_no_bar by (simp add: rv_ok_def)
  have p: "?bar \<notin> set (rv_pub_key r)"
    using assms by (auto simp: rv_ok_def pub_ok_def b64_decode_def split: option.splits)
  have n: "?bar \<notin> set (rv_nick r)"
  proof -
    have "rv_nick r = [] \<or> ?bar \<notin> set (rv_nick r)"
      using assms(1) by (auto simp: rv_ok_def nick_clean_def split: if_splits)
    then show ?thesis by auto
  qed
  have "split_on ?bar (join_with ?bar ?f) = ?f" using nb u p n by (intro split_on_join) auto
  then show ?thesis
    using assms(1) unfolding body revoke_parse_def rv_ok_def Let_def
    by (simp add: rv_num_show del: join_with.simps)
qed

definition example_b64 :: "string \<Rightarrow> string option" where
  "example_b64 x = (if CHR ''|'' \<in> set x then None else Some (take 64 x))"

definition example_rv_line :: revoked_rec where
  "example_rv_line = \<lparr>rv_uuid = ''11111111-2222-3333-4444-555555555555'', rv_pub_key = replicate 88 (CHR ''A''),
     rv_pub_ts = 5, rv_nick = ''alpha'', rv_wiped_ts = 0, rv_del_ts = 9\<rparr>"

theorem revoke_line_roundtrip_witness:
  "revoke_parse ((env_at 100)\<lparr>env_b64 := example_b64\<rparr>) (drop 3 (butlast (revoke_format example_rv_line))) = Some example_rv_line"
proof (rule revoke_line_roundtrip)
  show "rv_ok ((env_at 100)\<lparr>env_b64 := example_b64\<rparr>) example_rv_line" by code_simp
  show "\<forall>x y. env_b64 ((env_at 100)\<lparr>env_b64 := example_b64\<rparr>) x = Some y \<longrightarrow> CHR ''|'' \<notin> set x"
    by (simp add: example_b64_def)
qed

section \<open>The hub settings are a last-writer-wins store\<close>

type_synonym gs_msg = "env \<times> string"

definition gs_says :: "string \<Rightarrow> (string \<times> i64 \<times> i32) option" where
  "gs_says rest =
     (case split_once (CHR ''|'') rest of
        None \<Rightarrow> None
      | Some (name, after) \<Rightarrow>
          (case gs_find name of
             None \<Rightarrow> None
           | Some g \<Rightarrow>
               let (v, n) = strtoll after; ts_s = drop (n + 1) after; (ts, m) = strtoll ts_s in
               if n = 0 \<or> \<not> (n < length after \<and> after ! n = CHR ''|'') \<or> v < 0 \<or> v > snd g \<or>
                  m = 0 \<or> m \<noteq> length ts_s \<or> ts \<le> 0 then None
               else Some (name, ts, v)))"

definition gs_kv :: "gs_msg \<Rightarrow> (string \<times> i64 \<times> i32) option" where
  "gs_kv m = (case gs_says (snd m) of None \<Rightarrow> None | Some x \<Rightarrow> if ts_ahead (fst m) (fst (snd x)) then None else Some x)"

definition gs_beats :: "i64 \<times> i32 \<Rightarrow> i64 \<times> i32 \<Rightarrow> bool" where
  "gs_beats x c \<longleftrightarrow> fst x > fst c \<or> (fst x = fst c \<and> snd x > snd c)"

definition gs_tab :: "hub_state \<Rightarrow> string \<rightharpoonup> i64 \<times> i32" where
  "gs_tab s = (\<lambda>name. if name = ''autopurge'' \<and> purge_days_ts s > 0 then Some (purge_days_ts s, purge_days_setting s) else None)"

definition gs_deliver :: "gs_msg \<Rightarrow> hub_state \<Rightarrow> hub_state" where
  "gs_deliver m s = snd (gsetting_ingest (fst m) (snd m) s)"

lemma gs_find_Some: "gs_find name = Some g \<longleftrightarrow> name = ''autopurge'' \<and> g = (''autopurge'', 36500)"
  by (auto simp: gs_find_def GSET_def)

lemma as_i32_small: "0 \<le> v \<Longrightarrow> v \<le> 36500 \<Longrightarrow> as_i32 v = v"
  by (simp add: as_i32_def)

lemma gs_ingest_spec:
  "gsetting_ingest e rest s =
     (case gs_kv (e, rest) of
        None \<Rightarrow> (None, s)
      | Some (name, ts, v) \<Rightarrow>
          if gs_beats (ts, v) (purge_days_ts s, purge_days_setting s)
          then (Some True, s\<lparr>purge_days_setting := v, purge_days_ts := ts, config_dirty := True\<rparr>)
          else (Some False, s))"
proof (cases "split_once (CHR ''|'') rest")
  case None
  then show ?thesis by (simp add: gsetting_ingest_def gs_kv_def gs_says_def)
next
  case (Some na)
  obtain name after where na: "na = (name, after)" by (cases na)
  show ?thesis
  proof (cases "gs_find name")
    case None
    with Some na show ?thesis by (simp add: gsetting_ingest_def gs_kv_def gs_says_def)
  next
    case g: (Some g)
    then have name: "name = ''autopurge''" "g = (''autopurge'', 36500)" by (simp_all add: gs_find_Some)
    obtain v n where v: "strtoll after = (v, n)" by fastforce
    obtain ts m where t: "strtoll (drop (Suc n) after) = (ts, m)" by fastforce
    show ?thesis
    proof (cases "n = 0 \<or> \<not> (n < length after \<and> after ! n = CHR ''|'') \<or> v < 0 \<or> v > 36500 \<or>
        m = 0 \<or> m \<noteq> length (drop (Suc n) after) \<or> ts \<le> 0 \<or> ts_ahead e ts")
      case True
      then show ?thesis
        using Some na g v t name
        by (elim disjE) (auto simp: gsetting_ingest_def gs_kv_def gs_says_def Let_def)
    next
      case False
      then have "gs_kv (e, rest) = Some (''autopurge'', ts, v)"
        using Some na g v t name by (simp add: gs_kv_def gs_says_def Let_def)
      moreover have "as_i32 v = v" using False by (intro as_i32_small) auto
      ultimately show ?thesis
        using False Some na g v t name
        by (simp add: gsetting_ingest_def gs_get_def gs_put_def gs_beats_def Let_def)
    qed
  qed
qed

lemma gs_says_name: "gs_says rest = Some (name, ts, v) \<Longrightarrow> name = ''autopurge'' \<and> ts > 0"
  by (auto simp: gs_says_def gs_find_Some Let_def split: option.splits prod.splits if_splits)

interpretation gs_store: lww_store gs_beats gs_deliver gs_tab gs_kv 1 "\<lambda>s. purge_days_ts s \<ge> 0"
proof
  show "\<not> gs_beats x x" for x by (simp add: gs_beats_def)
  show "gs_beats x z" if "gs_beats x y" "gs_beats y z" for x y z using that by (auto simp: gs_beats_def)
  show "gs_beats x y \<or> x = y \<or> gs_beats y x" for x y by (auto simp: gs_beats_def prod_eq_iff)
next
  fix s :: hub_state and r x assume a: "purge_days_ts s \<ge> 0" "gs_kv r = Some x"
  obtain name ts v where x: "x = (name, ts, v)" by (cases x)
  have n: "name = ''autopurge''" "ts > 0"
    using a(2) x gs_says_name [of "snd r"] by (auto simp: gs_kv_def split: option.splits if_splits)
  show "gs_tab (gs_deliver r s) = lww_put gs_beats x (gs_tab s)"
    using a x n gs_ingest_spec [of "fst r" "snd r" s]
    by (auto simp: gs_deliver_def gs_tab_def lww_put_def gs_beats_def fun_eq_iff)
  show "fst x \<notin> dom (gs_tab s) \<Longrightarrow> \<not> card (dom (gs_tab s)) < 1 \<Longrightarrow> gs_tab (gs_deliver r s) = gs_tab s"
  proof -
    assume "fst x \<notin> dom (gs_tab s)" "\<not> card (dom (gs_tab s)) < 1"
    moreover have "dom (gs_tab s) \<subseteq> {''autopurge''}" by (auto simp: gs_tab_def split: if_splits)
    ultimately have False using x n by (metis card.empty fst_conv less_numeral_extra(1) subset_singletonD insertI1)
    then show ?thesis ..
  qed
next
  fix s :: hub_state and r assume "purge_days_ts s \<ge> 0" "gs_kv r = None"
  then show "gs_tab (gs_deliver r s) = gs_tab s"
    using gs_ingest_spec [of "fst r" "snd r" s] by (simp add: gs_deliver_def)
next
  fix s :: hub_state and r assume "purge_days_ts s \<ge> 0"
  then show "purge_days_ts (gs_deliver r s) \<ge> 0"
    using gs_ingest_spec [of "fst r" "snd r" s] gs_says_name [of "snd r"]
    by (auto simp: gs_deliver_def gs_kv_def split: option.splits if_splits)
next
  fix s :: hub_state have "dom (gs_tab s) \<subseteq> {''autopurge''}" by (auto simp: gs_tab_def split: if_splits)
  then show "finite (dom (gs_tab s))" using finite_subset by blast
qed

text \<open>
  The mesh-wide purge setting converges: hubs that start without a stamped value and
  receive the same set of \<^verbatim>\<open>hs|\<close> lines, in any order and with any repetition and none of them ahead of
  the receiving clock, end with the same number of days.
\<close>

theorem gsetting_converge:
  assumes "purge_days_ts s = 0" "purge_days_ts s' = 0" and "snd ` set ms = snd ` set ms'"
    and "\<forall>m \<in> set ms \<union> set ms'. \<forall>x. gs_says (snd m) = Some x \<longrightarrow> \<not> ts_ahead (fst m) (fst (snd x))"
    and "\<exists>m \<in> set ms. gs_says (snd m) \<noteq> None"
  shows "gs_get (fold gs_deliver ms s) name = gs_get (fold gs_deliver ms' s') name"
proof -
  have kv: "gs_kv m = gs_says (snd m)" if "m \<in> set ms \<union> set ms'" for m
    using assms(4) that by (fastforce simp: gs_kv_def split: option.splits)
  have said: "set (gs_store.lww_join.said ms) = set (gs_store.lww_join.said ms')"
  proof -
    have "{x. \<exists>r \<in> set l. gs_kv r = Some x} = {x. \<exists>r \<in> snd ` set l. gs_says r = Some x}"
      if "set l \<subseteq> set ms \<union> set ms'" for l
    proof -
      have "gs_kv m = gs_says (snd m)" if "m \<in> set l" for m using kv that \<open>set l \<subseteq> set ms \<union> set ms'\<close> by blast
      then show ?thesis by (auto simp del: split_paired_Ex)
    qed
    from this [of ms] this [of ms'] show ?thesis
      unfolding gs_store.lww_join.set_said using assms(3) by (simp del: bex_simps)
  qed
  have "gs_store.lww_join.said_keys ms \<subseteq> {''autopurge''}"
    unfolding gs_store.lww_join.said_keys_def gs_store.lww_join.set_said
    using gs_says_name by (fastforce simp: gs_kv_def split: option.splits if_splits)
  moreover have empty: "gs_tab t = Map.empty" if "purge_days_ts t = 0" for t using that by (auto simp: gs_tab_def)
  ultimately have "card (dom (gs_tab s) \<union> gs_store.lww_join.said_keys ms) \<le> card {''autopurge''}"
    using assms(1) by (intro card_mono) auto
  then have eq: "gs_tab (fold gs_deliver ms s) = gs_tab (fold gs_deliver ms' s')"
    using gs_store.lww_join.deliver_converge [OF _ _ _ said] assms(1,2) empty by simp
  have puts: "gs_tab (fold gs_deliver ms s) \<noteq> Map.empty"
  proof -
    obtain m x where "m \<in> set ms" "gs_says (snd m) = Some x" using assms(5) by blast
    then have "x \<in> set (gs_store.lww_join.said ms)" using kv unfolding gs_store.lww_join.set_said by auto
    moreover have "dom (join_puts j kvs t) = fst ` set kvs \<union> dom t" for j :: "i64 \<times> i32 \<Rightarrow> _" and kvs :: "(string \<times> i64 \<times> i32) list" and t
      by (induction kvs arbitrary: t) (auto simp: join_puts_def dom_join_put)
    ultimately have "fst x \<in> dom (gs_tab (fold gs_deliver ms s))"
      using gs_store.lww_join.deliver_puts [of s ms] \<open>card (dom (gs_tab s) \<union> gs_store.lww_join.said_keys ms) \<le> card {''autopurge''}\<close>
        assms(1) by simp
    then show ?thesis by auto
  qed
  have g: "gs_get t ''autopurge'' = (snd v, fst v)" if "gs_tab t ''autopurge'' = Some v" for t v
    using that by (auto simp: gs_tab_def gs_get_def split: if_splits)
  obtain v where "gs_tab (fold gs_deliver ms s) ''autopurge'' = Some v"
    using puts by (auto simp: gs_tab_def fun_eq_iff split: if_splits)
  then show ?thesis using g eq by (cases "name = ''autopurge''") (auto simp: gs_get_def)
qed


theorem gsetting_converge_witness:
  "gs_get (fold gs_deliver [(env_at 100, ''autopurge|30|100''), (env_at 100, ''autopurge|40|100'')] hub_state_new) ''autopurge''
   = gs_get (fold gs_deliver [(env_at 200, ''autopurge|40|100''), (env_at 200, ''autopurge|30|100'')] hub_state_new) ''autopurge''"
proof (rule gsetting_converge)
  let ?a = "''autopurge|30|100''" and ?b = "''autopurge|40|100''"
  have says: "gs_says ?a = Some (''autopurge'', 100, 30)" "gs_says ?b = Some (''autopurge'', 100, 40)" by code_simp+
  show "\<forall>m \<in> set [(env_at 100, ?a), (env_at 100, ?b)] \<union> set [(env_at 200, ?b), (env_at 200, ?a)].
      \<forall>x. gs_says (snd m) = Some x \<longrightarrow> \<not> ts_ahead (fst m) (fst (snd x))"
    using says by (auto simp: ts_ahead_def env_at_def LWW_MAX_FUTURE_def)
  show "\<exists>m \<in> set [(env_at 100, ?a), (env_at 100, ?b)]. gs_says (snd m) \<noteq> None" using says by simp
qed (auto simp: hub_state_new_def)

text \<open>
  A deleted bot with a key on file is on the list afterwards: in a store with room, \<^verbatim>\<open>from_bot\<close>
  makes a deleted bot revoked.
\<close>

lemma from_bot_revokes:
  assumes "\<not> b_is_active b" "is_uuid (b_uuid b)" "rv_inv s" "length (revoked s) < MAX_REVOKED"
    and "fold (from_bot_entry e) (b_entries b)
       (\<lparr>rv_uuid = b_uuid b, rv_pub_key = [], rv_pub_ts = 0, rv_nick = [], rv_wiped_ts = 0, rv_del_ts = 0\<rparr>, False) = (r, True)"
    and "rv_del_ts r > 0"
  shows "is_revoked (snd (from_bot e b s)) (b_uuid b)"
proof -
  have u: "rv_uuid (fst (fold (from_bot_entry e) cs rh)) = rv_uuid (fst rh)" for cs rh
    by (induction cs arbitrary: rh) (auto simp: from_bot_entry_def Let_def split: prod.splits)
  have "rv_uuid r = b_uuid b" using u [of "b_entries b"] assms(5) by (metis fst_conv revoked_rec.select_convs(1))
  moreover have "card (dom (rv_tab s)) < MAX_REVOKED" using assms(3,4) by (simp add: rv_tab_def rv_inv_def card_dom_rec_tab)
  ultimately have "rv_tab (snd (merge r s)) = join_put val_join (b_uuid b, rv_val_of r) (rv_tab s)"
    using merge_tab [OF assms(3), of r] by auto
  then have "is_revoked (snd (merge r s)) (b_uuid b)" by (simp add: is_revoked_tab dom_join_put)
  with assms show ?thesis by (simp add: from_bot_def)
qed

end
