(* ===== verification/Peer_Queue.thy ===== *)
theory Peer_Queue
  imports Hub_State
begin

text \<open>
  The per-connection outbound queue: \<^verbatim>\<open>src/src/queue.rs\<close>, the queue methods of
  \<^verbatim>\<open>HubClient\<close> in \<^verbatim>\<open>src/src/state.rs\<close>, the frame envelope of \<^verbatim>\<open>src/src/net.rs\<close> and the
  plaintext link of a console (\<^verbatim>\<open>ConsoleLink\<close> in \<^verbatim>\<open>src/src/console/mod.rs\<close>).  The properties:
  the byte accounting never goes below zero (a panic) and stays exact, a lane holds at most
  \<^const>\<open>MAX_QUEUE_PER_LANE\<close> messages, an urgent message is never dropped, and the drain puts
  whole frames on the wire in lane order.

  What the code asks of its surroundings is a parameter: the AES-GCM cipher (crate \<^verbatim>\<open>aes-gcm\<close>),
  the random IVs, and what the kernel answers to each send.  Log lines and traffic statistics are
  left out.
\<close>

section \<open>The surroundings\<close>

text \<open>
  The cipher (key, IV, AAD, text), the outcome of one non-blocking send, and the run of the world
  a drain sees: the answers to come (an exhausted list blocks), the IVs to come (an exhausted list
  is an RNG failure), and the bytes the kernel has taken.
\<close>

record aead =
  ae_seal :: "string \<Rightarrow> string \<Rightarrow> string \<Rightarrow> string \<Rightarrow> (string \<times> string) option"
  ae_open :: "string \<Rightarrow> string \<Rightarrow> string \<Rightarrow> string \<Rightarrow> string \<Rightarrow> string option"

datatype send_outcome = Sent nat | Would_Block | Send_Error

record link_world =
  lw_sends :: "send_outcome list"
  lw_ivs :: "string option list"
  lw_wire :: string

section \<open>Frames\<close>

fun be_bytes :: "nat \<Rightarrow> nat \<Rightarrow> string" where
  "be_bytes 0 v = []"
| "be_bytes (Suc n) v = be_bytes n (v div 256) @ [char_of (v mod 256)]"

definition inner_len_is_network_order :: "nat \<Rightarrow> bool" where
  "inner_len_is_network_order cmd \<longleftrightarrow>
     cmd = CMD_CONFIG_DATA \<or> cmd = CMD_BOT_TREE \<or> cmd = CMD_ACTIVITY_REPLY \<or> cmd = CMD_CHAN_DO"

text \<open>\<^verbatim>\<open>to_ne_bytes\<close> is little-endian on the hub's targets (x86-64 and ARM64).\<close>

definition frame_plain :: "nat \<Rightarrow> string \<Rightarrow> bool \<Rightarrow> string" where
  "frame_plain cmd payload network_order =
     char_of cmd # (if network_order then be_bytes 4 (length payload) else rev (be_bytes 4 (length payload)))
       @ payload"

definition link_aad :: "nat \<Rightarrow> nat \<Rightarrow> string" where
  "link_aad dir ctr = ''LNK1'' @ char_of dir # be_bytes 8 ctr"

definition aes_gcm_encrypt_aad ::
    "aead \<Rightarrow> string \<Rightarrow> string \<Rightarrow> string \<Rightarrow> link_world \<Rightarrow> (string \<times> string) option \<times> link_world" where
  "aes_gcm_encrypt_aad ae plain aad key w =
     (case lw_ivs w of
        [] \<Rightarrow> (None, w)
      | None # ivs \<Rightarrow> (None, w\<lparr>lw_ivs := ivs\<rparr>)
      | Some iv # ivs \<Rightarrow>
          (case ae_seal ae key iv aad plain of
             None \<Rightarrow> (None, w\<lparr>lw_ivs := ivs\<rparr>)
           | Some (ct, tag) \<Rightarrow> (Some (iv @ ct, tag), w\<lparr>lw_ivs := ivs\<rparr>)))"

definition aes_gcm_decrypt_aad :: "aead \<Rightarrow> string \<Rightarrow> string \<Rightarrow> string \<Rightarrow> string \<Rightarrow> string option" where
  "aes_gcm_decrypt_aad ae input aad key tag =
     (if length input < GCM_IV_LEN then None
      else if length tag \<noteq> GCM_TAG_LEN then None
      else ae_open ae key (take GCM_IV_LEN input) aad (drop GCM_IV_LEN input) tag)"

section \<open>Console links\<close>

definition console_send :: "nat \<Rightarrow> string \<Rightarrow> console_link \<Rightarrow> (bool \<times> console_link) outcome" where
  "console_send op data l =
     out_bind (checked_sub (length (ck_outq l)) (ck_outq_off l)) (\<lambda>unsent.
       if unsent + (5 + length data) > CONSOLE_CORE_OUTQ_MAX
       then Ret (if op = CONSOLE_REPLY then (False, l) else (True, l\<lparr>ck_drops := ck_drops l + 1\<rparr>))
       else let l1 = (if ck_outq_off l > 0 then l\<lparr>ck_outq := drop (ck_outq_off l) (ck_outq l), ck_outq_off := 0\<rparr> else l)
            in Ret (True, l1\<lparr>ck_outq := ck_outq l1 @ be_bytes 4 (1 + length data) @ char_of op # data\<rparr>))"

definition console_has_pending :: "console_link \<Rightarrow> bool" where
  "console_has_pending l \<longleftrightarrow> length (ck_outq l) > ck_outq_off l"

text \<open>The socketpair's answers: bytes taken, would-block or interrupted, another error.\<close>

fun console_drain :: "send_outcome list \<Rightarrow> console_link \<Rightarrow> bool \<times> string \<times> console_link" where
  "console_drain ss l =
     (if length (ck_outq l) > ck_outq_off l then
        (case ss of
           [] \<Rightarrow> (True, [], l)
         | Sent n # ss' \<Rightarrow>
             if n = 0 then (False, [], l)
             else (case console_drain ss' (l\<lparr>ck_outq_off := ck_outq_off l + n\<rparr>) of
                     (b, out, l') \<Rightarrow> (b, take n (drop (ck_outq_off l) (ck_outq l)) @ out, l'))
         | Would_Block # ss' \<Rightarrow> (True, [], l)
         | Send_Error # ss' \<Rightarrow> (False, [], l))
      else (True, [], l\<lparr>ck_outq := [], ck_outq_off := 0\<rparr>))"

declare console_drain.simps [simp del]

section \<open>Enqueue\<close>

definition has_pending_writes :: "hub_client \<Rightarrow> bool" where
  "has_pending_writes c =
     (case c_console c of
        Some l \<Rightarrow> console_has_pending l
      | None \<Rightarrow> c_writing_offset c < length (c_writing_buf c) \<or> (\<exists>l \<in> set (c_out_lanes c). ql_msgs l \<noteq> []))"

definition queue_destroy :: "hub_client \<Rightarrow> hub_client" where
  "queue_destroy c =
     c\<lparr>c_out_lanes := map (\<lambda>l. l\<lparr>ql_msgs := [], ql_bytes := 0\<rparr>) (c_out_lanes c), c_out_total_bytes := 0,
       c_writing_buf := [], c_writing_offset := 0\<rparr>"

definition cfg_push_lost :: "queued_msg \<Rightarrow> hub_client \<Rightarrow> hub_client" where
  "cfg_push_lost m c =
     (let c1 = (if qm_cmd m = CMD_BOT_TREE then c\<lparr>c_tree_sent_hash := None\<rparr> else c)
      in if qm_cmd m = CMD_CONFIG_DATA then c1\<lparr>c_cfg_sent_hash := None\<rparr> else c1)"

text \<open>
  \<^verbatim>\<open>enqueue\<close> in three parts: the coalescing replacement, the eviction of the lane's oldest
  message (with its rate-limited warning), and the push.
\<close>

definition same_coalesce :: "queued_msg \<Rightarrow> queued_msg \<Rightarrow> bool" where
  "same_coalesce m x \<longleftrightarrow> qm_coalesce_key x \<noteq> [] \<and> qm_coalesce_key x = qm_coalesce_key m"

definition coalesce_msg :: "queued_msg \<Rightarrow> queued_msg \<Rightarrow> queued_msg" where
  "coalesce_msg m x = x\<lparr>qm_payload := qm_payload m, qm_lamport_seq := qm_lamport_seq m, qm_origin := qm_origin m\<rparr>"

definition enqueue_coalesce :: "nat \<Rightarrow> nat \<Rightarrow> queued_msg \<Rightarrow> hub_client \<Rightarrow> hub_client outcome" where
  "enqueue_coalesce li i m c =
     (let l = c_out_lanes c ! li; x = ql_msgs l ! i
      in out_bind (checked_sub (ql_bytes l + msg_len m) (msg_len x)) (\<lambda>lb.
         out_bind (checked_sub (c_out_total_bytes c + msg_len m) (msg_len x)) (\<lambda>tb.
           Ret (c\<lparr>c_out_lanes := (c_out_lanes c)[li := l\<lparr>ql_msgs := (ql_msgs l)[i := coalesce_msg m x], ql_bytes := lb\<rparr>],
                  c_out_total_bytes := tb\<rparr>))))"

definition drop_warning :: "env \<Rightarrow> hub_client \<Rightarrow> hub_client outcome" where
  "drop_warning e c =
     (if env_now e - c_drop_logged c \<ge> QUEUE_DROP_LOG_EVERY
      then Ret (c\<lparr>c_drop_logged := env_now e, c_drop_unlogged := 0\<rparr>)
      else if c_drop_unlogged c < 2147483647 then Ret (c\<lparr>c_drop_unlogged := c_drop_unlogged c + 1\<rparr>)
      else Panic)"

definition pop_front :: "nat \<Rightarrow> hub_client \<Rightarrow> (queued_msg option \<times> hub_client) outcome" where
  "pop_front li c =
     (let l = c_out_lanes c ! li
      in case ql_msgs l of
           [] \<Rightarrow> Ret (None, c)
         | m # ms \<Rightarrow>
             out_bind (checked_sub (ql_bytes l) (msg_len m)) (\<lambda>lb.
             out_bind (checked_sub (c_out_total_bytes c) (msg_len m)) (\<lambda>tb.
               Ret (Some m, c\<lparr>c_out_lanes := (c_out_lanes c)[li := l\<lparr>ql_msgs := ms, ql_bytes := lb\<rparr>],
                              c_out_total_bytes := tb\<rparr>))))"

definition drop_oldest :: "env \<Rightarrow> nat \<Rightarrow> hub_client \<Rightarrow> hub_client outcome" where
  "drop_oldest e li c =
     out_bind (pop_front li c) (\<lambda>(old, c1).
       case old of
         None \<Rightarrow> Ret c1
       | Some m \<Rightarrow> out_bind (drop_warning e c1) (\<lambda>c2. Ret (cfg_push_lost m c2)))"

definition push_back :: "env \<Rightarrow> nat \<Rightarrow> queued_msg \<Rightarrow> hub_client \<Rightarrow> hub_client" where
  "push_back e li m c =
     (let c1 = (if has_pending_writes c then c else c\<lparr>c_write_wait_since := env_now e\<rparr>);
          l = c_out_lanes c1 ! li
      in c1\<lparr>c_out_lanes := (c_out_lanes c1)[li := l\<lparr>ql_msgs := ql_msgs l @ [m], ql_bytes := ql_bytes l + msg_len m\<rparr>],
            c_out_total_bytes := c_out_total_bytes c1 + msg_len m\<rparr>)"

definition lane_full :: "nat \<Rightarrow> queued_msg \<Rightarrow> hub_client \<Rightarrow> bool" where
  "lane_full li m c \<longleftrightarrow>
     length (ql_msgs (c_out_lanes c ! li)) \<ge> MAX_QUEUE_PER_LANE \<or>
     c_out_total_bytes c + msg_len m > MAX_QUEUED_BYTES_PER_PEER"

definition enqueue :: "env \<Rightarrow> queued_msg \<Rightarrow> hub_client \<Rightarrow> (bool \<times> hub_client) outcome" where
  "enqueue e m c =
     (if c_fd c < 0 then Ret (False, c)
      else let li = lane_index (qm_lane m) in
        case (if qm_coalesce_key m \<noteq> [] then position (same_coalesce m) (ql_msgs (c_out_lanes c ! li)) else None) of
          Some i \<Rightarrow> out_bind (enqueue_coalesce li i m c) (\<lambda>c'. Ret (True, c'))
        | None \<Rightarrow>
            if lane_full li m c then
              (if li = lane_index Urgent then Ret (False, c)
               else out_bind (drop_oldest e li c) (\<lambda>c'. Ret (True, push_back e li m c')))
            else Ret (True, push_back e li m c))"

definition send_urgent :: "env \<Rightarrow> nat \<Rightarrow> string \<Rightarrow> hub_client \<Rightarrow> (bool \<times> hub_client) outcome" where
  "send_urgent e cmd payload c =
     (case queued_msg_new cmd Urgent payload of
        None \<Rightarrow> Ret (False, c)
      | Some m \<Rightarrow> enqueue e m c)"

section \<open>Drain\<close>

definition encrypt_into_writing ::
    "aead \<Rightarrow> queued_msg \<Rightarrow> hub_client \<Rightarrow> link_world \<Rightarrow> (nat \<times> hub_client \<times> link_world) outcome" where
  "encrypt_into_writing ae m c w =
     (if msg_len m > MAX_BULK_PAYLOAD then Ret (0, c, w)
      else let plain = frame_plain (qm_cmd m) (qm_payload m)
                         (c_typ c = Ct_Bot \<or> inner_len_is_network_order (qm_cmd m))
      in if 4 + GCM_IV_LEN + length plain + GCM_TAG_LEN > c_writing_cap c then Ret (0, c, w)
      else let aad = (if c_link_tx_seq c then link_aad (c_link_dir_tx c) (c_link_tx_ctr c) else [])
      in case aes_gcm_encrypt_aad ae plain aad (c_session_key c) w of
           (None, w1) \<Rightarrow> Ret (0, c, w1)
         | (Some (body, tag), w1) \<Rightarrow>
             if c_link_tx_seq c \<and> c_link_tx_ctr c + 1 \<ge> 2 ^ 64 then Panic
             else let c1 = (if c_link_tx_seq c then c\<lparr>c_link_tx_ctr := c_link_tx_ctr c + 1\<rparr>
                            else if qm_cmd m = CMD_LINK_SEQ \<and> qm_payload m = ''go'' then c\<lparr>c_link_tx_seq := True\<rparr>
                            else c);
                      packet_len = length body + GCM_TAG_LEN
                  in Ret (4 + packet_len, c1\<lparr>c_writing_buf := be_bytes 4 packet_len @ body @ tag\<rparr>, w1))"

text \<open>The send loop: one answer of the kernel per round.\<close>

definition clear_writing :: "hub_client \<Rightarrow> hub_client" where
  "clear_writing c = c\<lparr>c_writing_buf := [], c_writing_offset := 0\<rparr>"

definition bw_window :: "env \<Rightarrow> hub_client \<Rightarrow> hub_client" where
  "bw_window e c =
     (if c_bw_window_start c \<noteq> env_now e
      then c\<lparr>c_bw_window_start := env_now e, c_bw_bytes_in_window := 0\<rparr> else c)"

definition account_sent :: "env \<Rightarrow> nat \<Rightarrow> hub_client \<Rightarrow> hub_client" where
  "account_sent e n c =
     (let c1 = bw_window e (c\<lparr>c_writing_offset := c_writing_offset c + n, c_write_wait_since := env_now e\<rparr>)
      in c1\<lparr>c_bw_bytes_in_window := c_bw_bytes_in_window c1 + int n\<rparr>)"

fun push_sends :: "env \<Rightarrow> send_outcome list \<Rightarrow> hub_client \<Rightarrow> bool \<times> string \<times> send_outcome list \<times> hub_client" where
  "push_sends e ss c =
     (if c_writing_offset c < length (c_writing_buf c) then
        (if \<not> c_sock c then (False, [], ss, clear_writing c)
         else case ss of
           [] \<Rightarrow> (False, [], [], c)
         | Sent n # ss' \<Rightarrow>
             if n > 0 then
               (case push_sends e ss' (account_sent e n c) of
                  (b, out, ss'', c') \<Rightarrow> (b, take n (drop (c_writing_offset c) (c_writing_buf c)) @ out, ss'', c'))
             else (False, [], ss', c)
         | Would_Block # ss' \<Rightarrow> (False, [], ss', c)
         | Send_Error # ss' \<Rightarrow> (False, [], ss', clear_writing c))
      else (True, [], ss, clear_writing c))"

declare push_sends.simps [simp del]

definition push_in_flight :: "env \<Rightarrow> hub_client \<Rightarrow> link_world \<Rightarrow> bool \<times> hub_client \<times> link_world" where
  "push_in_flight e c w =
     (case push_sends e (lw_sends w) c of
        (b, out, ss, c') \<Rightarrow> (b, c', w\<lparr>lw_sends := ss, lw_wire := lw_wire w @ out\<rparr>))"

text \<open>
  What none of the drain's helpers touches: everything but the in-flight buffer, the sequence
  state, the bandwidth window and the sent hashes.  The lanes are the part termination needs.
\<close>

lemma out_lanes_push_sends:
  "c_out_lanes (snd (snd (snd (push_sends e ss c)))) = c_out_lanes c \<and>
   c_out_total_bytes (snd (snd (snd (push_sends e ss c)))) = c_out_total_bytes c"
  by (induction e ss c rule: push_sends.induct, subst (1 2) push_sends.simps)
     (auto simp: clear_writing_def account_sent_def bw_window_def Let_def split: send_outcome.splits list.splits prod.splits)

lemma out_lanes_push_in_flight [simp]:
  assumes "push_in_flight e c w = (b, c', w')"
  shows "c_out_lanes c' = c_out_lanes c" "c_out_total_bytes c' = c_out_total_bytes c"
  using assms out_lanes_push_sends [of e "lw_sends w" c] by (auto simp: push_in_flight_def split: prod.splits)

lemma out_lanes_encrypt [simp]:
  assumes "encrypt_into_writing ae m c w = Ret (n, c', w')"
  shows "c_out_lanes c' = c_out_lanes c" "c_out_total_bytes c' = c_out_total_bytes c"
  using assms by (auto simp: encrypt_into_writing_def Let_def split: if_splits prod.splits option.splits)

lemma out_lanes_cfg_push_lost [simp]:
  "c_out_lanes (cfg_push_lost m c) = c_out_lanes c" "c_out_total_bytes (cfg_push_lost m c) = c_out_total_bytes c"
  by (simp_all add: cfg_push_lost_def Let_def)

lemma out_lanes_bw_window [simp]:
  "c_out_lanes (bw_window e c) = c_out_lanes c" "c_out_total_bytes (bw_window e c) = c_out_total_bytes c"
  by (simp_all add: bw_window_def)

definition over_budget :: "nat \<Rightarrow> hub_client \<Rightarrow> bool" where
  "over_budget li c \<longleftrightarrow>
     (li = lane_index Bulk \<and> c_bw_bytes_in_window c > BULK_SOFT_BUDGET_BPS) \<or>
     (li = lane_index Delta \<and> c_bw_bytes_in_window c > DELTA_HARD_BUDGET_BPS)"

lemma pop_front_Some:
  assumes "pop_front li c = Ret (Some m, c')" and "li < length (c_out_lanes c)"
  shows "ql_msgs (c_out_lanes c ! li) = m # ql_msgs (c_out_lanes c' ! li)"
  using assms by (auto simp: pop_front_def Let_def out_bind_Ret split: list.splits)

lemma drain_step_less:
  assumes "pop_front li (bw_window e c) = Ret (Some m, c2)" "li < length (c_out_lanes c)"
  shows "length (ql_msgs (c_out_lanes c2 ! li)) < length (ql_msgs (c_out_lanes c ! li))"
  using pop_front_Some [OF assms(1)] assms(2) by simp

text \<open>
  The loop over one lane.  The lanes are a fixed array; an index outside it would panic.  The
  result says whether the drain goes on with the next lane.
\<close>

function drain_lane ::
    "env \<Rightarrow> aead \<Rightarrow> nat \<Rightarrow> hub_client \<Rightarrow> link_world \<Rightarrow> (bool \<times> hub_client \<times> link_world) outcome" where
  "drain_lane e ae li c w =
     (if \<not> li < length (c_out_lanes c) then Panic
      else if ql_msgs (c_out_lanes c ! li) = [] then Ret (True, c, w)
      else let c1 = bw_window e c in
        if over_budget li c1 then Ret (False, c1, w)
        else case pop_front li c1 of
          Panic \<Rightarrow> Panic
        | Ret (None, c2) \<Rightarrow> Ret (True, c2, w)
        | Ret (Some m, c2) \<Rightarrow>
           (case encrypt_into_writing ae m c2 w of
              Panic \<Rightarrow> Panic
            | Ret (wire_len, c3, w3) \<Rightarrow>
                if wire_len = 0 then drain_lane e ae li (cfg_push_lost m c3) w3
                else (case push_in_flight e (c3\<lparr>c_writing_offset := 0\<rparr>) w3 of
                        (go, c4, w4) \<Rightarrow> if go then drain_lane e ae li c4 w4 else Ret (False, c4, w4))))"
  by pat_completeness auto

termination
  by (relation "measure (\<lambda>(e, ae, li, c, w). length (ql_msgs (c_out_lanes c ! li)))")
     (auto simp: drain_step_less out_lanes_push_in_flight(1) [OF sym])

declare drain_lane.simps [simp del]

fun drain_lanes ::
    "env \<Rightarrow> aead \<Rightarrow> nat list \<Rightarrow> hub_client \<Rightarrow> link_world \<Rightarrow> (hub_client \<times> link_world) outcome" where
  "drain_lanes e ae [] c w = Ret (c, w)"
| "drain_lanes e ae (li # ls) c w =
     out_bind (drain_lane e ae li c w) (\<lambda>(go, c', w'). if go then drain_lanes e ae ls c' w' else Ret (c', w'))"

definition drain_writable :: "env \<Rightarrow> aead \<Rightarrow> hub_client \<Rightarrow> link_world \<Rightarrow> (hub_client \<times> link_world) outcome" where
  "drain_writable e ae c w =
     (case c_console c of
        Some l \<Rightarrow>
          (case console_drain (lw_sends w) l of
             (_, out, l') \<Rightarrow> Ret (c\<lparr>c_console := Some l'\<rparr>, w\<lparr>lw_wire := lw_wire w @ out\<rparr>))
      | None \<Rightarrow>
          if c_fd c < 0 \<or> \<not> c_sock c then Ret (c, w)
          else case push_in_flight e c w of
                 (go, c1, w1) \<Rightarrow> if go then drain_lanes e ae [0..<LANE_COUNT] c1 w1 else Ret (c1, w1))"

section \<open>The queue invariant\<close>

text \<open>
  Three lanes; the byte counts are the sums of the payloads queued; no lane over its cap, every
  message in its own lane, and at most one message per coalesce key.
\<close>

definition keys_of :: "queued_msg list \<Rightarrow> string list" where
  "keys_of q = filter (\<lambda>k. k \<noteq> []) (map qm_coalesce_key q)"

definition lane_ok :: "nat \<Rightarrow> queue_lane \<Rightarrow> bool" where
  "lane_ok li l \<longleftrightarrow>
     ql_bytes l = sum_list (map msg_len (ql_msgs l)) \<and> length (ql_msgs l) \<le> MAX_QUEUE_PER_LANE \<and>
     (\<forall>m \<in> set (ql_msgs l). lane_index (qm_lane m) = li) \<and> distinct (keys_of (ql_msgs l))"

definition queue_inv :: "hub_client \<Rightarrow> bool" where
  "queue_inv c \<longleftrightarrow>
     length (c_out_lanes c) = LANE_COUNT \<and> (\<forall>li < LANE_COUNT. lane_ok li (c_out_lanes c ! li)) \<and>
     c_out_total_bytes c = sum_list (map ql_bytes (c_out_lanes c))"

abbreviation queued :: "hub_client \<Rightarrow> queued_msg list list" where
  "queued c \<equiv> map ql_msgs (c_out_lanes c)"

lemma lane_index_less [simp]: "lane_index l < LANE_COUNT"
  by (cases l) (simp_all add: lane_index_def LANE_COUNT_def)

lemma queue_inv_cong:
  "c_out_lanes c' = c_out_lanes c \<Longrightarrow> c_out_total_bytes c' = c_out_total_bytes c \<Longrightarrow> queue_inv c' = queue_inv c"
  by (simp add: queue_inv_def)

lemma queue_inv_lane:
  assumes "queue_inv c" "li < LANE_COUNT"
  shows "li < length (c_out_lanes c)" "lane_ok li (c_out_lanes c ! li)"
    "ql_bytes (c_out_lanes c ! li) \<le> c_out_total_bytes c"
  using assms member_le_sum_list [of "ql_bytes (c_out_lanes c ! li)" "map ql_bytes (c_out_lanes c)"]
  by (auto simp: queue_inv_def)

lemma lane_ok_member:
  "lane_ok li l \<Longrightarrow> m \<in> set (ql_msgs l) \<Longrightarrow> msg_len m \<le> ql_bytes l"
  using member_le_sum_list [of "msg_len m" "map msg_len (ql_msgs l)"] by (auto simp: lane_ok_def)

lemma queue_inv_set:
  assumes "queue_inv c" "li < LANE_COUNT" "lane_ok li l" "t + ql_bytes (c_out_lanes c ! li) = c_out_total_bytes c + ql_bytes l"
    and "c_out_lanes c' = (c_out_lanes c)[li := l]" "c_out_total_bytes c' = t"
  shows "queue_inv c'"
proof -
  note li = queue_inv_lane [OF assms(1,2)]
  have tot: "c_out_total_bytes c = sum_list (map ql_bytes (c_out_lanes c))" using assms(1) by (simp add: queue_inv_def)
  have "sum_list (map ql_bytes ((c_out_lanes c)[li := l])) + ql_bytes (c_out_lanes c ! li)
      = sum_list (map ql_bytes (c_out_lanes c)) + ql_bytes l"
    using li(1,3) tot by (simp add: map_update sum_list_update)
  then show ?thesis
    using assms tot by (auto simp: queue_inv_def nth_list_update)
qed

section \<open>What enqueue does to the queues\<close>

text \<open>
  The contract of \<^verbatim>\<open>enqueue\<close> on one lane, as a list of messages: a message with the coalesce key
  of a queued one takes its place, a full lane loses its oldest, everything else is appended.
\<close>

definition lane_put :: "bool \<Rightarrow> queued_msg \<Rightarrow> queued_msg list \<Rightarrow> queued_msg list" where
  "lane_put full m q =
     (case (if qm_coalesce_key m \<noteq> [] then position (same_coalesce m) q else None) of
        Some i \<Rightarrow> q[i := coalesce_msg m (q ! i)]
      | None \<Rightarrow> (if full then tl q else q) @ [m])"

lemma coalesce_msg_sel [simp]:
  "qm_payload (coalesce_msg m x) = qm_payload m" "qm_coalesce_key (coalesce_msg m x) = qm_coalesce_key x"
  "qm_lane (coalesce_msg m x) = qm_lane x" "qm_cmd (coalesce_msg m x) = qm_cmd x"
  by (simp_all add: coalesce_msg_def)

lemma keys_of_coalesce: "i < length q \<Longrightarrow> keys_of (q[i := coalesce_msg m (q ! i)]) = keys_of q"
proof -
  assume i: "i < length q"
  have "map qm_coalesce_key (q[i := coalesce_msg m (q ! i)]) = (map qm_coalesce_key q)[i := map qm_coalesce_key q ! i]"
    using i by (simp add: map_update)
  then show ?thesis by (simp add: keys_of_def)
qed

lemma keys_of_Cons: "keys_of (x # q) = (if qm_coalesce_key x = [] then keys_of q else qm_coalesce_key x # keys_of q)"
  by (simp add: keys_of_def)

lemma keys_of_snoc:
  "keys_of (q @ [x]) = (if qm_coalesce_key x = [] then keys_of q else keys_of q @ [qm_coalesce_key x])"
  by (simp add: keys_of_def)

lemma lane_ok_coalesce:
  assumes "lane_ok li l" "i < length (ql_msgs l)"
    and "ql_msgs l' = (ql_msgs l)[i := coalesce_msg m (ql_msgs l ! i)]"
    and "ql_bytes l' + msg_len (ql_msgs l ! i) = ql_bytes l + msg_len m"
  shows "lane_ok li l'"
proof -
  have "msg_len (ql_msgs l ! i) \<le> sum_list (map msg_len (ql_msgs l))"
    using assms(2) by (intro member_le_sum_list) auto
  then have "sum_list (map msg_len (ql_msgs l')) + msg_len (ql_msgs l ! i) = sum_list (map msg_len (ql_msgs l)) + msg_len m"
    using assms(2,3) by (simp add: map_update sum_list_update)
  moreover have "\<forall>x \<in> set (ql_msgs l'). lane_index (qm_lane x) = li"
    using assms(1,2,3) set_update_subset_insert [of "ql_msgs l" i "coalesce_msg m (ql_msgs l ! i)"]
    by (auto simp: lane_ok_def)
  ultimately show ?thesis
    using assms keys_of_coalesce [OF assms(2)] by (auto simp: lane_ok_def)
qed

lemma lane_ok_snoc:
  assumes "lane_ok li l" "length (ql_msgs l) < MAX_QUEUE_PER_LANE" "lane_index (qm_lane m) = li"
    and "qm_coalesce_key m \<noteq> [] \<Longrightarrow> \<forall>x \<in> set (ql_msgs l). \<not> same_coalesce m x"
    and "ql_msgs l' = ql_msgs l @ [m]" "ql_bytes l' = ql_bytes l + msg_len m"
  shows "lane_ok li l'"
proof -
  have "qm_coalesce_key m \<noteq> [] \<Longrightarrow> qm_coalesce_key m \<notin> set (keys_of (ql_msgs l))"
    using assms(4) by (auto simp: keys_of_def same_coalesce_def)
  with assms show ?thesis by (auto simp: lane_ok_def keys_of_snoc)
qed

lemma lane_ok_tl:
  "lane_ok li l \<Longrightarrow> ql_msgs l = m # ms \<Longrightarrow> ql_msgs l' = ms \<Longrightarrow> ql_bytes l' = ql_bytes l - msg_len m \<Longrightarrow> lane_ok li l'"
  by (auto simp: lane_ok_def keys_of_Cons split: if_splits)

text \<open>Popping and pushing keep the invariant and never go below zero.\<close>

lemma pop_front_inv:
  assumes "queue_inv c" "li < LANE_COUNT" "ql_msgs (c_out_lanes c ! li) = m # ms"
  obtains c' where "pop_front li c = Ret (Some m, c')" "queue_inv c'" "queued c' = (queued c)[li := ms]"
    "c_out_total_bytes c' = c_out_total_bytes c - msg_len m"
    "c' = c\<lparr>c_out_lanes := c_out_lanes c', c_out_total_bytes := c_out_total_bytes c'\<rparr>"
proof -
  let ?l = "c_out_lanes c ! li"
  note li = queue_inv_lane [OF assms(1,2)]
  have m: "msg_len m \<le> ql_bytes ?l" using lane_ok_member [OF li(2), of m] assms(3) by simp
  let ?l' = "?l\<lparr>ql_msgs := ms, ql_bytes := ql_bytes ?l - msg_len m\<rparr>"
  let ?c = "c\<lparr>c_out_lanes := (c_out_lanes c)[li := ?l'], c_out_total_bytes := c_out_total_bytes c - msg_len m\<rparr>"
  have r: "pop_front li c = Ret (Some m, ?c)" using assms(3) m li(3) by (simp add: pop_front_def Let_def)
  have "lane_ok li ?l'" by (rule lane_ok_tl [OF li(2) assms(3)]) simp_all
  then have "queue_inv ?c"
    using m li(3) by (intro queue_inv_set [OF assms(1,2), of ?l']) auto
  then show thesis using r by (intro that [of ?c]) (auto simp: map_update)
qed

lemma push_back_inv:
  assumes "queue_inv c" "lane_index (qm_lane m) = li" "length (ql_msgs (c_out_lanes c ! li)) < MAX_QUEUE_PER_LANE"
    and "qm_coalesce_key m \<noteq> [] \<Longrightarrow> \<forall>x \<in> set (ql_msgs (c_out_lanes c ! li)). \<not> same_coalesce m x"
  shows "queue_inv (push_back e li m c)" "queued (push_back e li m c) = (queued c)[li := queued c ! li @ [m]]"
    "c_out_total_bytes (push_back e li m c) = c_out_total_bytes c + msg_len m"
proof -
  have L: "li < LANE_COUNT" using assms(2) by auto
  note li = queue_inv_lane [OF assms(1) L]
  let ?l = "c_out_lanes c ! li" let ?l' = "?l\<lparr>ql_msgs := ql_msgs ?l @ [m], ql_bytes := ql_bytes ?l + msg_len m\<rparr>"
  have f: "c_out_lanes (push_back e li m c) = (c_out_lanes c)[li := ?l']"
      "c_out_total_bytes (push_back e li m c) = c_out_total_bytes c + msg_len m"
    by (simp_all add: push_back_def Let_def)
  have "lane_ok li ?l'" by (rule lane_ok_snoc [OF li(2) assms(3,2,4)]) simp_all
  then show "queue_inv (push_back e li m c)" using queue_inv_set [OF assms(1) L _ _ f] by simp
  show "queued (push_back e li m c) = (queued c)[li := queued c ! li @ [m]]"
    using f li(1) by (simp add: map_update)
  show "c_out_total_bytes (push_back e li m c) = c_out_total_bytes c + msg_len m" by (rule f)
qed

text \<open>When a message is refused, and the whole effect of \<^const>\<open>enqueue\<close> otherwise.\<close>

definition enqueue_refuses :: "queued_msg \<Rightarrow> hub_client \<Rightarrow> bool" where
  "enqueue_refuses m c \<longleftrightarrow>
     c_fd c < 0 \<or>
     (qm_lane m = Urgent \<and> lane_full (lane_index Urgent) m c \<and>
      (qm_coalesce_key m = [] \<or> (\<forall>x \<in> set (queued c ! lane_index Urgent). \<not> same_coalesce m x)))"

text \<open>The fields a queue operation never touches.\<close>

definition same_link :: "hub_client \<Rightarrow> hub_client \<Rightarrow> bool" where
  "same_link c c' \<longleftrightarrow>
     c_fd c' = c_fd c \<and> c_ip c' = c_ip c \<and> c_id c' = c_id c \<and> c_typ c' = c_typ c \<and> c_sock c' = c_sock c \<and>
     c_session_key c' = c_session_key c \<and> c_authenticated c' = c_authenticated c \<and>
     c_sync_held c' = c_sync_held c \<and> c_retiring c' = c_retiring c \<and> c_console c' = c_console c \<and> c_internal c' = c_internal c \<and>
     c_link_dir_tx c' = c_link_dir_tx c \<and> c_link_dir_rx c' = c_link_dir_rx c \<and>
     c_link_rx_seq c' = c_link_rx_seq c \<and> c_link_rx_ctr c' = c_link_rx_ctr c \<and>
     c_link_offered c' = c_link_offered c \<and> c_link_go_queued c' = c_link_go_queued c \<and>
     c_writing_cap c' = c_writing_cap c \<and> c_superseded c' = c_superseded c \<and> c_refused c' = c_refused c \<and>
     c_recv_buf c' = c_recv_buf c \<and> c_recv_off c' = c_recv_off c \<and> c_recv_cap c' = c_recv_cap c"

definition same_in_flight :: "hub_client \<Rightarrow> hub_client \<Rightarrow> bool" where
  "same_in_flight c c' \<longleftrightarrow>
     c_writing_buf c' = c_writing_buf c \<and> c_writing_offset c' = c_writing_offset c \<and>
     c_link_tx_seq c' = c_link_tx_seq c \<and> c_link_tx_ctr c' = c_link_tx_ctr c"

lemma same_link_refl [simp]: "same_link c c"
  by (simp add: same_link_def)

lemma same_link_trans [trans]: "same_link a b \<Longrightarrow> same_link b c \<Longrightarrow> same_link a c"
  by (simp add: same_link_def)

lemma same_link_queue [simp]:
  "same_link c (c\<lparr>c_out_lanes := x, c_out_total_bytes := y\<rparr>)" "same_link c (cfg_push_lost m c)"
  "same_link c (push_back e li m c)"
  "same_in_flight c (c\<lparr>c_out_lanes := x, c_out_total_bytes := y\<rparr>)" "same_in_flight c (cfg_push_lost m c)"
  "same_in_flight c (push_back e li m c)"
  by (simp_all add: same_link_def same_in_flight_def cfg_push_lost_def push_back_def Let_def)

lemma enqueue_coalesce_inv:
  assumes "queue_inv c" "li < LANE_COUNT" "i < length (ql_msgs (c_out_lanes c ! li))"
  obtains c' where "enqueue_coalesce li i m c = Ret c'" "queue_inv c'" "same_link c c'" "same_in_flight c c'"
    "queued c' = (queued c)[li := (queued c ! li)[i := coalesce_msg m (queued c ! li ! i)]]"
proof -
  let ?l = "c_out_lanes c ! li" let ?x = "ql_msgs ?l ! i"
  note li = queue_inv_lane [OF assms(1,2)]
  have x: "msg_len ?x \<le> ql_bytes ?l" using lane_ok_member [OF li(2)] assms(3) by simp
  let ?l' = "?l\<lparr>ql_msgs := (ql_msgs ?l)[i := coalesce_msg m ?x], ql_bytes := ql_bytes ?l + msg_len m - msg_len ?x\<rparr>"
  let ?c = "c\<lparr>c_out_lanes := (c_out_lanes c)[li := ?l'], c_out_total_bytes := c_out_total_bytes c + msg_len m - msg_len ?x\<rparr>"
  have "enqueue_coalesce li i m c = Ret ?c" using x li(3) by (simp add: enqueue_coalesce_def Let_def)
  moreover have "lane_ok li ?l'" using x by (intro lane_ok_coalesce [OF li(2) assms(3), of _ m]) simp_all
  then have "queue_inv ?c" using x li(3) by (intro queue_inv_set [OF assms(1,2), of ?l']) auto
  ultimately show thesis using li(1) by (intro that [of ?c]) (auto simp: map_update)
qed

lemma drop_warning_spec:
  assumes "c_drop_unlogged c < 2147483647"
  obtains c' where "drop_warning e c = Ret c'" "c_out_lanes c' = c_out_lanes c"
    "c_out_total_bytes c' = c_out_total_bytes c" "same_link c c'" "same_in_flight c c'"
  using assms by (cases "env_now e - c_drop_logged c \<ge> QUEUE_DROP_LOG_EVERY")
    (auto simp: drop_warning_def same_link_def same_in_flight_def)

lemma drop_oldest_inv:
  assumes "queue_inv c" "li < LANE_COUNT" "c_drop_unlogged c < 2147483647"
  obtains c' where "drop_oldest e li c = Ret c'" "queue_inv c'" "same_link c c'" "same_in_flight c c'"
    "queued c' = (queued c)[li := tl (queued c ! li)]"
proof (cases "ql_msgs (c_out_lanes c ! li)")
  case Nil
  have "li < length (c_out_lanes c)" by (rule queue_inv_lane [OF assms(1,2)])
  then have "queued c = (queued c)[li := tl (queued c ! li)]" using Nil by (metis list.sel(2) list_update_id nth_map)
  moreover have "drop_oldest e li c = Ret c" using Nil by (simp add: drop_oldest_def pop_front_def Let_def)
  ultimately show thesis using assms(1) by (intro that [of c]) (simp_all add: same_in_flight_def)
next
  case (Cons m ms)
  from pop_front_inv [OF assms(1,2) Cons] obtain c1 where c1: "pop_front li c = Ret (Some m, c1)" "queue_inv c1"
    "queued c1 = (queued c)[li := ms]" "c1 = c\<lparr>c_out_lanes := c_out_lanes c1, c_out_total_bytes := c_out_total_bytes c1\<rparr>"
    by blast
  have d: "c_drop_unlogged c1 = c_drop_unlogged c" by (subst c1(4)) simp
  then obtain c2 where c2: "drop_warning e c1 = Ret c2" "c_out_lanes c2 = c_out_lanes c1"
      "c_out_total_bytes c2 = c_out_total_bytes c1" "same_link c1 c2" "same_in_flight c1 c2"
    using assms(3) drop_warning_spec [of c1 e] by auto
  have "same_link c c1" "same_in_flight c c1" by (subst c1(4), simp)+
  then have "same_link c (cfg_push_lost m c2)" "same_in_flight c (cfg_push_lost m c2)"
    using c2(4,5) same_link_queue(2,5) [of c2 m] by (auto simp: same_link_def same_in_flight_def)
  moreover have "li < length (c_out_lanes c)" by (rule queue_inv_lane [OF assms(1,2)])
  moreover have "drop_oldest e li c = Ret (cfg_push_lost m c2)" using c1(1) c2(1) by (simp add: drop_oldest_def)
  ultimately show thesis
    using c1(2,3) c2(2,3) Cons queue_inv_cong [of "cfg_push_lost m c2" c1] by (intro that [of "cfg_push_lost m c2"]) auto
qed

lemma push_after_drop:
  assumes "queue_inv c" "li = lane_index (qm_lane m)" "c_drop_unlogged c < 2147483647"
    and nc: "qm_coalesce_key m \<noteq> [] \<Longrightarrow> \<forall>x \<in> set (queued c ! li). \<not> same_coalesce m x"
  obtains c1 where "drop_oldest e li c = Ret c1" "queue_inv (push_back e li m c1)"
    "same_link c (push_back e li m c1)" "same_in_flight c (push_back e li m c1)"
    "queued (push_back e li m c1) = (queued c)[li := tl (queued c ! li) @ [m]]"
proof -
  have L: "li < LANE_COUNT" by (simp add: assms(2))
  note li = queue_inv_lane [OF assms(1) L]
  obtain c1 where c1: "drop_oldest e li c = Ret c1" "queue_inv c1" "same_link c c1" "same_in_flight c c1"
      "queued c1 = (queued c)[li := tl (queued c ! li)]"
    using drop_oldest_inv [OF assms(1) L assms(3)] by metis
  have l1: "li < length (c_out_lanes c1)" by (rule queue_inv_lane [OF c1(2) L])
  have q1: "ql_msgs (c_out_lanes c1 ! li) = tl (queued c ! li)"
    using arg_cong [OF c1(5), of "\<lambda>x. x ! li"] l1 li(1) by simp
  have "length (ql_msgs (c_out_lanes c1 ! li)) < MAX_QUEUE_PER_LANE"
    using li q1 by (auto simp: lane_ok_def MAX_QUEUE_PER_LANE_def)
  moreover have "qm_coalesce_key m \<noteq> [] \<Longrightarrow> \<forall>x \<in> set (ql_msgs (c_out_lanes c1 ! li)). \<not> same_coalesce m x"
    using nc q1 by (metis list.sel(2) list.set_sel(2))
  ultimately have "queue_inv (push_back e li m c1)"
      "queued (push_back e li m c1) = (queued c1)[li := queued c1 ! li @ [m]]"
    using push_back_inv [OF c1(2) assms(2) [symmetric]] by blast+
  moreover have "same_link c (push_back e li m c1)" "same_in_flight c (push_back e li m c1)"
    using c1(3,4) same_link_queue(3,6) [of c1 e li m] by (auto simp: same_link_def same_in_flight_def)
  ultimately show thesis using that [of c1] c1(1,5) q1 l1 li(1) by simp
qed

lemma enqueue_spec:
  assumes inv: "queue_inv c" and d: "c_drop_unlogged c < 2147483647" and li: "li = lane_index (qm_lane m)"
  obtains c' where "enqueue e m c = Ret (\<not> enqueue_refuses m c, c')" "queue_inv c'" "same_link c c'" "same_in_flight c c'"
    "enqueue_refuses m c \<Longrightarrow> c' = c"
    "\<not> enqueue_refuses m c \<Longrightarrow> queued c' = (queued c)[li := lane_put (lane_full li m c) m (queued c ! li)]"
proof -
  have L: "li < LANE_COUNT" by (simp add: li)
  then have q: "queued c ! li = ql_msgs (c_out_lanes c ! li)" using queue_inv_lane(1) [OF inv] by simp
  let ?p = "if qm_coalesce_key m \<noteq> [] then position (same_coalesce m) (queued c ! li) else None"
  have U: "qm_lane m = Urgent \<longleftrightarrow> li = lane_index Urgent" by (cases "qm_lane m") (simp_all add: li lane_index_def)
  consider (closed) "c_fd c < 0" | (coalesce) i where "0 \<le> c_fd c" "?p = Some i" | (add) "0 \<le> c_fd c" "?p = None"
    by fastforce
  then show thesis
  proof cases
    case closed
    then show thesis using inv by (intro that [of c]) (simp_all add: enqueue_def enqueue_refuses_def same_in_flight_def)
  next
    case (coalesce i)
    then have i: "i < length (queued c ! li)" "same_coalesce m (queued c ! li ! i)" "qm_coalesce_key m \<noteq> []"
      by (auto dest: position_SomeD split: if_splits)
    then have nr: "\<not> enqueue_refuses m c" using coalesce(1) U by (force simp: enqueue_refuses_def)
    obtain c' where c': "enqueue_coalesce li i m c = Ret c'" "queue_inv c'" "same_link c c'" "same_in_flight c c'"
        "queued c' = (queued c)[li := (queued c ! li)[i := coalesce_msg m (queued c ! li ! i)]]"
      using enqueue_coalesce_inv [OF inv L] i(1) q by metis
    have "enqueue e m c = Ret (True, c')" using coalesce(1) c'(1) unfolding enqueue_def Let_def li [symmetric] q [symmetric] coalesce(2) by simp
    then show thesis using c' nr coalesce(2) by (intro that [of c']) (simp_all add: lane_put_def)
  next
    case add
    then have nc: "qm_coalesce_key m \<noteq> [] \<Longrightarrow> \<forall>x \<in> set (queued c ! li). \<not> same_coalesce m x"
      by (auto simp: position_None)
    have put: "lane_put f m (queued c ! li) = (if f then tl (queued c ! li) else queued c ! li) @ [m]" for f
      using add(2) by (simp add: lane_put_def)
    have e0: "enqueue e m c = (if lane_full li m c then
            (if li = lane_index Urgent then Ret (False, c)
             else out_bind (drop_oldest e li c) (\<lambda>c'. Ret (True, push_back e li m c')))
          else Ret (True, push_back e li m c))"
      using add(1) unfolding enqueue_def Let_def li [symmetric] q [symmetric] add(2) by simp
    have r: "enqueue_refuses m c \<longleftrightarrow> lane_full li m c \<and> li = lane_index Urgent"
      using add(1) U nc by (auto simp: enqueue_refuses_def)
    consider (room) "\<not> lane_full li m c" | (urgent) "lane_full li m c" "li = lane_index Urgent"
      | (full) "lane_full li m c" "li \<noteq> lane_index Urgent" by blast
    then show thesis
    proof cases
      case room
      then have "length (ql_msgs (c_out_lanes c ! li)) < MAX_QUEUE_PER_LANE" by (simp add: lane_full_def)
      note pb = push_back_inv [OF inv li [symmetric] this, OF nc [unfolded q], of e]
      then show thesis using e0 room put r by (intro that [of "push_back e li m c"]) auto
    next
      case urgent
      then show thesis using e0 inv r by (intro that [of c]) (simp_all add: same_in_flight_def)
    next
      case full
      obtain c1 where "drop_oldest e li c = Ret c1" "queue_inv (push_back e li m c1)"
          "same_link c (push_back e li m c1)" "same_in_flight c (push_back e li m c1)"
          "queued (push_back e li m c1) = (queued c)[li := tl (queued c ! li) @ [m]]"
        using push_after_drop [OF inv li d nc] by metis
      then show thesis using e0 full put r by (intro that [of "push_back e li m c1"]) auto
    qed
  qed
qed

section \<open>What the drain puts on the wire\<close>

text \<open>
  The sealing of messages as a function of the sender's sequence state alone: the fixed part of
  the connection, whether frames are sequenced, the counter, and the IVs to come.  A message that
  cannot be sealed gives no bytes.
\<close>

record tx_state =
  tx_key :: string
  tx_bot :: bool
  tx_cap :: nat
  tx_dir :: nat
  tx_seq :: bool
  tx_ctr :: nat

definition tx_of :: "hub_client \<Rightarrow> tx_state" where
  "tx_of c = \<lparr>tx_key = c_session_key c, tx_bot = (c_typ c = Ct_Bot), tx_cap = c_writing_cap c,
     tx_dir = c_link_dir_tx c, tx_seq = c_link_tx_seq c, tx_ctr = c_link_tx_ctr c\<rparr>"

definition is_go :: "queued_msg \<Rightarrow> bool" where
  "is_go m \<longleftrightarrow> qm_cmd m = CMD_LINK_SEQ \<and> qm_payload m = ''go''"

definition tx_advance :: "queued_msg \<Rightarrow> tx_state \<Rightarrow> tx_state" where
  "tx_advance m t = (if tx_seq t then t\<lparr>tx_ctr := tx_ctr t + 1\<rparr> else if is_go m then t\<lparr>tx_seq := True\<rparr> else t)"

definition tx_aad :: "tx_state \<Rightarrow> string" where
  "tx_aad t = (if tx_seq t then link_aad (tx_dir t) (tx_ctr t) else [])"

definition tx_plain :: "queued_msg \<Rightarrow> tx_state \<Rightarrow> string" where
  "tx_plain m t = frame_plain (qm_cmd m) (qm_payload m) (tx_bot t \<or> inner_len_is_network_order (qm_cmd m))"

definition tx_fits :: "queued_msg \<Rightarrow> tx_state \<Rightarrow> bool" where
  "tx_fits m t \<longleftrightarrow> msg_len m \<le> MAX_BULK_PAYLOAD \<and> 4 + GCM_IV_LEN + length (tx_plain m t) + GCM_TAG_LEN \<le> tx_cap t"

definition seal_step ::
    "aead \<Rightarrow> queued_msg \<Rightarrow> tx_state \<times> string option list \<Rightarrow> string \<times> tx_state \<times> string option list" where
  "seal_step ae m = (\<lambda>(t, ivs).
     if \<not> tx_fits m t then ([], t, ivs)
     else case ivs of
         [] \<Rightarrow> ([], t, [])
       | None # r \<Rightarrow> ([], t, r)
       | Some iv # r \<Rightarrow>
           (case ae_seal ae (tx_key t) iv (tx_aad t) (tx_plain m t) of
              None \<Rightarrow> ([], t, r)
            | Some (ct, tag) \<Rightarrow>
                (be_bytes 4 (length (iv @ ct) + GCM_TAG_LEN) @ (iv @ ct) @ tag, tx_advance m t, r)))"

fun seal_run ::
    "aead \<Rightarrow> queued_msg list \<Rightarrow> tx_state \<times> string option list \<Rightarrow> string \<times> tx_state \<times> string option list" where
  "seal_run ae [] st = ([], st)"
| "seal_run ae (m # ms) st =
     (let (f, st1) = seal_step ae m st; (fs, st2) = seal_run ae ms st1 in (f @ fs, st2))"

lemma seal_run_append:
  "seal_run ae (ms @ ns) st =
     (let (f, st1) = seal_run ae ms st; (g, st2) = seal_run ae ns st1 in (f @ g, st2))"
  by (induction ms arbitrary: st) (auto simp: Let_def split: prod.splits)

lemma length_be_bytes [simp]: "length (be_bytes n v) = n"
  by (induction n arbitrary: v) simp_all

lemma tx_ctr_step: "seal_step ae m (t, ivs) = (f, t', r) \<Longrightarrow> tx_ctr t' \<le> tx_ctr t + 1"
  by (auto simp: seal_step_def tx_advance_def split: if_splits list.splits option.splits)

lemma encrypt_spec:
  assumes "c_link_tx_ctr c + 1 < 2 ^ 64" "seal_step ae m (tx_of c, lw_ivs w) = (f, t', ivs')"
  obtains n c' where "encrypt_into_writing ae m c w = Ret (n, c', w\<lparr>lw_ivs := ivs'\<rparr>)"
    "n = 0 \<longleftrightarrow> f = []" "n = 0 \<Longrightarrow> c' = c" "n \<noteq> 0 \<Longrightarrow> c_writing_buf c' = f" "tx_of c' = t'" "same_link c c'"
    "c_writing_offset c' = c_writing_offset c"
proof (cases "tx_fits m (tx_of c)")
  case False
  then have "encrypt_into_writing ae m c w = Ret (0, c, w)"
    by (auto simp: encrypt_into_writing_def tx_fits_def tx_plain_def tx_of_def Let_def)
  moreover have "f = []" "t' = tx_of c" "ivs' = lw_ivs w" using assms(2) False by (simp_all add: seal_step_def)
  ultimately show thesis by (intro that [of 0 c]) simp_all
next
  case fits: True
  show thesis
  proof (cases "\<exists>iv r ct tag. lw_ivs w = Some iv # r \<and>
      ae_seal ae (c_session_key c) iv (tx_aad (tx_of c)) (tx_plain m (tx_of c)) = Some (ct, tag)")
    case True
    then obtain iv r ct tag where s: "lw_ivs w = Some iv # r"
        "ae_seal ae (c_session_key c) iv (tx_aad (tx_of c)) (tx_plain m (tx_of c)) = Some (ct, tag)" by blast
    let ?c1 = "if c_link_tx_seq c then c\<lparr>c_link_tx_ctr := c_link_tx_ctr c + 1\<rparr>
               else if is_go m then c\<lparr>c_link_tx_seq := True\<rparr> else c"
    let ?c = "?c1\<lparr>c_writing_buf := be_bytes 4 (length (iv @ ct) + GCM_TAG_LEN) @ (iv @ ct) @ tag\<rparr>"
    have enc: "encrypt_into_writing ae m c w = Ret (4 + (length (iv @ ct) + GCM_TAG_LEN), ?c, w\<lparr>lw_ivs := r\<rparr>)"
      using s fits assms(1)
      by (auto simp: encrypt_into_writing_def aes_gcm_encrypt_aad_def tx_fits_def tx_plain_def tx_of_def tx_aad_def is_go_def Let_def)
    have f: "f = be_bytes 4 (length (iv @ ct) + GCM_TAG_LEN) @ (iv @ ct) @ tag" "t' = tx_advance m (tx_of c)" "ivs' = r"
      using s fits assms(2) by (simp_all add: seal_step_def tx_of_def)
    have "length f \<ge> 4" using f(1) by simp
    then have ne: "f \<noteq> []" by auto
    have tx: "tx_of ?c = t'" unfolding f(2) by (simp add: tx_of_def tx_advance_def)
    have "same_link c ?c" "c_writing_offset ?c = c_writing_offset c" by (simp_all add: same_link_def)
    then show thesis using that [OF enc [folded f(3)]] ne f(1) tx by simp
  next
    case False
    have "encrypt_into_writing ae m c w = Ret (0, c, w\<lparr>lw_ivs := ivs'\<rparr>) \<and> f = [] \<and> t' = tx_of c"
    proof (cases "lw_ivs w")
      case Nil
      then show ?thesis using fits assms(2)
        by (auto simp: seal_step_def encrypt_into_writing_def aes_gcm_encrypt_aad_def tx_fits_def tx_plain_def tx_of_def Let_def)
    next
      case (Cons x r)
      have none: "ae_seal ae (c_session_key c) iv (tx_aad (tx_of c)) (tx_plain m (tx_of c)) = None" if "x = Some iv" for iv
        using False Cons that by (cases "ae_seal ae (c_session_key c) iv (tx_aad (tx_of c)) (tx_plain m (tx_of c))") auto
      show ?thesis
      proof (cases x)
        case None
        then show ?thesis using fits assms(2) Cons
          by (auto simp: seal_step_def encrypt_into_writing_def aes_gcm_encrypt_aad_def tx_fits_def tx_plain_def tx_of_def Let_def)
      next
        case (Some iv)
        then show ?thesis using fits assms(2) Cons none [OF Some]
          by (auto simp: seal_step_def encrypt_into_writing_def aes_gcm_encrypt_aad_def tx_fits_def tx_plain_def tx_of_def
            tx_aad_def Let_def)
      qed
    qed
    then show thesis by (intro that [of 0 c]) simp_all
  qed
qed

text \<open>
  The bytes in flight, and what the send loop does with them: a loop that ends with nothing left
  has sent them all, and unless a send fails hard no byte is lost or reordered.
\<close>

abbreviation in_flight :: "hub_client \<Rightarrow> string" where
  "in_flight c \<equiv> drop (c_writing_offset c) (c_writing_buf c)"

abbreviation no_error :: "send_outcome list \<Rightarrow> bool" where
  "no_error ss \<equiv> Send_Error \<notin> set ss"

lemma push_sends_spec:
  assumes "push_sends e ss c = (b, out, ss', c')" "c_sock c"
  shows "(b \<or> no_error ss \<longrightarrow> out @ in_flight c' = in_flight c) \<and> (b \<longrightarrow> in_flight c' = []) \<and> set ss' \<subseteq> set ss \<and>
    same_link c c' \<and> tx_of c' = tx_of c"
  using assms
proof (induction e ss c arbitrary: b out ss' c' rule: push_sends.induct)
  case (1 e ss c)
  show ?case
  proof (cases "c_writing_offset c < length (c_writing_buf c)")
    case False
    then show ?thesis using 1(2)
      by (auto simp: push_sends.simps [of e ss c] clear_writing_def same_link_def tx_of_def)
  next
    case True
    show ?thesis
    proof (cases "\<exists>n r. ss = Sent n # r \<and> 0 < n")
      case False
      then have "out = []" "\<not> b" "c' = c \<or> c' = clear_writing c \<and> Send_Error \<in> set ss" "set ss' \<subseteq> set ss"
        using 1(2,3) True by (auto simp: push_sends.simps [of e ss c] split: list.splits send_outcome.splits if_splits)
      then show ?thesis by (auto simp: clear_writing_def same_link_def tx_of_def)
    next
      case sent: True
      then obtain n r where ss: "ss = Sent n # r" "0 < n" by blast
      obtain b1 out1 ss1 c1 where r1: "push_sends e r (account_sent e n c) = (b1, out1, ss1, c1)"
        by (cases "push_sends e r (account_sent e n c)") auto
      have a: "c_sock (account_sent e n c)" "same_link c (account_sent e n c)" "tx_of (account_sent e n c) = tx_of c"
          "in_flight (account_sent e n c) = drop n (in_flight c)"
        using 1(3) by (simp_all add: account_sent_def bw_window_def same_link_def tx_of_def Let_def add.commute)
      have IH: "(b1 \<or> no_error r \<longrightarrow> out1 @ in_flight c1 = in_flight (account_sent e n c)) \<and> (b1 \<longrightarrow> in_flight c1 = []) \<and>
          set ss1 \<subseteq> set r \<and> same_link (account_sent e n c) c1 \<and> tx_of c1 = tx_of (account_sent e n c)"
        using 1(1) [OF True _ ss(1) refl ss(2) r1 a(1)] 1(3) by blast
      have "b = b1" "out = take n (in_flight c) @ out1" "ss' = ss1" "c' = c1"
        using 1(2) True 1(3) ss r1 by (auto simp: push_sends.simps [of e "Sent n # r" c])
      moreover have "take n (in_flight c) @ drop (n + c_writing_offset c) (c_writing_buf c) = in_flight c"
        using append_take_drop_id [of n "in_flight c"] by simp
      ultimately show ?thesis using IH a ss(1) same_link_trans [OF a(2)] by (auto simp: append_assoc)
    qed
  qed
qed

lemma push_in_flight_spec:
  assumes "push_in_flight e c w = (b, c', w')" "c_sock c"
  shows "b \<or> no_error (lw_sends w) \<Longrightarrow> lw_wire w' @ in_flight c' = lw_wire w @ in_flight c" "b \<Longrightarrow> in_flight c' = []"
    "set (lw_sends w') \<subseteq> set (lw_sends w)" "lw_ivs w' = lw_ivs w" "same_link c c'" "tx_of c' = tx_of c"
proof -
  obtain b1 out ss c1 where p: "push_sends e (lw_sends w) c = (b1, out, ss, c1)" by (cases "push_sends e (lw_sends w) c") auto
  then have "b = b1" "c' = c1" "w' = w\<lparr>lw_sends := ss, lw_wire := lw_wire w @ out\<rparr>"
    using assms(1) by (auto simp: push_in_flight_def)
  then show "b \<or> no_error (lw_sends w) \<Longrightarrow> lw_wire w' @ in_flight c' = lw_wire w @ in_flight c" "b \<Longrightarrow> in_flight c' = []"
      "set (lw_sends w') \<subseteq> set (lw_sends w)" "lw_ivs w' = lw_ivs w" "same_link c c'" "tx_of c' = tx_of c"
    using push_sends_spec [OF p assms(2)] by auto
qed

text \<open>
  One drain step.  The result of draining a lane from a connection with nothing in flight: the
  messages \<^verbatim>\<open>ms\<close> left the lane from its front, and the bytes the kernel took followed by those
  still in flight are exactly the frames of \<^verbatim>\<open>ms\<close>.
\<close>

definition drained ::
    "aead \<Rightarrow> nat \<Rightarrow> hub_client \<Rightarrow> link_world \<Rightarrow> queued_msg list \<Rightarrow> string \<Rightarrow> bool \<Rightarrow> hub_client \<Rightarrow> link_world \<Rightarrow> bool" where
  "drained ae li c w ms bs go c' w' \<longleftrightarrow>
     queue_inv c' \<and> same_link c c' \<and> set (lw_sends w') \<subseteq> set (lw_sends w) \<and>
     queued c ! li = ms @ queued c' ! li \<and> queued c' = (queued c)[li := queued c' ! li] \<and>
     seal_run ae ms (tx_of c, lw_ivs w) = (bs, tx_of c', lw_ivs w') \<and>
     (go \<or> no_error (lw_sends w) \<longrightarrow> lw_wire w' @ in_flight c' = lw_wire w @ bs) \<and> (go \<longrightarrow> in_flight c' = [] \<and> queued c' ! li = [])"

lemma drained_Nil:
  "queue_inv c \<Longrightarrow> in_flight c = [] \<Longrightarrow> (go \<Longrightarrow> queued c ! li = []) \<Longrightarrow> drained ae li c w [] [] go c w"
  by (simp add: drained_def)

lemma drained_Cons:
  assumes "seal_step ae m (tx_of c, lw_ivs w) = (f, tx_of c1, lw_ivs w1)" "lw_wire w1 = lw_wire w @ f"
    and "set (lw_sends w1) \<subseteq> set (lw_sends w)"
    and "queued c ! li = m # queued c1 ! li" "queued c1 = (queued c)[li := queued c1 ! li]" "same_link c c1"
    and "drained ae li c1 w1 ms bs go c' w'"
  shows "drained ae li c w (m # ms) (f @ bs) go c' w'"
proof -
  have "queued c' = (queued c)[li := queued c' ! li]"
    using assms(5,7) by (metis drained_def list_update_overwrite)
  then show ?thesis
    using assms same_link_trans by (auto simp: drained_def)
qed

lemma drain_pop:
  assumes "queue_inv c" "li < LANE_COUNT" "ql_msgs (c_out_lanes c ! li) \<noteq> []"
  obtains m c2 where "pop_front li (bw_window e c) = Ret (Some m, c2)" "queue_inv c2" "tx_of c2 = tx_of c" "same_link c c2"
    "same_in_flight c c2" "queued c ! li = m # queued c2 ! li" "queued c2 = (queued c)[li := queued c2 ! li]"
proof -
  let ?c = "bw_window e c"
  have b: "queue_inv ?c" "same_link c ?c" "same_in_flight c ?c"
    using assms(1) queue_inv_cong [of ?c c] by (simp_all, simp_all add: bw_window_def same_link_def same_in_flight_def)
  obtain m ms where m: "ql_msgs (c_out_lanes ?c ! li) = m # ms" using assms(3) by (cases "ql_msgs (c_out_lanes c ! li)") auto
  obtain c2 where c2: "pop_front li ?c = Ret (Some m, c2)" "queue_inv c2" "queued c2 = (queued ?c)[li := ms]"
      "c2 = ?c\<lparr>c_out_lanes := c_out_lanes c2, c_out_total_bytes := c_out_total_bytes c2\<rparr>"
    using pop_front_inv [OF b(1) assms(2) m] by metis
  have li: "li < length (c_out_lanes c)" by (rule queue_inv_lane [OF assms(1,2)])
  have s: "same_link ?c c2" "same_in_flight ?c c2" by (subst c2(4), simp)+
  have q: "queued c2 ! li = ms" by (subst c2(3)) (simp add: li)
  have tx: "tx_of c2 = tx_of c" using b(2,3) s by (simp add: tx_of_def same_link_def same_in_flight_def)
  have "same_link c c2" "same_in_flight c c2" using b s same_link_trans by (auto simp: same_in_flight_def)
  then show thesis
    using that [OF c2(1,2) tx] q c2(3) m li by simp
qed

lemma drain_lane_spec:
  assumes "queue_inv c" "li < LANE_COUNT" "c_sock c" "in_flight c = []"
    and "c_link_tx_ctr c + length (queued c ! li) < 2 ^ 64"
  shows "\<exists>ms bs go c' w'. drain_lane e ae li c w = Ret (go, c', w') \<and> drained ae li c w ms bs go c' w'"
  using assms
proof (induction "length (queued c ! li)" arbitrary: c w rule: less_induct)
  case less
  have li: "li < length (c_out_lanes c)" by (rule queue_inv_lane [OF less(2,3)])
  consider (empty) "ql_msgs (c_out_lanes c ! li) = []"
    | (budget) "ql_msgs (c_out_lanes c ! li) \<noteq> []" "over_budget li (bw_window e c)"
    | (send) "ql_msgs (c_out_lanes c ! li) \<noteq> []" "\<not> over_budget li (bw_window e c)" by blast
  then show ?case
  proof cases
    case empty
    then have "drain_lane e ae li c w = Ret (True, c, w)" using li by (simp add: drain_lane.simps [of e ae li c w])
    moreover have "drained ae li c w [] [] True c w" using less empty li by (intro drained_Nil) simp_all
    ultimately show ?thesis by blast
  next
    case budget
    then have "drain_lane e ae li c w = Ret (False, bw_window e c, w)"
      using li by (simp add: drain_lane.simps [of e ae li c w])
    moreover have "drained ae li c w [] [] False (bw_window e c) w"
      using less queue_inv_cong [of "bw_window e c" c]
      by (simp add: drained_def bw_window_def same_link_def tx_of_def)
    ultimately show ?thesis by blast
  next
    case send
    obtain m c2 where c2: "pop_front li (bw_window e c) = Ret (Some m, c2)" "queue_inv c2" "tx_of c2 = tx_of c" "same_link c c2"
      "same_in_flight c c2" "queued c ! li = m # queued c2 ! li" "queued c2 = (queued c)[li := queued c2 ! li]"
      using drain_pop [OF less(2,3) send(1)] by metis
    obtain f t' ivs' where st: "seal_step ae m (tx_of c2, lw_ivs w) = (f, t', ivs')"
      by (cases "seal_step ae m (tx_of c2, lw_ivs w)") auto
    have ctr: "c_link_tx_ctr c2 + 1 < 2 ^ 64" using less(6) c2(5,6) by (simp add: same_in_flight_def)
    obtain n c3 where c3: "encrypt_into_writing ae m c2 w = Ret (n, c3, w\<lparr>lw_ivs := ivs'\<rparr>)"
        "n = 0 \<longleftrightarrow> f = []" "n = 0 \<Longrightarrow> c3 = c2" "n \<noteq> 0 \<Longrightarrow> c_writing_buf c3 = f" "tx_of c3 = t'" "same_link c2 c3"
      using encrypt_spec [OF ctr st] by metis
    have step: "drain_lane e ae li c w =
        (if n = 0 then drain_lane e ae li (cfg_push_lost m c3) (w\<lparr>lw_ivs := ivs'\<rparr>)
         else (case push_in_flight e (c3\<lparr>c_writing_offset := 0\<rparr>) (w\<lparr>lw_ivs := ivs'\<rparr>) of
                 (go, c4, w4) \<Rightarrow> if go then drain_lane e ae li c4 w4 else Ret (False, c4, w4)))"
      using send li c2(1) c3(1) by (simp add: drain_lane.simps [of e ae li c w])
    have tctr: "tx_ctr t' \<le> c_link_tx_ctr c + 1"
      using tx_ctr_step [OF st] c2(5) by (simp add: tx_of_def same_in_flight_def)
    have cont: "\<exists>ms bs go c' w'. drain_lane e ae li c1 w1 = Ret (go, c', w') \<and> drained ae li c w ms bs go c' w'"
      if c1: "c_out_lanes c1 = c_out_lanes c2" "c_out_total_bytes c1 = c_out_total_bytes c2" "tx_of c1 = t'" "same_link c c1"
        "in_flight c1 = []" and w1: "lw_ivs w1 = ivs'" "lw_wire w1 = lw_wire w @ f" "set (lw_sends w1) \<subseteq> set (lw_sends w)" for c1 w1
    proof -
      have ctr1: "c_link_tx_ctr c1 + length (queued c1 ! li) < 2 ^ 64"
        using tctr c1(1,3) less(6) c2(6) by (auto simp: tx_of_def)
      have "\<exists>ms bs go c' w'. drain_lane e ae li c1 w1 = Ret (go, c', w') \<and> drained ae li c1 w1 ms bs go c' w'"
        using c1 c2 w1 less(3,4) ctr1 queue_inv_cong [of c1 c2]
        by (intro less(1)) (auto simp: same_link_def)
      then show ?thesis
        using drained_Cons [of ae m c w f c1 w1 li] st c1 c2 w1 by (metis (no_types, lifting))
    qed
    show ?thesis
    proof (cases "n = 0")
      case True
      then have c3': "c3 = c2" "f = []" using c3 by auto
      have "same_in_flight c (cfg_push_lost m c3)" "same_link c (cfg_push_lost m c3)" "tx_of (cfg_push_lost m c3) = t'"
        using c3' c2(4,5) c3(5) same_link_trans same_link_queue(2,5) [of c3 m]
        by (auto simp: same_in_flight_def tx_of_def same_link_def)
      then show ?thesis
        using True step cont [of "cfg_push_lost m c3" "w\<lparr>lw_ivs := ivs'\<rparr>"] c3' less(5) by (simp add: same_in_flight_def)
    next
      case False
      let ?c = "c3\<lparr>c_writing_offset := 0\<rparr>"
      obtain go c4 w4 where p: "push_in_flight e ?c (w\<lparr>lw_ivs := ivs'\<rparr>) = (go, c4, w4)"
        by (cases "push_in_flight e ?c (w\<lparr>lw_ivs := ivs'\<rparr>)") auto
      have l3: "same_link c ?c" "tx_of ?c = t'" "c_out_lanes ?c = c_out_lanes c2" "c_out_total_bytes ?c = c_out_total_bytes c2"
        using c2(4) c3(5,6) out_lanes_encrypt [OF c3(1)] by (auto simp: same_link_def tx_of_def)
      then have sk: "c_sock ?c" using less(4) by (simp add: same_link_def)
      note P = push_in_flight_spec [OF p sk] and Q = out_lanes_push_in_flight [OF p]
      have P': "go \<or> no_error (lw_sends w) \<Longrightarrow> lw_wire w4 @ in_flight c4 = lw_wire w @ f" "go \<Longrightarrow> in_flight c4 = []"
          "set (lw_sends w4) \<subseteq> set (lw_sends w)"
          "lw_ivs w4 = ivs'" "same_link c c4" "tx_of c4 = t'" "c_out_lanes c4 = c_out_lanes c2"
          "c_out_total_bytes c4 = c_out_total_bytes c2"
        using P Q c3(4) False l3 same_link_trans by auto
      show ?thesis
      proof (cases go)
        case True
        then show ?thesis using False step p cont [of c4 w4] P' by simp
      next
        case stop: False
        have "drained ae li c w [m] f False c4 w4"
          using P' c2 st queue_inv_cong [of c4 c2] by (simp add: drained_def)
        moreover have "drain_lane e ae li c w = Ret (False, c4, w4)" using False stop step p by simp
        ultimately show ?thesis by blast
      qed
    qed
  qed
qed

text \<open>The same for the whole drain, over all lanes in priority order.\<close>

definition stream_step ::
    "aead \<Rightarrow> hub_client \<Rightarrow> link_world \<Rightarrow> queued_msg list \<Rightarrow> string \<Rightarrow> hub_client \<Rightarrow> link_world \<Rightarrow> bool" where
  "stream_step ae c w ms bs c' w' \<longleftrightarrow>
     queue_inv c' \<and> same_link c c' \<and> set (lw_sends w') \<subseteq> set (lw_sends w) \<and> concat (queued c) = ms @ concat (queued c') \<and>
     seal_run ae ms (tx_of c, lw_ivs w) = (bs, tx_of c', lw_ivs w') \<and>
     (no_error (lw_sends w) \<longrightarrow> lw_wire w' @ in_flight c' = lw_wire w @ in_flight c @ bs)"

lemma concat_front:
  assumes "i < length q" "\<forall>j < i. q ! j = []" "q ! i = ms @ r" "q' = q[i := r]"
  shows "concat q = ms @ concat q'"
proof -
  have "concat (take i q) = []" using assms(2) by (auto simp: in_set_conv_nth)
  moreover have "q = take i q @ q ! i # drop (Suc i) q" using assms(1) by (rule id_take_nth_drop)
  moreover have "q' = take i q @ r # drop (Suc i) q" using assms(1,4) by (simp add: upd_conv_take_nth_drop)
  ultimately show ?thesis using assms(3) by (metis append.assoc append_Nil concat.simps(2) concat_append)
qed

lemma drained_stream:
  assumes "drained ae li c w ms bs go c' w'" "in_flight c = []" "li < length (c_out_lanes c)" "\<forall>j < li. queued c ! j = []"
  shows "stream_step ae c w ms bs c' w'"
  using assms concat_front [of li "queued c" ms "queued c' ! li" "queued c'"]
  by (auto simp: drained_def stream_step_def simp del: nth_map)

lemma stream_step_trans:
  assumes "stream_step ae c w ms bs c1 w1" "in_flight c1 = []" "stream_step ae c1 w1 ns bs' c' w'"
  shows "stream_step ae c w (ms @ ns) (bs @ bs') c' w'"
  using assms by (auto simp: stream_step_def seal_run_append intro: same_link_trans)

lemma tx_ctr_run: "seal_run ae ms (t, ivs) = (bs, t', ivs') \<Longrightarrow> tx_ctr t' \<le> tx_ctr t + length ms"
proof (induction ms arbitrary: t ivs bs)
  case (Cons m ms)
  obtain f t1 ivs1 fs where s: "seal_step ae m (t, ivs) = (f, t1, ivs1)" "seal_run ae ms (t1, ivs1) = (fs, t', ivs')"
    using Cons(2) by (auto simp: Let_def split: prod.splits)
  then show ?case using Cons(1) [OF s(2)] tx_ctr_step [OF s(1)] by simp
qed simp

lemma drain_lanes_spec:
  assumes "queue_inv c" "c_sock c" "in_flight c = []" "\<forall>j < i. queued c ! j = []" "i \<le> LANE_COUNT"
    and "c_link_tx_ctr c + length (concat (queued c)) < 2 ^ 64"
  shows "\<exists>ms bs c' w'. drain_lanes e ae [i..<LANE_COUNT] c w = Ret (c', w') \<and> stream_step ae c w ms bs c' w'"
  using assms
proof (induction "LANE_COUNT - i" arbitrary: i c w)
  case 0
  then show ?case by (auto simp: stream_step_def intro!: exI [of _ "[]"])
next
  case (Suc k)
  then have i: "i < LANE_COUNT" "[i..<LANE_COUNT] = i # [Suc i..<LANE_COUNT]" by (auto simp: upt_conv_Cons)
  have li: "i < length (c_out_lanes c)" by (rule queue_inv_lane [OF Suc(3) i(1)])
  have "length (queued c ! i) \<le> length (concat (queued c))"
    using li by (auto simp: length_concat intro!: member_le_sum_list)
  then obtain ms bs go c1 w1 where d: "drain_lane e ae i c w = Ret (go, c1, w1)" "drained ae i c w ms bs go c1 w1"
    using drain_lane_spec [OF Suc(3) i(1) Suc(4,5)] Suc(8) by (metis add_le_cancel_left le_less_trans)
  then have s: "stream_step ae c w ms bs c1 w1" using drained_stream Suc(5,6) li by blast
  show ?case
  proof (cases go)
    case False
    then show ?thesis using d(1) i(2) s by auto
  next
    case True
    then have e1: "in_flight c1 = []" "\<forall>j < Suc i. queued c1 ! j = []"
      using d(2) Suc(6) by (auto simp: drained_def less_Suc_eq simp del: nth_map)
    have ctr: "c_link_tx_ctr c1 + length (concat (queued c1)) < 2 ^ 64"
      using s tx_ctr_run [of ae ms "tx_of c" "lw_ivs w" bs "tx_of c1" "lw_ivs w1"] Suc(8)
      by (simp add: stream_step_def tx_of_def)
    have k: "k = LANE_COUNT - Suc i" "Suc i \<le> LANE_COUNT" using Suc(2) i(1) by auto
    have "queue_inv c1" "c_sock c1" using s Suc(4) by (auto simp: stream_step_def same_link_def)
    then obtain ns bs' c' w' where "drain_lanes e ae [Suc i..<LANE_COUNT] c1 w1 = Ret (c', w')" "stream_step ae c1 w1 ns bs' c' w'"
      using Suc(1) [of "Suc i" c1 w1, OF k(1) _ _ e1 k(2) ctr] by blast
    then show ?thesis using stream_step_trans [OF s e1(1)] True d(1) i(2) by fastforce
  qed
qed

lemma drain_writable_spec:
  assumes "queue_inv c" "c_sock c" "0 \<le> c_fd c" "c_console c = None"
    and "c_link_tx_ctr c + length (concat (queued c)) < 2 ^ 64"
  shows "\<exists>ms bs c' w'. drain_writable e ae c w = Ret (c', w') \<and> stream_step ae c w ms bs c' w'"
proof -
  obtain go c1 w1 where p: "push_in_flight e c w = (go, c1, w1)" by (cases "push_in_flight e c w") auto
  note P = push_in_flight_spec [OF p assms(2)] and Q = out_lanes_push_in_flight [OF p]
  have inv: "queue_inv c1" using Q queue_inv_cong assms(1) by metis
  have s0: "stream_step ae c w [] [] c1 w1" using P Q inv by (simp add: stream_step_def)
  show ?thesis
  proof (cases go)
    case False
    then show ?thesis using s0 p assms(3,2,4) by (auto simp: drain_writable_def)
  next
    case True
    then have e1: "in_flight c1 = []" using P(2) by blast
    have "c_sock c1" "c_link_tx_ctr c1 + length (concat (queued c1)) < 2 ^ 64"
      using assms(2,5) P(5,6) Q by (auto simp: same_link_def tx_of_def)
    then obtain ms bs c' w' where "drain_lanes e ae [0..<LANE_COUNT] c1 w1 = Ret (c', w')" "stream_step ae c1 w1 ms bs c' w'"
      using drain_lanes_spec [OF inv _ e1, of 0 e ae w1] by auto
    then show ?thesis
      using stream_step_trans [OF s0 e1] True p assms(2,3,4) by (fastforce simp: drain_writable_def)
  qed
qed

section \<open>The queue as its callers see it\<close>

text \<open>
  The interface the senders rely on: a connection, its queued messages, and an operation that
  either takes a message or refuses it and leaves the connection alone.  It never fails otherwise,
  as long as the connection is well-formed.
\<close>

locale outbound =
  fixes ok :: "'c \<Rightarrow> bool"
    and enq :: "'m \<Rightarrow> 'c \<Rightarrow> (bool \<times> 'c) outcome"
    and same :: "'c \<Rightarrow> 'c \<Rightarrow> bool"
  assumes enq_returns: "ok c \<Longrightarrow> \<exists>b c'. enq m c = Ret (b, c')"
    and enq_same: "ok c \<Longrightarrow> enq m c = Ret (b, c') \<Longrightarrow> same c c'"
    and enq_refused: "ok c \<Longrightarrow> enq m c = Ret (False, c') \<Longrightarrow> c' = c"
    and same_refl: "same c c"
    and same_trans: "same x y \<Longrightarrow> same y z \<Longrightarrow> same x z"
begin

lemma enq_cases:
  assumes "ok c"
  obtains (taken) c' where "enq m c = Ret (True, c')" "same c c'" | (refused) "enq m c = Ret (False, c)"
  using enq_returns [OF assms, of m] enq_same [OF assms] enq_refused [OF assms] by (metis (full_types))

end

text \<open>A connection whose counters are below the limits at which the checked arithmetic panics.\<close>

definition counters_ok :: "hub_client \<Rightarrow> bool" where
  "counters_ok c \<longleftrightarrow> c_drop_unlogged c < 2147483647 \<and> c_link_tx_ctr c + length (concat (queued c)) < 2 ^ 64"

definition queue_ok :: "hub_client \<Rightarrow> bool" where
  "queue_ok c \<longleftrightarrow> queue_inv c \<and> c_drop_unlogged c < 2147483647"

interpretation peer_out: outbound queue_ok "enqueue e" same_link for e :: env
proof
  fix c c' :: hub_client and m :: queued_msg and b :: bool
  assume ok: "queue_ok c"
  then show "\<exists>b c'. enqueue e m c = Ret (b, c')" unfolding queue_ok_def by (metis enqueue_spec [OF _ _ refl])
  assume r: "enqueue e m c = Ret (b, c')"
  show "same_link c c'" using ok r unfolding queue_ok_def by (metis enqueue_spec [OF _ _ refl] outcome.inject prod.inject)
next
  fix c c' :: hub_client and m :: queued_msg
  assume "queue_ok c" "enqueue e m c = Ret (False, c')"
  then show "c' = c" unfolding queue_ok_def by (metis enqueue_spec [OF _ _ refl] outcome.inject prod.inject)
qed (simp_all add: same_link_trans)

section \<open>The life of a connection's queue\<close>

text \<open>The steps: a message queued, a drain with whatever the kernel and the RNG answer, the queue torn down.\<close>

inductive queue_reach :: "aead \<Rightarrow> hub_client \<Rightarrow> bool" for ae where
  fresh: "queue_reach ae (client_new e sk fd ip sz)"
| enq: "queue_reach ae c \<Longrightarrow> counters_ok c \<Longrightarrow> enqueue e m c = Ret (b, c') \<Longrightarrow> queue_reach ae c'"
| drain: "queue_reach ae c \<Longrightarrow> counters_ok c \<Longrightarrow> drain_writable e ae c w = Ret (c', w') \<Longrightarrow> queue_reach ae c'"
| destroy: "queue_reach ae c \<Longrightarrow> queue_reach ae (queue_destroy c)"

lemma queue_inv_new: "queue_inv (client_new e sk fd ip sz)"
  by (auto simp: queue_inv_def client_new_def lane_ok_def keys_of_def sum_list_replicate)

lemma queue_inv_destroy: "queue_inv c \<Longrightarrow> queue_inv (queue_destroy c)"
proof -
  assume "queue_inv c"
  moreover have "sum_list (map ql_bytes (map (\<lambda>l. l\<lparr>ql_msgs := [], ql_bytes := 0\<rparr>) ls)) = 0" for ls :: "queue_lane list"
    by (induction ls) auto
  ultimately show ?thesis by (simp add: queue_inv_def queue_destroy_def lane_ok_def keys_of_def)
qed

lemma drain_inv:
  assumes "queue_inv c" "c_link_tx_ctr c + length (concat (queued c)) < 2 ^ 64"
  shows "\<exists>c' w'. drain_writable e ae c w = Ret (c', w') \<and> queue_inv c'"
proof (cases "c_console c")
  case (Some l)
  then show ?thesis
    using assms(1) by (cases "console_drain (lw_sends w) l") (auto simp: drain_writable_def queue_inv_def)
next
  case None
  show ?thesis
  proof (cases "c_fd c < 0 \<or> \<not> c_sock c")
    case True
    then show ?thesis using assms(1) None by (simp add: drain_writable_def)
  next
    case False
    then show ?thesis
      using drain_writable_spec [OF assms(1) _ _ None assms(2), of e ae w] by (auto simp: stream_step_def)
  qed
qed

text \<open>
  Property C2.  The outbound queue never panics and its bookkeeping is exact.  In every state a
  connection's queue can reach, the byte counts are the sums of the payloads queued, every lane
  holds at most \<^const>\<open>MAX_QUEUE_PER_LANE\<close> messages, each in its own lane and at most one per
  coalesce key; and while the counters are below their limits neither the next enqueue nor the next
  drain, whatever the message, the kernel and the RNG answer, hits a checked subtraction that
  underflows.
\<close>

theorem queue_never_panics:
  assumes "queue_reach ae c"
  shows "queue_inv c \<and>
    (counters_ok c \<longrightarrow> (\<exists>r. enqueue e m c = Ret r) \<and> (\<exists>r. drain_writable e ae c w = Ret r))"
proof
  have enq_inv: "\<exists>b c'. enqueue e m c = Ret (b, c') \<and> queue_inv c'" if "queue_inv c" "counters_ok c" for e m c
    using that unfolding counters_ok_def by (metis enqueue_spec [OF _ _ refl])
  show inv: "queue_inv c"
    using assms
  proof induction
    case (enq c e m b c')
    then show ?case using enq_inv [of c e m] by auto
  next
    case (drain c e w c' w')
    then show ?case using drain_inv [of c e ae w] by (auto simp: counters_ok_def)
  qed (simp_all add: queue_inv_new queue_inv_destroy)
  show "counters_ok c \<longrightarrow> (\<exists>r. enqueue e m c = Ret r) \<and> (\<exists>r. drain_writable e ae c w = Ret r)"
    using enq_inv [OF inv, of e m] drain_inv [OF inv, of e ae w] unfolding counters_ok_def by blast
qed

text \<open>A connection and a cipher for the examples: the tag is the AAD, padded, and its length.\<close>

definition example_client :: hub_client where
  "example_client = client_new (env_at 0) True 5 ''10.0.0.1'' 4096"

definition toy_tag :: "string \<Rightarrow> string" where
  "toy_tag aad = take 15 (aad @ replicate 15 (CHR 0x00)) @ [char_of (length aad)]"

definition toy_aead :: aead where
  "toy_aead = \<lparr>ae_seal = (\<lambda>k iv aad pt. Some (pt, toy_tag aad)),
               ae_open = (\<lambda>k iv aad ct tag. if tag = toy_tag aad then Some ct else None)\<rparr>"

definition example_msg :: "lane \<Rightarrow> string \<Rightarrow> queued_msg" where
  "example_msg l p = \<lparr>qm_cmd = 6, qm_lane = l, qm_coalesce_key = [], qm_lamport_seq = 0, qm_origin = [], qm_payload = p\<rparr>"

lemma example_reach: "queue_reach toy_aead example_client" "queue_inv example_client" "counters_ok example_client"
  unfolding example_client_def
  by (rule fresh, rule queue_inv_new, simp add: counters_ok_def client_new_def LANE_COUNT_def)

theorem queue_never_panics_witness:
  "queue_inv example_client \<and> counters_ok example_client \<and> (\<exists>r. enqueue (env_at 0) (example_msg Bulk ''x'') example_client = Ret r)"
  using queue_never_panics [OF example_reach(1), of "env_at 0" "example_msg Bulk ''x''"] example_reach(3) by blast

text \<open>
  Property C4.  What enqueue does to the queue.  A message is refused, and the connection left as
  it is, exactly when the socket is closed or it is an urgent one that finds no room and nothing to
  coalesce with.  Otherwise the only lane that changes is its own: a queued message with the same
  coalesce key takes the new payload in place; else the message goes to the end, a lane without
  room first losing its oldest message.  So no urgent message is ever dropped to make room.
\<close>

theorem enqueue_correct:
  assumes "queue_inv c" "c_drop_unlogged c < 2147483647"
  shows "\<exists>c'. enqueue e m c = Ret (\<not> enqueue_refuses m c, c') \<and>
    (if enqueue_refuses m c then c' = c
     else queued c' = (queued c)[lane_index (qm_lane m) :=
            lane_put (lane_full (lane_index (qm_lane m)) m c) m (queued c ! lane_index (qm_lane m))]) \<and>
    (\<forall>i < length (queued c ! 0). i < length (queued c' ! 0) \<and>
       (queued c' ! 0 ! i = queued c ! 0 ! i \<or> queued c' ! 0 ! i = coalesce_msg m (queued c ! 0 ! i)))"
proof -
  let ?li = "lane_index (qm_lane m)"
  from enqueue_spec [OF assms refl] obtain c' where c': "enqueue e m c = Ret (\<not> enqueue_refuses m c, c')"
    "enqueue_refuses m c \<Longrightarrow> c' = c"
    "\<not> enqueue_refuses m c \<Longrightarrow> queued c' = (queued c)[?li := lane_put (lane_full ?li m c) m (queued c ! ?li)]" by metis
  have L: "0 < length (queued c)" using queue_inv_lane(1) [OF assms(1), of 0] by (simp add: LANE_COUNT_def)
  have "i < length (queued c' ! 0) \<and> (queued c' ! 0 ! i = queued c ! 0 ! i \<or> queued c' ! 0 ! i = coalesce_msg m (queued c ! 0 ! i))"
    if i: "i < length (queued c ! 0)" for i
  proof (cases "enqueue_refuses m c \<or> ?li \<noteq> 0")
    case True
    then have "queued c' ! 0 = queued c ! 0" using c'(2,3) by (cases "enqueue_refuses m c") auto
    with i show ?thesis by simp
  next
    case False
    then have U: "qm_lane m = Urgent" by (cases "qm_lane m") (auto simp: lane_index_def)
    have q: "queued c' ! 0 = lane_put (lane_full 0 m c) m (queued c ! 0)" using False c'(3) L by simp
    let ?p = "if qm_coalesce_key m \<noteq> [] then position (same_coalesce m) (queued c ! 0) else None"
    have "?p = None \<Longrightarrow> \<not> lane_full 0 m c"
      using False U by (auto simp: enqueue_refuses_def position_None lane_index_def split: if_splits)
    then have "queued c' ! 0 = (case ?p of Some k \<Rightarrow> (queued c ! 0)[k := coalesce_msg m (queued c ! 0 ! k)] | None \<Rightarrow> queued c ! 0 @ [m])"
      using q by (auto simp: lane_put_def split: option.splits)
    then show ?thesis using i
      by (cases ?p) (auto simp: nth_append nth_list_update, metis nth_list_update_eq nth_list_update_neq)
  qed
  then show ?thesis using c' by (intro exI [of _ c']) auto
qed

theorem enqueue_correct_witness:
  "\<exists>c'. enqueue (env_at 0) (example_msg Bulk ''x'') example_client = Ret (True, c') \<and>
     queued c' = [[], [], [example_msg Bulk ''x'']]"
proof -
  let ?m = "example_msg Bulk ''x''"
  have f: "queued example_client = [[], [], []]" "c_out_total_bytes example_client = 0" "c_fd example_client = 5"
    "c_out_lanes example_client ! 2 = \<lparr>ql_msgs = [], ql_bytes = 0\<rparr>"
    by (simp_all add: example_client_def client_new_def LANE_COUNT_def numeral_3_eq_3 numeral_2_eq_2)
  have m: "qm_lane ?m = Bulk" "qm_coalesce_key ?m = []" "msg_len ?m = 1" by (simp_all add: example_msg_def)
  have nr: "\<not> enqueue_refuses ?m example_client" "\<not> lane_full 2 ?m example_client"
    by (simp_all add: enqueue_refuses_def lane_full_def m f MAX_QUEUE_PER_LANE_def MAX_QUEUED_BYTES_PER_PEER_def
        MAX_BULK_PAYLOAD_def MAX_CONFIG_PAYLOAD_def MAX_SYNC_PAYLOAD_def PAYLOAD_SLACK_def)
  have d: "c_drop_unlogged example_client < 2147483647" by (simp add: example_client_def client_new_def)
  show ?thesis
    using enqueue_correct [OF example_reach(2) d, of "env_at 0" ?m] nr f(1) m
    by (auto simp: lane_put_def lane_index_def)
qed

fun enqueue_all :: "env \<Rightarrow> queued_msg list \<Rightarrow> hub_client \<Rightarrow> (bool \<times> hub_client) outcome" where
  "enqueue_all e [] c = Ret (True, c)"
| "enqueue_all e (m # ms) c = out_bind (enqueue e m c) (\<lambda>(ok, c1). if ok then enqueue_all e ms c1 else Ret (False, c1))"

lemma enqueue_plain:
  assumes "0 \<le> c_fd c" "qm_coalesce_key m = []" "qm_lane m = l"
    and "\<not> lane_full (lane_index l) m c \<or> l \<noteq> Urgent \<and> ql_msgs (c_out_lanes c ! lane_index l) = []"
  shows "enqueue e m c = Ret (True, push_back e (lane_index l) m c)"
proof -
  have "l \<noteq> Urgent \<Longrightarrow> lane_index l \<noteq> lane_index Urgent" by (cases l) (simp_all add: lane_index_def)
  then show ?thesis
    using assms by (auto simp: enqueue_def Let_def drop_oldest_def pop_front_def)
qed

text \<open>
  The byte cap of a connection is not a hard bound.  Three bulk messages of the
  largest size fill it exactly; a delta queued next finds its own lane empty, so nothing is evicted
  for it and it is taken: the connection now holds more than \<^const>\<open>MAX_QUEUED_BYTES_PER_PEER\<close>
  bytes.
\<close>

theorem queue_cap_exceeded:
  "\<exists>c. enqueue_all (env_at 0)
         (replicate 3 (example_msg Bulk (replicate MAX_BULK_PAYLOAD (CHR ''x''))) @ [example_msg Delta ''d'']) example_client
       = Ret (True, c) \<and> c_out_total_bytes c > MAX_QUEUED_BYTES_PER_PEER"
proof -
  let ?e = "env_at 0" let ?b = "example_msg Bulk (replicate MAX_BULK_PAYLOAD (CHR ''x''))" let ?d = "example_msg Delta ''d''"
  have m: "qm_coalesce_key (example_msg l p) = []" "qm_lane (example_msg l p) = l" "qm_payload (example_msg l p) = p" for l p
    by (simp_all add: example_msg_def)
  have li: "lane_index Bulk = 2" "lane_index Delta = 1" by (simp_all add: lane_index_def)
  have pb: "c_fd (push_back ?e i x c) = c_fd c" "c_out_total_bytes (push_back ?e i x c) = c_out_total_bytes c + msg_len x"
      "c_out_lanes (push_back ?e i x c) = (c_out_lanes c)[i := (c_out_lanes c ! i)\<lparr>ql_msgs := ql_msgs (c_out_lanes c ! i) @ [x],
         ql_bytes := ql_bytes (c_out_lanes c ! i) + msg_len x\<rparr>]" for i x c
    by (simp_all add: push_back_def Let_def)
  have c0: "c_fd example_client = 5" "c_out_total_bytes example_client = 0"
      "c_out_lanes example_client = [\<lparr>ql_msgs = [], ql_bytes = 0\<rparr>, \<lparr>ql_msgs = [], ql_bytes = 0\<rparr>, \<lparr>ql_msgs = [], ql_bytes = 0\<rparr>]"
    by (simp_all add: example_client_def client_new_def LANE_COUNT_def numeral_3_eq_3)
  note step = enqueue_plain [OF _ m(1) m(2)]
  define c1 where "c1 = push_back ?e 2 ?b example_client"
  define c2 where "c2 = push_back ?e 2 ?b c1"
  define c3 where "c3 = push_back ?e 2 ?b c2"
  have t: "c_fd c1 = 5" "c_fd c2 = 5" "c_fd c3 = 5" "c_out_total_bytes c1 = MAX_BULK_PAYLOAD"
      "c_out_total_bytes c2 = 2 * MAX_BULK_PAYLOAD" "c_out_total_bytes c3 = 3 * MAX_BULK_PAYLOAD"
      "length (ql_msgs (c_out_lanes c1 ! 2)) = 1" "length (ql_msgs (c_out_lanes c2 ! 2)) = 2" "ql_msgs (c_out_lanes c3 ! 1) = []"
    by (simp_all add: c1_def c2_def c3_def pb c0 m)
  have "enqueue ?e ?b example_client = Ret (True, c1)" "enqueue ?e ?b c1 = Ret (True, c2)" "enqueue ?e ?b c2 = Ret (True, c3)"
    unfolding c1_def c2_def c3_def li(1) [symmetric]
    by (rule step; simp add: lane_full_def li c0 t m MAX_QUEUED_BYTES_PER_PEER_def MAX_QUEUE_PER_LANE_def pb;
        simp add: lane_full_def li c0 t m MAX_QUEUED_BYTES_PER_PEER_def MAX_QUEUE_PER_LANE_def pb)+
  moreover have "enqueue ?e ?d c3 = Ret (True, push_back ?e 1 ?d c3)" using step [of c3 Delta "''d''" ?e] t(3,9) li(2) by simp
  ultimately show ?thesis
    using t(6) by (simp add: numeral_3_eq_3 pb m MAX_QUEUED_BYTES_PER_PEER_def)
qed

end
