(* ===== verification/Delta_Seen.thy ===== *)
theory Delta_Seen
  imports Hub_State
begin

text \<open>
  The duplicate filter of flooded deltas (\<^verbatim>\<open>delta_seen_check_and_update\<close> of
  \<^verbatim>\<open>src/src/queue.rs\<close>): the highest sequence number seen per origin hub and bot.  The table is a
  replicated table whose values join by maximum, so the general results on such tables apply.
\<close>

section \<open>The filter\<close>

definition ds_older :: "delta_seen_rec \<Rightarrow> delta_seen_rec \<Rightarrow> bool" where
  "ds_older a b \<longleftrightarrow> ds_last_seen_at a < ds_last_seen_at b"

definition delta_seen_check_and_update ::
    "env \<Rightarrow> string \<Rightarrow> string \<Rightarrow> nat \<Rightarrow> hub_state \<Rightarrow> bool \<times> hub_state" where
  "delta_seen_check_and_update e origin_hub_uuid bot_uuid seq s =
     (if origin_hub_uuid = [] \<or> bot_uuid = [] then (True, s)
      else case position (\<lambda>d. ds_origin d = origin_hub_uuid \<and> ds_bot d = bot_uuid) (delta_seen s) of
        Some i \<Rightarrow>
          let d = delta_seen s ! i in
          if seq \<le> ds_max_seq d then (False, s)
          else (True, s\<lparr>delta_seen := (delta_seen s)[i := d\<lparr>ds_max_seq := seq, ds_last_seen_at := env_now e\<rparr>]\<rparr>)
      | None \<Rightarrow>
          let ds = (if length (delta_seen s) \<ge> MAX_DELTA_SEEN
                    then swap_remove (scan_best ds_older (delta_seen s) [1..<length (delta_seen s)] 0) (delta_seen s)
                    else delta_seen s)
          in (True, s\<lparr>delta_seen := ds @ [\<lparr>ds_origin = origin_hub_uuid, ds_bot = bot_uuid, ds_max_seq = seq,
                                            ds_last_seen_at = env_now e\<rparr>]\<rparr>))"

section \<open>The table it keeps\<close>

definition ds_key :: "delta_seen_rec \<Rightarrow> string \<times> string" where
  "ds_key d = (ds_origin d, ds_bot d)"

lemma ds_key_make [simp]: "ds_key \<lparr>ds_origin = u, ds_bot = b, ds_max_seq = q, ds_last_seen_at = t\<rparr> = (u, b)"
  "ds_key (d\<lparr>ds_max_seq := q, ds_last_seen_at := t\<rparr>) = ds_key d"
  by (simp_all add: ds_key_def)

definition ds_tab :: "hub_state \<Rightarrow> string \<times> string \<rightharpoonup> nat" where
  "ds_tab s = rec_tab ds_key ds_max_seq (delta_seen s)"

definition ds_inv :: "hub_state \<Rightarrow> bool" where
  "ds_inv s \<longleftrightarrow> distinct (map ds_key (delta_seen s)) \<and> length (delta_seen s) \<le> MAX_DELTA_SEEN"

text \<open>A delta as it arrives: the clock, origin, bot and sequence number.\<close>

type_synonym delta = "env \<times> string \<times> string \<times> nat"

definition ds_deliver :: "delta \<Rightarrow> hub_state \<Rightarrow> hub_state" where
  "ds_deliver = (\<lambda>(e, o_uuid, b, q) s. snd (delta_seen_check_and_update e o_uuid b q s))"

definition ds_kv :: "delta \<Rightarrow> ((string \<times> string) \<times> nat) option" where
  "ds_kv = (\<lambda>(e, o_uuid, b, q). if o_uuid = [] \<or> b = [] then None else Some ((o_uuid, b), q))"

lemma ds_position: "position (\<lambda>d. ds_origin d = u \<and> ds_bot d = b) xs = position (\<lambda>d. ds_key d = (u, b)) xs"
  by (rule position_cong) (auto simp: ds_key_def)

lemma ds_check_answer:
  assumes "u \<noteq> []" "b \<noteq> []"
  shows "fst (delta_seen_check_and_update e u b q s) \<longleftrightarrow> (case ds_tab s (u, b) of None \<Rightarrow> True | Some m \<Rightarrow> m < q)"
  using assms by (auto simp: delta_seen_check_and_update_def ds_position ds_tab_def rec_tab_def Let_def split: option.splits)

lemma ds_deliver_inv:
  assumes "ds_inv s"
  shows "ds_inv (snd (delta_seen_check_and_update e u b q s))"
proof (cases "u = [] \<or> b = []")
  case False
  let ?new = "\<lparr>ds_origin = u, ds_bot = b, ds_max_seq = q, ds_last_seen_at = env_now e\<rparr>"
  let ?old = "scan_best ds_older (delta_seen s) [1..<length (delta_seen s)] 0"
  show ?thesis
  proof (cases "position (\<lambda>d. ds_key d = (u, b)) (delta_seen s)")
    case (Some i)
    then show ?thesis
      using assms False by (auto simp: delta_seen_check_and_update_def ds_position ds_inv_def Let_def intro!: distinct_map_update)
  next
    case None
    let ?ds = "if length (delta_seen s) \<ge> MAX_DELTA_SEEN then swap_remove ?old (delta_seen s) else delta_seen s"
    have old: "?old < length (delta_seen s)" if "length (delta_seen s) \<ge> MAX_DELTA_SEEN"
      using that by (intro scan_best_range) (auto simp: MAX_DELTA_SEEN_def)
    have "(u, b) \<notin> ds_key ` set (delta_seen s)" using None by (auto simp: position_None)
    then have "(u, b) \<notin> ds_key ` set ?ds" using set_swap_remove_subset [of ?old "delta_seen s"] by auto
    moreover have "distinct (map ds_key ?ds)" using assms by (simp add: ds_inv_def distinct_swap_remove)
    moreover have "length ?ds < MAX_DELTA_SEEN"
      using assms old by (auto simp: ds_inv_def MAX_DELTA_SEEN_def)
    ultimately show ?thesis
      using None False by (auto simp: delta_seen_check_and_update_def ds_position ds_inv_def Let_def)
  qed
qed (use assms in \<open>auto simp: delta_seen_check_and_update_def\<close>)

lemma ds_deliver_tab:
  assumes "ds_inv s" "u \<noteq> []" "b \<noteq> []" "(u, b) \<in> dom (ds_tab s) \<or> card (dom (ds_tab s)) < MAX_DELTA_SEEN"
  shows "ds_tab (snd (delta_seen_check_and_update e u b q s)) = join_put max ((u, b), q) (ds_tab s)"
proof (cases "position (\<lambda>d. ds_key d = (u, b)) (delta_seen s)")
  case None
  then have no: "ds_tab s (u, b) = None" by (simp add: ds_tab_def rec_tab_def)
  then have "length (delta_seen s) < MAX_DELTA_SEEN"
    using assms(1,4) card_dom_rec_tab [of ds_key "delta_seen s" ds_max_seq] by (auto simp: ds_tab_def ds_inv_def)
  then show ?thesis
    using no None assms(2,3)
      rec_tab_snoc [of ds_key "\<lparr>ds_origin = u, ds_bot = b, ds_max_seq = q, ds_last_seen_at = env_now e\<rparr>" "delta_seen s" ds_max_seq]
    by (simp add: delta_seen_check_and_update_def ds_position ds_tab_def join_put_def)
next
  case (Some i)
  let ?d = "delta_seen s ! i" and ?d' = "\<lparr>ds_origin = u, ds_bot = b, ds_max_seq = q, ds_last_seen_at = env_now e\<rparr>"
  have d: "ds_key ?d = (u, b)" "ds_tab s (u, b) = Some (ds_max_seq ?d)"
    using position_SomeD [OF Some] Some by (simp_all add: ds_tab_def rec_tab_def)
  show ?thesis
  proof (cases "q \<le> ds_max_seq ?d")
    case True
    then show ?thesis
      using assms(2,3) Some d by (auto simp: delta_seen_check_and_update_def ds_position join_put_def Let_def fun_upd_idem_iff)
  next
    case False
    have "?d\<lparr>ds_max_seq := q, ds_last_seen_at := env_now e\<rparr> = ?d'" using d(1) by (simp add: ds_key_def)
    then have "ds_tab (snd (delta_seen_check_and_update e u b q s)) = (ds_tab s)((u, b) \<mapsto> q)"
      using assms(2,3) Some False rec_tab_update [OF Some, of ?d' ds_max_seq]
      by (simp add: delta_seen_check_and_update_def ds_position ds_tab_def Let_def)
    then show ?thesis using False d by (simp add: join_put_def)
  qed
qed

interpretation ds_store: join_store "max :: nat \<Rightarrow> nat \<Rightarrow> nat" ds_deliver ds_tab ds_kv MAX_DELTA_SEEN ds_inv
proof
  show "ds_tab (ds_deliver r s) = join_put max x (ds_tab s)"
    if "ds_inv s" "ds_kv r = Some x" "fst x \<in> dom (ds_tab s) \<or> card (dom (ds_tab s)) < MAX_DELTA_SEEN"
    for s :: hub_state and r :: delta and x
  proof -
    obtain e u b q where "r = (e, u, b, q)" by (cases r)
    then show ?thesis
      using that(1) that(2) [symmetric] that(3) ds_deliver_tab [of s u b e q]
      by (simp add: ds_deliver_def ds_kv_def split: if_splits)
  qed
  show "ds_tab (ds_deliver r s) = ds_tab s" if "ds_kv r = None" for s :: hub_state and r :: delta
    using that by (cases r) (auto simp: ds_deliver_def ds_kv_def delta_seen_check_and_update_def split: if_splits)
  show "ds_inv (ds_deliver r s)" if "ds_inv s" for s :: hub_state and r :: delta
    using that ds_deliver_inv by (cases r) (auto simp: ds_deliver_def)
qed (auto simp: ds_tab_def)

section \<open>No delta is applied twice\<close>

lemma max_puts_below:
  "(case join_puts max xs m k of None \<Rightarrow> True | Some v \<Rightarrow> v < q) \<longleftrightarrow>
     (case m k of None \<Rightarrow> True | Some v \<Rightarrow> v < q) \<and> (\<forall>x \<in> set xs. fst x = k \<longrightarrow> snd x < q)" for q :: nat
proof (induction xs arbitrary: m)
  case (Cons x xs)
  have "(case join_put max x m k of None \<Rightarrow> True | Some v \<Rightarrow> v < q) \<longleftrightarrow>
      (case m k of None \<Rightarrow> True | Some v \<Rightarrow> v < q) \<and> (fst x = k \<longrightarrow> snd x < q)"
    by (cases x) (auto simp: join_put_def split: option.splits)
  then show ?case using Cons [of "join_put max x m"] by (auto simp: join_puts_def)
qed (simp add: join_puts_def)

text \<open>
  After any run of deltas that leaves the table room, so that nothing is evicted, a delta passes
  exactly when its sequence number is above every earlier one of its hub and bot.
\<close>

lemma delta_filter_roomy:
  assumes "ds_inv s" "u \<noteq> []" "b \<noteq> []"
    and "card (dom (ds_tab s) \<union> {(o', b'). \<exists>e q. (e, o', b', q) \<in> set ds}) \<le> MAX_DELTA_SEEN"
  shows "(fst (delta_seen_check_and_update e u b q (fold ds_deliver ds s)) \<longleftrightarrow>
      (\<forall>m. ds_tab s (u, b) = Some m \<longrightarrow> m < q) \<and> (\<forall>e' q'. (e', u, b, q') \<in> set ds \<longrightarrow> q' < q)) \<and>
    length (delta_seen (fold ds_deliver ds s)) \<le> MAX_DELTA_SEEN"
proof -
  have kv: "ds_kv r = Some ((o', b'), q') \<longleftrightarrow> (\<exists>e. r = (e, o', b', q')) \<and> o' \<noteq> [] \<and> b' \<noteq> []" for r o' b' q'
    by (cases r) (auto simp: ds_kv_def)
  have said: "((o', b'), q') \<in> set (ds_store.said ds) \<longleftrightarrow> (\<exists>e. (e, o', b', q') \<in> set ds) \<and> o' \<noteq> [] \<and> b' \<noteq> []" for o' b' q'
    by (auto simp: ds_store.set_said kv)
  have "ds_store.said_keys ds \<subseteq> {(o', b'). \<exists>e q. (e, o', b', q) \<in> set ds}"
    by (auto simp: ds_store.said_keys_def) (use said in blast)
  moreover have "finite {(o', b'). \<exists>e q. (e, o', b', q) \<in> set ds}"
    by (rule finite_subset [of _ "(\<lambda>(e, o', b', q). (o', b')) ` set ds"]) force+
  ultimately have "card (dom (ds_tab s) \<union> ds_store.said_keys ds) \<le> MAX_DELTA_SEEN"
    using assms(4) ds_store.tab_finite [OF assms(1)] card_mono by (meson Un_mono finite_UnI le_trans order_refl)
  then have "ds_tab (fold ds_deliver ds s) = join_puts max (ds_store.said ds) (ds_tab s)"
    using ds_store.deliver_puts [OF assms(1)] by blast
  moreover have "(\<forall>x \<in> set (ds_store.said ds). fst x = (u, b) \<longrightarrow> snd x < q) \<longleftrightarrow> (\<forall>e' q'. (e', u, b, q') \<in> set ds \<longrightarrow> q' < q)"
    using assms(2,3) by (auto simp: said) (metis fst_conv said snd_conv)
  ultimately show ?thesis
    using ds_check_answer [OF assms(2,3), of e q "fold ds_deliver ds s"] max_puts_below [where xs = "ds_store.said ds" and m = "ds_tab s" and k = "(u, b)" and q = q]
      ds_store.deliver_inv [OF assms(1), of ds]
    by (auto simp: ds_inv_def split: option.splits)
qed

section \<open>The filter under eviction\<close>

text \<open>
  A full table gives up the entry that was refreshed longest ago.  An entry is therefore safe as long
  as the keys refreshed since its own refresh, with those still to come, fit into the table.
\<close>

definition keys_since :: "i64 \<Rightarrow> hub_state \<Rightarrow> (string \<times> string) set" where
  "keys_since t s = ds_key ` {d \<in> set (delta_seen s). t \<le> ds_last_seen_at d}"

definition delta_keys :: "delta list \<Rightarrow> (string \<times> string) set" where
  "delta_keys ds = (\<lambda>(e, u, b, q). (u, b)) ` set ds"

lemma finite_keys [simp]: "finite (keys_since t s)" "finite (delta_keys ds)"
  by (simp_all add: keys_since_def delta_keys_def)

lemma scan_best_least:
  "ds_last_seen_at (xs ! scan_best ds_older xs js best) \<le> ds_last_seen_at (xs ! best) \<and>
   (\<forall>j \<in> set js. ds_last_seen_at (xs ! scan_best ds_older xs js best) \<le> ds_last_seen_at (xs ! j))"
proof (induction js arbitrary: best)
  case (Cons j js)
  show ?case using Cons.IH [of j] Cons.IH [of best] by (auto simp: ds_older_def intro: order_trans)
qed simp

lemma oldest_least:
  "j < length xs \<Longrightarrow> ds_last_seen_at (xs ! scan_best ds_older xs [1..<length xs] 0) \<le> ds_last_seen_at (xs ! j)"
  using scan_best_least [of xs "[1..<length xs]" 0] by (cases j) auto

text \<open>What the table says of one hub and bot: the highest number and the time of its last refresh.\<close>

definition ds_holds :: "i64 \<Rightarrow> string \<Rightarrow> string \<Rightarrow> nat \<Rightarrow> hub_state \<Rightarrow> bool" where
  "ds_holds t u b m s \<longleftrightarrow> (\<exists>d \<in> set (delta_seen s). ds_key d = (u, b) \<and> ds_max_seq d = m \<and> t \<le> ds_last_seen_at d)"

lemma ds_holds_tab: "ds_inv s \<Longrightarrow> ds_holds t u b m s \<Longrightarrow> ds_tab s (u, b) = Some m"
proof -
  assume i: "ds_inv s" and h: "ds_holds t u b m s"
  obtain k where k: "k < length (delta_seen s)" "ds_key (delta_seen s ! k) = (u, b)" "ds_max_seq (delta_seen s ! k) = m"
    using h by (auto simp: ds_holds_def in_set_conv_nth)
  have "ds_key (delta_seen s ! j) \<noteq> (u, b)" if "j < k" for j
    using nth_eq_iff_index_eq [of "map ds_key (delta_seen s)" j k] i that k(1,2) by (simp add: ds_inv_def)
  then have "position (\<lambda>d. ds_key d = (u, b)) (delta_seen s) = Some k" using k(1,2) unfolding position_Some by blast
  then show ?thesis using k(3) by (simp add: ds_tab_def rec_tab_def)
qed

lemma check_new:
  assumes "u \<noteq> []" "b \<noteq> []" "fst (delta_seen_check_and_update e u b q s)"
  shows "ds_inv s \<Longrightarrow> ds_holds (env_now e) u b q (snd (delta_seen_check_and_update e u b q s))"
proof -
  assume "ds_inv s"
  show ?thesis
  proof (cases "position (\<lambda>d. ds_key d = (u, b)) (delta_seen s)")
    case None
    let ?d = "\<lparr>ds_origin = u, ds_bot = b, ds_max_seq = q, ds_last_seen_at = env_now e\<rparr>"
    obtain ds where "snd (delta_seen_check_and_update e u b q s) = s\<lparr>delta_seen := ds @ [?d]\<rparr>"
      using assms(1,2) None by (simp add: delta_seen_check_and_update_def ds_position Let_def)
    then show ?thesis unfolding ds_holds_def by (intro bexI [of _ ?d]) simp_all
  next
    case (Some i)
    let ?d = "(delta_seen s ! i)\<lparr>ds_max_seq := q, ds_last_seen_at := env_now e\<rparr>"
    have i: "i < length (delta_seen s)" "ds_key (delta_seen s ! i) = (u, b)" using position_SomeD [OF Some] by simp_all
    have "snd (delta_seen_check_and_update e u b q s) = s\<lparr>delta_seen := (delta_seen s)[i := ?d]\<rparr>"
      using assms Some by (cases "q \<le> ds_max_seq (delta_seen s ! i)") (simp_all add: delta_seen_check_and_update_def ds_position Let_def)
    moreover have "?d \<in> set ((delta_seen s)[i := ?d])" by (rule set_update_memI [OF i(1)])
    ultimately show ?thesis unfolding ds_holds_def using i(2) by (intro bexI [of _ ?d]) simp_all
  qed
qed

text \<open>One delivery keeps the entry, with the higher of the two numbers, and adds at most its own key.\<close>

lemma deliver_keeps_row:
  assumes "ds_inv s" "ds_holds t u b m s" "t \<le> env_now e"
    and "card (insert (u', b') (keys_since t s)) \<le> MAX_DELTA_SEEN"
  shows "ds_holds t u b (if (u', b') = (u, b) \<and> u' \<noteq> [] \<and> b' \<noteq> [] then max m q else m) (ds_deliver (e, u', b', q) s)"
    "keys_since t (ds_deliver (e, u', b', q) s) \<subseteq> insert (u', b') (keys_since t s)"
proof -
  let ?s = "ds_deliver (e, u', b', q) s" let ?xs = "delta_seen s"
  let ?new = "\<lparr>ds_origin = u', ds_bot = b', ds_max_seq = q, ds_last_seen_at = env_now e\<rparr>"
  obtain d where d: "d \<in> set ?xs" "ds_key d = (u, b)" "ds_max_seq d = m" "t \<le> ds_last_seen_at d"
    using assms(2) by (auto simp: ds_holds_def)
  have uniq: "x = d" if "x \<in> set ?xs" "ds_key x = (u, b)" for x
    using assms(1) that d(1,2) inj_onD [of ds_key "set ?xs" x d] by (simp add: ds_inv_def distinct_map)
  consider (same) "ds_deliver (e, u', b', q) s = s" "u' = [] \<or> b' = []"
    | (known) i where "u' \<noteq> []" "b' \<noteq> []" "position (\<lambda>d. ds_key d = (u', b')) ?xs = Some i"
    | (fresh) "u' \<noteq> []" "b' \<noteq> []" "position (\<lambda>d. ds_key d = (u', b')) ?xs = None"
    by (cases "position (\<lambda>d. ds_key d = (u', b')) ?xs") (auto simp: ds_deliver_def delta_seen_check_and_update_def)
  then have "ds_holds t u b (if (u', b') = (u, b) \<and> u' \<noteq> [] \<and> b' \<noteq> [] then max m q else m) ?s \<and>
      keys_since t ?s \<subseteq> insert (u', b') (keys_since t s)"
  proof cases
    case same
    then show ?thesis using assms(2) by auto
  next
    case (known i)
    let ?x = "?xs ! i" let ?x' = "?x\<lparr>ds_max_seq := q, ds_last_seen_at := env_now e\<rparr>"
    have i: "i < length ?xs" "ds_key ?x = (u', b')" using position_SomeD [OF known(3)] by simp_all
    have s': "?s = (if q \<le> ds_max_seq ?x then s else s\<lparr>delta_seen := ?xs[i := ?x']\<rparr>)"
      using known by (simp add: ds_deliver_def delta_seen_check_and_update_def ds_position Let_def)
    show ?thesis
    proof (cases "q \<le> ds_max_seq ?x")
      case True
      have "(u', b') = (u, b) \<Longrightarrow> ds_max_seq ?x = m" using uniq [of ?x] i d(3) by simp
      then show ?thesis using assms(2) s' True by (auto simp: max_def)
    next
      case False
      have mem: "?x' \<in> set (?xs[i := ?x'])" by (rule set_update_memI [OF i(1)])
      have ks: "keys_since t ?s \<subseteq> insert (u', b') (keys_since t s)"
        using s' False i(2) set_update_subset_insert [of ?xs i ?x'] by (fastforce simp: keys_since_def)
      show ?thesis
      proof (cases "(u', b') = (u, b)")
        case True
        then have "ds_max_seq ?x = m" using uniq [of ?x] i d(3) by simp
        then have "ds_holds t u b (max m q) ?s"
          using mem s' False True i(2) assms(3) unfolding ds_holds_def by (intro bexI [of _ ?x']) (auto simp: max_def)
        then show ?thesis using ks True known(1,2) by simp
      next
        case other: False
        obtain k where k: "k < length ?xs" "?xs ! k = d" using d(1) by (auto simp: in_set_conv_nth)
        then have "k \<noteq> i" using other d(2) i(2) by auto
        then have "?xs[i := ?x'] ! k = d" using k by simp
        then have "d \<in> set (?xs[i := ?x'])" using k(1) by (metis length_list_update nth_mem)
        then have "ds_holds t u b m ?s" using s' False d(2-4) unfolding ds_holds_def by (intro bexI [of _ d]) simp_all
        then show ?thesis using ks other by auto
      qed
    qed
  next
    case fresh
    let ?old = "scan_best ds_older ?xs [1..<length ?xs] 0"
    let ?ds = "if length ?xs \<ge> MAX_DELTA_SEEN then swap_remove ?old ?xs else ?xs"
    have no: "(u', b') \<notin> ds_key ` set ?xs" using fresh(3) by (auto simp: position_None)
    then have ne: "(u', b') \<noteq> (u, b)" using d(1,2) by (metis imageI)
    have s': "?s = s\<lparr>delta_seen := ?ds @ [?new]\<rparr>"
      using fresh by (simp add: ds_deliver_def delta_seen_check_and_update_def ds_position Let_def)
    have sub: "set ?ds \<subseteq> set ?xs" using set_swap_remove_subset [of ?old ?xs] by simp
    have ks: "keys_since t ?s \<subseteq> insert (u', b') (keys_since t s)" using s' sub by (auto simp: keys_since_def)
    have "d \<in> set ?ds"
    proof (cases "length ?xs \<ge> MAX_DELTA_SEEN")
      case full: True
      then have old: "?old < length ?xs" by (intro scan_best_range) (auto simp: MAX_DELTA_SEEN_def)
      have "?xs ! ?old \<noteq> d"
      proof
        assume "?xs ! ?old = d"
        then have "\<forall>x \<in> set ?xs. t \<le> ds_last_seen_at x"
          using oldest_least [of _ ?xs] d(4) by (metis in_set_conv_nth order_trans)
        then have "keys_since t s = ds_key ` set ?xs" by (auto simp: keys_since_def)
        moreover have "card (ds_key ` set ?xs) = length ?xs"
          using assms(1) by (metis ds_inv_def distinct_card length_map set_map)
        ultimately show False using assms(4) no full by simp
      qed
      moreover have "set ?xs = set_mset (add_mset (?xs ! ?old) (mset (swap_remove ?old ?xs)))"
        by (simp only: mset_swap_remove [OF old] set_mset_mset)
      then have "d = ?xs ! ?old \<or> d \<in> set (swap_remove ?old ?xs)" using d(1) by simp
      ultimately show ?thesis using full by metis
    qed (use d(1) in simp)
    then have "ds_holds t u b m ?s" using s' d(2-4) unfolding ds_holds_def by (intro bexI [of _ d]) simp_all
    then show ?thesis using ks ne by auto
  qed
  then show "ds_holds t u b (if (u', b') = (u, b) \<and> u' \<noteq> [] \<and> b' \<noteq> [] then max m q else m) ?s"
    "keys_since t ?s \<subseteq> insert (u', b') (keys_since t s)" by simp_all
qed

lemma run_holds:
  assumes "ds_inv s" "ds_holds t u b m s" "\<forall>(e, u', b', q) \<in> set ds. t \<le> env_now e" "u \<noteq> []" "b \<noteq> []"
    and "card (keys_since t s \<union> delta_keys ds) \<le> MAX_DELTA_SEEN"
  shows "\<exists>m'. ds_holds t u b m' (fold ds_deliver ds s) \<and>
    (\<forall>x. m' < x \<longleftrightarrow> m < x \<and> (\<forall>e q. (e, u, b, q) \<in> set ds \<longrightarrow> q < x))"
  using assms
proof (induction ds arbitrary: s m)
  case (Cons r ds)
  obtain e u' b' q where r: "r = (e, u', b', q)" by (cases r)
  let ?s = "ds_deliver r s" let ?m = "if (u', b') = (u, b) \<and> u' \<noteq> [] \<and> b' \<noteq> [] then max m q else m"
  have ks: "insert (u', b') (keys_since t s) \<subseteq> keys_since t s \<union> delta_keys (r # ds)" by (auto simp: delta_keys_def r)
  then have card: "card (insert (u', b') (keys_since t s)) \<le> MAX_DELTA_SEEN"
    using Cons.prems(6) card_mono [OF _ ks] by (simp add: le_trans)
  have te: "t \<le> env_now e" using Cons.prems(3) r by simp
  note D = deliver_keeps_row [OF Cons.prems(1,2) te card, where q = q, folded r]
  have "delta_keys (r # ds) = insert (u', b') (delta_keys ds)" by (simp add: delta_keys_def r)
  then have "keys_since t ?s \<union> delta_keys ds \<subseteq> keys_since t s \<union> delta_keys (r # ds)" using D(2) by blast
  then have "card (keys_since t ?s \<union> delta_keys ds) \<le> MAX_DELTA_SEEN"
    using Cons.prems(6) card_mono [of "keys_since t s \<union> delta_keys (r # ds)"] by (meson finite_UnI finite_keys le_trans)
  moreover have "ds_inv ?s" using ds_deliver_inv [OF Cons.prems(1)] by (simp add: r ds_deliver_def)
  moreover have "\<forall>(e, u', b', q) \<in> set ds. t \<le> env_now e" using Cons.prems(3) by auto
  ultimately obtain m' where m': "ds_holds t u b m' (fold ds_deliver ds ?s)"
      "\<forall>x. m' < x \<longleftrightarrow> ?m < x \<and> (\<forall>e q. (e, u, b, q) \<in> set ds \<longrightarrow> q < x)"
    using Cons.IH [OF _ D(1)] Cons.prems(4,5) by blast
  have "?m < x \<longleftrightarrow> m < x \<and> ((u', b') = (u, b) \<longrightarrow> q < x)" for x using Cons.prems(4,5) by auto
  then show ?case using m' r by (intro exI [of _ m']) auto
qed auto

text \<open>
  Property C14.  No delta is applied twice.  Once a delta of a hub and bot has passed, a further one of
  the same hub and bot passes exactly when its sequence number is above it and above every one that
  came in between: a copy or a late delta never, a fresh one always.  In between any deltas of any
  other hubs and bots may come, in clock order, and evict others from the table; the only condition
  is that the senders refreshed since, with those that come, are no more than the table has places
  (the least recently refreshed entry is the one that is given up).  The table never holds more than
  \<^const>\<open>MAX_DELTA_SEEN\<close> entries, whatever came.
\<close>

theorem delta_filter_exact:
  assumes "ds_inv s" "u \<noteq> []" "b \<noteq> []" "delta_seen_check_and_update e u b q s = (True, s1)"
    and "\<forall>(e', o', b', q') \<in> set ds. env_now e \<le> env_now e'"
    and "card (keys_since (env_now e) s1 \<union> delta_keys ds) \<le> MAX_DELTA_SEEN"
  shows "(fst (delta_seen_check_and_update e'' u b x (fold ds_deliver ds s1)) \<longleftrightarrow>
      q < x \<and> (\<forall>e' q'. (e', u, b, q') \<in> set ds \<longrightarrow> q' < x)) \<and>
    length (delta_seen (fold ds_deliver ds' s)) \<le> MAX_DELTA_SEEN"
proof
  show "length (delta_seen (fold ds_deliver ds' s)) \<le> MAX_DELTA_SEEN"
    using ds_store.deliver_inv [OF assms(1), of ds'] by (simp add: ds_inv_def)
  have inv: "ds_inv s1" using ds_deliver_inv [OF assms(1), of e u b q] assms(4) by simp
  have "ds_holds (env_now e) u b q s1" using check_new [OF assms(2,3), of e q s] assms(1,4) by simp
  from run_holds [OF inv this assms(5) assms(2,3) assms(6)]
  obtain m where m: "ds_holds (env_now e) u b m (fold ds_deliver ds s1)"
      "\<forall>x. m < x \<longleftrightarrow> q < x \<and> (\<forall>e' q'. (e', u, b, q') \<in> set ds \<longrightarrow> q' < x)" by blast
  have "ds_tab (fold ds_deliver ds s1) (u, b) = Some m" by (rule ds_holds_tab [OF ds_store.deliver_inv [OF inv] m(1)])
  then show "fst (delta_seen_check_and_update e'' u b x (fold ds_deliver ds s1)) \<longleftrightarrow>
      q < x \<and> (\<forall>e' q'. (e', u, b, q') \<in> set ds \<longrightarrow> q' < x)"
    using ds_check_answer [OF assms(2,3), of e'' x "fold ds_deliver ds s1"] m(2) by simp
qed

theorem delta_filter_exact_witness:
  "let s1 = snd (delta_seen_check_and_update (env_at 7) ''h'' ''b'' 2 hub_state_new);
       s2 = fold ds_deliver [(env_at 8, ''g'', ''c'', 9)] s1
   in fst (delta_seen_check_and_update (env_at 9) ''h'' ''b'' 3 s2) \<and> \<not> fst (delta_seen_check_and_update (env_at 9) ''h'' ''b'' 2 s2)"
proof -
  let ?s1 = "snd (delta_seen_check_and_update (env_at 7) ''h'' ''b'' 2 hub_state_new)" let ?ds = "[(env_at 8, ''g'', ''c'', 9)]"
  have i: "ds_inv hub_state_new" by (simp add: ds_inv_def hub_state_new_def)
  have st: "delta_seen_check_and_update (env_at 7) ''h'' ''b'' 2 hub_state_new = (True, ?s1)"
    by (simp add: delta_seen_check_and_update_def hub_state_new_def)
  have "keys_since 7 ?s1 \<subseteq> {(''h'', ''b'')}"
    by (auto simp: keys_since_def delta_seen_check_and_update_def hub_state_new_def MAX_DELTA_SEEN_def)
  then have "card (keys_since 7 ?s1 \<union> {(''g'', ''c'')}) \<le> card {(''h'', ''b''), (''g'', ''c'')}" by (intro card_mono) auto
  then have k: "card (keys_since (env_now (env_at 7)) ?s1 \<union> delta_keys ?ds) \<le> MAX_DELTA_SEEN"
    by (simp add: delta_keys_def env_at_def MAX_DELTA_SEEN_def)
  have "\<forall>(e', o', b', q') \<in> set ?ds. env_now (env_at 7) \<le> env_now e'" by (simp add: env_at_def)
  note T = delta_filter_exact [OF i _ _ st this k, of "env_at 9"]
  show ?thesis using T [of 3 "[]"] T [of 2 "[]"] by (simp add: Let_def)
qed

end
