(* ===== verification/Link_Framing.thy ===== *)
theory Link_Framing
  imports Peer_Queue Cstr
begin

text \<open>
  The receiving half of a link and its sequencing: the frame pump of \<^verbatim>\<open>handle_client_data\<close> for an
  authenticated connection, \<^verbatim>\<open>link_offer\<close>, \<^verbatim>\<open>link_seq_recv\<close>, \<^verbatim>\<open>client_send\<close> and the pings of
  \<^verbatim>\<open>src/src/client.rs\<close>, and the receive buffer methods of \<^verbatim>\<open>HubClient\<close>.  The properties: what
  the drain of one end puts on the wire, the pump of the other end hands out unchanged and in
  order, and a frame that is not the next one drops the link.

  A frame that carries a command for a handler ends as an event: the handlers themselves
  (\<^verbatim>\<open>process_bot_command\<close>, \<^verbatim>\<open>handle_peer_frame\<close>) do not touch the receive side.
\<close>

section \<open>The receive buffer\<close>

fun be_value :: "string \<Rightarrow> nat" where
  "be_value [] = 0"
| "be_value (c # cs) = of_char c * 256 ^ length cs + be_value cs"

abbreviation unread :: "hub_client \<Rightarrow> string" where
  "unread c \<equiv> drop (c_recv_off c) (c_recv_buf c)"

definition has_buffered_frame :: "hub_client \<Rightarrow> bool" where
  "has_buffered_frame c \<longleftrightarrow>
     (if c_fd c \<le> 0 \<or> length (unread c) < 4 then False
      else let packet_len = int (be_value (take 4 (unread c)))
           in if packet_len > int (c_recv_cap c) - 4 then True
              else int (length (unread c)) \<ge> 4 + packet_len)"

definition compact_recv :: "hub_client \<Rightarrow> hub_client" where
  "compact_recv c =
     (if c_recv_off c > 0 \<and> length (c_recv_buf c) \<ge> c_recv_cap c
      then c\<lparr>c_recv_buf := drop (c_recv_off c) (c_recv_buf c), c_recv_off := 0\<rparr> else c)"

definition promote_buffers :: "hub_client \<Rightarrow> hub_client" where
  "promote_buffers c =
     (let (recv_target, write_target) =
            (case c_typ c of Ct_Hub \<Rightarrow> (MAX_SYNC_PAYLOAD, MAX_SYNC_PAYLOAD)
             | Ct_Bot \<Rightarrow> (MAX_BUFFER, MAX_CONFIG_PAYLOAD)
             | Ct_Admin \<Rightarrow> (MAX_BUFFER, MAX_BUFFER));
          c1 = (if c_recv_cap c < recv_target then c\<lparr>c_recv_cap := recv_target\<rparr> else c)
      in if c_writing_cap c1 < write_target + 64 then c1\<lparr>c_writing_cap := write_target + 64\<rparr> else c1)"

text \<open>Stepping past a consumed frame.\<close>

definition step_past :: "nat \<Rightarrow> hub_client \<Rightarrow> hub_client" where
  "step_past n c =
     (let c1 = c\<lparr>c_recv_off := c_recv_off c + n\<rparr>
      in if c_recv_off c1 \<ge> length (c_recv_buf c1) then c1\<lparr>c_recv_buf := [], c_recv_off := 0\<rparr> else c1)"

section \<open>Sending\<close>

definition client_send ::
    "env \<Rightarrow> aead \<Rightarrow> nat \<Rightarrow> string \<Rightarrow> hub_client \<Rightarrow> link_world \<Rightarrow> (bool \<times> hub_client \<times> link_world) outcome" where
  "client_send e ae cmd payload c w =
     (if \<not> c_sock c \<or> c_internal c then Ret (False, c, w)
      else out_bind (send_urgent e cmd payload c) (\<lambda>(queued_ok, c1).
        if \<not> queued_ok then Ret (False, c1, w)
        else out_bind (drain_writable e ae c1 w) (\<lambda>(c2, w2). Ret (True, c2, w2))))"

definition send_cmd_to_bot ::
    "env \<Rightarrow> aead \<Rightarrow> nat \<Rightarrow> string \<Rightarrow> hub_client \<Rightarrow> link_world \<Rightarrow> (bool \<times> hub_client \<times> link_world) outcome" where
  "send_cmd_to_bot e ae cmd payload c w =
     (if length payload + 5 > MAX_BUFFER then Ret (False, c, w) else client_send e ae cmd payload c w)"

definition send_ping :: "env \<Rightarrow> aead \<Rightarrow> hub_client \<Rightarrow> link_world \<Rightarrow> (bool \<times> hub_client \<times> link_world) outcome" where
  "send_ping e ae c w = client_send e ae CMD_PING [] c w"

text \<open>
  The answer to a ping: at most one in five seconds (\<^verbatim>\<open>send_pong\<close> and its call in
  \<^verbatim>\<open>handle_client_data\<close>).  False says the connection is to be dropped.
\<close>

definition answer_ping :: "env \<Rightarrow> aead \<Rightarrow> hub_client \<Rightarrow> link_world \<Rightarrow> (bool \<times> hub_client \<times> link_world) outcome" where
  "answer_ping e ae c w =
     (if env_now e - c_last_pong_sent c \<ge> 5
      then out_bind (client_send e ae CMD_PING [] c w) (\<lambda>(sent, c1, w1).
             Ret (if sent then (True, c1\<lparr>c_last_pong_sent := env_now e\<rparr>, w1) else (False, c1, w1)))
      else Ret (True, c, w))"

section \<open>Sequencing\<close>

definition link_offer :: "env \<Rightarrow> string \<Rightarrow> string option \<Rightarrow> hub_client \<Rightarrow> hub_client outcome" where
  "link_offer e own_uuid peer_uuid c =
     (let lower = (case peer_uuid of None \<Rightarrow> False | Some pu \<Rightarrow> own_uuid < pu);
          c1 = (if c_typ c = Ct_Hub
                then c\<lparr>c_link_dir_tx := of_char (if lower then CHR ''L'' else CHR ''G''),
                       c_link_dir_rx := of_char (if lower then CHR ''G'' else CHR ''L'')\<rparr>
                else c\<lparr>c_link_dir_tx := of_char (CHR ''H''), c_link_dir_rx := of_char (CHR ''B'')\<rparr>)
      in out_bind (send_urgent e CMD_LINK_SEQ ''offer'' c1) (\<lambda>(_, c2). Ret c2))"

definition link_seq_recv :: "env \<Rightarrow> string \<Rightarrow> hub_client \<Rightarrow> hub_client outcome" where
  "link_seq_recv e what c =
     (if what = ''offer'' \<and> \<not> c_link_offered c then
        (let c1 = c\<lparr>c_link_offered := True\<rparr>
         in if \<not> c_link_go_queued c1
            then out_bind (send_urgent e CMD_LINK_SEQ ''go'' (c1\<lparr>c_link_go_queued := True\<rparr>)) (\<lambda>(_, c2). Ret c2)
            else Ret c1)
      else if what = ''go'' \<and> c_link_offered c \<and> \<not> c_link_rx_seq c
      then Ret (c\<lparr>c_link_rx_seq := True, c_link_rx_ctr := 0\<rparr>)
      else Ret c)"

section \<open>The frame pump\<close>

text \<open>One frame of an authenticated connection: more bytes needed, the link dropped, or a plaintext.\<close>

datatype frame_event = Fr_Wait | Fr_Drop | Fr_Plain string nat

definition next_frame :: "aead \<Rightarrow> hub_client \<Rightarrow> (frame_event \<times> hub_client) outcome" where
  "next_frame ae c =
     (if length (c_recv_buf c) < c_recv_off c then Panic
      else if length (unread c) < 4 then Ret (Fr_Wait, c)
      else let packet_len = be_value (take 4 (unread c)) in
        if int packet_len > int (c_recv_cap c) - 4 then Ret (Fr_Drop, c)
        else if length (unread c) < 4 + packet_len then Ret (Fr_Wait, c)
        else if packet_len > GCM_TAG_LEN then
          (let frame = take packet_len (drop 4 (unread c));
               body = take (packet_len - GCM_TAG_LEN) frame; tag = drop (packet_len - GCM_TAG_LEN) frame;
               aad = (if c_link_rx_seq c then link_aad (c_link_dir_rx c) (c_link_rx_ctr c) else [])
           in case aes_gcm_decrypt_aad ae body aad (c_session_key c) tag of
                None \<Rightarrow> Ret (Fr_Drop, c)
              | Some plain \<Rightarrow>
                  if c_link_rx_seq c \<and> c_link_rx_ctr c + 1 \<ge> 2 ^ 64 then Panic
                  else let c1 = (if c_link_rx_seq c then c\<lparr>c_link_rx_ctr := c_link_rx_ctr c + 1\<rparr> else c)
                       in Ret (if plain = [] then Fr_Drop else Fr_Plain plain (4 + packet_len), c1))
        else Ret (Fr_Drop, c))"

text \<open>
  What a plaintext is: a ping, a malformed frame, a step of the sequencing, or a command with its
  payload up to the first NUL.  \<^verbatim>\<open>String::from_utf8_lossy\<close> is applied by the handlers.
\<close>

datatype link_event = Ev_Ping | Ev_Drop | Ev_Command nat string

definition dispatch_plain :: "env \<Rightarrow> string \<Rightarrow> hub_client \<Rightarrow> (link_event list \<times> hub_client) outcome" where
  "dispatch_plain e plain c =
     (let cmd = of_char (hd plain); payload = until_nul (drop 5 plain)
      in if cmd = CMD_PING then Ret ([Ev_Ping], c)
         else if length plain < 5 then Ret ([Ev_Drop], c)
         else if (c_typ c = Ct_Bot \<or> c_typ c = Ct_Hub) \<and> cmd = CMD_LINK_SEQ
         then out_bind (link_seq_recv e payload c) (\<lambda>c1. Ret ([], c1))
         else Ret ([Ev_Command cmd payload], c))"

text \<open>The loop, at most \<^verbatim>\<open>n\<close> frames (the hub takes 8 per call).\<close>

fun pump :: "env \<Rightarrow> aead \<Rightarrow> nat \<Rightarrow> hub_client \<Rightarrow> (link_event list \<times> hub_client) outcome" where
  "pump e ae 0 c = Ret ([], c)"
| "pump e ae (Suc n) c =
     out_bind (next_frame ae c) (\<lambda>(r, c1).
       case r of
         Fr_Wait \<Rightarrow> Ret ([], c1)
       | Fr_Drop \<Rightarrow> Ret ([Ev_Drop], c1)
       | Fr_Plain plain used \<Rightarrow>
           out_bind (dispatch_plain e plain c1) (\<lambda>(evs, c2).
             if Ev_Drop \<in> set evs then Ret (evs, c2)
             else out_bind (pump e ae n (step_past used c2)) (\<lambda>(evs', c3). Ret (evs @ evs', c3))))"

section \<open>Numbers on the wire\<close>

lemma be_bytes_Nil [simp]: "be_bytes n v = [] \<longleftrightarrow> n = 0"
  by (metis length_0_conv length_be_bytes)

lemma be_value_snoc: "be_value (cs @ [c]) = be_value cs * 256 + of_char c"
  by (induction cs) (simp_all add: algebra_simps)

lemma be_value_bytes: "be_value (be_bytes n v) = v mod 256 ^ n"
proof (induction n arbitrary: v)
  case (Suc n)
  have "v mod 256 ^ Suc n = v div 256 mod 256 ^ n * 256 + v mod 256"
    using mod_mult2_eq [of v 256 "256 ^ n"] by (simp add: algebra_simps)
  then show ?case by (simp add: be_value_snoc Suc)
qed simp

lemma be_bytes_inj: "be_bytes n v = be_bytes n v' \<Longrightarrow> v < 256 ^ n \<Longrightarrow> v' < 256 ^ n \<Longrightarrow> v = v'"
  by (metis be_value_bytes mod_less)

lemma link_aad_inj:
  assumes "link_aad d k = link_aad d' k'" "d < 256" "d' < 256" "k < 2 ^ 64" "k' < 2 ^ 64"
  shows "d = d' \<and> k = k'"
proof -
  have "char_of d = (char_of d' :: char)" "be_bytes 8 k = be_bytes 8 k'" using assms(1) by (simp_all add: link_aad_def)
  moreover from this(1) have "d mod 256 = d' mod 256" by (metis of_char_of)
  ultimately show ?thesis using assms be_bytes_inj [of 8 k k'] by simp
qed

section \<open>The cipher\<close>

text \<open>
  What the link relies on: GCM opens what it sealed under the same key, IV and AAD, its ciphertext
  is as long as the plaintext and its tag is 16 bytes.
\<close>

definition aead_ok :: "aead \<Rightarrow> bool" where
  "aead_ok ae \<longleftrightarrow>
     (\<forall>k iv aad pt ct tag. ae_seal ae k iv aad pt = Some (ct, tag) \<longrightarrow>
        length ct = length pt \<and> length tag = GCM_TAG_LEN \<and> ae_open ae k iv aad ct tag = Some pt)"

text \<open>A tag binds its AAD: no frame sealed under one AAD opens under another.\<close>

definition aead_binds :: "aead \<Rightarrow> bool" where
  "aead_binds ae \<longleftrightarrow>
     (\<forall>k iv aad aad' pt ct tag. length aad \<le> 13 \<longrightarrow> length aad' \<le> 13 \<longrightarrow> aad' \<noteq> aad \<longrightarrow>
        ae_seal ae k iv aad pt = Some (ct, tag) \<longrightarrow> ae_open ae k iv aad' ct tag = None)"

section \<open>One frame\<close>

definition frame_of :: "string \<Rightarrow> string \<Rightarrow> string \<Rightarrow> string" where
  "frame_of iv ct tag = be_bytes 4 (length (iv @ ct) + GCM_TAG_LEN) @ (iv @ ct) @ tag"

definition rx_aad :: "hub_client \<Rightarrow> string" where
  "rx_aad c = (if c_link_rx_seq c then link_aad (c_link_dir_rx c) (c_link_rx_ctr c) else [])"

text \<open>What the pump does with a whole frame at the front of the buffer.\<close>

lemma next_frame_whole:
  assumes u: "unread c = frame_of iv ct tag @ rest" and iv: "length iv = GCM_IV_LEN" and tag: "length tag = GCM_TAG_LEN"
    and cap: "4 + length (iv @ ct) + GCM_TAG_LEN \<le> c_recv_cap c" and small: "length ct < 2 ^ 31"
    and off: "c_recv_off c \<le> length (c_recv_buf c)"
  shows "next_frame ae c =
    (case ae_open ae (c_session_key c) iv (rx_aad c) ct tag of
       None \<Rightarrow> Ret (Fr_Drop, c)
     | Some plain \<Rightarrow>
         if c_link_rx_seq c \<and> c_link_rx_ctr c + 1 \<ge> 2 ^ 64 then Panic
         else Ret (if plain = [] then Fr_Drop else Fr_Plain plain (length (frame_of iv ct tag)),
                   if c_link_rx_seq c then c\<lparr>c_link_rx_ctr := c_link_rx_ctr c + 1\<rparr> else c))"
proof -
  let ?n = "length (iv @ ct) + GCM_TAG_LEN"
  have n: "?n < 256 ^ 4" using small iv by (simp add: GCM_IV_LEN_def GCM_TAG_LEN_def)
  have len: "length (frame_of iv ct tag) = 4 + ?n" using tag by (simp add: frame_of_def)
  have t4: "take 4 (unread c) = be_bytes 4 ?n" "drop 4 (unread c) = (iv @ ct) @ tag @ rest"
    using u by (simp_all add: frame_of_def)
  have pl: "be_value (take 4 (unread c)) = ?n" using t4(1) n be_value_bytes by simp
  have fr: "take ?n (drop 4 (unread c)) = (iv @ ct) @ tag" using t4(2) tag by simp
  have ul: "length (unread c) \<ge> 4 + ?n" using u len by simp
  have body: "take (?n - GCM_TAG_LEN) ((iv @ ct) @ tag) = iv @ ct" "drop (?n - GCM_TAG_LEN) ((iv @ ct) @ tag) = tag" by simp_all
  have dec: "aes_gcm_decrypt_aad ae (iv @ ct) aad key tag = ae_open ae key iv aad ct tag" for aad key
    using iv tag by (simp add: aes_gcm_decrypt_aad_def)
  have c1: "\<not> length (c_recv_buf c) < c_recv_off c" "\<not> length (unread c) < 4"
    "\<not> int ?n > int (c_recv_cap c) - 4" "\<not> length (unread c) < 4 + ?n" "?n > GCM_TAG_LEN"
    using off ul cap iv by (auto simp: GCM_IV_LEN_def)
  show ?thesis
    unfolding next_frame_def pl Let_def fr body dec rx_aad_def [symmetric] len
    using c1 by (simp cong: option.case_cong)
qed

section \<open>Both ends in step\<close>

text \<open>The receiver's view of the sender's sequence state.\<close>

definition in_sync :: "tx_state \<Rightarrow> hub_client \<Rightarrow> bool" where
  "in_sync t c \<longleftrightarrow>
     tx_key t = c_session_key c \<and> tx_dir t = c_link_dir_rx c \<and> tx_seq t = c_link_rx_seq c \<and>
     tx_ctr t = (if tx_seq t then c_link_rx_ctr c else 0)"

text \<open>What the peer's pump makes of a message, and the messages a link carries.\<close>

definition event_of :: "queued_msg \<Rightarrow> link_event list" where
  "event_of m =
     (if qm_cmd m = CMD_PING then [Ev_Ping]
      else if qm_cmd m = CMD_LINK_SEQ then []
      else [Ev_Command (qm_cmd m) (until_nul (qm_payload m))])"

definition msg_ok :: "nat \<Rightarrow> queued_msg \<Rightarrow> bool" where
  "msg_ok cap m \<longleftrightarrow>
     qm_cmd m < 256 \<and> 4 + GCM_IV_LEN + 5 + msg_len m + GCM_TAG_LEN \<le> cap \<and>
     (qm_cmd m = CMD_LINK_SEQ \<longrightarrow> qm_payload m = ''offer'' \<or> qm_payload m = ''go'')"

text \<open>A go is only ever sent after an offer.\<close>

fun offer_first :: "bool \<Rightarrow> queued_msg list \<Rightarrow> bool" where
  "offer_first off [] \<longleftrightarrow> True"
| "offer_first off (m # ms) \<longleftrightarrow>
     (is_go m \<longrightarrow> off) \<and> offer_first (off \<or> qm_cmd m = CMD_LINK_SEQ \<and> qm_payload m = ''offer'') ms"

text \<open>The messages of a run that were sealed (the others are dropped with an error).\<close>

fun sealed_msgs :: "aead \<Rightarrow> queued_msg list \<Rightarrow> tx_state \<times> string option list \<Rightarrow> queued_msg list" where
  "sealed_msgs ae [] st = []"
| "sealed_msgs ae (m # ms) st =
     (let (f, st1) = seal_step ae m st in (if f = [] then [] else [m]) @ sealed_msgs ae ms st1)"

text \<open>A receiver that can take the next frame: its buffer is sane and its queue can take an answer.\<close>

definition rx_ready :: "hub_client \<Rightarrow> bool" where
  "rx_ready c \<longleftrightarrow> c_recv_off c \<le> length (c_recv_buf c) \<and> queue_ok c \<and> c_typ c \<noteq> Ct_Admin"

lemma send_urgent_spec:
  assumes "queue_ok c"
  obtains b c' where "send_urgent e cmd p c = Ret (b, c')" "queue_ok c'" "same_link c c'"
proof (cases "queued_msg_new cmd Urgent p")
  case None
  then show thesis using assms by (intro that [of False c]) (simp_all add: send_urgent_def)
next
  case (Some m)
  then have m: "qm_lane m = Urgent" "qm_coalesce_key m = []" by (auto simp: queued_msg_new_def split: if_splits)
  have inv: "queue_inv c" "c_drop_unlogged c < 2147483647" using assms by (simp_all add: queue_ok_def)
  obtain c' where c': "enqueue e m c = Ret (\<not> enqueue_refuses m c, c')" "queue_inv c'" "same_link c c'"
    using enqueue_spec [OF inv refl] by metis
  have "enqueue e m c = Ret (False, c) \<or> enqueue e m c = Ret (True, push_back e (lane_index Urgent) m c)"
    using m by (simp add: enqueue_def Let_def)
  then have "c' = c \<or> c' = push_back e (lane_index Urgent) m c" using c'(1) by auto
  then have "c_drop_unlogged c' = c_drop_unlogged c" by (auto simp: push_back_def Let_def)
  then show thesis using Some c' inv by (intro that [of "\<not> enqueue_refuses m c" c']) (simp_all add: send_urgent_def queue_ok_def)
qed

lemma queue_ok_cong:
  "c_out_lanes c' = c_out_lanes c \<Longrightarrow> c_out_total_bytes c' = c_out_total_bytes c \<Longrightarrow> c_drop_unlogged c' = c_drop_unlogged c \<Longrightarrow>
   queue_ok c' = queue_ok c"
  by (simp add: queue_ok_def queue_inv_def)

text \<open>
  The sequencing step of the receiver, after the counter moved on: its offered flag, and the
  sequencing turned on by a go.
\<close>

lemma link_seq_recv_spec:
  assumes "queue_ok c"
  obtains c' where "link_seq_recv e what c = Ret c'" "queue_ok c'"
    "c_session_key c' = c_session_key c" "c_link_dir_rx c' = c_link_dir_rx c" "c_typ c' = c_typ c"
    "c_recv_buf c' = c_recv_buf c" "c_recv_off c' = c_recv_off c" "c_recv_cap c' = c_recv_cap c"
    "c_link_offered c' = (c_link_offered c \<or> what = ''offer'')"
    "c_link_rx_seq c' = (c_link_rx_seq c \<or> what = ''go'' \<and> c_link_offered c)"
    "c_link_rx_ctr c' = (if what = ''go'' \<and> c_link_offered c \<and> \<not> c_link_rx_seq c then 0 else c_link_rx_ctr c)"
proof (cases "what = ''offer'' \<and> \<not> c_link_offered c \<and> \<not> c_link_go_queued c")
  case True
  let ?c = "c\<lparr>c_link_offered := True, c_link_go_queued := True\<rparr>"
  have "queue_ok ?c" using assms queue_ok_cong [of ?c c] by simp
  then obtain b c' where c': "send_urgent e CMD_LINK_SEQ ''go'' ?c = Ret (b, c')" "queue_ok c'" "same_link ?c c'"
    using send_urgent_spec by blast
  then have "link_seq_recv e what c = Ret c'" using True by (simp add: link_seq_recv_def)
  with c' show thesis using True by (intro that [of c']) (auto simp: same_link_def)
next
  case False
  consider (offer) "what = ''offer''" "\<not> c_link_offered c" "c_link_go_queued c"
    | (go) "what = ''go''" "c_link_offered c" "\<not> c_link_rx_seq c"
    | (other) "what = ''offer'' \<longrightarrow> c_link_offered c" "what = ''go'' \<longrightarrow> \<not> c_link_offered c \<or> c_link_rx_seq c"
    using False by blast
  then show thesis
  proof cases
    case offer
    let ?c = "c\<lparr>c_link_offered := True\<rparr>"
    have "queue_ok ?c" using assms queue_ok_cong [of ?c c] by simp
    then show thesis using offer by (intro that [of ?c]) (simp_all add: link_seq_recv_def)
  next
    case go
    let ?c = "c\<lparr>c_link_rx_seq := True, c_link_rx_ctr := 0\<rparr>"
    have "queue_ok ?c" using assms queue_ok_cong [of ?c c] by simp
    then show thesis using go by (intro that [of ?c]) (simp_all add: link_seq_recv_def)
  next
    case other
    then have "link_seq_recv e what c = Ret c" by (auto simp: link_seq_recv_def)
    then show thesis using other assms by (intro that [of c]) auto
  qed
qed

lemma seal_step_frame:
  assumes "seal_step ae m (t, ivs) = (f, t', ivs')" "f \<noteq> []"
  obtains iv ct tag where "f = frame_of iv ct tag" "ae_seal ae (tx_key t) iv (tx_aad t) (tx_plain m t) = Some (ct, tag)"
    "t' = tx_advance m t" "Some iv \<in> set ivs" "tx_fits m t" "set ivs' \<subseteq> set ivs"
proof -
  have "\<exists>iv r ct tag. ivs = Some iv # r \<and> tx_fits m t \<and>
      ae_seal ae (tx_key t) iv (tx_aad t) (tx_plain m t) = Some (ct, tag) \<and> f = frame_of iv ct tag \<and> t' = tx_advance m t \<and> ivs' = r"
    using assms by (auto simp: seal_step_def frame_of_def split: if_splits list.splits option.splits)
  then show thesis using that by (metis list.set_intros(1) set_subset_Cons)
qed

lemma seal_step_fail:
  "seal_step ae m (t, ivs) = (f, t', ivs') \<Longrightarrow> (f = [] \<longrightarrow> t' = t) \<and> set ivs' \<subseteq> set ivs"
  by (auto simp: seal_step_def split: if_splits list.splits option.splits)

lemma frame_plain_parts:
  assumes "cmd < 256"
  shows "of_char (hd (frame_plain cmd p no)) = cmd" "drop 5 (frame_plain cmd p no) = p"
    "length (frame_plain cmd p no) = 5 + length p" "frame_plain cmd p no \<noteq> []"
  using assms by (auto simp: frame_plain_def)

lemma dispatch_spec:
  assumes "queue_ok c" "c_typ c \<noteq> Ct_Admin" "msg_ok cap m"
  obtains c' where "dispatch_plain e (frame_plain (qm_cmd m) (qm_payload m) no) c = Ret (event_of m, c')" "queue_ok c'"
    "c_session_key c' = c_session_key c" "c_link_dir_rx c' = c_link_dir_rx c" "c_typ c' = c_typ c"
    "c_recv_buf c' = c_recv_buf c" "c_recv_off c' = c_recv_off c" "c_recv_cap c' = c_recv_cap c"
    "c_link_offered c' = (c_link_offered c \<or> qm_cmd m = CMD_LINK_SEQ \<and> qm_payload m = ''offer'')"
    "c_link_rx_seq c' = (c_link_rx_seq c \<or> is_go m \<and> c_link_offered c)"
    "c_link_rx_ctr c' = (if is_go m \<and> c_link_offered c \<and> \<not> c_link_rx_seq c then 0 else c_link_rx_ctr c)"
proof (cases "qm_cmd m = CMD_LINK_SEQ")
  case False
  then show thesis using assms(1,3) frame_plain_parts [of "qm_cmd m" "qm_payload m" no]
    by (intro that [of c]) (simp_all add: dispatch_plain_def event_of_def is_go_def msg_ok_def Let_def)
next
  case True
  have n: "until_nul (qm_payload m) = qm_payload m" using assms(3) True by (auto simp: msg_ok_def until_nul_def)
  have t: "c_typ c = Ct_Bot \<or> c_typ c = Ct_Hub" using assms(2) by (cases "c_typ c") auto
  obtain c' where c': "link_seq_recv e (qm_payload m) c = Ret c'" "queue_ok c'"
    "c_session_key c' = c_session_key c" "c_link_dir_rx c' = c_link_dir_rx c" "c_typ c' = c_typ c"
    "c_recv_buf c' = c_recv_buf c" "c_recv_off c' = c_recv_off c" "c_recv_cap c' = c_recv_cap c"
    "c_link_offered c' = (c_link_offered c \<or> qm_payload m = ''offer'')"
    "c_link_rx_seq c' = (c_link_rx_seq c \<or> qm_payload m = ''go'' \<and> c_link_offered c)"
    "c_link_rx_ctr c' = (if qm_payload m = ''go'' \<and> c_link_offered c \<and> \<not> c_link_rx_seq c then 0 else c_link_rx_ctr c)"
    by (rule link_seq_recv_spec [OF assms(1)])
  have d: "dispatch_plain e (frame_plain (qm_cmd m) (qm_payload m) no) c = Ret (event_of m, c')"
    using True t n c'(1) assms(3) frame_plain_parts [of "qm_cmd m" "qm_payload m" no]
    by (simp add: dispatch_plain_def event_of_def msg_ok_def CMD_PING_def CMD_LINK_SEQ_def Let_def)
  have go: "is_go m \<longleftrightarrow> qm_payload m = ''go''" using True by (simp add: is_go_def)
  have "c_link_offered c' = (c_link_offered c \<or> qm_cmd m = CMD_LINK_SEQ \<and> qm_payload m = ''offer'')" using c'(9) True by simp
  with c'(10,11) show thesis unfolding go [symmetric] by (intro that [OF d c'(2-8)])
qed

lemma step_past_unread:
  assumes "unread c = f @ rest" "c_recv_off c \<le> length (c_recv_buf c)"
  shows "unread (step_past (length f) c) = rest" "c_recv_off (step_past (length f) c) \<le> length (c_recv_buf (step_past (length f) c))"
proof -
  have "drop (c_recv_off c + length f) (c_recv_buf c) = rest"
    using arg_cong [OF assms(1), of "drop (length f)"] by (simp add: add.commute)
  then show "unread (step_past (length f) c) = rest"
      "c_recv_off (step_past (length f) c) \<le> length (c_recv_buf (step_past (length f) c))"
    by (auto simp: step_past_def Let_def)
qed

lemma step_past_same [simp]:
  "c_session_key (step_past n c) = c_session_key c" "c_link_dir_rx (step_past n c) = c_link_dir_rx c"
  "c_link_rx_seq (step_past n c) = c_link_rx_seq c" "c_link_rx_ctr (step_past n c) = c_link_rx_ctr c"
  "c_typ (step_past n c) = c_typ c" "c_recv_cap (step_past n c) = c_recv_cap c"
  "c_link_offered (step_past n c) = c_link_offered c" "queue_ok (step_past n c) = queue_ok c"
  by (simp_all add: step_past_def queue_ok_def queue_inv_def Let_def)

text \<open>One sealed message, received.\<close>

lemma receive_step:
  assumes ae: "aead_ok ae" and st: "seal_step ae m (t, ivs) = (f, t', ivs')" "f \<noteq> []"
    and iv: "\<forall>iv. Some iv \<in> set ivs \<longrightarrow> length iv = GCM_IV_LEN"
    and c: "in_sync t c" "rx_ready c" "msg_ok (c_recv_cap c) m" "is_go m \<longrightarrow> c_link_offered c"
    and u: "unread c = f @ rest" and ctr: "tx_ctr t + 1 < 2 ^ 64"
  obtains c' where "pump e ae (Suc n) c = out_bind (pump e ae n c') (\<lambda>(evs, c''). Ret (event_of m @ evs, c''))"
    "in_sync t' c'" "rx_ready c'" "unread c' = rest" "c_recv_cap c' = c_recv_cap c"
    "c_link_offered c' = (c_link_offered c \<or> qm_cmd m = CMD_LINK_SEQ \<and> qm_payload m = ''offer'')"
proof -
  obtain iv ct tag where f: "f = frame_of iv ct tag" "ae_seal ae (tx_key t) iv (tx_aad t) (tx_plain m t) = Some (ct, tag)"
      "t' = tx_advance m t" "Some iv \<in> set ivs" "tx_fits m t"
    using seal_step_frame [OF st] by metis
  have aad: "rx_aad c = tx_aad t" "c_session_key c = tx_key t" using c(1) by (auto simp: in_sync_def rx_aad_def tx_aad_def)
  have o: "length ct = length (tx_plain m t)" "length tag = GCM_TAG_LEN" "ae_open ae (tx_key t) iv (tx_aad t) ct tag = Some (tx_plain m t)"
    using ae f(2) unfolding aead_ok_def by blast+
  have cmd: "qm_cmd m < 256" using c(3) by (simp add: msg_ok_def)
  have pl: "tx_plain m t \<noteq> []" "length (tx_plain m t) = 5 + msg_len m"
    using frame_plain_parts [OF cmd] by (auto simp: tx_plain_def)
  have "MAX_BULK_PAYLOAD + 5 < 2 ^ 31" by (simp add: store_caps)
  then have small: "length ct < 2 ^ 31" using f(5) o(1) pl(2) by (simp add: tx_fits_def)
  have iv12: "length iv = GCM_IV_LEN" using iv f(4) by blast
  have cap: "4 + length (iv @ ct) + GCM_TAG_LEN \<le> c_recv_cap c" using c(3) iv12 o(1) pl(2) by (simp add: msg_ok_def)
  have off: "c_recv_off c \<le> length (c_recv_buf c)" and qok: "queue_ok c" and ty: "c_typ c \<noteq> Ct_Admin"
    using c(2) by (simp_all add: rx_ready_def)
  have rxc: "c_link_rx_seq c \<Longrightarrow> c_link_rx_ctr c = tx_ctr t" using c(1) by (simp add: in_sync_def)
  let ?c1 = "if c_link_rx_seq c then c\<lparr>c_link_rx_ctr := c_link_rx_ctr c + 1\<rparr> else c"
  have nf: "next_frame ae c = Ret (Fr_Plain (tx_plain m t) (length f), ?c1)"
    using next_frame_whole [OF u [unfolded f(1)] iv12 o(2) cap small off, of ae] aad o(3) pl(1) rxc ctr f(1) by simp
  have q1: "queue_ok ?c1" "c_typ ?c1 \<noteq> Ct_Admin" using qok ty by (simp_all add: queue_ok_def queue_inv_def)
  obtain c2 where c2: "dispatch_plain e (tx_plain m t) ?c1 = Ret (event_of m, c2)" "queue_ok c2"
    "c_session_key c2 = c_session_key ?c1" "c_link_dir_rx c2 = c_link_dir_rx ?c1" "c_typ c2 = c_typ ?c1"
    "c_recv_buf c2 = c_recv_buf ?c1" "c_recv_off c2 = c_recv_off ?c1" "c_recv_cap c2 = c_recv_cap ?c1"
    "c_link_offered c2 = (c_link_offered ?c1 \<or> qm_cmd m = CMD_LINK_SEQ \<and> qm_payload m = ''offer'')"
    "c_link_rx_seq c2 = (c_link_rx_seq ?c1 \<or> is_go m \<and> c_link_offered ?c1)"
    "c_link_rx_ctr c2 = (if is_go m \<and> c_link_offered ?c1 \<and> \<not> c_link_rx_seq ?c1 then 0 else c_link_rx_ctr ?c1)"
    unfolding tx_plain_def by (rule dispatch_spec [OF q1 c(3)])
  have u2: "unread c2 = f @ rest" "c_recv_off c2 \<le> length (c_recv_buf c2)" using c2(6,7) u off by simp_all
  have "Ev_Drop \<notin> set (event_of m)" by (simp add: event_of_def)
  then have "pump e ae (Suc n) c = out_bind (pump e ae n (step_past (length f) c2)) (\<lambda>(evs, c''). Ret (event_of m @ evs, c''))"
    using nf c2(1) by simp
  moreover have "in_sync t' (step_past (length f) c2)"
    using c(1,4) c2(3,4,10,11) f(3) by (auto simp: in_sync_def tx_advance_def split: if_splits)
  moreover have "rx_ready (step_past (length f) c2)"
    using step_past_unread(2) [OF u2] c2(2,5) ty by (simp add: rx_ready_def)
  moreover have "c_recv_cap (step_past (length f) c2) = c_recv_cap c" using c2(8) by simp
  moreover have "c_link_offered (step_past (length f) c2) = (c_link_offered c \<or> qm_cmd m = CMD_LINK_SEQ \<and> qm_payload m = ''offer'')"
    using c2(9) by simp
  ultimately show thesis
    using that step_past_unread(1) [OF u2] by blast
qed

lemma pump_empty: "rx_ready c \<Longrightarrow> unread c = [] \<Longrightarrow> pump e ae n c = Ret ([], c)"
  by (cases n) (auto simp: next_frame_def rx_ready_def)

text \<open>A whole run of the sender, received.\<close>

lemma receive_run:
  assumes "aead_ok ae" "seal_run ae ms (t, ivs) = (bs, t', ivs')" "\<forall>iv. Some iv \<in> set ivs \<longrightarrow> length iv = GCM_IV_LEN"
    and "in_sync t c" "rx_ready c" "\<forall>m \<in> set ms. msg_ok (c_recv_cap c) m"
    and "offer_first (c_link_offered c) (sealed_msgs ae ms (t, ivs))" "unread c = bs" "tx_ctr t + length ms < 2 ^ 64"
    and "length (sealed_msgs ae ms (t, ivs)) \<le> n"
  shows "\<exists>c'. pump e ae n c = Ret (concat (map event_of (sealed_msgs ae ms (t, ivs))), c') \<and> in_sync t' c' \<and> rx_ready c' \<and> unread c' = []"
  using assms
proof (induction ms arbitrary: t ivs bs c n)
  case Nil
  then show ?case using pump_empty [of c e ae n] by auto
next
  case (Cons m ms)
  obtain f t1 ivs1 where st: "seal_step ae m (t, ivs) = (f, t1, ivs1)" by (cases "seal_step ae m (t, ivs)")
  obtain bs1 where run: "seal_run ae ms (t1, ivs1) = (bs1, t', ivs')" "bs = f @ bs1"
    using Cons.prems(2) st by (auto split: prod.splits)
  have iv1: "\<forall>iv. Some iv \<in> set ivs1 \<longrightarrow> length iv = GCM_IV_LEN" using seal_step_fail [OF st] Cons.prems(3) by blast
  have ctr: "tx_ctr t1 + length ms < 2 ^ 64" using tx_ctr_step [OF st] Cons.prems(9) by simp
  show ?case
  proof (cases "f = []")
    case True
    then have "t1 = t" "sealed_msgs ae (m # ms) (t, ivs) = sealed_msgs ae ms (t1, ivs1)" using seal_step_fail [OF st] st by auto
    then show ?thesis
      using Cons.IH [OF Cons.prems(1) run(1) iv1, of c n] Cons.prems run(2) True ctr by simp
  next
    case False
    then have sm: "sealed_msgs ae (m # ms) (t, ivs) = m # sealed_msgs ae ms (t1, ivs1)" using st by simp
    then obtain k where n: "n = Suc k" "length (sealed_msgs ae ms (t1, ivs1)) \<le> k" using Cons.prems(10) by (cases n) auto
    have pre: "msg_ok (c_recv_cap c) m" "is_go m \<longrightarrow> c_link_offered c" "unread c = f @ bs1" "tx_ctr t + 1 < 2 ^ 64"
      using Cons.prems(6-9) sm run(2) by auto
    obtain c1 where c1: "pump e ae (Suc k) c = out_bind (pump e ae k c1) (\<lambda>(evs, c''). Ret (event_of m @ evs, c''))"
        "in_sync t1 c1" "rx_ready c1" "unread c1 = bs1" "c_recv_cap c1 = c_recv_cap c"
        "c_link_offered c1 = (c_link_offered c \<or> qm_cmd m = CMD_LINK_SEQ \<and> qm_payload m = ''offer'')"
      by (rule receive_step [OF Cons.prems(1) st False Cons.prems(3-5) pre])
    have "\<forall>x \<in> set ms. msg_ok (c_recv_cap c1) x" "offer_first (c_link_offered c1) (sealed_msgs ae ms (t1, ivs1))"
      using Cons.prems(6,7) sm c1(5,6) by auto
    then obtain c' where "pump e ae k c1 = Ret (concat (map event_of (sealed_msgs ae ms (t1, ivs1))), c')"
        "in_sync t' c'" "rx_ready c'" "unread c' = []"
      using Cons.IH [OF Cons.prems(1) run(1) iv1 c1(2,3) _ _ c1(4) ctr n(2)] by blast
    then show ?thesis using c1(1) sm n(1) by simp
  qed
qed

text \<open>
  Property C1.  A link delivers exactly what is drained into it.  Take a connection with a sane
  queue and nothing in flight, drain it against any answers of the kernel that are not hard errors,
  and let the peer, in step with it, receive the bytes taken and those still in flight: the messages
  that left the queue (from the front, urgent before delta before bulk) and could be sealed come out
  of the peer's pump unchanged, in order and once each, whether or not the sequencing was switched
  on in between, and the two ends are still in step.
\<close>

theorem link_delivers:
  assumes "aead_ok ae" and s: "queue_inv cs" "c_sock cs" "0 \<le> c_fd cs" "c_console cs = None"
      "c_link_tx_ctr cs + length (concat (queued cs)) < 2 ^ 64" "in_flight cs = []" "lw_wire w = []"
    and "no_error (lw_sends w)" "\<forall>iv. Some iv \<in> set (lw_ivs w) \<longrightarrow> length iv = GCM_IV_LEN"
    and r: "in_sync (tx_of cs) cr" "rx_ready cr" "unread cr = []" "\<forall>m \<in> set (concat (queued cs)). msg_ok (c_recv_cap cr) m"
  shows "\<exists>ms cs' w'. drain_writable e ae cs w = Ret (cs', w') \<and> concat (queued cs) = ms @ concat (queued cs') \<and>
    (offer_first (c_link_offered cr) (sealed_msgs ae ms (tx_of cs, lw_ivs w)) \<longrightarrow>
     (\<exists>cr'. pump e ae (length ms) (cr\<lparr>c_recv_buf := c_recv_buf cr @ lw_wire w' @ in_flight cs'\<rparr>) =
         Ret (concat (map event_of (sealed_msgs ae ms (tx_of cs, lw_ivs w))), cr') \<and>
       in_sync (tx_of cs') cr' \<and> rx_ready cr' \<and> unread cr' = []))"
proof -
  obtain ms bs cs' w' where d: "drain_writable e ae cs w = Ret (cs', w')" "stream_step ae cs w ms bs cs' w'"
    using drain_writable_spec [OF s(1-5)] by blast
  then have st: "concat (queued cs) = ms @ concat (queued cs')" "seal_run ae ms (tx_of cs, lw_ivs w) = (bs, tx_of cs', lw_ivs w')"
      "lw_wire w' @ in_flight cs' = bs"
    using s(6,7) assms(9) by (auto simp: stream_step_def)
  let ?cr = "cr\<lparr>c_recv_buf := c_recv_buf cr @ lw_wire w' @ in_flight cs'\<rparr>"
  have u: "unread ?cr = bs" using r(2,3) st(3) by (simp add: rx_ready_def)
  have ok: "in_sync (tx_of cs) ?cr" "rx_ready ?cr" "\<forall>m \<in> set ms. msg_ok (c_recv_cap ?cr) m"
    using r st(1) by (auto simp: in_sync_def rx_ready_def queue_ok_def queue_inv_def)
  have ctr: "tx_ctr (tx_of cs) + length ms < 2 ^ 64" using s(5) st(1) by (simp add: tx_of_def)
  have len: "length (sealed_msgs ae xs stt) \<le> length xs" for xs stt
    by (induction xs arbitrary: stt) (auto simp: Let_def split: prod.splits intro: le_SucI)
  have off: "c_link_offered ?cr = c_link_offered cr" by simp
  note run = receive_run [OF assms(1) st(2) assms(10) ok _ u ctr len, unfolded off]
  show ?thesis
    by (rule exI [of _ ms], rule exI [of _ cs'], rule exI [of _ w'], intro conjI) (rule d(1), rule st(1), rule impI, rule run)
qed

text \<open>The example: an urgent and a bulk message, sent in three pieces.\<close>

definition example_sender :: hub_client where
  "example_sender = example_client\<lparr>c_typ := Ct_Hub,
     c_out_lanes := [\<lparr>ql_msgs = [example_msg Urgent ''hi''], ql_bytes = 2\<rparr>, \<lparr>ql_msgs = [], ql_bytes = 0\<rparr>,
                     \<lparr>ql_msgs = [example_msg Bulk ''sync''], ql_bytes = 4\<rparr>],
     c_out_total_bytes := 6\<rparr>"

definition example_world :: link_world where
  "example_world = \<lparr>lw_sends = [Sent 3, Sent 1000, Sent 1000], lw_ivs = [Some ''abcdefghijkl'', Some ''mnopqrstuvwx''], lw_wire = []\<rparr>"

lemma toy_aead_ok: "aead_ok toy_aead"
  by (auto simp: aead_ok_def toy_aead_def toy_tag_def GCM_TAG_LEN_def)

lemma toy_tag_inj:
  assumes "toy_tag a = toy_tag b" "length a \<le> 13" "length b \<le> 13"
  shows "a = b"
proof -
  have "of_char (char_of (length a) :: char) = (of_char (char_of (length b) :: char) :: nat)"
    using assms(1) by (simp add: toy_tag_def)
  then have l: "length a = length b" using assms(2,3) by simp
  have t: "take 15 (a @ replicate 15 (CHR 0x00)) = take 15 (b @ replicate 15 (CHR 0x00))" using assms(1) by (simp add: toy_tag_def)
  show ?thesis using arg_cong [OF t, of "take (length a)"] l assms(2,3) by (simp add: min_def)
qed

lemma toy_aead_binds: "aead_binds toy_aead"
  using toy_tag_inj by (auto simp: aead_binds_def toy_aead_def)

lemma example_sender_inv: "queue_inv example_sender"
  by (auto simp: example_sender_def queue_inv_def lane_ok_def keys_of_def LANE_COUNT_def MAX_QUEUE_PER_LANE_def
      example_msg_def lane_index_def less_Suc_eq numeral_3_eq_3)

theorem link_delivers_witness:
  "\<exists>ms cs' w'. drain_writable (env_at 1) toy_aead example_sender example_world = Ret (cs', w') \<and>
     concat (queued example_sender) = ms @ concat (queued cs')"
proof -
  have f: "c_sock example_sender" "0 \<le> c_fd example_sender" "c_console example_sender = None"
      "c_link_tx_ctr example_sender + length (concat (queued example_sender)) < 2 ^ 64" "in_flight example_sender = []"
      "lw_wire example_world = []" "no_error (lw_sends example_world)"
      "\<forall>iv. Some iv \<in> set (lw_ivs example_world) \<longrightarrow> length iv = GCM_IV_LEN"
    by (auto simp: example_sender_def example_client_def client_new_def example_world_def GCM_IV_LEN_def)
  have g: "in_sync (tx_of example_sender) example_client" "rx_ready example_client" "unread example_client = []"
      "\<forall>m \<in> set (concat (queued example_sender)). msg_ok (c_recv_cap example_client) m"
    using example_reach(2) by (auto simp: in_sync_def tx_of_def rx_ready_def queue_ok_def msg_ok_def example_sender_def example_client_def
        client_new_def example_msg_def GCM_IV_LEN_def GCM_TAG_LEN_def CMD_LINK_SEQ_def)
  show ?thesis using link_delivers [OF toy_aead_ok example_sender_inv f g, of "env_at 1"] by blast
qed

text \<open>
  Property C3.  On a sequenced link only the next frame counts.  A whole frame sealed under this
  link's key but for another counter (a replay, a reordering, a loss before it), for the other
  direction (a reflection), or before the sequencing was on, is not opened: the pump drops the link
  and hands out nothing.
\<close>

theorem sequenced_link_refuses:
  assumes "aead_ok ae" "aead_binds ae" and c: "rx_ready c" "c_link_rx_seq c" "c_link_dir_rx c < 256" "c_link_rx_ctr c < 2 ^ 64"
    and sealed: "ae_seal ae (c_session_key c) iv aad pt = Some (ct, tag)" "length iv = GCM_IV_LEN"
    and other: "aad = [] \<or> (\<exists>d k. aad = link_aad d k \<and> d < 256 \<and> k < 2 ^ 64 \<and> (d, k) \<noteq> (c_link_dir_rx c, c_link_rx_ctr c))"
    and u: "unread c = frame_of iv ct tag @ rest" "length (frame_of iv ct tag) \<le> c_recv_cap c" "length pt < 2 ^ 31"
  shows "pump e ae (Suc n) c = Ret ([Ev_Drop], c)"
proof -
  let ?aad = "link_aad (c_link_dir_rx c) (c_link_rx_ctr c)"
  have "aad \<noteq> ?aad" using other link_aad_inj [OF _ _ c(3) _ c(4)] by (auto simp: link_aad_def)
  moreover have l: "length (link_aad d k) = 13" for d k by (simp add: link_aad_def)
  then have "length aad \<le> 13" using other by auto
  ultimately have none: "ae_open ae (c_session_key c) iv ?aad ct tag = None"
    using assms(2) sealed(1) l unfolding aead_binds_def by (metis order_refl)
  have len: "length ct = length pt" "length tag = GCM_TAG_LEN" using assms(1) sealed(1) unfolding aead_ok_def by blast+
  have "next_frame ae c = Ret (Fr_Drop, c)"
    using next_frame_whole [OF u(1) sealed(2) len(2), of ae] u(2,3) len c none
    by (simp add: frame_of_def rx_aad_def rx_ready_def)
  then show ?thesis by simp
qed

text \<open>The first frame, received again after the counter moved on.\<close>

definition example_replay :: hub_client where
  "example_replay = example_client\<lparr>c_link_rx_seq := True, c_link_dir_rx := 71, c_link_rx_ctr := 1,
     c_recv_buf := frame_of ''abcdefghijkl'' (frame_plain 6 ''hi'' False) (toy_tag (link_aad 71 0))\<rparr>"

theorem sequenced_link_refuses_witness:
  "pump (env_at 1) toy_aead 1 example_replay = Ret ([Ev_Drop], example_replay)"
proof -
  have c: "rx_ready example_replay" "c_link_rx_seq example_replay" "c_link_dir_rx example_replay < 256" "c_link_rx_ctr example_replay < 2 ^ 64"
    using example_reach(2) queue_inv_cong [of example_replay example_client]
    by (simp_all add: rx_ready_def queue_ok_def example_replay_def, simp_all add: example_client_def client_new_def)
  have s: "ae_seal toy_aead (c_session_key example_replay) ''abcdefghijkl'' (link_aad 71 0) (frame_plain 6 ''hi'' False) =
      Some (frame_plain 6 ''hi'' False, toy_tag (link_aad 71 0))" "length ''abcdefghijkl'' = GCM_IV_LEN"
    by (simp_all add: toy_aead_def GCM_IV_LEN_def)
  have o: "link_aad 71 0 = [] \<or> (\<exists>d k. link_aad 71 0 = link_aad d k \<and> d < 256 \<and> k < 2 ^ 64 \<and>
      (d, k) \<noteq> (c_link_dir_rx example_replay, c_link_rx_ctr example_replay))"
    by (intro disjI2 exI [of _ 71] exI [of _ 0]) (simp add: example_replay_def)
  have u: "unread example_replay = frame_of ''abcdefghijkl'' (frame_plain 6 ''hi'' False) (toy_tag (link_aad 71 0)) @ []"
      "length (frame_of ''abcdefghijkl'' (frame_plain 6 ''hi'' False) (toy_tag (link_aad 71 0))) \<le> c_recv_cap example_replay"
      "length (frame_plain 6 ''hi'' False) < 2 ^ 31"
    by (simp_all add: example_replay_def example_client_def client_new_def frame_of_def frame_plain_def toy_tag_def)
  show ?thesis
    using sequenced_link_refuses [OF toy_aead_ok toy_aead_binds c s o u, of "env_at 1" 0] by simp
qed

end
