(* ===== verification/Records.thy ===== *)
theory Records
  imports Store_Index Access
begin

text \<open>
  The C|, D|, B| and K| records of \<^verbatim>\<open>src/src/storage.rs\<close>: the field validators, the single
  ingest point \<^verbatim>\<open>put_record\<close> with its ceilings, the channel cascade, the learned channel state
  and the orphan sweep.  Properties: every operation keeps the index exact, every stored record
  valid and every class within its ceiling, and the stored channel settings are last-writer-wins
  registers.
\<close>

section \<open>Validators\<close>

definition REC_MAX_FIELDS :: nat where "REC_MAX_FIELDS = 8"

definition rec_split :: "string \<Rightarrow> nat \<Rightarrow> nat \<Rightarrow> string list option" where
  "rec_split value want cap =
     (if length value \<ge> cap \<or> want > REC_MAX_FIELDS then None
      else let f = split_on (CHR ''|'') value in if length f = want then Some f else None)"

definition rec_chan_ok :: "string \<Rightarrow> bool \<Rightarrow> bool" where
  "rec_chan_ok s star_ok \<longleftrightarrow>
     (star_ok \<and> s = ''*'') \<or>
     (\<not> (length s < 2 \<or> length s \<ge> MAX_CHAN \<or> (s ! 0 \<noteq> CHR ''#'' \<and> s ! 0 \<noteq> CHR ''&'')) \<and>
      list_all (\<lambda>c. byte c > 0x20 \<and> c \<noteq> CHR '','' \<and> byte c \<noteq> 0x7f \<and> c \<noteq> CHR ''|'') s)"

definition rec_text_ok :: "string \<Rightarrow> nat \<Rightarrow> bool" where
  "rec_text_ok s mx \<longleftrightarrow> length s \<le> mx \<and> list_all (\<lambda>c. byte c \<ge> 0x20 \<and> byte c \<noteq> 0x7f) s"

definition rec_mask_ok :: "string \<Rightarrow> bool" where
  "rec_mask_ok s \<longleftrightarrow>
     s \<noteq> [] \<and> length s \<le> BAN_MASK_MAX \<and>
     list_all (\<lambda>c. byte c > 0x20 \<and> byte c < 0x7f \<and> c \<noteq> CHR '','' \<and> c \<noteq> CHR ''|'') s"

definition rec_modes_ok :: "string \<Rightarrow> bool" where
  "rec_modes_ok s \<longleftrightarrow>
     length s \<le> C_MODES_MAX \<and>
     list_all (\<lambda>c. is_alnum c \<or> c = CHR ''+'' \<or> c = CHR ''-'' \<or> c = CHR '' '') s"

function settings_tokens :: "string \<Rightarrow> string list" where
  "settings_tokens s =
     (if s = [] then []
      else case split_once (CHR '','') s of
             None \<Rightarrow> [s]
           | Some (t, r) \<Rightarrow> t # settings_tokens r)"
  by pat_completeness auto
termination
  by (relation "measure length") (auto simp: split_once_Some)

declare settings_tokens.simps [simp del]

definition rec_settings_ok :: "string \<Rightarrow> nat \<Rightarrow> bool" where
  "rec_settings_ok s mx =
     (if length s > mx \<or> \<not> list_all (\<lambda>c. 0x20 \<le> byte c \<and> byte c < 0x7f \<and> c \<noteq> CHR ''|'') s then False
      else list_all (\<lambda>t. case position (\<lambda>c. c = CHR ''='') t of None \<Rightarrow> False | Some eq \<Rightarrow> eq > 0) (settings_tokens s))"

definition rec_num_ok :: "string \<Rightarrow> bool" where
  "rec_num_ok s \<longleftrightarrow> s \<noteq> [] \<and> length s \<le> 11 \<and> list_all is_digit s"

definition rec_op_ok :: "string \<Rightarrow> bool" where
  "rec_op_ok s \<longleftrightarrow> s = ''add'' \<or> s = ''del''"

text \<open>The offset of the \<^verbatim>\<open>n\<close>-th bar (from 1).\<close>

fun nth_bar :: "nat \<Rightarrow> nat \<Rightarrow> string \<Rightarrow> nat option" where
  "nth_bar n i [] = None"
| "nth_bar n i (c # cs) =
     (if c = CHR ''|'' then (if n \<le> 1 then Some i else nth_bar (n - 1) (i + 1) cs) else nth_bar n (i + 1) cs)"

definition ban_valid :: "string \<Rightarrow> bool" where
  "ban_valid value =
     (if length value \<ge> 1100 then False
      else case rsplit_once (CHR ''|'') value of
        None \<Rightarrow> False
      | Some (before, op) \<Rightarrow>
          let last = length before in
          (case nth_bar 5 0 value of
             None \<Rightarrow> False
           | Some sixth \<Rightarrow>
               if last \<le> sixth \<or> \<not> rec_op_ok op then False
               else case rec_split (take sixth value) 5 1100 of
                 None \<Rightarrow> False
               | Some f \<Rightarrow>
                   rec_chan_ok (f ! 0) True \<and> rec_mask_ok (f ! 1) \<and> rec_num_ok (f ! 2) \<and>
                   list_all (\<lambda>c. c = CHR ''s'') (f ! 3) \<and> length (f ! 3) \<le> 4 \<and>
                   length (f ! 4) < BAN_SETTER_MAX \<and>
                   list_all (\<lambda>c. is_alnum c \<or> c = CHR ''.'' \<or> c = CHR ''_'' \<or> c = CHR ''-'') (f ! 4) \<and>
                   (let reason = drop (sixth + 1) (take last value)
                    in length reason \<le> BAN_REASON_MAX \<and> rec_text_ok reason BAN_REASON_MAX)))"

definition record_valid :: "string \<Rightarrow> string \<Rightarrow> bool" where
  "record_valid key value =
     (if key = ''C'' then
        (case rec_split value 4 1100 of
           None \<Rightarrow> False
         | Some f \<Rightarrow> rec_chan_ok (f ! 0) False \<and> rec_modes_ok (f ! 1) \<and>
                     rec_settings_ok (f ! 2) C_SETTINGS_MAX \<and> rec_op_ok (f ! 3))
      else if key = ''D'' then
        (case rec_split value 2 1100 of
           None \<Rightarrow> False
         | Some f \<Rightarrow> rec_modes_ok (f ! 0) \<and> rec_settings_ok (f ! 1) D_SETTINGS_MAX)
      else if key = ''B'' then ban_valid value
      else False)"

section \<open>Merge and ceilings\<close>

definition rec_accepts :: "env \<Rightarrow> i64 \<Rightarrow> string \<Rightarrow> bool \<Rightarrow> i64 \<Rightarrow> string \<Rightarrow> bool \<Rightarrow> bool" where
  "rec_accepts e in_ts in_val in_active cur_ts cur_val cur_active =
     (if ts_ahead e in_ts then False
      else if in_ts \<noteq> cur_ts then in_ts > cur_ts
      else if cur_active \<noteq> in_active then cur_active \<and> \<not> in_active
      else in_val > cur_val)"

definition entry_chan_eq :: "config_entry \<Rightarrow> string \<Rightarrow> bool" where
  "entry_chan_eq e chan \<longleftrightarrow> eq_ic (first_field (ce_value e)) chan"

definition entry_active :: "config_entry \<Rightarrow> bool" where
  "entry_active e \<longleftrightarrow> ce_key e = ''D'' \<or> global_value_active (ce_value e)"

definition tomb_horizon :: "env \<Rightarrow> hub_state \<Rightarrow> i64" where
  "tomb_horizon e s =
     env_now e - (if purge_days_setting s > 0 then purge_days_setting s * 86400 else TOMB_MIN_AGE_OFF)"

fun oldest_tomb :: "config_entry list \<Rightarrow> string \<Rightarrow> i64 \<Rightarrow> nat list \<Rightarrow> nat option \<Rightarrow> nat option" where
  "oldest_tomb es key horizon [] best = best"
| "oldest_tomb es key horizon (i # is) best =
     (let e = es ! i in
      oldest_tomb es key horizon is
        (if ce_key e \<noteq> key \<or> entry_active e \<or> ce_ts e > horizon then best
         else case best of
                None \<Rightarrow> Some i
              | Some b \<Rightarrow> if ce_ts e < ce_ts (es ! b) then Some i else best))"

definition evict_oldest_tombstone :: "env \<Rightarrow> string \<Rightarrow> hub_state \<Rightarrow> bool \<times> hub_state" where
  "evict_oldest_tombstone e key s =
     (case oldest_tomb (global_entries s) key (tomb_horizon e s) [0..<length (global_entries s)] None of
        Some b \<Rightarrow> (True, global_reindex (s\<lparr>global_entries := swap_remove b (global_entries s)\<rparr>))
      | None \<Rightarrow> (False, s))"

definition ban_ceiling :: "string \<Rightarrow> nat" where
  "ban_ceiling chan = (if chan \<noteq> [] \<and> hd chan = CHR ''*'' then MAX_GLOBAL_BANS else MAX_BANS_PER_CHAN)"

text \<open>An update of a stored record keeps its spelling of the identity (\<^verbatim>\<open>norm\<close>).\<close>

definition rec_norm :: "string \<Rightarrow> string \<Rightarrow> string \<Rightarrow> string option" where
  "rec_norm key stored value =
     (if key = ''D'' then Some value
      else let il = ident_len key stored; vl = ident_len key value
           in if il + length (drop vl value) \<ge> 1024 then None else Some (take il stored @ drop vl value))"

definition put_found :: "env \<Rightarrow> nat \<Rightarrow> string \<Rightarrow> string \<Rightarrow> i64 \<Rightarrow> hub_state \<Rightarrow> bool \<times> hub_state" where
  "put_found e i key value ts s =
     (let en = global_entries s ! i; in_active = (key = ''D'' \<or> global_value_active value) in
      case rec_norm key (ce_value en) value of
        None \<Rightarrow> (False, s)
      | Some norm \<Rightarrow>
          if \<not> rec_accepts e ts norm in_active (ce_ts en) (ce_value en) (entry_active en) then (False, s)
          else if key = ''B'' \<and> in_active \<and> \<not> entry_active en \<and>
                  (length (first_field norm) \<ge> MAX_CHAN \<or> bans_live_in s (first_field norm) \<ge> ban_ceiling (first_field norm))
          then (False, s)
          else let s1 = s\<lparr>global_entries := (global_entries s)[i := en\<lparr>ce_value := norm, ce_ts := ts\<rparr>]\<rparr>
               in (True, if key = ''B'' \<and> entry_active en \<noteq> in_active then gban_adjust i in_active s1 else s1))"

text \<open>A record not held yet; room is made at most once, by the oldest tombstone of its class.\<close>

definition make_room :: "env \<Rightarrow> string \<Rightarrow> hub_state \<Rightarrow> bool \<times> hub_state" where
  "make_room e key s =
     (if global_room s key then (True, s)
      else let (ev, s1) = evict_oldest_tombstone e key s in (ev \<and> global_room s1 key, s1))"

definition put_new :: "env \<Rightarrow> string \<Rightarrow> string \<Rightarrow> i64 \<Rightarrow> hub_state \<Rightarrow> bool \<times> hub_state" where
  "put_new e key value ts s =
     (let in_active = (key = ''D'' \<or> global_value_active value) in
      if \<not> in_active \<and> purge_floor_blocks e s ts then (False, s)
      else if key = ''B'' \<and> in_active \<and>
              (length (first_field value) \<ge> MAX_CHAN \<or> bans_live_in s (first_field value) \<ge> ban_ceiling (first_field value))
      then (False, s)
      else let (room, s1) = make_room e key s
           in if \<not> room then (False, s1)
              else let s2 = s1\<lparr>global_entries := global_entries s1 @ [\<lparr>ce_key = key, ce_value = value, ce_ts = ts, ce_last_used = 0\<rparr>]\<rparr>
                   in (True, global_note_new (length (global_entries s2) - 1) s2))"

definition put_record :: "env \<Rightarrow> string \<Rightarrow> string \<Rightarrow> i64 \<Rightarrow> hub_state \<Rightarrow> bool \<times> hub_state" where
  "put_record e key value ts s =
     (if \<not> key_is_modes key \<or> ts \<le> 0 \<or> ts_ahead e ts then (False, s)
      else if \<not> record_valid key value then (False, s)
      else case global_find s key value of
             Some i \<Rightarrow> put_found e i key value ts s
           | None \<Rightarrow> put_new e key value ts s)"

definition chan_del_stamp :: "env \<Rightarrow> hub_state \<Rightarrow> string \<Rightarrow> i64" where
  "chan_del_stamp e s chan =
     (let newest = map ce_ts (filter (\<lambda>en. (ce_key en = ''c'' \<or> ce_key en = ''C'' \<or> ce_key en = ''B'') \<and> entry_chan_eq en chan)
                                     (global_entries s))
      in lww_next_ts e (case newest of [] \<Rightarrow> 0 | t # ts \<Rightarrow> foldl max t ts))"

section \<open>Learned channel state\<close>

definition learned_index :: "hub_state \<Rightarrow> string \<Rightarrow> nat option" where
  "learned_index s chan = position (\<lambda>l. eq_ic (cl_chan l) chan) (chan_learned s)"

definition learned_find :: "hub_state \<Rightarrow> string \<Rightarrow> chan_learned_rec option" where
  "learned_find s chan = map_option (\<lambda>i. chan_learned s ! i) (learned_index s chan)"

definition learned_key_ok :: "string \<Rightarrow> bool" where
  "learned_key_ok k \<longleftrightarrow>
     length k < MAX_KEY \<and> list_all (\<lambda>c. byte c > 0x20 \<and> c \<noteq> CHR '','' \<and> c \<noteq> CHR ''|'' \<and> byte c < 0x7f) k"

text \<open>\<^const>\<open>K_MODES_MASK\<close> is a mask of two bits: \<^verbatim>\<open>modes & !K_MODES_MASK\<close> is zero for its subsets only.\<close>

definition learned_modes_ok :: "i32 \<Rightarrow> bool" where
  "learned_modes_ok modes \<longleftrightarrow> 0 \<le> modes \<and> and (nat modes) K_MODES_MASK = nat modes"

definition learned_text :: "string \<Rightarrow> i32 \<Rightarrow> string" where
  "learned_text key modes = key @ CHR ''|'' # show_int modes"

definition learned_put :: "env \<Rightarrow> string \<Rightarrow> string \<Rightarrow> i32 \<Rightarrow> i64 \<Rightarrow> hub_state \<Rightarrow> bool \<times> hub_state" where
  "learned_put e chan key modes ts s =
     (if ts \<le> 0 \<or> ts_ahead e ts \<or> \<not> rec_chan_ok chan False \<or> \<not> learned_key_ok key \<or> \<not> learned_modes_ok modes
      then (False, s)
      else case chan_live s chan of
        None \<Rightarrow> (False, s)
      | Some name \<Rightarrow>
          (case learned_index s name of
             Some i \<Rightarrow>
               let l = chan_learned s ! i in
               if ts < cl_ts l \<or> (ts = cl_ts l \<and> learned_text key modes \<le> learned_text (cl_key l) (int (cl_modes l)))
               then (False, s)
               else (True, s\<lparr>chan_learned := (chan_learned s)[i := l\<lparr>cl_key := key, cl_modes := nat modes, cl_ts := ts\<rparr>]\<rparr>)
           | None \<Rightarrow>
               if length (chan_learned s) \<ge> MAX_CHANNELS then (False, s)
               else (True, s\<lparr>chan_learned := chan_learned s @
                       [\<lparr>cl_chan = name, cl_key = key, cl_modes = nat modes, cl_ts = ts\<rparr>]\<rparr>)))"

definition learned_ingest :: "env \<Rightarrow> string \<Rightarrow> hub_state \<Rightarrow> bool \<times> hub_state" where
  "learned_ingest e body s =
     (if length body \<ge> K_LINE_MAX then (False, s)
      else let f = split_on (CHR ''|'') body in
        if length f \<noteq> 4 \<or> \<not> rec_num_ok (f ! 2) \<or> length (f ! 2) > 3 \<or> \<not> rec_num_ok (f ! 3) then (False, s)
        else learned_put e (f ! 0) (f ! 1) (int (dec_val (f ! 2))) (int (dec_val (f ! 3))) s)"

definition learned_drop :: "string \<Rightarrow> hub_state \<Rightarrow> hub_state" where
  "learned_drop chan s =
     (case learned_index s chan of
        None \<Rightarrow> s
      | Some i \<Rightarrow> s\<lparr>chan_learned := swap_remove i (chan_learned s)\<rparr>)"

definition learned_format :: "chan_learned_rec \<Rightarrow> string" where
  "learned_format l =
     ''K|'' @ cl_chan l @ ''|'' @ cl_key l @ ''|'' @ show_int (int (cl_modes l)) @ ''|'' @ show_int (cl_ts l) @ [CHR 0x0A]"

definition learned_append :: "hub_state \<Rightarrow> string" where
  "learned_append s = concat (map learned_format (chan_learned s))"

section \<open>The channel cascade\<close>

text \<open>
  \<^verbatim>\<open>chan_cascade_del\<close>.  With \<^verbatim>\<open>announce\<close> the lines go to the peers in chunks below 8192 bytes: the
  payloads handed to \<^verbatim>\<open>broadcast_sync_to_peers\<close>, in order, are part of the result.  The records it
  deletes are in the table, so the table does not grow under the loop.
\<close>

definition announce_line :: "bool \<Rightarrow> string \<Rightarrow> string \<times> string list \<Rightarrow> string \<times> string list" where
  "announce_line announce line = (\<lambda>(out, sent).
     if \<not> announce then (out, sent)
     else if length out + length line \<ge> 8192 then (line, sent @ [out])
     else (out @ line, sent))"

definition cascade_tomb :: "config_entry \<Rightarrow> string" where
  "cascade_tomb en =
     (let ident = take (ident_len (ce_key en) (ce_value en)) (ce_value en)
      in if ce_key en = ''C'' then ident @ ''|||del'' else ident @ ''|0||||del'')"

definition cascade_record ::
    "env \<Rightarrow> string \<Rightarrow> i64 \<Rightarrow> bool \<Rightarrow> nat \<Rightarrow> nat \<times> (string \<times> string list) \<times> hub_state \<Rightarrow> nat \<times> (string \<times> string list) \<times> hub_state" where
  "cascade_record e chan ts announce i = (\<lambda>(changed, out, s).
     let en = global_entries s ! i in
     if \<not> (ce_key en = ''C'' \<or> ce_key en = ''B'') \<or> \<not> entry_active en \<or> \<not> entry_chan_eq en chan then (changed, out, s)
     else let nv = cascade_tomb en in
       if length nv \<ge> 1024 then (changed, out, s)
       else case put_record e (ce_key en) nv ts s of
              (False, s1) \<Rightarrow> (changed, out, s1)
            | (True, s1) \<Rightarrow>
                (changed + 1, announce_line announce (ce_key en @ ''|'' @ nv @ ''|'' @ show_int ts @ [CHR 0x0A]) out, s1))"

definition cascade_bind ::
    "env \<Rightarrow> i64 \<Rightarrow> bool \<Rightarrow> string \<times> string \<Rightarrow> nat \<times> (string \<times> string list) \<times> hub_state \<Rightarrow> nat \<times> (string \<times> string list) \<times> hub_state" where
  "cascade_bind e ts announce = (\<lambda>(uuid, c) (changed, out, s).
     case uchan_put e uuid c False ts s of
       (False, s1) \<Rightarrow> (changed, out, s1)
     | (True, s1) \<Rightarrow>
         (changed + 1,
          (if announce then
             (case uchan_find s1 uuid c of
                None \<Rightarrow> out
              | Some ri \<Rightarrow> announce_line announce (format_uchan (uchan_records s1 ! ri)) out)
           else out), s1))"

definition chan_cascade_del ::
    "env \<Rightarrow> string \<Rightarrow> i64 \<Rightarrow> bool \<Rightarrow> hub_state \<Rightarrow> nat \<times> string list \<times> hub_state" where
  "chan_cascade_del e chan ts announce s =
     (let s0 = learned_drop chan s;
          (changed, out, s1) = fold (cascade_record e chan ts announce) [0..<length (global_entries s0)] (0, ([], []), s0);
          hits = map (\<lambda>r. (uc_uuid r, uc_chan r))
                   (filter (\<lambda>r. uc_active r \<and> uc_chan r \<noteq> ''*'' \<and> eq_ic (uc_chan r) chan) (uchan_records s1));
          (changed, (out, sent), s2) = fold (cascade_bind e ts announce) hits (changed, out, s1);
          sent = (if out \<noteq> [] then sent @ [out] else sent);
          s3 = (if changed > 0
                then (let s3 = s2\<lparr>config_dirty := True\<rparr> in if announce then s3\<lparr>bot_config_pending := True\<rparr> else s3)
                else s2)
      in (changed, sent, s3))"

section \<open>Orphans\<close>

definition orphan_entry :: "hub_state \<Rightarrow> config_entry \<Rightarrow> bool" where
  "orphan_entry s en =
     (if \<not> (ce_key en = ''C'' \<or> ce_key en = ''B'') \<or> \<not> entry_active en then False
      else let chan = first_field (ce_value en)
           in \<not> (length chan \<ge> MAX_CHAN \<or> (ce_key en = ''B'' \<and> chan = ''*'') \<or> chan_live s chan \<noteq> None))"

lemma learned_index_self: "i < length (chan_learned s) \<Longrightarrow> learned_index s (cl_chan (chan_learned s ! i)) \<noteq> None"
proof
  assume i: "i < length (chan_learned s)" "learned_index s (cl_chan (chan_learned s ! i)) = None"
  then have "\<not> eq_ic (cl_chan (chan_learned s ! i)) (cl_chan (chan_learned s ! i))"
    unfolding learned_index_def position_None using nth_mem by blast
  then show False by (simp add: eq_ic_def)
qed

lemma length_learned_drop:
  assumes "i < length (chan_learned s)"
  shows "Suc (length (chan_learned (learned_drop (cl_chan (chan_learned s ! i)) s))) = length (chan_learned s)"
proof -
  obtain j where j: "learned_index s (cl_chan (chan_learned s ! i)) = Some j" using learned_index_self [OF assms] by blast
  then have "j < length (chan_learned s)" unfolding learned_index_def by (auto dest: position_SomeD)
  then show ?thesis using j by (simp add: learned_drop_def)
qed

function drop_orphan_learned ::
    "nat \<Rightarrow> (string \<times> string \<times> i64) list \<Rightarrow> hub_state \<Rightarrow> (string \<times> string \<times> i64) list \<times> hub_state" where
  "drop_orphan_learned i notes s =
     (if \<not> i < length (chan_learned s) then (notes, s)
      else let l = chan_learned s ! i in
        if chan_live s (cl_chan l) \<noteq> None then drop_orphan_learned (i + 1) notes s
        else drop_orphan_learned i (notes @ [(''learned'', cl_chan l, cl_ts l)]) (learned_drop (cl_chan l) s))"
  by pat_completeness auto
termination
proof (relation "measure (\<lambda>(i, ns, s). length (chan_learned s) - i)")
  show "((i, ns', learned_drop (cl_chan l) s), (i, ns, s)) \<in> measure (\<lambda>(i, ns, s). length (chan_learned s) - i)"
    if "\<not> \<not> i < length (chan_learned s)" "l = chan_learned s ! i" for i ns ns' s l
    using that length_learned_drop [of i s] by auto
qed auto

declare drop_orphan_learned.simps [simp del]

definition purge_chan_orphans :: "hub_state \<Rightarrow> nat \<times> (string \<times> string \<times> i64) list \<times> hub_state" where
  "purge_chan_orphans s =
     (let gone = filter (orphan_entry s) (global_entries s);
          notes = map (\<lambda>en. (if ce_key en = ''C'' then ''chanset'' else ''ban'', first_field (ce_value en), ce_ts en)) gone;
          s1 = (if gone \<noteq> []
                then global_reindex (s\<lparr>global_entries := filter (\<lambda>en. \<not> orphan_entry s en) (global_entries s)\<rparr>) else s);
          (notes', s2) = drop_orphan_learned 0 notes s1
      in (length notes', notes', if notes' \<noteq> [] then s2\<lparr>config_dirty := True\<rparr> else s2))"

section \<open>The c, m and o records\<close>

definition safe_op :: "string \<Rightarrow> string" where
  "safe_op op =
     (let clean = trunc_string op 16;
          s = rev (dropWhile (\<lambda>c. c = CHR ''|'') (rev (dropWhile (\<lambda>c. c = CHR ''|'') clean)))
      in if s = [] then ''add'' else s)"

definition combined_value :: "string \<Rightarrow> string \<Rightarrow> string \<Rightarrow> string \<Rightarrow> bool \<Rightarrow> string" where
  "combined_value key value extra op global =
     trunc_string
       (if key = ''c'' then
          (if extra \<noteq> [] then value @ ''|'' @ extra @ ''|'' @ op else value @ ''||'' @ op)
        else if key = ''m'' then value @ ''|'' @ op
        else if key = ''o'' \<and> global then value @ ''||'' @ op
        else if key = ''o'' then value @ ''|'' @ extra @ ''|'' @ op
        else value) 1024"

text \<open>A stored channel keeps the spelling of its first writer; removing it runs the cascade silently.\<close>

definition kept_value :: "string \<Rightarrow> string \<Rightarrow> nat option \<Rightarrow> hub_state \<Rightarrow> string" where
  "kept_value key value found s =
     (case found of
        Some i \<Rightarrow> if key = ''c'' then trunc_string (first_field (ce_value (global_entries s ! i))) (MAX_CHAN + 8) else value
      | None \<Rightarrow> value)"

definition update_global_entry ::
    "env \<Rightarrow> string \<Rightarrow> string \<Rightarrow> string \<Rightarrow> string \<Rightarrow> i64 \<Rightarrow> hub_state \<Rightarrow> bool \<times> hub_state" where
  "update_global_entry e key value extra op ts s =
     (if key_is_modes key then (False, s)
      else let found = global_find s key value;
               v = kept_value key value found s;
               combined = combined_value key v extra (safe_op op) True
        in case found of
             Some i \<Rightarrow>
               let en = global_entries s ! i in
               if lww_accepts e ts (global_value_active combined) (ce_ts en) (global_value_active (ce_value en))
               then let s1 = s\<lparr>global_entries := (global_entries s)[i := en\<lparr>ce_value := combined, ce_ts := ts\<rparr>]\<rparr>
                    in (True, if key = ''c'' \<and> \<not> global_value_active combined
                              then snd (snd (chan_cascade_del e v ts False s1)) else s1)
               else (False, s)
           | None \<Rightarrow>
               if ts_ahead e ts then (False, s)
               else if \<not> global_value_active combined \<and> purge_floor_blocks e s ts then (False, s)
               else if global_room s key
               then let s1 = s\<lparr>global_entries := global_entries s @
                          [\<lparr>ce_key = trunc_string key 32, ce_value = combined, ce_ts = ts, ce_last_used = 0\<rparr>]\<rparr>
                    in (True, global_note_new (length (global_entries s1) - 1) s1)
               else (False, s))"

end
