(* ===== verification/Record_Store.thy ===== *)
theory Record_Store
  imports Records
begin

text \<open>
  The properties of the C|, D|, B| and K| records (theory \<^verbatim>\<open>Records\<close>): what a valid record is,
  written out as its fields; the invariant of the global table (an exact index, valid records, no
  class over its ceiling) and that every writer keeps it; learned state only for live channels.
\<close>

section \<open>The shape of valid records\<close>

abbreviation bar :: char where "bar \<equiv> CHR ''|''"

lemma nth_bar_join:
  "fs \<noteq> [] \<Longrightarrow> \<forall>f \<in> set fs. bar \<notin> set f \<Longrightarrow> nth_bar (length fs) i (join_with bar fs @ bar # r) = Some (i + length (join_with bar fs))"
proof (induction fs arbitrary: i)
  case (Cons f fs)
  have free: "nth_bar n i (f @ s) = nth_bar n (i + length f) s" if "bar \<notin> set f" for f n i s
    using that by (induction f arbitrary: i) auto
  show ?case
  proof (cases fs)
    case Nil
    then show ?thesis using Cons.prems free [of f 1 i "bar # r"] by simp
  next
    case (Cons g gs)
    then have "nth_bar (length (f # fs)) i (join_with bar (f # fs) @ bar # r) =
        nth_bar (length fs) (i + length f + 1) (join_with bar fs @ bar # r)"
      using Cons.prems free [of f "length (f # fs)" i "bar # join_with bar fs @ bar # r"] by simp
    then show ?thesis using Cons.IH [of "i + length f + 1"] Cons.prems Cons by simp
  qed
qed simp

lemma nth_bar_Some:
  assumes "nth_bar (Suc k) i v = Some j"
  obtains fs r where "length fs = Suc k" "\<forall>f \<in> set fs. bar \<notin> set f" "v = join_with bar fs @ bar # r" "j = i + length (join_with bar fs)"
  using assms
proof (induction v arbitrary: k i thesis)
  case (Cons c cs)
  show ?case
  proof (cases "c = bar")
    case True
    show ?thesis
    proof (cases k)
      case 0
      then show ?thesis using Cons.prems True by (intro Cons.prems(1) [of "[[]]" cs]) auto
    next
      case (Suc k')
      then have "nth_bar (Suc k') (i + 1) cs = Some j" using Cons.prems(2) True by simp
      then obtain fs r where fs: "length fs = Suc k'" "\<forall>f \<in> set fs. bar \<notin> set f" "cs = join_with bar fs @ bar # r"
          "j = i + 1 + length (join_with bar fs)" using Cons.IH by metis
      moreover obtain g gs where "fs = g # gs" using fs(1) by (cases fs) auto
      ultimately show ?thesis using True Suc by (intro Cons.prems(1) [of "[] # fs" r]) auto
    qed
  next
    case False
    then have "nth_bar (Suc k) (i + 1) cs = Some j" using Cons.prems(2) by simp
    then obtain fs r where fs: "length fs = Suc k" "\<forall>f \<in> set fs. bar \<notin> set f" "cs = join_with bar fs @ bar # r"
        "j = i + 1 + length (join_with bar fs)" using Cons.IH by metis
    obtain g gs where g: "fs = g # gs" using fs(1) by (cases fs) auto
    have "join_with bar ((c # g) # gs) = c # join_with bar fs" using g by (cases gs) simp_all
    then show ?thesis using fs g False by (intro Cons.prems(1) [of "(c # g) # gs" r]) auto
  qed
qed simp

text \<open>A ban, field by field; the reason may contain bars.\<close>

definition ban_fields :: "string \<Rightarrow> string \<Rightarrow> string \<Rightarrow> string \<Rightarrow> string \<Rightarrow> string \<Rightarrow> string \<Rightarrow> bool" where
  "ban_fields chan msk expires flags setter reason op \<longleftrightarrow>
     rec_chan_ok chan True \<and> rec_mask_ok msk \<and> rec_num_ok expires \<and>
     list_all (\<lambda>c. c = CHR ''s'') flags \<and> length flags \<le> 4 \<and> length setter < BAN_SETTER_MAX \<and>
     list_all (\<lambda>c. is_alnum c \<or> c = CHR ''.'' \<or> c = CHR ''_'' \<or> c = CHR ''-'') setter \<and>
     rec_text_ok reason BAN_REASON_MAX \<and> rec_op_ok op"

definition ban_text :: "string \<Rightarrow> string \<Rightarrow> string \<Rightarrow> string \<Rightarrow> string \<Rightarrow> string \<Rightarrow> string \<Rightarrow> string" where
  "ban_text chan msk expires flags setter reason op =
     join_with bar [chan, msk, expires, flags, setter] @ bar # reason @ bar # op"

lemma bar_free_fields:
  "rec_chan_ok s b \<Longrightarrow> bar \<notin> set s" "rec_mask_ok s \<Longrightarrow> bar \<notin> set s" "rec_num_ok s \<Longrightarrow> bar \<notin> set s"
  "rec_modes_ok s \<Longrightarrow> bar \<notin> set s" "rec_settings_ok s n \<Longrightarrow> bar \<notin> set s" "rec_op_ok s \<Longrightarrow> bar \<notin> set s"
  by (auto simp: rec_chan_ok_def rec_mask_ok_def rec_num_ok_def rec_modes_ok_def rec_settings_ok_def rec_op_ok_def
      list_all_iff hub_defs split: if_splits)

lemma ban_fields_free:
  "ban_fields c m x f st r op \<Longrightarrow> \<forall>y \<in> set [c, m, x, f, st]. bar \<notin> set y"
  using bar_free_fields by (auto simp: ban_fields_def list_all_iff hub_defs)

lemma ban_valid_text:
  assumes "ban_fields c m x f st r op" "length (ban_text c m x f st r op) < 1100"
  shows "ban_valid (ban_text c m x f st r op)"
proof -
  let ?h = "join_with bar [c, m, x, f, st]" let ?v = "ban_text c m x f st r op"
  have op: "bar \<notin> set op" using assms(1) bar_free_fields(6) by (auto simp: ban_fields_def)
  have v: "?v = (?h @ bar # r) @ bar # op" by (simp add: ban_text_def)
  have rs: "rsplit_once bar ?v = Some (?h @ bar # r, op)" unfolding v using op by (rule rsplit_once_append)
  have nb: "nth_bar 5 0 ?v = Some (length ?h)"
    using nth_bar_join [of "[c, m, x, f, st]" 0 "r @ bar # op"] ban_fields_free [OF assms(1)]
    by (simp add: ban_text_def numeral_eq_Suc)
  have sp: "rec_split ?h 5 1100 = Some [c, m, x, f, st]"
    using split_on_join [of "[c, m, x, f, st]" bar] ban_fields_free [OF assms(1)] assms(2)
    by (simp add: rec_split_def REC_MAX_FIELDS_def ban_text_def)
  have t: "take (length ?h) ?v = ?h" "drop (length ?h + 1) (take (length (?h @ bar # r)) ?v) = r"
    by (simp_all add: v del: join_with.simps)
  have l: "length (?h @ bar # r) > length ?h" by simp
  show ?thesis
    unfolding ban_valid_def Let_def rs option.case prod.case nb t sp
    using assms l by (simp add: ban_fields_def rec_text_ok_def)
qed

lemma ban_valid_fields:
  assumes "ban_valid v"
  obtains c m x f st r op where "v = ban_text c m x f st r op" "ban_fields c m x f st r op" "length v < 1100"
proof -
  have l: "length v < 1100" using assms by (auto simp: ban_valid_def split: if_splits)
  obtain b op where rs: "rsplit_once bar v = Some (b, op)"
    using assms by (cases "rsplit_once bar v") (auto simp: ban_valid_def split: if_splits)
  obtain sixth where nb: "nth_bar 5 0 v = Some sixth"
    using assms rs by (cases "nth_bar 5 0 v") (auto simp: ban_valid_def Let_def split: if_splits)
  obtain fs where sp: "rec_split (take sixth v) 5 1100 = Some fs"
    using assms rs nb by (cases "rec_split (take sixth v) 5 1100") (auto simp: ban_valid_def Let_def split: if_splits)
  have h: "length b > sixth" "rec_op_ok op" "rec_chan_ok (fs ! 0) True" "rec_mask_ok (fs ! 1)" "rec_num_ok (fs ! 2)"
      "list_all (\<lambda>c. c = CHR ''s'') (fs ! 3)" "length (fs ! 3) \<le> 4" "length (fs ! 4) < BAN_SETTER_MAX"
      "list_all (\<lambda>c. is_alnum c \<or> c = CHR ''.'' \<or> c = CHR ''_'' \<or> c = CHR ''-'') (fs ! 4)"
      "rec_text_ok (drop (sixth + 1) (take (length b) v)) BAN_REASON_MAX"
    using assms rs nb sp by (simp_all add: ban_valid_def Let_def split: if_splits)
  have "nth_bar (Suc 4) 0 v = Some sixth" using nb by (simp add: numeral_eq_Suc)
  then obtain gs r where g: "length gs = Suc 4" "\<forall>f \<in> set gs. bar \<notin> set f" "v = join_with bar gs @ bar # r"
      "sixth = 0 + length (join_with bar gs)" using nth_bar_Some by metis
  have "take sixth v = join_with bar gs" using g(3,4) by simp
  moreover have "split_on bar (join_with bar gs) = gs" using split_on_join [of gs bar] g(1,2) by (cases gs) auto
  ultimately have fs: "fs = gs" using sp by (simp add: rec_split_def split: if_splits)
  have v: "v = b @ bar # op" "bar \<notin> set op" using rs by (simp_all add: rsplit_once_Some)
  have "join_with bar gs @ bar # r = b @ bar # op" using v(1) g(3) by simp
  moreover define reason where "reason = drop (sixth + 1) (take (length b) v)"
  ultimately have b: "b = join_with bar gs @ bar # reason"
    using h(1) g(4) v(1) by (auto simp: append_eq_append_conv2 Cons_eq_append_conv append_eq_Cons_conv)
  obtain c m x f st where cs: "gs = [c, m, x, f, st]"
    using g(1) by (auto simp: length_Suc_conv numeral_eq_Suc)
  show thesis
  proof (rule that [of c m x f st reason op])
    show "v = ban_text c m x f st reason op" using v(1) b cs by (simp add: ban_text_def)
    show "ban_fields c m x f st reason op" using h fs cs by (simp add: ban_fields_def reason_def numeral_eq_Suc)
  qed (rule l)
qed

text \<open>Channel settings and network defaults.\<close>

lemma rec_split_Some:
  "rec_split v n cap = Some fs \<longleftrightarrow> length v < cap \<and> n \<le> REC_MAX_FIELDS \<and> length fs = n \<and> split_on bar v = fs"
  by (auto simp: rec_split_def Let_def)

lemma record_valid_C:
  "record_valid ''C'' v \<longleftrightarrow>
     (\<exists>c m st op. v = join_with bar [c, m, st, op] \<and> length v < 1100 \<and>
        rec_chan_ok c False \<and> rec_modes_ok m \<and> rec_settings_ok st C_SETTINGS_MAX \<and> rec_op_ok op)"
proof
  assume v: "record_valid ''C'' v"
  then obtain fs where fs: "rec_split v 4 1100 = Some fs" "rec_chan_ok (fs ! 0) False" "rec_modes_ok (fs ! 1)"
      "rec_settings_ok (fs ! 2) C_SETTINGS_MAX" "rec_op_ok (fs ! 3)"
    by (cases "rec_split v 4 1100") (auto simp: record_valid_def)
  moreover obtain c m st op where "fs = [c, m, st, op]"
    using fs(1) by (auto simp: rec_split_Some length_Suc_conv numeral_eq_Suc)
  moreover have "join_with bar fs = v" using fs(1) by (auto simp: rec_split_Some)
  ultimately show "\<exists>c m st op. v = join_with bar [c, m, st, op] \<and> length v < 1100 \<and>
      rec_chan_ok c False \<and> rec_modes_ok m \<and> rec_settings_ok st C_SETTINGS_MAX \<and> rec_op_ok op"
    by (auto simp: rec_split_Some numeral_eq_Suc)
next
  assume "\<exists>c m st op. v = join_with bar [c, m, st, op] \<and> length v < 1100 \<and>
      rec_chan_ok c False \<and> rec_modes_ok m \<and> rec_settings_ok st C_SETTINGS_MAX \<and> rec_op_ok op"
  then obtain c m st op where v: "v = join_with bar [c, m, st, op]" "length v < 1100" "rec_chan_ok c False" "rec_modes_ok m"
      "rec_settings_ok st C_SETTINGS_MAX" "rec_op_ok op" by blast
  then have "\<forall>f \<in> set [c, m, st, op]. bar \<notin> set f" using bar_free_fields by auto
  then have "rec_split v 4 1100 = Some [c, m, st, op]"
    using v(1,2) split_on_join [of "[c, m, st, op]" bar] by (auto simp: rec_split_Some REC_MAX_FIELDS_def)
  then show "record_valid ''C'' v" using v(3-6) by (simp add: record_valid_def numeral_eq_Suc)
qed

text \<open>An update under the stored spelling is valid when the stored record and the new one are.\<close>

lemma ident_C: "rec_chan_ok c False \<Longrightarrow> ident ''C'' (c @ bar # r) = c"
  using bar_free_fields(1) by (subst ident_first_field) auto

lemma ident_len_two:
  assumes "bar \<notin> set c" "bar \<notin> set m"
  shows "ident ''B'' (c @ bar # m @ bar # r) = c @ bar # m"
proof -
  have "find_bar (c @ bar # m @ bar # r) = Some (length c)" using find_bar_append [OF assms(1)] .
  moreover have "find_bar (drop (length c + 1) (c @ bar # m @ bar # r)) = Some (length m)" using find_bar_append [OF assms(2)] by simp
  ultimately have "ident_len ''B'' (c @ bar # m @ bar # r) = length c + 1 + length m"
    by (simp add: ident_len_def numeral_2_eq_2)
  then show ?thesis by (simp add: ident_def)
qed

lemma rec_norm_take:
  assumes "rec_norm key stored value = Some norm" "key \<noteq> ''D''" "lower (ident key stored) = lower (ident key value)"
  shows "norm = ident key stored @ drop (length (ident key value)) value" "length norm = length value"
proof -
  have l: "ident_len key stored = ident_len key value" using assms(3) by (metis length_ident length_map)
  show n: "norm = ident key stored @ drop (length (ident key value)) value"
    unfolding length_ident unfolding ident_def using assms(1,2) by (auto simp: rec_norm_def Let_def split: if_splits)
  show "length norm = length value" unfolding n using l ident_len_le by (simp add: length_ident)
qed

lemma active_op: "bar \<notin> set op \<Longrightarrow> global_value_active (p @ bar # op) \<longleftrightarrow> op \<noteq> ''del''"
  by (simp add: global_value_active_def)

lemma rec_norm_valid:
  assumes n: "rec_norm key stored value = Some norm" and k: "key_is_modes key"
    and v: "record_valid key stored" "record_valid key value"
    and i: "is_singleton_key key \<or> lower (ident key stored) = lower (ident key value)"
  shows "record_valid key norm \<and> gkey key norm = gkey key stored \<and> (global_value_active norm \<longleftrightarrow> global_value_active value)"
proof -
  consider "key = ''D''" | "key = ''C''" | "key = ''B''" using k by (auto simp: key_is_modes_def)
  then show ?thesis
  proof cases
    case 1
    then show ?thesis using n v(2) by (simp add: rec_norm_def gkey_def is_singleton_key_def)
  next
    case C: 2
    then have i': "lower (ident key stored) = lower (ident key value)" using i by (simp add: is_singleton_key_def)
    obtain c m st op where s: "stored = join_with bar [c, m, st, op]" "rec_chan_ok c False" using v(1) C record_valid_C by blast
    obtain c' m' st' op' where w: "value = join_with bar [c', m', st', op']" "rec_chan_ok c' False" "length value < 1100"
        "rec_modes_ok m'" "rec_settings_ok st' C_SETTINGS_MAX" "rec_op_ok op'" using v(2) C record_valid_C by blast
    have "ident key stored = c" "ident key value = c'" using s w ident_C C by auto
    then have nv: "norm = join_with bar [c, m', st', op']" "length norm = length value"
      using rec_norm_take [OF n _ i'] C w(1) by auto
    then have "record_valid key norm" using s(2) w(3-6) C record_valid_C by metis
    moreover have "ident key norm = ident key stored" using nv(1) s ident_C C by simp
    moreover have "global_value_active norm = global_value_active value"
      using nv(1) w(1,6) active_op [of op' "c @ bar # m' @ bar # st'"] active_op [of op' "c' @ bar # m' @ bar # st'"] bar_free_fields(6)
      by simp
    ultimately show ?thesis by (simp add: gkey_alt folded_ident_def)
  next
    case B: 3
    then have i': "lower (ident key stored) = lower (ident key value)" using i by (simp add: is_singleton_key_def)
    have bv: "ban_valid stored" "ban_valid value" using v B by (auto simp: record_valid_def)
    obtain c m x f st r op where s: "stored = ban_text c m x f st r op" "ban_fields c m x f st r op"
      using bv(1) by (rule ban_valid_fields)
    obtain c' m' x' f' st' r' op' where w: "value = ban_text c' m' x' f' st' r' op'" "ban_fields c' m' x' f' st' r' op'" "length value < 1100"
      using bv(2) by (rule ban_valid_fields)
    have "ident key stored = c @ bar # m" "ident key value = c' @ bar # m'"
      using s w B ban_fields_free ident_len_two by (auto simp: ban_text_def)
    then have nv: "norm = ban_text c m x' f' st' r' op'" "length norm = length value"
      using rec_norm_take [OF n _ i'] B w(1) by (auto simp: ban_text_def)
    have "ban_fields c m x' f' st' r' op'" using s(2) w(2) by (simp add: ban_fields_def)
    then have "record_valid key norm" using nv w(3) ban_valid_text B by (simp add: record_valid_def)
    moreover have "ident key norm = ident key stored"
      using nv(1) s w(2) B ban_fields_free ident_len_two by (auto simp: ban_text_def)
    moreover have "global_value_active norm = global_value_active value"
      using nv(1) w(1,2) active_op [of op' "join_with bar [c, m, x', f', st'] @ bar # r'"]
        active_op [of op' "join_with bar [c', m', x', f', st'] @ bar # r'"] bar_free_fields(6) [of op']
      by (simp add: ban_text_def ban_fields_def)
    ultimately show ?thesis by (simp add: gkey_alt folded_ident_def)
  qed
qed

section \<open>The invariant of the global table\<close>

definition n_old :: "config_entry list \<Rightarrow> nat" where
  "n_old es = length (filter (\<lambda>e. \<not> key_is_modes (ce_key e)) es)"

definition class_caps :: "config_entry list \<Rightarrow> bool" where
  "class_caps es \<longleftrightarrow>
     n_old es \<le> MAX_BOT_ENTRIES \<and> n_class ''C'' es \<le> MAX_CHANNELS \<and> n_class ''D'' es \<le> 1 \<and>
     n_class ''B'' es \<le> MAX_BANS_TOTAL \<and> (\<forall>k. live_bans_of k es \<le> MAX_BANS_PER_CHAN)"

definition entry_ok :: "config_entry \<Rightarrow> bool" where
  "entry_ok e \<longleftrightarrow> CHR 0x00 \<notin> set (ce_key e) \<and>
     (if key_is_modes (ce_key e) then record_valid (ce_key e) (ce_value e)
      else length (ce_key e) < 32 \<and> length (ce_value e) < 1024)"

abbreviation rec_key :: "config_entry \<Rightarrow> string" where
  "rec_key e \<equiv> gkey (ce_key e) (ce_value e)"

definition store_inv :: "hub_state \<Rightarrow> bool" where
  "store_inv s \<longleftrightarrow>
     idx_ok s \<and> class_caps (global_entries s) \<and> (\<forall>e \<in> set (global_entries s). entry_ok e) \<and>
     distinct (map rec_key (global_entries s))"

lemma n_old_alt: "n_old es + n_class ''C'' es + n_class ''D'' es + n_class ''B'' es = length es"
  by (induction es) (auto simp: n_old_def n_class_def key_is_modes_def)

lemma store_inv_cong:
  "global_entries s' = global_entries s \<Longrightarrow> global_idx s' = global_idx s \<Longrightarrow> store_inv s' = store_inv s"
  by (simp add: store_inv_def idx_ok_def)

lemma store_inv_length: "store_inv s \<Longrightarrow> length (global_entries s) \<le> MAX_GLOBAL_ENTRIES"
  using n_old_alt [of "global_entries s"] by (simp add: store_inv_def class_caps_def MAX_GLOBAL_ENTRIES_def)

lemma global_room_classes:
  assumes "store_inv s"
  shows "global_room s key \<longleftrightarrow> length (global_entries s) < MAX_GLOBAL_ENTRIES \<and>
    (if key = ''C'' then n_class ''C'' (global_entries s) < MAX_CHANNELS
     else if key = ''D'' then n_class ''D'' (global_entries s) < 1
     else if key = ''B'' then n_class ''B'' (global_entries s) < MAX_BANS_TOTAL
     else n_old (global_entries s) < MAX_BOT_ENTRIES)"
proof -
  have "gi_n_old (global_idx s) = n_old (global_entries s)"
    using assms n_old_alt [of "global_entries s"] by (simp add: store_inv_def idx_ok_def idx_of_def)
  then show ?thesis
    using assms by (auto simp: global_room_def key_is_modes_def store_inv_def idx_ok_def idx_of_def Let_def)
qed

text \<open>Fewer entries never break the ceilings.\<close>

lemma filter_length_mset: "mset ys \<subseteq># mset xs \<Longrightarrow> length (filter P ys) \<le> length (filter P xs)"
  by (metis (no_types) mset_filter multiset_filter_mono size_mset size_mset_mono)

lemma class_caps_mono:
  assumes "mset ys \<subseteq># mset xs" "class_caps xs"
  shows "class_caps ys"
  using assms(2) filter_length_mset [OF assms(1)]
  unfolding class_caps_def n_old_def n_class_def live_bans_of_def by (meson order_trans)

lemma distinct_submset:
  assumes "mset xs \<subseteq># mset ys" "distinct ys"
  shows "distinct xs"
proof -
  obtain l where "mset ys = mset xs + mset l" using assms(1) by (metis ex_mset subset_mset.add_diff_inverse)
  then have "mset ys = mset (xs @ l)" by simp
  then have "distinct (xs @ l)" using assms(2) mset_eq_imp_distinct_iff by blast
  then show ?thesis by simp
qed

lemma swap_remove_submset: "mset (swap_remove i xs) \<subseteq># mset xs"
proof (cases "i < length xs")
  case True
  then show ?thesis by (metis mset_swap_remove add_mset_add_single mset_subset_eq_add_left)
qed (simp add: swap_remove_def)

lemma store_inv_reindex:
  assumes "store_inv s" "mset es \<subseteq># mset (global_entries s)"
  shows "store_inv (global_reindex (s\<lparr>global_entries := es\<rparr>))"
proof -
  have "mset (map rec_key es) \<subseteq># mset (map rec_key (global_entries s))" using assms(2) by (simp add: image_mset_subseteq_mono)
  then have "distinct (map rec_key es)" using assms(1) by (metis distinct_submset store_inv_def)
  then show ?thesis
    using assms class_caps_mono [OF assms(2)] mset_subset_eqD [OF assms(2)] global_reindex_ok [of "s\<lparr>global_entries := es\<rparr>"]
    by (auto simp: store_inv_def)
qed

text \<open>A record added where there is room.\<close>

lemma push_entry_inv:
  assumes "store_inv s" "entry_ok e" "global_room s (ce_key e)" "rec_key e \<notin> rec_key ` set (global_entries s)"
    and "live_ban e \<Longrightarrow> live_bans_of (lower (first_field (ce_value e))) (global_entries s) < MAX_BANS_PER_CHAN"
  shows "store_inv (push_entry e s)"
proof -
  have "live_bans_of k (global_entries s @ [e]) \<le> MAX_BANS_PER_CHAN" for k
    using assms(1,5) by (auto simp: store_inv_def class_caps_def live_bans_of_def [of _ "[e]"])
  then have "class_caps (global_entries s @ [e])"
    using assms(1,3) global_room_classes [OF assms(1), of "ce_key e"]
    by (auto simp: class_caps_def store_inv_def n_class_def n_old_def key_is_modes_def split: if_splits)
  then show ?thesis using assms(1,2,4) push_entry_ok by (auto simp: store_inv_def)
qed

section \<open>The single ingest point keeps the invariant\<close>

lemma global_find_Some:
  assumes "store_inv s" "global_find s key value = Some i" "CHR 0x00 \<notin> set key"
  shows "i < length (global_entries s)" "ce_key (global_entries s ! i) = key"
    "gkey key (ce_value (global_entries s ! i)) = gkey key value"
    "is_singleton_key key \<or> lower (ident key (ce_value (global_entries s ! i))) = lower (ident key value)"
proof -
  have p: "position (\<lambda>e. gkey (ce_key e) (ce_value e) = gkey key value) (global_entries s) = Some i"
    using assms(1,2) by (simp add: global_find_def store_inv_def idx_ok_def idx_of_def)
  then have i: "i < length (global_entries s)" "gkey (ce_key (global_entries s ! i)) (ce_value (global_entries s ! i)) = gkey key value"
    by (auto dest: position_SomeD)
  have n: "CHR 0x00 \<notin> set (ce_key (global_entries s ! i))" using assms(1) i(1) by (auto simp: store_inv_def entry_ok_def)
  show "i < length (global_entries s)" by (rule i)
  have eq: "ce_key (global_entries s ! i) = key \<and> global_identity_eq key (ce_value (global_entries s ! i)) value"
    using gkey_eq [OF n assms(3)] i(2) by auto
  then show "ce_key (global_entries s ! i) = key" by blast
  then show "gkey key (ce_value (global_entries s ! i)) = gkey key value" using i(2) by simp
  show "is_singleton_key key \<or> lower (ident key (ce_value (global_entries s ! i))) = lower (ident key value)"
    using eq by (auto simp: global_identity_eq_alt split: if_splits)
qed

lemma global_find_None:
  "store_inv s \<Longrightarrow> global_find s key value = None \<Longrightarrow> gkey key value \<notin> rec_key ` set (global_entries s)"
  by (auto simp: global_find_def store_inv_def idx_ok_def idx_of_def position_None)

lemma global_update_inv:
  assumes "store_inv s" "i < length (global_entries s)" "entry_ok e'" "ce_key e' = ce_key (global_entries s ! i)"
    and "gkey (ce_key e') (ce_value e') = gkey (ce_key e') (ce_value (global_entries s ! i))"
    and "live_ban e' \<Longrightarrow> \<not> live_ban (global_entries s ! i) \<Longrightarrow>
      live_bans_of (lower (first_field (ce_value e'))) (global_entries s) < MAX_BANS_PER_CHAN"
    and "s' = s\<lparr>global_entries := (global_entries s)[i := e'],
           global_idx := (if live_ban (global_entries s ! i) = live_ban e' then global_idx s
                          else gban_adjust_idx (ce_value e') (live_ban e') (global_idx s))\<rparr>"
  shows "store_inv s'"
proof -
  let ?es = "global_entries s" let ?P = "\<lambda>k e. live_ban e \<and> length (first_field (ce_value e)) < MAX_CHAN \<and> lower (first_field (ce_value e)) = k"
  have "idx_of ?es (global_idx s)" using assms(1) by (simp add: store_inv_def idx_ok_def)
  from idx_of_update [OF this assms(2,4,5)] have ix: "idx_ok s'" using assms(7) by (simp add: idx_ok_def)
  have f: "lower (first_field (ce_value e')) = lower (first_field (ce_value (?es ! i)))" if "ce_key e' = ''B''"
    using gkey_ban_chan assms(5) that by metis
  have lb: "live_bans_of k (?es[i := e']) \<le> MAX_BANS_PER_CHAN" for k
  proof -
    have c: "live_bans_of k (?es[i := e']) + (if ?P k (?es ! i) then 1 else 0) = live_bans_of k ?es + (if ?P k e' then 1 else 0)"
      using filter_update_length [OF assms(2), of "?P k" e'] by (simp add: live_bans_of_def)
    have le: "live_bans_of k ?es \<le> MAX_BANS_PER_CHAN" using assms(1) by (simp add: store_inv_def class_caps_def)
    have "?P k e' \<Longrightarrow> live_ban (?es ! i) \<Longrightarrow> ?P k (?es ! i)"
      using f by (metis length_map live_ban_def)
    then show ?thesis using c le assms(6) by (cases "?P k e'"; cases "live_ban (?es ! i)") auto
  qed
  have "n_class key (?es[i := e']) = n_class key ?es" for key using n_class_update [OF assms(2,4)] .
  moreover have "n_old (?es[i := e']) = n_old ?es"
    using filter_update_length [OF assms(2), of "\<lambda>e. \<not> key_is_modes (ce_key e)" e'] assms(4) by (simp add: n_old_def)
  ultimately have "class_caps (?es[i := e'])" using lb assms(1) by (simp add: class_caps_def store_inv_def)
  moreover have "\<forall>e \<in> set (?es[i := e']). entry_ok e"
    using assms(1,3) set_update_subset_insert [of ?es i e'] by (auto simp: store_inv_def)
  moreover have "distinct (map rec_key (?es[i := e']))"
    using assms(1,4,5) by (intro distinct_map_update) (simp_all add: store_inv_def)
  ultimately show ?thesis using ix assms(7) by (simp add: store_inv_def)
qed

lemma accepted_snd:
  "fst (if a then (False, s) else if b then (False, s) else (True, t)) \<Longrightarrow>
   snd (if a then (False, s) else if b then (False, s) else (True, t)) = t"
  by (cases a; cases b) simp_all

lemma put_found_inv:
  assumes "store_inv s" "key_is_modes key" "record_valid key value" "global_find s key value = Some i"
  shows "store_inv (snd (put_found e i key value ts s))"
proof (cases "fst (put_found e i key value ts s)")
  case False
  then show ?thesis using assms(1) by (auto simp: put_found_def Let_def split: option.splits if_splits)
next
  case True
  let ?en = "global_entries s ! i"
  have nul: "CHR 0x00 \<notin> set key" using assms(2) by (auto simp: key_is_modes_def)
  note F = global_find_Some [OF assms(1,4) nul]
  have sv: "record_valid key (ce_value ?en)" using assms(1,2) F(1,2) nth_mem by (fastforce simp: store_inv_def entry_ok_def)
  obtain norm where n: "rec_norm key (ce_value ?en) value = Some norm" 
    using True by (cases "rec_norm key (ce_value ?en) value") (auto simp: put_found_def Let_def)
  note N = rec_norm_valid [OF n assms(2) sv assms(3) F(4)]
  let ?in = "key = ''D'' \<or> global_value_active value" let ?e' = "?en\<lparr>ce_value := norm, ce_ts := ts\<rparr>"
  have lb: "live_ban ?e' \<longleftrightarrow> key = ''B'' \<and> ?in" "live_ban ?en \<longleftrightarrow> key = ''B'' \<and> entry_active ?en"
    using N F(2) by (auto simp: live_ban_def entry_active_def)
  have room: "bans_live_in s (first_field norm) < ban_ceiling (first_field norm)" if "key = ''B''" "?in" "\<not> entry_active ?en"
    using True n that by (auto simp: put_found_def Let_def split: if_splits)
  let ?s1 = "s\<lparr>global_entries := (global_entries s)[i := ?e']\<rparr>"
  have sn: "snd (put_found e i key value ts s) =
      (if key = ''B'' \<and> entry_active ?en \<noteq> ?in then gban_adjust i ?in ?s1 else ?s1)"
    using True unfolding put_found_def Let_def n option.case by (rule accepted_snd)
  have s': "snd (put_found e i key value ts s) = s\<lparr>global_entries := (global_entries s)[i := ?e'],
      global_idx := (if live_ban ?en = live_ban ?e' then global_idx s else gban_adjust_idx (ce_value ?e') (live_ban ?e') (global_idx s))\<rparr>"
    unfolding sn lb using F(1) by (cases "key = ''B''"; cases "entry_active ?en"; cases ?in) (simp_all add: gban_adjust_def)
  show ?thesis
  proof (rule global_update_inv [OF assms(1) F(1) _ _ _ _ s'])
    show "entry_ok ?e'" using N F(2) nul assms(2) by (simp add: entry_ok_def)
    show "gkey (ce_key ?e') (ce_value ?e') = gkey (ce_key ?e') (ce_value ?en)" using N F(2) by simp
    show "live_bans_of (lower (first_field (ce_value ?e'))) (global_entries s) < MAX_BANS_PER_CHAN" if "live_ban ?e'" "\<not> live_ban ?en"
    proof -
      have "bans_live_in s (first_field norm) < MAX_BANS_PER_CHAN"
        using room lb that by (force simp: ban_ceiling_def MAX_BANS_PER_CHAN_def MAX_GLOBAL_BANS_def split: if_splits)
      then show ?thesis using bans_live_in_count assms(1) by (simp add: store_inv_def)
    qed
  qed simp
qed

lemma evict_inv:
  assumes "store_inv s"
  shows "store_inv (snd (evict_oldest_tombstone e key s))"
  using assms store_inv_reindex [OF assms swap_remove_submset]
  by (auto simp: evict_oldest_tombstone_def split: option.splits)

lemma live_bans_evict:
  "live_bans_of k (global_entries (snd (evict_oldest_tombstone e key s))) \<le> live_bans_of k (global_entries s)"
  using filter_length_mset [OF swap_remove_submset]
  by (auto simp: evict_oldest_tombstone_def live_bans_of_def split: option.splits)

lemma make_room_entries: "make_room e key s = (room, s1) \<Longrightarrow> set (global_entries s1) \<subseteq> set (global_entries s)"
  using set_swap_remove_subset
  by (fastforce simp: make_room_def evict_oldest_tombstone_def split: if_splits prod.splits option.splits)

lemma make_room_inv:
  assumes "store_inv s" "make_room e key s = (room, s1)"
  shows "store_inv s1" "room \<Longrightarrow> global_room s1 key" "live_bans_of k (global_entries s1) \<le> live_bans_of k (global_entries s)"
  using assms(1,2) evict_inv [OF assms(1), of e key] live_bans_evict [of k e key s]
  by (auto simp: make_room_def split: if_splits prod.splits)

lemma put_new_shape:
  assumes "make_room e key s = (room, s1)"
  shows "snd (put_new e key value ts s) = s \<or>
    snd (put_new e key value ts s) =
      (if room then push_entry \<lparr>ce_key = key, ce_value = value, ce_ts = ts, ce_last_used = 0\<rparr> s1 else s1)"
proof (cases "(let in_active = key = ''D'' \<or> global_value_active value in
    \<not> in_active \<and> purge_floor_blocks e s ts \<or> key = ''B'' \<and> in_active \<and>
    (length (first_field value) \<ge> MAX_CHAN \<or> bans_live_in s (first_field value) \<ge> ban_ceiling (first_field value)))")
  case True
  then have "put_new e key value ts s = (False, s)" unfolding put_new_def Let_def by (auto split: if_splits)
  then show ?thesis by simp
next
  case False
  then show ?thesis using assms unfolding put_new_def Let_def by (auto simp: push_entry_def)
qed

lemma put_new_inv:
  assumes "store_inv s" "key_is_modes key" "record_valid key value" "global_find s key value = None"
  shows "store_inv (snd (put_new e key value ts s))"
proof (cases "(let in_active = key = ''D'' \<or> global_value_active value in
    \<not> in_active \<and> purge_floor_blocks e s ts \<or> key = ''B'' \<and> in_active \<and>
    (length (first_field value) \<ge> MAX_CHAN \<or> bans_live_in s (first_field value) \<ge> ban_ceiling (first_field value)))")
  case True
  then have "put_new e key value ts s = (False, s)" unfolding put_new_def Let_def by (auto split: if_splits)
  then show ?thesis using assms(1) by simp
next
  case False
  let ?e = "\<lparr>ce_key = key, ce_value = value, ce_ts = ts, ce_last_used = 0\<rparr>"
  obtain room s1 where r: "make_room e key s = (room, s1)" by (cases "make_room e key s")
  note R = make_room_inv [OF assms(1) r]
  have p: "snd (put_new e key value ts s) = (if room then push_entry ?e s1 else s1)"
    using False r unfolding put_new_def Let_def by (auto simp: push_entry_def)
  have "store_inv (push_entry ?e s1)" if room
  proof (rule push_entry_inv [OF R(1)])
    show "entry_ok ?e" using assms(2,3) by (auto simp: entry_ok_def key_is_modes_def)
    show "global_room s1 (ce_key ?e)" using R(2) that by simp
    have "rec_key ?e \<notin> rec_key ` set (global_entries s)" using global_find_None [OF assms(1,4)] by simp
    then show "rec_key ?e \<notin> rec_key ` set (global_entries s1)" using make_room_entries [OF r] by blast
    assume "live_ban ?e"
    then have "bans_live_in s (first_field value) < MAX_BANS_PER_CHAN"
      using False by (auto simp: live_ban_def ban_ceiling_def MAX_BANS_PER_CHAN_def MAX_GLOBAL_BANS_def split: if_splits)
    then show "live_bans_of (lower (first_field (ce_value ?e))) (global_entries s1) < MAX_BANS_PER_CHAN"
      using bans_live_in_count assms(1) R(3) [of "lower (first_field value)"] by (simp add: store_inv_def)
  qed
  then show ?thesis using p R(1) by simp
qed

lemma put_record_inv: "store_inv s \<Longrightarrow> store_inv (snd (put_record e key value ts s))"
  using put_found_inv put_new_inv by (auto simp: put_record_def split: option.splits)

section \<open>Channels and what hangs off them\<close>

definition chan_entries :: "hub_state \<Rightarrow> config_entry set" where
  "chan_entries s = {e \<in> set (global_entries s). ce_key e = ''c''}"

lemma chan_live_iff:
  assumes "store_inv s"
  shows "chan_live s chan = Some name \<longleftrightarrow>
    (\<exists>e \<in> chan_entries s. gkey ''c'' (ce_value e) = gkey ''c'' chan \<and> global_value_active (ce_value e) \<and>
       name = trunc_string (first_field (ce_value e)) MAX_CHAN)"
proof -
  have nul: "CHR 0x00 \<notin> set ''c''" by simp
  have key: "ce_key e = ''c''" if "e \<in> set (global_entries s)" "rec_key e = gkey ''c'' chan" for e
    using that assms gkey_eq [of "ce_key e" "''c''"] by (auto simp: store_inv_def entry_ok_def)
  show ?thesis
  proof (cases "global_find s ''c'' chan")
    case None
    then have "gkey ''c'' chan \<notin> rec_key ` set (global_entries s)" by (rule global_find_None [OF assms])
    then show ?thesis using None by (force simp: chan_live_def chan_entries_def)
  next
    case (Some i)
    note F = global_find_Some [OF assms Some nul]
    have uniq: "e = global_entries s ! i" if "e \<in> set (global_entries s)" "rec_key e = gkey ''c'' chan" for e
      using that F(1-3) assms nth_mem [OF F(1)] by (auto simp: store_inv_def distinct_map inj_on_def)
    have mem: "e \<in> chan_entries s \<and> gkey ''c'' (ce_value e) = gkey ''c'' chan \<longleftrightarrow> e = global_entries s ! i" for e
      using F(1-3) uniq [of e] by (auto simp: chan_entries_def)
    then have "(\<exists>e \<in> chan_entries s. gkey ''c'' (ce_value e) = gkey ''c'' chan \<and> P e) \<longleftrightarrow> P (global_entries s ! i)" for P
      by (metis (no_types, lifting))
    from this [of "\<lambda>e. global_value_active (ce_value e) \<and> name = trunc_string (first_field (ce_value e)) MAX_CHAN"]
    show ?thesis using Some by (auto simp: chan_live_def Let_def)
  qed
qed

lemma chan_live_cong:
  assumes "store_inv s" "store_inv s'" "chan_entries s' = chan_entries s"
  shows "chan_live s' chan = chan_live s chan"
proof -
  have "chan_live s' chan = Some n \<longleftrightarrow> chan_live s chan = Some n" for n
    using chan_live_iff assms by simp
  then show ?thesis by (cases "chan_live s chan"; cases "chan_live s' chan") auto
qed

lemma set_swap_remove: "i < length xs \<Longrightarrow> insert (xs ! i) (set (swap_remove i xs)) = set xs"
  using mset_swap_remove [of i xs] by (metis set_mset_add_mset_insert set_mset_mset)

lemma oldest_tomb_Some:
  assumes "oldest_tomb es key h is best = Some b"
    and "\<forall>i \<in> set is. i < length es" "\<forall>j. best = Some j \<longrightarrow> j < length es \<and> ce_key (es ! j) = key \<and> \<not> entry_active (es ! j)"
  shows "b < length es \<and> ce_key (es ! b) = key \<and> \<not> entry_active (es ! b)"
  using assms
proof (induction es key h "is" best rule: oldest_tomb.induct)
  case (2 es key h i "is" best)
  let ?b = "if ce_key (es ! i) \<noteq> key \<or> entry_active (es ! i) \<or> ce_ts (es ! i) > h then best
            else case best of None \<Rightarrow> Some i | Some b \<Rightarrow> if ce_ts (es ! i) < ce_ts (es ! b) then Some i else best"
  have b: "\<forall>j. ?b = Some j \<longrightarrow> j < length es \<and> ce_key (es ! j) = key \<and> \<not> entry_active (es ! j)"
    using 2(3,4) by (cases best) (auto split: if_splits)
  have "oldest_tomb es key h is ?b = Some b" using 2(2) by (simp add: Let_def)
  then show ?case using 2(1) [OF refl _ _ b] 2(3) by simp
qed simp

lemma evict_chan_entries:
  assumes "key \<noteq> ''c''"
  shows "chan_entries (snd (evict_oldest_tombstone e key s)) = chan_entries s"
proof (cases "oldest_tomb (global_entries s) key (tomb_horizon e s) [0..<length (global_entries s)] None")
  case None
  then show ?thesis by (simp add: evict_oldest_tombstone_def)
next
  case (Some b)
  then have "b < length (global_entries s)" "ce_key (global_entries s ! b) = key" using oldest_tomb_Some [OF Some] by auto
  then have "x \<in> set (swap_remove b (global_entries s)) \<and> ce_key x = ''c'' \<longleftrightarrow> x \<in> set (global_entries s) \<and> ce_key x = ''c''" for x
    using assms set_swap_remove [of b "global_entries s"] by (metis insert_iff)
  then show ?thesis using Some by (simp add: evict_oldest_tombstone_def chan_entries_def)
qed

lemma put_found_shape:
  "snd (put_found e i key value ts s) = s \<or>
   (\<exists>v x. snd (put_found e i key value ts s) =
      s\<lparr>global_entries := (global_entries s)[i := (global_entries s ! i)\<lparr>ce_value := v, ce_ts := ts\<rparr>], global_idx := x\<rparr>)"
proof (cases "rec_norm key (ce_value (global_entries s ! i)) value")
  case None
  then show ?thesis by (simp add: put_found_def)
next
  case (Some norm)
  let ?s = "s\<lparr>global_entries := (global_entries s)[i := (global_entries s ! i)\<lparr>ce_value := norm, ce_ts := ts\<rparr>]\<rparr>"
  let ?t = "snd (put_found e i key value ts s)"
  have "?t = s \<or> ?t = ?s \<or> (\<exists>b. ?t = gban_adjust i b ?s)"
    using Some by (auto simp: put_found_def Let_def)
  then consider "?t = s" | "?t = ?s" | b where "?t = gban_adjust i b ?s" by blast
  then show ?thesis
  proof cases
    case 2
    then have "?t = s\<lparr>global_entries := (global_entries s)[i := (global_entries s ! i)\<lparr>ce_value := norm, ce_ts := ts\<rparr>],
        global_idx := global_idx s\<rparr>" by simp
    then show ?thesis by (intro disjI2 exI)
  next
    case 3
    then have "?t = s\<lparr>global_entries := (global_entries s)[i := (global_entries s ! i)\<lparr>ce_value := norm, ce_ts := ts\<rparr>],
        global_idx := gban_adjust_idx (ce_value (global_entries ?s ! i)) b (global_idx ?s)\<rparr>" by (simp add: gban_adjust_def)
    then show ?thesis by (intro disjI2 exI)
  qed simp
qed

lemma filter_update_other:
  "i < length xs \<Longrightarrow> \<not> P (xs ! i) \<Longrightarrow> \<not> P y \<Longrightarrow> {x \<in> set (xs[i := y]). P x} = {x \<in> set xs. P x}"
proof -
  assume a: "i < length xs" "\<not> P (xs ! i)" "\<not> P y"
  have "filter P (xs[i := y]) = filter P (take i xs @ y # drop (Suc i) xs)" using a(1) by (simp add: upd_conv_take_nth_drop)
  also have "\<dots> = filter P (take i xs @ xs ! i # drop (Suc i) xs)" using a(2,3) by simp
  also have "\<dots> = filter P xs" using id_take_nth_drop [OF a(1)] by simp
  finally show ?thesis by (metis set_filter)
qed

lemma put_record_chan_entries:
  assumes "store_inv s"
  shows "chan_entries (snd (put_record e key value ts s)) = chan_entries s"
proof (cases "key_is_modes key")
  case True
  then have kc: "key \<noteq> ''c''" "CHR 0x00 \<notin> set key" by (auto simp: key_is_modes_def)
  have found: "chan_entries (snd (put_found e i key value ts s)) = chan_entries s" if "global_find s key value = Some i" for i
  proof -
    note F = global_find_Some [OF assms that kc(2)]
    have "chan_entries (s\<lparr>global_entries := (global_entries s)[i := (global_entries s ! i)\<lparr>ce_value := v, ce_ts := t\<rparr>], global_idx := x\<rparr>)
        = chan_entries s" for v t x
      unfolding chan_entries_def using filter_update_other [of i "global_entries s" "\<lambda>e. ce_key e = ''c''"] F(1,2) kc(1) by simp
    then show ?thesis using put_found_shape [of e i key "value" ts s] by auto
  qed
  have new: "chan_entries (snd (put_new e key value ts s)) = chan_entries s"
  proof -
    obtain room s1 where r: "make_room e key s = (room, s1)" by (cases "make_room e key s")
    have "chan_entries s1 = chan_entries s"
      using r evict_chan_entries [OF kc(1), of e s] by (auto simp: make_room_def split: if_splits prod.splits)
    moreover have "chan_entries (push_entry \<lparr>ce_key = key, ce_value = value, ce_ts = ts, ce_last_used = 0\<rparr> s1) = chan_entries s1"
      using kc(1) by (auto simp: chan_entries_def)
    ultimately show ?thesis using put_new_shape [OF r, of "value" ts] by presburger
  qed
  show ?thesis using found new by (auto simp: put_record_def split: option.splits)
qed (simp add: put_record_def)

end
