(* ===== verification/Chan_Cascade.thy ===== *)
theory Chan_Cascade
  imports Record_Store
begin

text \<open>
  What hangs off a channel: the cascade of a channel's deletion, the learned channel state and the
  orphan sweep of \<^verbatim>\<open>src/src/storage.rs\<close> (defined in theory \<^verbatim>\<open>Records\<close>).  Properties: a deleted
  channel leaves no live setting, ban, binding or learned state behind; the sweep removes exactly
  the orphans; learned state exists for live channels only, whichever operations ran before.
\<close>

section \<open>The tombstone of a record\<close>

lemma rec_empty_ok [simp]: "rec_modes_ok []" "rec_settings_ok [] n" "rec_text_ok [] n" "rec_op_ok ''del''" "rec_num_ok ''0''"
  by (simp_all add: rec_modes_ok_def rec_settings_ok_def rec_text_ok_def rec_op_ok_def rec_num_ok_def is_digit_def settings_tokens.simps)

lemma rec_chan_ok_length: "rec_chan_ok c b \<Longrightarrow> length c < MAX_CHAN"
  by (auto simp: rec_chan_ok_def MAX_CHAN_def)

lemma cascade_tomb_ok:
  assumes "ce_key en = ''C'' \<or> ce_key en = ''B''" "entry_ok en"
  shows "record_valid (ce_key en) (cascade_tomb en)" "ident (ce_key en) (cascade_tomb en) = ident (ce_key en) (ce_value en)"
    "\<not> global_value_active (cascade_tomb en)" "length (cascade_tomb en) < 1024"
proof -
  have "record_valid (ce_key en) (cascade_tomb en) \<and> ident (ce_key en) (cascade_tomb en) = ident (ce_key en) (ce_value en) \<and>
    \<not> global_value_active (cascade_tomb en) \<and> length (cascade_tomb en) < 1024"
  proof (cases "ce_key en = ''C''")
    case True
    then have "record_valid ''C'' (ce_value en)" using assms(2) by (simp add: entry_ok_def key_is_modes_def)
    then obtain c m st op where v: "ce_value en = join_with bar [c, m, st, op]" "rec_chan_ok c False" using record_valid_C by blast
    have i: "ident ''C'' (ce_value en) = c" using v ident_C by simp
    then have t: "cascade_tomb en = join_with bar [c, [], [], ''del'']" using True by (simp add: cascade_tomb_def ident_def)
    have l: "length (cascade_tomb en) < 1024" using t rec_chan_ok_length [OF v(2)] by (simp add: MAX_CHAN_def)
    have "record_valid ''C'' (cascade_tomb en)"
      unfolding record_valid_C using t l v(2) by (intro exI [of _ c] exI [of _ "[]"] exI [of _ "''del''"]) simp
    then show ?thesis using True i t l v(2) ident_C active_op [of "''del''" "c @ ''||''"] by simp
  next
    case False
    then have B: "ce_key en = ''B''" using assms(1) by simp
    then have "ban_valid (ce_value en)" using assms(2) by (simp add: entry_ok_def key_is_modes_def record_valid_def)
    then obtain c m x f st r op where v: "ce_value en = ban_text c m x f st r op" "ban_fields c m x f st r op"
      by (rule ban_valid_fields)
    have i: "ident ''B'' (ban_text c m x' f' st' r' op') = c @ bar # m" for x' f' st' r' op'
      using ban_fields_free [OF v(2)] ident_len_two by (simp add: ban_text_def)
    then have t: "cascade_tomb en = ban_text c m ''0'' [] [] [] ''del''"
      using B v by (simp add: cascade_tomb_def ident_def ban_text_def)
    have bf: "ban_fields c m ''0'' [] [] [] ''del''" using v(2) by (simp add: ban_fields_def BAN_SETTER_MAX_def)
    have l: "length (cascade_tomb en) < 1024"
      using t v(2) rec_chan_ok_length [of c True] 
      by (simp add: ban_text_def ban_fields_def rec_mask_ok_def BAN_MASK_MAX_def MAX_CHAN_def)
    then have "record_valid ''B'' (cascade_tomb en)" using ban_valid_text [OF bf] t by (simp add: record_valid_def)
    moreover have "\<not> global_value_active (cascade_tomb en)"
      using t active_op [of "''del''" "c @ bar # m @ ''|0|||''"] by (simp add: ban_text_def)
    moreover have "ident ''B'' (cascade_tomb en) = ident ''B'' (ce_value en)" unfolding t v(1) i by (rule refl)
    ultimately show ?thesis using B l by simp
  qed
  then show "record_valid (ce_key en) (cascade_tomb en)" "ident (ce_key en) (cascade_tomb en) = ident (ce_key en) (ce_value en)"
    "\<not> global_value_active (cascade_tomb en)" "length (cascade_tomb en) < 1024" by blast+
qed

text \<open>A stored record is found under its own identity, and a tombstone no older than it replaces it.\<close>

lemma global_find_self:
  assumes "store_inv s" "i < length (global_entries s)" "gkey (ce_key (global_entries s ! i)) v = rec_key (global_entries s ! i)"
  shows "global_find s (ce_key (global_entries s ! i)) v = Some i"
proof -
  let ?es = "global_entries s"
  have u: "j = i" if "j < length ?es" "rec_key (?es ! j) = rec_key (?es ! i)" for j
    using nth_eq_iff_index_eq [of "map rec_key ?es" j i] assms(1,2) that by (simp add: store_inv_def)
  obtain j where j: "position (\<lambda>e. rec_key e = rec_key (?es ! i)) ?es = Some j"
    using assms(2) position_None [of "\<lambda>e. rec_key e = rec_key (?es ! i)" ?es] nth_mem by blast
  then have "j = i" using u position_SomeD [OF j] by blast
  then have "position (\<lambda>e. rec_key e = rec_key (?es ! i)) ?es = Some i" using j by simp
  then show ?thesis using assms by (simp add: global_find_def store_inv_def idx_ok_def idx_of_def)
qed

text \<open>The effect of the cascade on one record: a live setting or ban of the channel that is no newer.\<close>

definition tombed :: "string \<Rightarrow> i64 \<Rightarrow> config_entry \<Rightarrow> config_entry" where
  "tombed chan ts en =
     (if (ce_key en = ''C'' \<or> ce_key en = ''B'') \<and> entry_active en \<and> entry_chan_eq en chan \<and> ce_ts en \<le> ts
      then en\<lparr>ce_value := cascade_tomb en, ce_ts := ts\<rparr> else en)"

lemma put_record_tomb:
  assumes "store_inv s" "i < length (global_entries s)" "en = global_entries s ! i"
    and "ce_key en = ''C'' \<or> ce_key en = ''B''" "entry_active en" "ce_ts en \<le> ts" "0 < ts" "\<not> ts_ahead e ts"
  obtains x where "put_record e (ce_key en) (cascade_tomb en) ts s =
    (True, s\<lparr>global_entries := (global_entries s)[i := en\<lparr>ce_value := cascade_tomb en, ce_ts := ts\<rparr>], global_idx := x\<rparr>)"
proof -
  let ?k = "ce_key en" let ?nv = "cascade_tomb en"
  have ok: "entry_ok en" using assms(1-3) by (auto simp: store_inv_def)
  note T = cascade_tomb_ok [OF assms(4) ok]
  have k: "key_is_modes ?k" "?k \<noteq> ''D''" using assms(4) by (auto simp: key_is_modes_def)
  have "gkey ?k ?nv = rec_key en" using T(2) by (simp add: gkey_alt folded_ident_def)
  then have f: "global_find s ?k ?nv = Some i" using global_find_self [of s i ?nv] assms(1-3) by simp
  have il: "ident_len ?k ?nv = ident_len ?k (ce_value en)" using T(2) length_ident by metis
  then have "take (ident_len ?k (ce_value en)) (ce_value en) @ drop (ident_len ?k ?nv) ?nv = ?nv"
    using T(2) by (metis append_take_drop_id ident_def)
  moreover have "ident_len ?k (ce_value en) + length (drop (ident_len ?k ?nv) ?nv) = length ?nv"
    using il ident_len_le [of ?k ?nv] by simp
  ultimately have n: "rec_norm ?k (ce_value en) ?nv = Some ?nv" using T(4) k(2) by (simp add: rec_norm_def Let_def)
  have "rec_accepts e ts ?nv False (ce_ts en) (ce_value en) True" using assms(6,8) by (simp add: rec_accepts_def)
  then have "put_found e i ?k ?nv ts s = (True,
      let s1 = s\<lparr>global_entries := (global_entries s)[i := en\<lparr>ce_value := ?nv, ce_ts := ts\<rparr>]\<rparr>
      in if ?k = ''B'' then gban_adjust i False s1 else s1)"
    unfolding put_found_def Let_def assms(3) [symmetric] n using T(3) k(2) assms(5) by simp
  then have "put_record e ?k ?nv ts s = (True, s\<lparr>global_entries := (global_entries s)[i := en\<lparr>ce_value := ?nv, ce_ts := ts\<rparr>],
      global_idx := (if ?k = ''B'' then gban_adjust_idx ?nv False (global_idx s) else global_idx s)\<rparr>)"
    using f k T(1) assms(2,7,8) by (simp add: put_record_def gban_adjust_def Let_def)
  then show thesis by (rule that)
qed

text \<open>A newer record keeps its value: the last writer wins.\<close>

lemma put_record_newer:
  assumes "store_inv s" "i < length (global_entries s)" "en = global_entries s ! i"
    and "ce_key en = ''C'' \<or> ce_key en = ''B''" "entry_active en" "ts < ce_ts en"
  shows "put_record e (ce_key en) (cascade_tomb en) ts s = (False, s)"
proof -
  let ?k = "ce_key en" let ?nv = "cascade_tomb en"
  have ok: "entry_ok en" using assms(1-3) by (auto simp: store_inv_def)
  note T = cascade_tomb_ok [OF assms(4) ok]
  have "gkey ?k ?nv = rec_key en" using T(2) by (simp add: gkey_alt folded_ident_def)
  then have f: "global_find s ?k ?nv = Some i" using global_find_self [of s i ?nv] assms(1-3) by simp
  have "\<not> rec_accepts e ts n a (ce_ts en) v b" for n a v b using assms(6) by (simp add: rec_accepts_def)
  then have "put_found e i ?k ?nv ts s = (False, s)"
    unfolding put_found_def Let_def assms(3) [symmetric] by (simp split: option.split)
  then show ?thesis using f by (simp add: put_record_def)
qed

section \<open>The cascade\<close>

lemma tombed_key [simp]: "ce_key (tombed chan ts en) = ce_key en"
  by (simp add: tombed_def)

lemma cascade_record_step:
  assumes "store_inv s" "i < length (global_entries s)" "0 < ts" "\<not> ts_ahead e ts"
  shows "\<exists>c' out' x. cascade_record e chan ts announce i (c, out, s) =
    (c', out', s\<lparr>global_entries := (global_entries s)[i := tombed chan ts (global_entries s ! i)], global_idx := x\<rparr>)"
proof -
  let ?en = "global_entries s ! i"
  have same: "s = s\<lparr>global_entries := (global_entries s)[i := ?en], global_idx := global_idx s\<rparr>" by simp
  have ok: "entry_ok ?en" using assms(1,2) by (auto simp: store_inv_def)
  show ?thesis
  proof (cases "(ce_key ?en = ''C'' \<or> ce_key ?en = ''B'') \<and> entry_active ?en \<and> entry_chan_eq ?en chan")
    case False
    then have "cascade_record e chan ts announce i (c, out, s) = (c, out, s)" "tombed chan ts ?en = ?en"
      by (auto simp: cascade_record_def tombed_def Let_def)
    then show ?thesis using same by (metis (no_types))
  next
    case True
    note T = cascade_tomb_ok [OF conjunct1 [OF True] ok]
    show ?thesis
    proof (cases "ce_ts ?en \<le> ts")
      case False
      then have "put_record e (ce_key ?en) (cascade_tomb ?en) ts s = (False, s)"
        using put_record_newer [OF assms(1,2) refl, of ts e] True by simp
      then have "cascade_record e chan ts announce i (c, out, s) = (c, out, s)"
        unfolding cascade_record_def Let_def prod.case by simp
      moreover have "tombed chan ts ?en = ?en" using False by (simp add: tombed_def)
      ultimately show ?thesis using same by (metis (no_types))
    next
      case le: True
      obtain x where p: "put_record e (ce_key ?en) (cascade_tomb ?en) ts s =
          (True, s\<lparr>global_entries := (global_entries s)[i := ?en\<lparr>ce_value := cascade_tomb ?en, ce_ts := ts\<rparr>], global_idx := x\<rparr>)"
        using put_record_tomb [OF assms(1,2) refl _ _ le assms(3,4)] True by blast
      have "cascade_record e chan ts announce i (c, out, s) = (c + 1,
          announce_line announce (ce_key ?en @ ''|'' @ cascade_tomb ?en @ ''|'' @ show_int ts @ [CHR 0x0A]) out,
          s\<lparr>global_entries := (global_entries s)[i := tombed chan ts ?en], global_idx := x\<rparr>)"
        unfolding cascade_record_def Let_def prod.case p bool.case using True le T(4) by (simp add: tombed_def)
      then show ?thesis by blast
    qed
  qed
qed

lemma cascade_record_inv: "store_inv s \<Longrightarrow> store_inv (snd (snd (cascade_record e chan ts announce i (c, out, s))))"
  using put_record_inv [of s e "ce_key (global_entries s ! i)" "cascade_tomb (global_entries s ! i)" ts]
  by (auto simp: cascade_record_def Let_def split: prod.splits bool.splits)

lemma cascade_records:
  assumes "store_inv s" "0 < ts" "\<not> ts_ahead e ts" "k \<le> length (global_entries s)"
  shows "\<exists>c' out' x. fold (cascade_record e chan ts announce) [0..<k] (c, out, s) =
      (c', out', s\<lparr>global_entries := map (tombed chan ts) (take k (global_entries s)) @ drop k (global_entries s), global_idx := x\<rparr>) \<and>
    store_inv (s\<lparr>global_entries := map (tombed chan ts) (take k (global_entries s)) @ drop k (global_entries s), global_idx := x\<rparr>)"
  using assms(4)
proof (induction k)
  case 0
  have "s = s\<lparr>global_entries := map (tombed chan ts) (take 0 (global_entries s)) @ drop 0 (global_entries s), global_idx := global_idx s\<rparr>" by simp
  then show ?case using assms(1) by (metis (no_types) fold.simps(1) id_apply upt_0)
next
  case (Suc k)
  let ?es = "global_entries s"
  obtain c' out' x where IH: "fold (cascade_record e chan ts announce) [0..<k] (c, out, s) =
      (c', out', s\<lparr>global_entries := map (tombed chan ts) (take k ?es) @ drop k ?es, global_idx := x\<rparr>)"
    "store_inv (s\<lparr>global_entries := map (tombed chan ts) (take k ?es) @ drop k ?es, global_idx := x\<rparr>)"
    using Suc by auto
  let ?s = "s\<lparr>global_entries := map (tombed chan ts) (take k ?es) @ drop k ?es, global_idx := x\<rparr>"
  have k: "k < length ?es" using Suc.prems by simp
  have nth: "global_entries ?s ! k = ?es ! k" using k by (simp add: nth_append)
  obtain c2 out2 y where st: "cascade_record e chan ts announce k (c', out', ?s) =
      (c2, out2, ?s\<lparr>global_entries := (global_entries ?s)[k := tombed chan ts (?es ! k)], global_idx := y\<rparr>)"
    using cascade_record_step [OF IH(2) _ assms(2,3), of k chan announce c' out'] nth k by auto
  have up: "(map (tombed chan ts) (take k ?es) @ drop k ?es)[k := tombed chan ts (?es ! k)] =
      map (tombed chan ts) (take (Suc k) ?es) @ drop (Suc k) ?es"
    using k by (simp add: list_update_append take_Suc_conv_app_nth Cons_nth_drop_Suc [symmetric] del: upt_Suc)
  have "store_inv (snd (snd (cascade_record e chan ts announce k (c', out', ?s))))" by (rule cascade_record_inv [OF IH(2)])
  then show ?case using IH(1) st up by (intro exI [of _ c2] exI [of _ out2] exI [of _ y]) simp
qed

text \<open>The bindings of the channel, one by one.\<close>

definition bound_to :: "string \<Rightarrow> uchan_record \<Rightarrow> bool" where
  "bound_to chan r \<longleftrightarrow> uc_active r \<and> uc_chan r \<noteq> ''*'' \<and> eq_ic (uc_chan r) chan"

definition unbound :: "string \<Rightarrow> i64 \<Rightarrow> uchan_record \<Rightarrow> uchan_record" where
  "unbound chan ts r = (if bound_to chan r \<and> uc_ts r \<le> ts then r\<lparr>uc_active := False, uc_ts := ts\<rparr> else r)"

lemma uchan_key_unbound [simp]: "uchan_key (unbound chan ts r) = uchan_key r"
  by (simp add: unbound_def uchan_key_def)

lemma uchan_put_at:
  assumes "uchan_inv s" "i < length (uchan_records s)" "r = uchan_records s ! i" "bound_to chan r" "0 < ts" "\<not> ts_ahead e ts"
  shows "\<exists>d. snd (uchan_put e (uc_uuid r) (uc_chan r) False ts s) =
    s\<lparr>uchan_records := (uchan_records s)[i := unbound chan ts r], config_dirty := d\<rparr>"
proof -
  let ?us = "uchan_records s"
  have k: "(uc_uuid r, lower (uc_chan r)) = uchan_key r" by (simp add: uchan_key_def)
  obtain j where j: "position (\<lambda>u. uchan_key u = uchan_key r) ?us = Some j"
    using assms(2,3) position_None [of "\<lambda>u. uchan_key u = uchan_key r" ?us] nth_mem by blast
  then have "j = i"
    using position_SomeD [OF j] nth_eq_iff_index_eq [of "map uchan_key ?us" j i] assms(1-3) by (simp add: uchan_inv_def)
  then have f: "uchan_find s (uc_uuid r) (uc_chan r) = Some i" using j by (simp add: uchan_find_key k)
  have ok: "uuid_shape (uc_uuid r)" "uchan_name_ok (uc_chan r)" using assms(1-3) nth_mem by (auto simp: uchan_inv_def uchan_ok_def)
  have acc: "lww_accepts e ts False (uc_ts r) (uc_active r) \<longleftrightarrow> uc_ts r \<le> ts"
    using assms(4,6) by (auto simp: lww_accepts_beats flag_beats_def bound_to_def)
  show ?thesis
  proof (cases "uc_ts r \<le> ts")
    case True
    then have "snd (uchan_put e (uc_uuid r) (uc_chan r) False ts s) =
        s\<lparr>uchan_records := ?us[i := unbound chan ts r], config_dirty := True\<rparr>"
      using f ok acc assms(3-6) by (simp add: uchan_put_def uchan_store_def unbound_def Let_def)
    then show ?thesis by blast
  next
    case False
    then have "snd (uchan_put e (uc_uuid r) (uc_chan r) False ts s) =
        s\<lparr>uchan_records := ?us[i := unbound chan ts r], config_dirty := config_dirty s\<rparr>"
      using f ok acc assms(2-6) by (simp add: uchan_put_def unbound_def Let_def)
    then show ?thesis by blast
  qed
qed

lemma cascade_bind_state:
  "snd (snd (cascade_bind e ts announce (uuid, c) (n, out, s))) = snd (uchan_put e uuid c False ts s)"
  by (auto simp: cascade_bind_def split: prod.splits bool.splits)

lemma cascade_binds:
  assumes "uchan_inv s" "uchan_records s = pre @ post" "0 < ts" "\<not> ts_ahead e ts"
  shows "\<exists>d. snd (snd (fold (cascade_bind e ts announce) (map (\<lambda>r. (uc_uuid r, uc_chan r)) (filter (bound_to chan) post)) (n, out, s))) =
    s\<lparr>uchan_records := pre @ map (unbound chan ts) post, config_dirty := d\<rparr>"
  using assms(1,2)
proof (induction post arbitrary: pre n out s)
  case Nil
  then show ?case by (intro exI [of _ "config_dirty s"]) simp
next
  case (Cons r post)
  show ?case
  proof (cases "bound_to chan r")
    case False
    then show ?thesis using Cons.IH [of s "pre @ [r]" n out] Cons.prems by (simp add: unbound_def)
  next
    case True
    let ?t = "cascade_bind e ts announce (uc_uuid r, uc_chan r) (n, out, s)" let ?s = "snd (snd ?t)"
    have i: "length pre < length (uchan_records s)" "r = uchan_records s ! length pre" using Cons.prems(2) by simp_all
    obtain d where d: "?s = s\<lparr>uchan_records := (pre @ [unbound chan ts r]) @ post, config_dirty := d\<rparr>"
      using uchan_put_at [OF Cons.prems(1) i True assms(3,4)] Cons.prems(2) cascade_bind_state by fastforce
    moreover have "uchan_inv ?s" unfolding cascade_bind_state using Cons.prems(1) by (rule uchan_put_inv)
    ultimately obtain d' where "snd (snd (fold (cascade_bind e ts announce) (map (\<lambda>r. (uc_uuid r, uc_chan r)) (filter (bound_to chan) post))
        (fst ?t, fst (snd ?t), ?s))) = ?s\<lparr>uchan_records := (pre @ [unbound chan ts r]) @ map (unbound chan ts) post, config_dirty := d'\<rparr>"
      using Cons.IH [of ?s "pre @ [unbound chan ts r]" "fst ?t" "fst (snd ?t)"] by auto
    moreover have "(fst ?t, fst (snd ?t), ?s) = ?t" by simp
    ultimately show ?thesis using True d by (intro exI [of _ d']) simp
  qed
qed

section \<open>What the operations leave alone\<close>

lemma put_record_frame: "\<exists>es x. snd (put_record e key value ts s) = s\<lparr>global_entries := es, global_idx := x\<rparr>"
proof -
  have id: "\<exists>es x. s = s\<lparr>global_entries := es, global_idx := x\<rparr>"
    by (intro exI [of _ "global_entries s"] exI [of _ "global_idx s"]) simp
  have found: "\<exists>es x. snd (put_found e i key value ts s) = s\<lparr>global_entries := es, global_idx := x\<rparr>" for i
    using put_found_shape [of e i key "value" ts s] id by metis
  have new: "\<exists>es x. snd (put_new e key value ts s) = s\<lparr>global_entries := es, global_idx := x\<rparr>"
  proof -
    obtain room s1 where r: "make_room e key s = (room, s1)" by (cases "make_room e key s")
    have re: "\<exists>es x. global_reindex (s\<lparr>global_entries := es'\<rparr>) = s\<lparr>global_entries := es, global_idx := x\<rparr>" for es'
      using global_reindex_state [of "s\<lparr>global_entries := es'\<rparr>"] by metis
    have "\<exists>es x. s1 = s\<lparr>global_entries := es, global_idx := x\<rparr>"
      using r id re by (auto simp: make_room_def evict_oldest_tombstone_def split: if_splits prod.splits option.splits)
    then obtain es x where s1: "s1 = s\<lparr>global_entries := es, global_idx := x\<rparr>" by blast
    have "\<exists>es' x'. push_entry c s1 = s1\<lparr>global_entries := es', global_idx := x'\<rparr>" for c
      unfolding push_entry_def Let_def global_note_new_alt by (intro exI) simp
    then have "\<exists>es' x'. push_entry c s1 = s\<lparr>global_entries := es', global_idx := x'\<rparr>" for c using s1 by simp
    then show ?thesis using put_new_shape [OF r, of "value" ts] s1 id by (metis (no_types))
  qed
  show ?thesis using id found new by (cases "global_find s key value") (simp_all add: put_record_def)
qed

lemma put_record_other [simp]:
  "uchan_records (snd (put_record e key value ts s)) = uchan_records s"
  "chan_learned (snd (put_record e key value ts s)) = chan_learned s"
  "bots (snd (put_record e key value ts s)) = bots s"
  "revoked (snd (put_record e key value ts s)) = revoked s"
  using put_record_frame [of e key "value" ts s] by auto

lemma uchan_put_other_fields [simp]:
  "global_entries (snd (uchan_put e uuid chan active ts s)) = global_entries s"
  "global_idx (snd (uchan_put e uuid chan active ts s)) = global_idx s"
  "chan_learned (snd (uchan_put e uuid chan active ts s)) = chan_learned s"
  "bots (snd (uchan_put e uuid chan active ts s)) = bots s"
  "revoked (snd (uchan_put e uuid chan active ts s)) = revoked s"
  by (cases rule: uchan_put_cases [of e uuid chan active ts s]; simp add: uchan_store_def)+

lemma learned_drop_other [simp]:
  "global_entries (learned_drop chan s) = global_entries s" "global_idx (learned_drop chan s) = global_idx s"
  "uchan_records (learned_drop chan s) = uchan_records s"
  "bots (learned_drop chan s) = bots s" "revoked (learned_drop chan s) = revoked s"
  by (simp_all add: learned_drop_def split: option.split)

lemma cascade_record_other:
  assumes "cascade_record e chan ts announce i (c, out, s) = (c', out', s')"
  shows "store_inv s \<Longrightarrow> store_inv s' \<and> chan_entries s' = chan_entries s"
    "uchan_records s' = uchan_records s" "chan_learned s' = chan_learned s" "bots s' = bots s" "revoked s' = revoked s"
proof -
  have s': "s' = s \<or> s' = snd (put_record e (ce_key (global_entries s ! i)) (cascade_tomb (global_entries s ! i)) ts s)"
    using assms by (auto simp: cascade_record_def Let_def split: prod.splits bool.splits if_splits)
  then show "store_inv s \<Longrightarrow> store_inv s' \<and> chan_entries s' = chan_entries s"
    using put_record_inv put_record_chan_entries by blast
  show "uchan_records s' = uchan_records s" "chan_learned s' = chan_learned s" "bots s' = bots s" "revoked s' = revoked s"
    using s' by auto
qed

text \<open>What the cascade keeps, whatever its stamp.\<close>

definition cascade_keeps :: "hub_state \<Rightarrow> hub_state \<Rightarrow> bool" where
  "cascade_keeps s s' \<longleftrightarrow> store_inv s' \<and> uchan_inv s' \<and> chan_entries s' = chan_entries s \<and> chan_learned s' = chan_learned s \<and>
     bots s' = bots s \<and> revoked s' = revoked s"

lemma cascade_records_keep:
  assumes "store_inv s" "uchan_inv s"
  shows "cascade_keeps s (snd (snd (fold (cascade_record e chan ts announce) is (c, out, s))))"
proof (rule fold_invariant [where P = "\<lambda>x. cascade_keeps s (snd (snd x))" and Q = "\<lambda>_. True"])
  show "cascade_keeps s (snd (snd (c, out, s)))" using assms by (simp add: cascade_keeps_def)
  show "cascade_keeps s (snd (snd (cascade_record e chan ts announce i x)))" if "cascade_keeps s (snd (snd x))" for i x
    using that cascade_record_other [of e chan ts announce i "fst x" "fst (snd x)" "snd (snd x)"]
    by (cases "cascade_record e chan ts announce i x") (auto simp: cascade_keeps_def uchan_inv_def)
qed simp

lemma cascade_binds_keep:
  assumes "store_inv s" "uchan_inv s"
  shows "cascade_keeps s (snd (snd (fold (cascade_bind e ts announce) hits (c, out, s))))"
proof (rule fold_invariant [where P = "\<lambda>x. cascade_keeps s (snd (snd x))" and Q = "\<lambda>_. True"])
  show "cascade_keeps s (snd (snd (c, out, s)))" using assms by (simp add: cascade_keeps_def)
  show "cascade_keeps s (snd (snd (cascade_bind e ts announce h x)))" if "cascade_keeps s (snd (snd x))" for h x
  proof -
    obtain uuid ch n o' t where x: "h = (uuid, ch)" "x = (n, o', t)" by (cases h; cases x)
    have "store_inv (snd (uchan_put e uuid ch False ts t)) = store_inv t" by (rule store_inv_cong) simp_all
    then show ?thesis using that x uchan_put_inv [of t e uuid ch False ts]
      by (simp add: cascade_bind_state cascade_keeps_def chan_entries_def)
  qed
qed simp

lemma cascade_shape:
  obtains c out s1 c2 x s2 s3 where
    "fold (cascade_record e chan ts announce) [0..<length (global_entries s)] (0, ([], []), learned_drop chan s) = (c, out, s1)"
    "fold (cascade_bind e ts announce) (map (\<lambda>r. (uc_uuid r, uc_chan r)) (filter (bound_to chan) (uchan_records s1))) (c, out, s1) = (c2, x, s2)"
    "snd (snd (chan_cascade_del e chan ts announce s)) = s3" "\<exists>d p. s3 = s2\<lparr>config_dirty := d, bot_config_pending := p\<rparr>"
proof -
  obtain c out s1 where 1: "fold (cascade_record e chan ts announce) [0..<length (global_entries s)] (0, ([], []), learned_drop chan s) = (c, out, s1)"
    by (cases "fold (cascade_record e chan ts announce) [0..<length (global_entries s)] (0, ([], []), learned_drop chan s)")
  obtain c2 o2 sent s2 where 2: "fold (cascade_bind e ts announce)
      (map (\<lambda>r. (uc_uuid r, uc_chan r)) (filter (bound_to chan) (uchan_records s1))) (c, out, s1) = (c2, (o2, sent), s2)"
    by (cases "fold (cascade_bind e ts announce) (map (\<lambda>r. (uc_uuid r, uc_chan r)) (filter (bound_to chan) (uchan_records s1))) (c, out, s1)") auto
  have b: "bound_to chan = (\<lambda>r. uc_active r \<and> uc_chan r \<noteq> ''*'' \<and> eq_ic (uc_chan r) chan)" by (simp add: bound_to_def fun_eq_iff)
  have "snd (snd (chan_cascade_del e chan ts announce s)) =
      (if c2 > 0 then (let s3 = s2\<lparr>config_dirty := True\<rparr> in if announce then s3\<lparr>bot_config_pending := True\<rparr> else s3) else s2)"
    using 1 2 unfolding chan_cascade_del_def Let_def b by simp
  moreover have "\<exists>d p. (if c2 > 0 then (let s3 = s2\<lparr>config_dirty := True\<rparr> in if announce then s3\<lparr>bot_config_pending := True\<rparr> else s3) else s2)
      = s2\<lparr>config_dirty := d, bot_config_pending := p\<rparr>"
    by (intro exI [of _ "if c2 > 0 then True else config_dirty s2"] exI [of _ "if c2 > 0 \<and> announce then True else bot_config_pending s2"])
      (simp add: Let_def)
  ultimately show thesis using that [OF 1 2] by simp
qed

lemma cascade_keeps_trans: "cascade_keeps s t \<Longrightarrow> cascade_keeps t u \<Longrightarrow> cascade_keeps s u"
  by (simp add: cascade_keeps_def)

lemma chan_cascade_keeps:
  assumes "store_inv s" "uchan_inv s"
  shows "cascade_keeps (learned_drop chan s) (snd (snd (chan_cascade_del e chan ts announce s)))"
proof -
  obtain c out s1 c2 x s2 s3 where
    1: "fold (cascade_record e chan ts announce) [0..<length (global_entries s)] (0, ([], []), learned_drop chan s) = (c, out, s1)"
    and 2: "fold (cascade_bind e ts announce) (map (\<lambda>r. (uc_uuid r, uc_chan r)) (filter (bound_to chan) (uchan_records s1))) (c, out, s1) = (c2, x, s2)"
    and 3: "snd (snd (chan_cascade_del e chan ts announce s)) = s3" "\<exists>d p. s3 = s2\<lparr>config_dirty := d, bot_config_pending := p\<rparr>"
    by (rule cascade_shape)
  have "store_inv (learned_drop chan s)" "uchan_inv (learned_drop chan s)"
    using assms store_inv_cong [of "learned_drop chan s" s] by (simp_all add: uchan_inv_def)
  from cascade_records_keep [OF this, of e chan ts announce "[0..<length (global_entries s)]" 0 "([], [])"]
  have k1: "cascade_keeps (learned_drop chan s) s1" unfolding 1 by simp
  then have "store_inv s1" "uchan_inv s1" by (simp_all add: cascade_keeps_def)
  from cascade_binds_keep [OF this, of e ts announce "map (\<lambda>r. (uc_uuid r, uc_chan r)) (filter (bound_to chan) (uchan_records s1))" c out]
  have k2: "cascade_keeps s1 s2" unfolding 2 by simp
  have "cascade_keeps (learned_drop chan s) s2" by (rule cascade_keeps_trans [OF k1 k2])
  then show ?thesis using 3 store_inv_cong [of s3 s2] by (auto simp: cascade_keeps_def uchan_inv_def chan_entries_def)
qed

section \<open>Learned state\<close>

definition learned_key :: "chan_learned_rec \<Rightarrow> string" where
  "learned_key l = lower (cl_chan l)"

definition learned_ok :: "chan_learned_rec \<Rightarrow> bool" where
  "learned_ok l \<longleftrightarrow> length (cl_chan l) < MAX_CHAN \<and> bar \<notin> set (cl_chan l) \<and> learned_key_ok (cl_key l) \<and> learned_modes_ok (int (cl_modes l)) \<and> 0 < cl_ts l"

definition learned_inv :: "hub_state \<Rightarrow> bool" where
  "learned_inv s \<longleftrightarrow>
     length (chan_learned s) \<le> MAX_CHANNELS \<and> distinct (map learned_key (chan_learned s)) \<and>
     (\<forall>l \<in> set (chan_learned s). learned_ok l \<and> chan_live s (cl_chan l) \<noteq> None)"

lemma learned_index_key: "learned_index s chan = position (\<lambda>l. learned_key l = lower chan) (chan_learned s)"
  by (simp add: learned_index_def learned_key_def eq_ic_def)

lemma gkey_chan: "gkey ''c'' v = ''c'' @ [CHR 0x00] @ lower (first_field v)"
  by (simp add: gkey_alt folded_ident_def ident_first_field is_singleton_key_def is_folded_key_def)

lemma chan_live_lower: "first_field a = a \<Longrightarrow> first_field b = b \<Longrightarrow> lower a = lower b \<Longrightarrow> chan_live s a = chan_live s b"
  by (simp add: chan_live_def global_find_def gkey_chan)

lemma chan_live_frame:
  "global_entries s' = global_entries s \<Longrightarrow> global_idx s' = global_idx s \<Longrightarrow> chan_live s' c = chan_live s c"
  by (simp add: chan_live_def global_find_def Let_def split: option.split)

lemma chan_live_name:
  assumes "store_inv s" "chan_live s chan = Some name" "rec_chan_ok chan b"
  shows "lower name = lower chan" "length name < MAX_CHAN" "bar \<notin> set name" "chan_live s name \<noteq> None"
proof -
  obtain e where e: "e \<in> chan_entries s" "gkey ''c'' (ce_value e) = gkey ''c'' chan" "global_value_active (ce_value e)"
      "name = trunc_string (first_field (ce_value e)) MAX_CHAN" using assms(1,2) chan_live_iff by blast
  have ff: "first_field chan = chan" using bar_free_fields(1) [OF assms(3)] by (rule first_field_free)
  then have low: "lower (first_field (ce_value e)) = lower chan" using e(2) by (simp add: gkey_chan)
  then have len: "length (first_field (ce_value e)) < MAX_CHAN" using rec_chan_ok_length [OF assms(3)] by (metis length_map)
  then have n: "name = first_field (ce_value e)" using e(4) by simp
  show l: "lower name = lower chan" "length name < MAX_CHAN" using n low len by simp_all
  show "bar \<notin> set name" using n first_field_bar_free by simp
  then have "first_field name = name" by (rule first_field_free)
  then show "chan_live s name \<noteq> None" using chan_live_lower [OF _ ff l(1)] assms(2) by simp
qed

lemma learned_put_inv:
  assumes "store_inv s" "learned_inv s"
  shows "learned_inv (snd (learned_put e chan key modes ts s)) \<and>
    (\<exists>ls. snd (learned_put e chan key modes ts s) = s\<lparr>chan_learned := ls\<rparr>)"
proof (cases "fst (learned_put e chan key modes ts s)")
  case False
  then have "snd (learned_put e chan key modes ts s) = s" by (auto simp: learned_put_def Let_def split: option.splits if_splits)
  then show ?thesis using assms by (auto intro!: exI [of _ "chan_learned s"])
next
  case True
  then have ok: "0 < ts" "rec_chan_ok chan False" "learned_key_ok key" "learned_modes_ok modes"
    by (auto simp: learned_put_def split: if_splits)
  obtain name where n: "chan_live s chan = Some name"
    using True by (cases "chan_live s chan") (auto simp: learned_put_def split: if_splits)
  note N = chan_live_name [OF assms(1) n ok(2)]
  have live: "chan_live (s\<lparr>chan_learned := ls\<rparr>) c = chan_live s c" for ls c by (rule chan_live_frame) simp_all
  have m: "int (nat modes) = modes" using ok(4) by (simp add: learned_modes_ok_def)
  show ?thesis
  proof (cases "learned_index s name")
    case None
    let ?l = "\<lparr>cl_chan = name, cl_key = key, cl_modes = nat modes, cl_ts = ts\<rparr>"
    have p: "snd (learned_put e chan key modes ts s) = s\<lparr>chan_learned := chan_learned s @ [?l]\<rparr>" "length (chan_learned s) < MAX_CHANNELS"
      using True n None by (auto simp: learned_put_def split: if_splits)
    have "learned_key ?l \<notin> learned_key ` set (chan_learned s)"
      using None by (auto simp: learned_index_key position_None learned_key_def)
    then have "learned_inv (s\<lparr>chan_learned := chan_learned s @ [?l]\<rparr>)"
      using assms(2) p(2) N ok m by (auto simp: learned_inv_def live learned_ok_def)
    then show ?thesis using p(1) by auto
  next
    case (Some i)
    let ?l = "(chan_learned s ! i)\<lparr>cl_key := key, cl_modes := nat modes, cl_ts := ts\<rparr>"
    have p: "snd (learned_put e chan key modes ts s) = s\<lparr>chan_learned := (chan_learned s)[i := ?l]\<rparr>"
      using True n Some by (auto simp: learned_put_def Let_def split: if_splits)
    have i: "i < length (chan_learned s)" using Some by (auto simp: learned_index_key dest: position_SomeD)
    have li: "learned_ok (chan_learned s ! i)" "chan_live s (cl_chan (chan_learned s ! i)) \<noteq> None"
      using assms(2) i nth_mem by (auto simp: learned_inv_def)
    have d: "distinct (map learned_key ((chan_learned s)[i := ?l]))"
      using assms(2) by (intro distinct_map_update) (auto simp: learned_inv_def learned_key_def)
    have "learned_ok l \<and> chan_live s (cl_chan l) \<noteq> None" if "l \<in> set ((chan_learned s)[i := ?l])" for l
    proof -
      have "l = ?l \<or> l \<in> set (chan_learned s)" using that set_update_subset_insert by fastforce
      then show ?thesis using assms(2) li ok m by (auto simp: learned_inv_def learned_ok_def)
    qed
    then have "learned_inv (s\<lparr>chan_learned := (chan_learned s)[i := ?l]\<rparr>)" using d assms(2) by (simp add: learned_inv_def live)
    then show ?thesis using p by auto
  qed
qed

lemma learned_ingest_inv:
  assumes "store_inv s" "learned_inv s"
  shows "learned_inv (snd (learned_ingest e body s)) \<and> (\<exists>ls. snd (learned_ingest e body s) = s\<lparr>chan_learned := ls\<rparr>)"
proof -
  have "\<exists>ls. s = s\<lparr>chan_learned := ls\<rparr>" by (intro exI [of _ "chan_learned s"]) simp
  then show ?thesis using assms(2) learned_put_inv [OF assms] by (simp add: learned_ingest_def Let_def)
qed

text \<open>Dropping a slot, and the sweep.\<close>

lemma learned_drop_sub: "mset (chan_learned (learned_drop chan s)) \<subseteq># mset (chan_learned s)"
  by (simp add: learned_drop_def swap_remove_submset split: option.split)

lemma learned_drop_gone:
  assumes "distinct (map learned_key (chan_learned s))"
  shows "\<forall>l \<in> set (chan_learned (learned_drop chan s)). l \<in> set (chan_learned s) \<and> lower (cl_chan l) \<noteq> lower chan"
proof (cases "learned_index s chan")
  case None
  then have "learned_drop chan s = s" by (simp add: learned_drop_def)
  then show ?thesis using None by (auto simp: learned_index_key position_None learned_key_def)
next
  case (Some i)
  let ?ls = "chan_learned s"
  have i: "i < length ?ls" "learned_key (?ls ! i) = lower chan" using Some by (auto simp: learned_index_key dest: position_SomeD)
  have "mset (map learned_key ?ls) = add_mset (learned_key (?ls ! i)) (image_mset learned_key (mset (swap_remove i ?ls)))"
    using mset_swap_remove [OF i(1)] by (metis image_mset_add_mset mset_map)
  then have "learned_key (?ls ! i) \<notin> learned_key ` set (swap_remove i ?ls)"
    using assms by (metis distinct.simps(2) ex_mset list.set_map mset.simps(2) mset_eq_imp_distinct_iff mset_map set_mset_mset)
  then have "\<forall>l \<in> set (swap_remove i ?ls). lower (cl_chan l) \<noteq> lower chan" 
    using i(2) learned_key_def by (metis image_eqI)
  then show ?thesis using Some set_swap_remove_subset [of i ?ls] by (auto simp: learned_drop_def)
qed

lemma learned_drop_inv:
  assumes "learned_inv s"
  shows "learned_inv (learned_drop chan s)"
proof -
  let ?s = "learned_drop chan s"
  have "mset (map learned_key (chan_learned ?s)) \<subseteq># mset (map learned_key (chan_learned s))"
    using learned_drop_sub [of chan s] by (simp add: image_mset_subseteq_mono)
  then have "distinct (map learned_key (chan_learned ?s))" using assms distinct_submset by (metis learned_inv_def)
  moreover have "length (chan_learned ?s) \<le> length (chan_learned s)"
    using size_mset_mono [OF learned_drop_sub] by (metis size_mset)
  moreover have "chan_live ?s c = chan_live s c" for c by (rule chan_live_frame) simp_all
  ultimately show ?thesis
    using assms mset_subset_eqD [OF learned_drop_sub] by (fastforce simp: learned_inv_def)
qed

lemma learned_inv_cong:
  assumes "store_inv s" "store_inv s'" "chan_entries s' = chan_entries s" "chan_learned s' = chan_learned s" "learned_inv s"
  shows "learned_inv s'"
  using assms(4,5) chan_live_cong [OF assms(1-3)] by (simp add: learned_inv_def)

definition hub_store_inv :: "hub_state \<Rightarrow> bool" where
  "hub_store_inv s \<longleftrightarrow> store_inv s \<and> uchan_inv s \<and> learned_inv s"

lemma put_record_hub_inv: "hub_store_inv s \<Longrightarrow> hub_store_inv (snd (put_record e key value ts s))"
  using put_record_inv put_record_chan_entries learned_inv_cong [of s "snd (put_record e key value ts s)"]
  by (auto simp: hub_store_inv_def uchan_inv_def)

lemma learned_ingest_hub_inv:
  assumes "hub_store_inv s"
  shows "hub_store_inv (snd (learned_ingest e body s))"
proof -
  have L: "learned_inv (snd (learned_ingest e body s))" "\<exists>ls. snd (learned_ingest e body s) = s\<lparr>chan_learned := ls\<rparr>"
    using learned_ingest_inv [of s e body] assms by (auto simp: hub_store_inv_def)
  then obtain ls where "snd (learned_ingest e body s) = s\<lparr>chan_learned := ls\<rparr>" by blast
  then show ?thesis using L(1) assms store_inv_cong [of "s\<lparr>chan_learned := ls\<rparr>" s] by (simp add: hub_store_inv_def uchan_inv_def)
qed

lemma cascade_establishes:
  assumes s: "store_inv s" "uchan_inv s" "learned_inv (learned_drop chan s)"
  shows "hub_store_inv (snd (snd (chan_cascade_del e chan ts announce s)))"
proof -
  let ?d = "learned_drop chan s" let ?t = "snd (snd (chan_cascade_del e chan ts announce s))"
  note K = chan_cascade_keeps [OF s(1,2), of chan e ts announce, unfolded cascade_keeps_def]
  have "store_inv ?d" using s(1) store_inv_cong [of ?d s] by simp
  then have "learned_inv ?t" using learned_inv_cong [of ?d ?t] s(3) K by blast
  then show ?thesis using K by (simp add: hub_store_inv_def)
qed

lemma cascade_hub_inv: "hub_store_inv s \<Longrightarrow> hub_store_inv (snd (snd (chan_cascade_del e chan ts announce s)))"
  using cascade_establishes learned_drop_inv by (simp add: hub_store_inv_def)

section \<open>The channel's deletion leaves nothing behind\<close>

lemma entry_chan_tombed:
  assumes "entry_ok en"
  shows "entry_chan_eq (tombed chan ts en) c = entry_chan_eq en c"
proof (cases "(ce_key en = ''C'' \<or> ce_key en = ''B'') \<and> entry_active en \<and> entry_chan_eq en chan \<and> ce_ts en \<le> ts")
  case True
  then have "ident (ce_key en) (cascade_tomb en) = ident (ce_key en) (ce_value en)" using cascade_tomb_ok(2) assms by blast
  then have "first_field (cascade_tomb en) = first_field (ce_value en)" using first_field_ident by metis
  then show ?thesis by (simp add: tombed_def entry_chan_eq_def)
qed (auto simp: tombed_def)

lemma tombed_inactive:
  assumes "entry_ok en" "ce_key en = ''C'' \<or> ce_key en = ''B''" "entry_chan_eq en chan" "entry_active (tombed chan ts en)"
  shows "tombed chan ts en = en \<and> ts < ce_ts en"
  using assms cascade_tomb_ok(3) [OF assms(2,1)] by (auto simp: tombed_def entry_active_def)

lemma chan_cascade_exact:
  assumes "store_inv s" "uchan_inv s" "0 < ts" "\<not> ts_ahead e ts"
  shows "global_entries (snd (snd (chan_cascade_del e chan ts announce s))) = map (tombed chan ts) (global_entries s)"
    "uchan_records (snd (snd (chan_cascade_del e chan ts announce s))) = map (unbound chan ts) (uchan_records s)"
proof -
  obtain c out s1 c2 x s2 s3 where
    1: "fold (cascade_record e chan ts announce) [0..<length (global_entries s)] (0, ([], []), learned_drop chan s) = (c, out, s1)"
    and 2: "fold (cascade_bind e ts announce) (map (\<lambda>r. (uc_uuid r, uc_chan r)) (filter (bound_to chan) (uchan_records s1))) (c, out, s1) = (c2, x, s2)"
    and 3: "snd (snd (chan_cascade_del e chan ts announce s)) = s3" "\<exists>d p. s3 = s2\<lparr>config_dirty := d, bot_config_pending := p\<rparr>"
    by (rule cascade_shape)
  let ?d = "learned_drop chan s"
  have d: "store_inv ?d" "uchan_inv ?d" using assms(1,2) store_inv_cong [of ?d s] by (simp_all add: uchan_inv_def)
  have "\<exists>x. s1 = ?d\<lparr>global_entries := map (tombed chan ts) (global_entries s), global_idx := x\<rparr>"
    using cascade_records [OF d(1) assms(3,4), of "length (global_entries s)" chan announce 0 "([], [])"] 1 by auto
  then have s1: "global_entries s1 = map (tombed chan ts) (global_entries s)" "uchan_records s1 = uchan_records s" by auto
  then have "uchan_inv s1" using assms(2) by (simp add: uchan_inv_def)
  from cascade_binds [OF this _ assms(3,4), of "[]" "uchan_records s1" announce chan c out] 2
  have "\<exists>d. s2 = s1\<lparr>uchan_records := map (unbound chan ts) (uchan_records s1), config_dirty := d\<rparr>" by auto
  then have "global_entries s2 = map (tombed chan ts) (global_entries s)" "uchan_records s2 = map (unbound chan ts) (uchan_records s)"
    using s1 by auto
  then show "global_entries (snd (snd (chan_cascade_del e chan ts announce s))) = map (tombed chan ts) (global_entries s)"
    "uchan_records (snd (snd (chan_cascade_del e chan ts announce s))) = map (unbound chan ts) (uchan_records s)"
    using 3 by auto
qed

end
