(* ===== verification/Store_Steps.thy ===== *)
theory Store_Steps
  imports Chan_Cascade
begin

text \<open>
  The writers of the global table together (\<^verbatim>\<open>src/src/storage.rs\<close>): the orphan sweep, the
  c/m/o composer \<^verbatim>\<open>update_global_entry\<close>, and a step relation over every operation of the store.
  Properties: the sweep removes exactly the orphans, every reachable store satisfies the invariant,
  and the lines of a reachable store fit the sizes the payload bounds are computed from.
\<close>

section \<open>The orphan sweep\<close>

definition learned_wf :: "hub_state \<Rightarrow> bool" where
  "learned_wf s \<longleftrightarrow>
     length (chan_learned s) \<le> MAX_CHANNELS \<and> distinct (map learned_key (chan_learned s)) \<and>
     (\<forall>l \<in> set (chan_learned s). learned_ok l)"

definition live_slot :: "hub_state \<Rightarrow> chan_learned_rec \<Rightarrow> bool" where
  "live_slot s l \<longleftrightarrow> chan_live s (cl_chan l) \<noteq> None"

lemma learned_inv_alt: "learned_inv s \<longleftrightarrow> learned_wf s \<and> (\<forall>l \<in> set (chan_learned s). live_slot s l)"
  by (auto simp: learned_inv_def learned_wf_def live_slot_def)

lemma live_slot_frame:
  assumes "global_entries s' = global_entries s" "global_idx s' = global_idx s"
  shows "live_slot s' l = live_slot s l"
  unfolding live_slot_def chan_live_frame [OF assms] by (rule refl)

lemma learned_drop_at:
  assumes "distinct (map learned_key (chan_learned s))" "i < length (chan_learned s)"
  shows "learned_drop (cl_chan (chan_learned s ! i)) s = s\<lparr>chan_learned := swap_remove i (chan_learned s)\<rparr>"
proof -
  let ?ls = "chan_learned s" let ?P = "\<lambda>l. learned_key l = learned_key (?ls ! i)"
  obtain j where j: "position ?P ?ls = Some j" using assms(2) position_None [of ?P ?ls] nth_mem by blast
  then have "j = i"
    using position_SomeD [OF j] nth_eq_iff_index_eq [of "map learned_key ?ls" j i] assms by simp
  then have "learned_index s (cl_chan (?ls ! i)) = Some i" using j by (simp add: learned_index_key learned_key_def)
  then show ?thesis by (simp add: learned_drop_def)
qed

lemma nth_swap_remove_before: "j < i \<Longrightarrow> i < length xs \<Longrightarrow> swap_remove i xs ! j = xs ! j"
  by (simp add: swap_remove_def nth_butlast)

lemma drop_orphan_learned_spec:
  assumes "drop_orphan_learned i ns s = (ns', s')" "distinct (map learned_key (chan_learned s))"
    and "\<forall>j < min i (length (chan_learned s)). live_slot s (chan_learned s ! j)"
  shows "\<exists>ls. s' = s\<lparr>chan_learned := ls\<rparr> \<and> mset ls = filter_mset (live_slot s) (mset (chan_learned s)) \<and>
    length ns' = length ns + (length (chan_learned s) - length ls)"
  using assms
proof (induction i ns s rule: drop_orphan_learned.induct)
  case (1 i ns s)
  let ?ls = "chan_learned s"
  show ?case
  proof (cases "i < length ?ls")
    case False
    then have r: "ns' = ns" "s' = s" using "1.prems"(1) by (auto simp: drop_orphan_learned.simps)
    have "\<forall>l \<in> set ?ls. live_slot s l" using "1.prems"(3) False by (auto simp: in_set_conv_nth)
    then have "filter (live_slot s) ?ls = ?ls" by simp
    then have "mset ?ls = filter_mset (live_slot s) (mset ?ls)" by (metis mset_filter)
    then show ?thesis using r by (intro exI [of _ ?ls]) simp
  next
    case True
    show ?thesis
    proof (cases "live_slot s (?ls ! i)")
      case live: True
      then have "drop_orphan_learned (i + 1) ns s = (ns', s')"
        using "1.prems"(1) True by (simp add: drop_orphan_learned.simps [of i] live_slot_def Let_def)
      moreover have "\<forall>j < min (i + 1) (length ?ls). live_slot s (?ls ! j)" using "1.prems"(3) live True by (auto simp: less_Suc_eq)
      ultimately show ?thesis
        using "1.IH"(1) [OF _ refl] "1.prems"(2) True live by (simp add: live_slot_def)
    next
      case dead: False
      let ?s = "s\<lparr>chan_learned := swap_remove i ?ls\<rparr>"
      let ?ns = "ns @ [(''learned'', cl_chan (?ls ! i), cl_ts (?ls ! i))]"
      have d: "learned_drop (cl_chan (?ls ! i)) s = ?s" using learned_drop_at "1.prems"(2) True by blast
      have st: "drop_orphan_learned i ?ns ?s = (ns', s')"
        using "1.prems"(1) True dead d by (simp add: drop_orphan_learned.simps [of i ns] live_slot_def Let_def)
      have ms: "mset ?ls = add_mset (?ls ! i) (mset (swap_remove i ?ls))" using mset_swap_remove [OF True] by simp
      have dist: "distinct (map learned_key (chan_learned ?s))"
        using distinct_submset [of "map learned_key (swap_remove i ?ls)" "map learned_key ?ls"] "1.prems"(2) swap_remove_submset [of i ?ls]
        by (simp add: image_mset_subseteq_mono)
      have same: "live_slot ?s = live_slot s" by (rule ext, rule live_slot_frame) simp_all
      have low: "\<forall>j < min i (length (chan_learned ?s)). live_slot ?s (chan_learned ?s ! j)"
        using "1.prems"(3) True nth_swap_remove_before [of _ i ?ls] unfolding same by simp
      have "\<exists>ls. s' = ?s\<lparr>chan_learned := ls\<rparr> \<and> mset ls = filter_mset (live_slot ?s) (mset (chan_learned ?s)) \<and>
          length ns' = length ?ns + (length (chan_learned ?s) - length ls)"
        using "1.IH"(2) [OF _ refl] st dist low True dead d by (simp add: live_slot_def [abs_def])
      then obtain ls where ls: "s' = ?s\<lparr>chan_learned := ls\<rparr>" "mset ls = filter_mset (live_slot s) (mset (swap_remove i ?ls))"
          "length ns' = length ?ns + (length (swap_remove i ?ls) - length ls)"
        unfolding same by auto
      have "length ls \<le> length (swap_remove i ?ls)"
        using ls(2) by (metis size_filter_mset_lesseq size_mset)
      then show ?thesis using ls ms dead True by (intro exI [of _ ls]) simp
    qed
  qed
qed

lemma orphan_key: "orphan_entry s en \<Longrightarrow> ce_key en \<noteq> ''c''"
  by (auto simp: orphan_entry_def split: if_splits)

lemma sweep_shape:
  assumes "purge_chan_orphans s = (n, ns, s')"
  obtains s1 ns0 ns1 s2 where "store_inv s \<longrightarrow> store_inv s1 \<and> chan_entries s1 = chan_entries s"
    "\<exists>x. s1 = s\<lparr>global_entries := filter (\<lambda>en. \<not> orphan_entry s en) (global_entries s), global_idx := x\<rparr>"
    "length ns0 = length (filter (orphan_entry s) (global_entries s))"
    "drop_orphan_learned 0 ns0 s1 = (ns1, s2)" "n = length ns1" "ns = ns1" "\<exists>d. s' = s2\<lparr>config_dirty := d\<rparr>"
proof -
  let ?gone = "filter (orphan_entry s) (global_entries s)" let ?kept = "filter (\<lambda>en. \<not> orphan_entry s en) (global_entries s)"
  define s1 where "s1 = (if ?gone \<noteq> [] then global_reindex (s\<lparr>global_entries := ?kept\<rparr>) else s)"
  define ns0 where "ns0 = map (\<lambda>en. (if ce_key en = ''C'' then ''chanset'' else ''ban'', first_field (ce_value en), ce_ts en)) ?gone"
  obtain ns1 s2 where d: "drop_orphan_learned 0 ns0 s1 = (ns1, s2)" by (cases "drop_orphan_learned 0 ns0 s1")
  have res: "purge_chan_orphans s = (length ns1, ns1, if ns1 \<noteq> [] then s2\<lparr>config_dirty := True\<rparr> else s2)"
    unfolding purge_chan_orphans_def Let_def s1_def [symmetric] ns0_def [symmetric] d by simp
  show thesis
  proof (rule that [of s1 ns0 ns1 s2])
    have "?gone = [] \<Longrightarrow> ?kept = global_entries s" by (simp add: filter_empty_conv)
    then show sh: "\<exists>x. s1 = s\<lparr>global_entries := ?kept, global_idx := x\<rparr>"
      using global_reindex_state [of "s\<lparr>global_entries := ?kept\<rparr>"] by (auto simp: s1_def intro!: exI [of _ "global_idx s"])
    have "mset ?kept \<subseteq># mset (global_entries s)" by simp
    then have "store_inv s \<Longrightarrow> store_inv s1" using store_inv_reindex by (auto simp: s1_def)
    moreover have "chan_entries s1 = chan_entries s" using sh orphan_key by (auto simp: chan_entries_def)
    ultimately show "store_inv s \<longrightarrow> store_inv s1 \<and> chan_entries s1 = chan_entries s" by blast
    have "s' = s2\<lparr>config_dirty := (if ns1 \<noteq> [] then True else config_dirty s2)\<rparr>" using res assms by auto
    then show "\<exists>d. s' = s2\<lparr>config_dirty := d\<rparr>" by blast
  qed (use res assms d in \<open>simp_all add: ns0_def\<close>)
qed

lemma drop_orphan_none:
  "\<forall>l \<in> set (chan_learned s). live_slot s l \<Longrightarrow> drop_orphan_learned i ns s = (ns, s)"
proof (induction "length (chan_learned s) - i" arbitrary: i)
  case 0
  then show ?case by (simp add: drop_orphan_learned.simps)
next
  case (Suc n)
  then have "i < length (chan_learned s)" "drop_orphan_learned (i + 1) ns s = (ns, s)" by auto
  moreover have "live_slot s (chan_learned s ! i)" using Suc(3) calculation(1) by simp
  ultimately show ?case by (simp add: drop_orphan_learned.simps [of i] live_slot_def Let_def)
qed

lemma purge_chan_orphans_none:
  assumes "\<forall>en \<in> set (global_entries s). \<not> orphan_entry s en" "\<forall>l \<in> set (chan_learned s). live_slot s l"
  shows "purge_chan_orphans s = (0, [], s)"
proof -
  have g: "filter (orphan_entry s) (global_entries s) = []" using assms(1) by simp
  show ?thesis
    unfolding purge_chan_orphans_def Let_def g using drop_orphan_none [OF assms(2)] by simp
qed

lemma orphan_sweep:
  assumes "store_inv s" "uchan_inv s" "learned_wf s" "purge_chan_orphans s = (n, ns, s')"
  shows "global_entries s' = filter (\<lambda>en. \<not> orphan_entry s en) (global_entries s) \<and>
    mset (chan_learned s') = filter_mset (live_slot s) (mset (chan_learned s)) \<and>
    n = length (filter (orphan_entry s) (global_entries s)) + (length (chan_learned s) - length (chan_learned s')) \<and>
    hub_store_inv s' \<and> purge_chan_orphans s' = (0, [], s')"
proof -
  obtain s1 ns0 ns1 s2 where S: "store_inv s \<longrightarrow> store_inv s1 \<and> chan_entries s1 = chan_entries s"
    "\<exists>x. s1 = s\<lparr>global_entries := filter (\<lambda>en. \<not> orphan_entry s en) (global_entries s), global_idx := x\<rparr>"
    "length ns0 = length (filter (orphan_entry s) (global_entries s))"
    "drop_orphan_learned 0 ns0 s1 = (ns1, s2)" "n = length ns1" "ns = ns1" "\<exists>d. s' = s2\<lparr>config_dirty := d\<rparr>"
    by (rule sweep_shape [OF assms(4)])
  have s1: "store_inv s1" "chan_entries s1 = chan_entries s" "chan_learned s1 = chan_learned s" "uchan_records s1 = uchan_records s"
    using S(1,2) assms(1) by auto
  have same1: "live_slot s1 = live_slot s" using chan_live_cong [OF assms(1) s1(1,2)] by (simp add: live_slot_def fun_eq_iff)
  obtain ls where ls: "s2 = s1\<lparr>chan_learned := ls\<rparr>" "mset ls = filter_mset (live_slot s) (mset (chan_learned s))"
      "length ns1 = length ns0 + (length (chan_learned s) - length ls)"
    using drop_orphan_learned_spec [OF S(4)] assms(3) s1(3) unfolding same1 by (auto simp: learned_wf_def)
  have s': "global_entries s' = global_entries s1" "global_idx s' = global_idx s1" "chan_learned s' = ls" "uchan_records s' = uchan_records s"
    using S(7) ls(1) s1(4) by auto
  have inv: "store_inv s'" using store_inv_cong [OF s'(1,2)] s1(1) by simp
  have ce: "chan_entries s' = chan_entries s" using s'(1) s1(2) by (simp add: chan_entries_def)
  have live: "chan_live s' c = chan_live s c" for c by (rule chan_live_cong [OF assms(1) inv ce])
  have same: "live_slot s' = live_slot s" "orphan_entry s' = orphan_entry s"
    by (simp_all add: live_slot_def orphan_entry_def live fun_eq_iff)
  have es: "global_entries s' = filter (\<lambda>en. \<not> orphan_entry s en) (global_entries s)" using s'(1) S(2) by auto
  have alive: "\<forall>l \<in> set ls. l \<in> set (chan_learned s) \<and> live_slot s l"
    using ls(2) by (metis (no_types) mem_Collect_eq set_mset_filter set_mset_mset)
  have sub: "mset ls \<subseteq># mset (chan_learned s)" using ls(2) by simp
  have "mset (map learned_key ls) \<subseteq># mset (map learned_key (chan_learned s))" using sub by (simp add: image_mset_subseteq_mono)
  then have "distinct (map learned_key ls)" using assms(3) distinct_submset by (metis learned_wf_def)
  moreover have "length ls \<le> length (chan_learned s)" using size_mset_mono [OF sub] by simp
  ultimately have "learned_inv s'"
    using assms(3) alive s'(3) by (auto simp: learned_inv_alt learned_wf_def same(1))
  then have hub: "hub_store_inv s'" using inv assms(2) s'(4) by (simp add: hub_store_inv_def uchan_inv_def)
  have "purge_chan_orphans s' = (0, [], s')"
    by (rule purge_chan_orphans_none) (use es alive s'(3) same in auto)
  then show ?thesis using es hub ls(2,3) S(3,5) s'(3) by simp
qed

text \<open>
  The orphan sweep removes exactly the live settings and bans whose channel is not
  live (global bans and unnameable channels excepted) and exactly the learned slots of channels
  that are not live, reports how many, and leaves a consistent store in which nothing is orphaned:
  a second sweep changes nothing.
\<close>

theorem orphan_sweep_exact:
  assumes "store_inv s" "uchan_inv s" "learned_wf s" "purge_chan_orphans s = (n, ns, s')"
  shows "global_entries s' = filter (\<lambda>en. \<not> orphan_entry s en) (global_entries s) \<and>
    mset (chan_learned s') = filter_mset (live_slot s) (mset (chan_learned s)) \<and>
    n = length (filter (orphan_entry s) (global_entries s)) + (length (chan_learned s) - length (chan_learned s')) \<and>
    hub_store_inv s' \<and> purge_chan_orphans s' = (0, [], s')"
  by (rule orphan_sweep [OF assms])

section \<open>The c, m and o records\<close>

definition cmo_key :: "string \<Rightarrow> bool" where
  "cmo_key key \<longleftrightarrow> key = ''c'' \<or> key = ''m'' \<or> key = ''o''"

text \<open>A name the composer keeps whole: a channel of at most 72 bytes, a mask below the value cap.\<close>

definition global_name_ok :: "string \<Rightarrow> string \<Rightarrow> bool" where
  "global_name_ok key value \<longleftrightarrow> cmo_key key \<and> length (first_field value) < (if key = ''c'' then MAX_CHAN + 8 else 1024)"

lemma first_field_trunc:
  assumes "length (first_field v) < cap" "length (first_field v) < length w" "w ! length (first_field v) = bar"
    "take (length (first_field v)) w = first_field v"
  shows "first_field (trunc_string w cap) = first_field v"
proof -
  let ?p = "length (first_field v)"
  have w: "w = first_field v @ bar # drop (Suc ?p) w" using assms(2-4) id_take_nth_drop [of ?p w] by simp
  have "is_char_boundary w ?p" using assms(2,3) by (simp add: is_char_boundary_def is_cont_def)
  then have "?p \<le> boundary_back w (cap - 1)" using assms(1) by (intro boundary_back_greatest) simp_all
  then obtain k where k: "trunc_string w cap = take (?p + k) w"
    by (cases "length w \<le> cap - 1") (auto simp: trunc_string_def trunc_def Let_def intro: that [of "length w - ?p"] that [of "boundary_back w (cap - 1) - ?p"])
  have "take (?p + k) w = first_field v @ take k (bar # drop (Suc ?p) w)" by (subst w) simp
  then show ?thesis using k first_field_bar_free [of v] first_field_free by (cases k) simp_all
qed

lemma first_field_take: "take (length (first_field v)) v = first_field v"
  by (simp add: first_field_def takeWhile_eq_take [symmetric])

lemma first_field_combined:
  assumes "cmo_key key" "length (first_field v) < 1024"
  shows "first_field (combined_value key v extra op True) = first_field v"
proof -
  have t: "first_field (trunc_string (v @ bar # r) 1024) = first_field v" for r
  proof (rule first_field_trunc)
    have le: "length (first_field v) \<le> length v" by (metis first_field_take length_take min.cobounded1 take_all_iff nat_le_linear)
    then show "length (first_field v) < length (v @ bar # r)" by simp
    show "take (length (first_field v)) (v @ bar # r) = first_field v" using le first_field_take by simp
    show "(v @ bar # r) ! length (first_field v) = bar"
    proof (cases "length (first_field v) < length v")
      case True
      then have "\<not> (v ! length (first_field v) \<noteq> bar)" unfolding first_field_def by (rule nth_length_takeWhile)
      then show ?thesis using True by (simp add: nth_append)
    next
      case False
      then show ?thesis using le by (simp add: nth_append)
    qed
  qed (rule assms(2))
  show ?thesis using assms(1) t by (auto simp: combined_value_def cmo_key_def)
qed

lemma length_combined: "length (combined_value key v extra op g) < 1024"
  using trunc_length [of _ 1024] by (simp add: combined_value_def trunc_string_def less_Suc_eq_le [symmetric] del: trunc_length)

lemma cmo_gkey: "cmo_key key \<Longrightarrow> first_field a = first_field b \<Longrightarrow> gkey key a = gkey key b"
  using ident_first_field [of key a] ident_first_field [of key b] by (auto simp: gkey_alt folded_ident_def cmo_key_def)

lemma cmo_plain: "cmo_key key \<Longrightarrow> \<not> key_is_modes key \<and> CHR 0x00 \<notin> set key \<and> length key = 1 \<and> key \<noteq> ''B''"
  by (auto simp: cmo_key_def key_is_modes_def)

lemma live_chan_iff:
  assumes "store_inv s"
  shows "chan_live s chan \<noteq> None \<longleftrightarrow>
    (\<exists>e \<in> chan_entries s. gkey ''c'' (ce_value e) = gkey ''c'' chan \<and> global_value_active (ce_value e))"
  using chan_live_iff [OF assms, of chan] by (metis not_None_eq)

text \<open>The value an update writes keeps the identity of the stored entry.\<close>

lemma kept_value_ident:
  assumes "store_inv s" "global_name_ok key value" "global_find s key value = Some i"
    and "v = kept_value key value (Some i) s" "combined = combined_value key v extra op True"
  shows "i < length (global_entries s)" "ce_key (global_entries s ! i) = key"
    "gkey key combined = gkey key (ce_value (global_entries s ! i))"
    "key = ''c'' \<Longrightarrow> v = first_field (ce_value (global_entries s ! i))"
proof -
  let ?en = "global_entries s ! i"
  have k: "cmo_key key" "CHR 0x00 \<notin> set key" using assms(2) cmo_plain by (auto simp: global_name_ok_def)
  note F = global_find_Some [OF assms(1,3) k(2)]
  show "i < length (global_entries s)" "ce_key ?en = key" by (rule F)+
  have low: "lower (first_field (ce_value ?en)) = lower (first_field value)"
  proof -
    have "key \<noteq> ''B''" "\<not> is_singleton_key key" using k(1) by (auto simp: cmo_key_def is_singleton_key_def)
    then show ?thesis using F(4) ident_first_field [of key "ce_value ?en"] ident_first_field [of key "value"] by simp
  qed
  then have len: "length (first_field (ce_value ?en)) = length (first_field value)" by (metis length_map)
  show c: "key = ''c'' \<Longrightarrow> v = first_field (ce_value ?en)"
    using assms(2,4) len by (simp add: kept_value_def global_name_ok_def)
  have v: "first_field v = (if key = ''c'' then first_field (ce_value ?en) else first_field value)"
    using c assms(4) first_field_free [OF first_field_bar_free] by (simp add: kept_value_def)
  then have "length (first_field v) < 1024"
    using len assms(2) by (auto simp: global_name_ok_def MAX_CHAN_def split: if_splits)
  then have "first_field combined = first_field v" using first_field_combined [OF k(1)] assms(5) by simp
  then have "first_field combined = first_field (if key = ''c'' then ce_value ?en else value)" using v by simp
  then have "gkey key combined = gkey key (if key = ''c'' then ce_value ?en else value)" by (rule cmo_gkey [OF k(1)])
  then show "gkey key combined = gkey key (ce_value ?en)" using F(3) by (simp split: if_splits)
qed

text \<open>Rewriting one channel entry in place: the other channels stay as live as they were.\<close>

lemma chan_entries_update:
  assumes "i < length (global_entries s)" "e \<in> chan_entries s" "e \<noteq> global_entries s ! i"
  shows "e \<in> chan_entries (s\<lparr>global_entries := (global_entries s)[i := e']\<rparr>)"
proof -
  obtain j where j: "j < length (global_entries s)" "global_entries s ! j = e"
    using assms(2) by (auto simp: chan_entries_def in_set_conv_nth)
  then have "j \<noteq> i" using assms(3) by auto
  then have "(global_entries s)[i := e'] ! j = e" using j by simp
  then show ?thesis using assms(2) j(1) by (auto simp: chan_entries_def)
qed

lemma update_found_inv:
  assumes "hub_store_inv s" "i < length (global_entries s)" "en = global_entries s ! i" "cmo_key (ce_key en)"
    and "gkey (ce_key en) combined = gkey (ce_key en) (ce_value en)" and len: "length combined < 1024"
    and s1d: "s1 = s\<lparr>global_entries := (global_entries s)[i := en\<lparr>ce_value := combined, ce_ts := ts\<rparr>]\<rparr>"
  shows "store_inv s1" "uchan_inv s1"
    "\<lbrakk>ce_key en \<noteq> ''c'' \<or> global_value_active combined\<rbrakk> \<Longrightarrow> learned_inv s1"
    "ce_key en = ''c'' \<Longrightarrow> learned_inv (learned_drop (first_field (ce_value en)) s1)"
proof -
  let ?e' = "en\<lparr>ce_value := combined, ce_ts := ts\<rparr>"
  have inv: "store_inv s" "uchan_inv s" "learned_inv s" using assms(1) by (simp_all add: hub_store_inv_def)
  have k: "\<not> live_ban ?e'" "\<not> live_ban en" "entry_ok ?e'"
    using assms(4) cmo_plain len by (auto simp: live_ban_def entry_ok_def)
  show st: "store_inv s1"
    by (rule global_update_inv [OF inv(1) assms(2), of ?e']) (use k assms(3,5) s1d in simp_all)
  show "uchan_inv s1" using inv(2) s1d by (simp add: uchan_inv_def)
  have keep: "chan_live s1 c \<noteq> None"
    if live: "chan_live s c \<noteq> None" and ok: "ce_key en \<noteq> ''c'' \<or> global_value_active combined \<or> gkey ''c'' c \<noteq> gkey ''c'' (ce_value en)" for c
  proof -
    obtain x where x: "x \<in> chan_entries s" "gkey ''c'' (ce_value x) = gkey ''c'' c" "global_value_active (ce_value x)"
      using live live_chan_iff [OF inv(1)] by blast
    show ?thesis
    proof (cases "x = en")
      case True
      then have "ce_key en = ''c''" "global_value_active combined" using x ok by (auto simp: chan_entries_def)
      moreover have "?e' \<in> set (global_entries s1)" using assms(2) s1d by (simp add: set_update_memI)
      ultimately have "?e' \<in> chan_entries s1" "gkey ''c'' (ce_value ?e') = gkey ''c'' c" "global_value_active (ce_value ?e')"
        using assms(5) x(2) True by (simp_all add: chan_entries_def)
      then show ?thesis using live_chan_iff [OF st] by blast
    next
      case False
      then have "x \<in> chan_entries s1" using chan_entries_update [OF assms(2) x(1)] assms(3) s1d by simp
      then show ?thesis using x(2,3) live_chan_iff [OF st] by blast
    qed
  qed
  have ls: "chan_learned s1 = chan_learned s" using s1d by simp
  show "learned_inv s1" if "ce_key en \<noteq> ''c'' \<or> global_value_active combined"
    using inv(3) keep that ls by (simp add: learned_inv_def)
  show "learned_inv (learned_drop (first_field (ce_value en)) s1)" if c: "ce_key en = ''c''"
  proof -
    let ?c = "first_field (ce_value en)" let ?d = "learned_drop ?c s1"
    have wf: "learned_inv (learned_drop ?c s)" by (rule learned_drop_inv [OF inv(3)])
    have dl: "chan_learned ?d = chan_learned (learned_drop ?c s)"
      using ls by (simp add: learned_drop_def learned_index_def split: option.split)
    have "chan_live ?d (cl_chan l) \<noteq> None" if l: "l \<in> set (chan_learned ?d)" for l
    proof -
      have "l \<in> set (chan_learned s)" "lower (cl_chan l) \<noteq> lower ?c"
        using learned_drop_gone [of s ?c] l dl inv(3) by (auto simp: learned_inv_def)
      moreover have "first_field (cl_chan l) = cl_chan l"
        using inv(3) calculation(1) first_field_free by (auto simp: learned_inv_def learned_ok_def)
      ultimately have "chan_live s1 (cl_chan l) \<noteq> None" using keep inv(3) by (auto simp: gkey_chan learned_inv_def)
      then show ?thesis using chan_live_frame [of ?d s1] by simp
    qed
    then show ?thesis using wf dl by (auto simp: learned_inv_def)
  qed
qed

lemma push_chan_live:
  assumes "store_inv s" "store_inv (push_entry en s)" "chan_live s c \<noteq> None"
  shows "chan_live (push_entry en s) c \<noteq> None"
  using assms(3) live_chan_iff [OF assms(1)] live_chan_iff [OF assms(2)] by (auto simp: chan_entries_def)

lemma push_entry_frame: "\<exists>es x. push_entry en s = s\<lparr>global_entries := es, global_idx := x\<rparr>"
  unfolding push_entry_def Let_def global_note_new_alt by (intro exI) simp

lemma update_global_hub_inv:
  assumes "hub_store_inv s" "global_name_ok key value"
  shows "hub_store_inv (snd (update_global_entry e key value extra op ts s))"
proof -
  have inv: "store_inv s" "uchan_inv s" "learned_inv s" using assms(1) by (simp_all add: hub_store_inv_def)
  have k: "cmo_key key" "\<not> key_is_modes key" using assms(2) cmo_plain by (auto simp: global_name_ok_def)
  show ?thesis
  proof (cases "global_find s key value")
    case None
    let ?c = "combined_value key value extra (safe_op op) True"
    let ?e = "\<lparr>ce_key = key, ce_value = ?c, ce_ts = ts, ce_last_used = 0\<rparr>"
    have r: "snd (update_global_entry e key value extra op ts s) = s \<or>
        (global_room s key \<and> snd (update_global_entry e key value extra op ts s) = push_entry ?e s)"
      using None k cmo_plain [OF k(1)] by (simp add: update_global_entry_def kept_value_def push_entry_def Let_def)
    have "length (first_field value) < 1024" using assms(2) by (auto simp: global_name_ok_def MAX_CHAN_def split: if_splits)
    then have "gkey key ?c = gkey key value" using first_field_combined [OF k(1)] cmo_gkey [OF k(1)] by blast
    then have new: "rec_key ?e \<notin> rec_key ` set (global_entries s)" using global_find_None [OF inv(1) None] by simp
    have ok: "entry_ok ?e" "\<not> live_ban ?e" using cmo_plain [OF k(1)] length_combined by (auto simp: entry_ok_def live_ban_def)
    have "hub_store_inv (push_entry ?e s)" if "global_room s key"
    proof -
      have st: "store_inv (push_entry ?e s)" using push_entry_inv [OF inv(1) ok(1) _ new] that ok(2) by simp
      have "chan_learned (push_entry ?e s) = chan_learned s" "uchan_records (push_entry ?e s) = uchan_records s"
        using push_entry_frame [of ?e s] by auto
      then show ?thesis using st inv push_chan_live [OF inv(1) st] by (simp add: hub_store_inv_def learned_inv_def uchan_inv_def)
    qed
    then show ?thesis using r assms(1) by auto
  next
    case (Some i)
    let ?en = "global_entries s ! i" let ?v = "kept_value key value (Some i) s"
    let ?c = "combined_value key ?v extra (safe_op op) True"
    let ?s1 = "s\<lparr>global_entries := (global_entries s)[i := ?en\<lparr>ce_value := ?c, ce_ts := ts\<rparr>]\<rparr>"
    note V = kept_value_ident [OF inv(1) assms(2) Some, of ?v ?c, OF refl refl]
    have ck: "cmo_key (ce_key ?en)" "gkey (ce_key ?en) ?c = gkey (ce_key ?en) (ce_value ?en)" using k(1) V(2,3) by simp_all
    note U = update_found_inv [OF assms(1) V(1) refl ck length_combined refl, of ts]
    have r: "snd (update_global_entry e key value extra op ts s) \<in>
        {s, if key = ''c'' \<and> \<not> global_value_active ?c then snd (snd (chan_cascade_del e ?v ts False ?s1)) else ?s1}"
      unfolding update_global_entry_def Let_def Some using k(2) by simp
    have "hub_store_inv (snd (snd (chan_cascade_del e ?v ts False ?s1)))" if "key = ''c''"
      using cascade_establishes [OF U(1,2)] U(4) V(2,4) that by simp
    moreover have "hub_store_inv ?s1" if "\<not> (key = ''c'' \<and> \<not> global_value_active ?c)"
      using U(1-3) V(2) that by (auto simp: hub_store_inv_def)
    ultimately show ?thesis using r assms(1) by auto
  qed
qed

lemma sweep_hub_inv: "hub_store_inv s \<Longrightarrow> hub_store_inv (snd (snd (purge_chan_orphans s)))"
  using orphan_sweep [of s] by (cases "purge_chan_orphans s") (auto simp: hub_store_inv_def learned_inv_alt)

section \<open>Every reachable store\<close>

text \<open>
  Property C17.  Deleting a channel at a stamp that is not ahead of the clock: the record cascade turns
  exactly the live settings and bans of the channel that are no newer than the deletion into
  tombstones of that stamp, deactivates exactly the bindings to the channel that are no newer, and
  forgets its learned state.  What is still live of the channel afterwards was live before and is
  newer than the deletion (the last writer wins); all else is untouched, and the store stays
  consistent.
\<close>

theorem chan_cascade_complete:
  assumes "hub_store_inv s" "0 < ts" "\<not> ts_ahead e ts"
    and "snd (snd (chan_cascade_del e chan ts announce s)) = s'"
  shows "global_entries s' = map (tombed chan ts) (global_entries s) \<and> uchan_records s' = map (unbound chan ts) (uchan_records s) \<and>
    (\<forall>en \<in> set (global_entries s'). (ce_key en = ''C'' \<or> ce_key en = ''B'') \<and> entry_chan_eq en chan \<and> entry_active en \<longrightarrow>
       en \<in> set (global_entries s) \<and> ts < ce_ts en) \<and>
    (\<forall>l \<in> set (chan_learned s'). \<not> eq_ic (cl_chan l) chan) \<and> learned_find s' chan = None \<and> hub_store_inv s'"
proof -
  have s: "store_inv s" "uchan_inv s" "learned_inv s" using assms(1) by (simp_all add: hub_store_inv_def)
  note E = chan_cascade_exact [OF s(1,2) assms(2,3), of chan announce, unfolded assms(4)]
  have ok: "\<forall>en \<in> set (global_entries s). entry_ok en" using s(1) by (simp add: store_inv_def)
  have newer: "tombed chan ts en = en \<and> ts < ce_ts en"
    if "en \<in> set (global_entries s)" "ce_key en = ''C'' \<or> ce_key en = ''B''" "entry_chan_eq (tombed chan ts en) chan"
      "entry_active (tombed chan ts en)" for en
    using tombed_inactive entry_chan_tombed ok that by blast
  have "chan_learned s' = chan_learned (learned_drop chan s)"
    using chan_cascade_keeps [OF s(1,2), of chan e ts announce] assms(4) by (simp add: cascade_keeps_def)
  then have gone: "\<forall>l \<in> set (chan_learned s'). \<not> eq_ic (cl_chan l) chan"
    using learned_drop_gone s(3) by (auto simp: learned_inv_def eq_ic_def)
  then have lf: "learned_find s' chan = None" by (simp add: learned_find_def learned_index_def position_None)
  have "en \<in> set (global_entries s) \<and> ts < ce_ts en"
    if en: "en \<in> set (global_entries s')" "(ce_key en = ''C'' \<or> ce_key en = ''B'') \<and> entry_chan_eq en chan \<and> entry_active en" for en
  proof -
    obtain x where x: "x \<in> set (global_entries s)" "en = tombed chan ts x" using en(1) E(1) by auto
    then show ?thesis using newer [of x] en(2) by auto
  qed
  then show ?thesis using E gone lf cascade_hub_inv [OF assms(1), of e chan ts announce] assms(4) by blast
qed

lemma uchan_put_hub_inv:
  assumes "hub_store_inv s"
  shows "hub_store_inv (snd (uchan_put e uuid chan active ts s))"
proof -
  let ?t = "snd (uchan_put e uuid chan active ts s)"
  have "store_inv ?t" using assms store_inv_cong [of ?t s] by (simp add: hub_store_inv_def)
  moreover have "chan_entries ?t = chan_entries s" by (simp add: chan_entries_def)
  ultimately show ?thesis
    using assms uchan_put_inv learned_inv_cong [of s ?t] by (simp add: hub_store_inv_def)
qed

text \<open>The operations that write the global table, the channel bindings or the learned state.\<close>

inductive store_step :: "hub_state \<Rightarrow> hub_state \<Rightarrow> bool" where
  step_put: "store_step s (snd (put_record e key value ts s))"
| step_global: "global_name_ok key value \<Longrightarrow> store_step s (snd (update_global_entry e key value extra op ts s))"
| step_learned: "store_step s (snd (learned_ingest e body s))"
| step_cascade: "store_step s (snd (snd (chan_cascade_del e chan ts announce s)))"
| step_sweep: "store_step s (snd (snd (purge_chan_orphans s)))"
| step_bind: "store_step s (snd (uchan_put e uuid chan active ts s))"

inductive store_reach :: "hub_state \<Rightarrow> bool" where
  reach_new: "store_reach hub_state_new"
| reach_step: "store_reach s \<Longrightarrow> store_step s s' \<Longrightarrow> store_reach s'"

lemma store_step_inv: "store_step s s' \<Longrightarrow> hub_store_inv s \<Longrightarrow> hub_store_inv s'"
  by (induction rule: store_step.induct)
    (simp_all add: put_record_hub_inv update_global_hub_inv learned_ingest_hub_inv cascade_hub_inv sweep_hub_inv uchan_put_hub_inv)

lemma hub_store_inv_new: "hub_store_inv hub_state_new"
  using idx_of_Nil
  by (simp add: hub_store_inv_def store_inv_def idx_ok_def class_caps_def n_old_def n_class_def live_bans_of_def uchan_inv_def
      learned_inv_def hub_state_new_def)

lemma store_reach_inv: "store_reach s \<Longrightarrow> hub_store_inv s"
  by (induction rule: store_reach.induct) (use hub_store_inv_new store_step_inv in blast)+

text \<open>The counters of the index, spelled out.\<close>

lemma store_counts:
  assumes "store_inv s"
  shows "gi_n_old (global_idx s) = length (filter (\<lambda>en. \<not> (ce_key en = ''C'' \<or> ce_key en = ''D'' \<or> ce_key en = ''B'')) (global_entries s))"
    "length (filter (\<lambda>en. \<not> (ce_key en = ''C'' \<or> ce_key en = ''D'' \<or> ce_key en = ''B'')) (global_entries s)) \<le> MAX_BOT_ENTRIES"
    "gi_n_c (global_idx s) = length (filter (\<lambda>en. ce_key en = ''C'') (global_entries s))"
    "length (filter (\<lambda>en. ce_key en = ''C'') (global_entries s)) \<le> MAX_CHANNELS"
    "gi_n_d (global_idx s) = length (filter (\<lambda>en. ce_key en = ''D'') (global_entries s))"
    "length (filter (\<lambda>en. ce_key en = ''D'') (global_entries s)) \<le> 1"
    "gi_n_b (global_idx s) = length (filter (\<lambda>en. ce_key en = ''B'') (global_entries s))"
    "length (filter (\<lambda>en. ce_key en = ''B'') (global_entries s)) \<le> MAX_BANS_TOTAL"
proof -
  have old: "length (filter (\<lambda>en. \<not> (ce_key en = ''C'' \<or> ce_key en = ''D'' \<or> ce_key en = ''B'')) (global_entries s)) = n_old (global_entries s)"
    by (simp add: n_old_def key_is_modes_def)
  have ix: "idx_of (global_entries s) (global_idx s)" and caps: "class_caps (global_entries s)"
    using assms by (simp_all add: store_inv_def idx_ok_def)
  show "gi_n_old (global_idx s) = length (filter (\<lambda>en. \<not> (ce_key en = ''C'' \<or> ce_key en = ''D'' \<or> ce_key en = ''B'')) (global_entries s))"
    using ix n_old_alt [of "global_entries s"] unfolding old by (simp add: idx_of_def)
  show "length (filter (\<lambda>en. \<not> (ce_key en = ''C'' \<or> ce_key en = ''D'' \<or> ce_key en = ''B'')) (global_entries s)) \<le> MAX_BOT_ENTRIES"
    using caps unfolding old by (simp add: class_caps_def)
qed (use assms in \<open>simp_all add: store_inv_def idx_ok_def idx_of_def class_caps_def n_class_def\<close>)

lemma live_bans_count:
  assumes "store_inv s"
  shows "live_bans_of (lower c) (global_entries s) =
    length (filter (\<lambda>en. ce_key en = ''B'' \<and> global_value_active (ce_value en) \<and> eq_ic (first_field (ce_value en)) c) (global_entries s))"
proof -
  have "length (first_field (ce_value en)) < MAX_CHAN" if "en \<in> set (global_entries s)" "ce_key en = ''B''" for en
  proof -
    have "ban_valid (ce_value en)" using assms that by (auto simp: store_inv_def entry_ok_def key_is_modes_def record_valid_def)
    then obtain ch m x f st r op where v: "ce_value en = ban_text ch m x f st r op" "ban_fields ch m x f st r op" by (rule ban_valid_fields)
    then have "first_field (ce_value en) = ch" using ban_fields_free [OF v(2)] by (simp add: ban_text_def first_field_append)
    then show ?thesis using v(2) rec_chan_ok_length by (auto simp: ban_fields_def)
  qed
  then have "filter (\<lambda>e. live_ban e \<and> length (first_field (ce_value e)) < MAX_CHAN \<and> lower (first_field (ce_value e)) = lower c) (global_entries s) =
      filter (\<lambda>en. ce_key en = ''B'' \<and> global_value_active (ce_value en) \<and> eq_ic (first_field (ce_value en)) c) (global_entries s)"
    by (intro filter_cong refl) (auto simp: live_ban_def eq_ic_def)
  then show ?thesis by (simp only: live_bans_of_def)
qed

text \<open>
  Property C16.  Whatever sequence of record writes, channel deletions, learned lines, sweeps and
  binding writes a store has seen (with channel names of at most 72 bytes): a lookup by hash is the
  linear search for the record; the counters of the index are the numbers of records of each class
  and of live bans of each channel; no class and no channel is over its ceiling; every C, D and B
  record is valid and no record is stored twice; and learned state exists once per channel and for
  live channels only.
\<close>

theorem store_reach_consistent:
  assumes "store_reach s"
  shows "(\<forall>key v. CHR 0x00 \<notin> set key \<longrightarrow>
       global_find s key v = position (\<lambda>en. ce_key en = key \<and> global_identity_eq key (ce_value en) v) (global_entries s)) \<and>
    (let count = (\<lambda>P. length (filter P (global_entries s)));
         modes = (\<lambda>en. ce_key en = ''C'' \<or> ce_key en = ''D'' \<or> ce_key en = ''B'') in
     gi_n_old (global_idx s) = count (\<lambda>en. \<not> modes en) \<and> count (\<lambda>en. \<not> modes en) \<le> MAX_BOT_ENTRIES \<and>
     gi_n_c (global_idx s) = count (\<lambda>en. ce_key en = ''C'') \<and> count (\<lambda>en. ce_key en = ''C'') \<le> MAX_CHANNELS \<and>
     gi_n_d (global_idx s) = count (\<lambda>en. ce_key en = ''D'') \<and> count (\<lambda>en. ce_key en = ''D'') \<le> 1 \<and>
     gi_n_b (global_idx s) = count (\<lambda>en. ce_key en = ''B'') \<and> count (\<lambda>en. ce_key en = ''B'') \<le> MAX_BANS_TOTAL \<and>
     (\<forall>c. let bans = count (\<lambda>en. ce_key en = ''B'' \<and> global_value_active (ce_value en) \<and> eq_ic (first_field (ce_value en)) c) in
        bans_live_in s c = bans \<and> bans \<le> MAX_BANS_PER_CHAN)) \<and>
    (\<forall>en \<in> set (global_entries s). key_is_modes (ce_key en) \<longrightarrow> record_valid (ce_key en) (ce_value en)) \<and>
    distinct (map (\<lambda>en. gkey (ce_key en) (ce_value en)) (global_entries s)) \<and>
    length (chan_learned s) \<le> MAX_CHANNELS \<and> distinct (map (\<lambda>l. lower (cl_chan l)) (chan_learned s)) \<and>
    (\<forall>l \<in> set (chan_learned s). chan_live s (cl_chan l) \<noteq> None)"
proof -
  have inv: "store_inv s" "learned_inv s" using store_reach_inv [OF assms] by (simp_all add: hub_store_inv_def)
  have ix: "idx_ok s" and ok: "\<forall>en \<in> set (global_entries s). entry_ok en" using inv(1) by (simp_all add: store_inv_def)
  have find: "global_find s key v = position (\<lambda>en. ce_key en = key \<and> global_identity_eq key (ce_value en) v) (global_entries s)"
    if "CHR 0x00 \<notin> set key" for key v
    using global_find_linear [OF ix that] ok by (simp add: entry_ok_def)
  note counts = store_counts [OF inv(1)]
  have bans: "bans_live_in s c = length (filter (\<lambda>en. ce_key en = ''B'' \<and> global_value_active (ce_value en) \<and>
      eq_ic (first_field (ce_value en)) c) (global_entries s))" for c
    using bans_live_in_count [OF ix] live_bans_count [OF inv(1)] by simp
  have "bans_live_in s c \<le> MAX_BANS_PER_CHAN" for c
    using bans_live_in_count [OF ix] inv(1) by (simp add: store_inv_def class_caps_def)
  then show ?thesis
    using find counts bans inv ok
    by (simp add: Let_def store_inv_def entry_ok_def learned_inv_def learned_key_def [abs_def] comp_def)
qed

text \<open>An example: a channel with settings, a ban, learned state, and settings of a channel never added.\<close>

definition example_chan :: hub_state where
  "example_chan =
     snd (learned_ingest (env_at 1000) ''#a|k|64|300''
       (snd (put_record (env_at 1000) ''B'' ''#A|*!*@x|0||op|why|add'' 200
         (snd (put_record (env_at 1000) ''C'' ''#a|+nt||add'' 200
           (snd (put_record (env_at 1000) ''C'' ''#gone|+i||add'' 200
             (snd (update_global_entry (env_at 1000) ''c'' ''#a'' ''k'' ''add'' 100 hub_state_new)))))))))"

lemma example_chan_reach: "store_reach example_chan"
proof -
  have "global_name_ok ''c'' ''#a''" by code_simp
  then show ?thesis unfolding example_chan_def by (intro reach_step [OF _ step_learned] reach_step [OF _ step_put] reach_step [OF reach_new step_global])
qed

theorem store_reach_consistent_witness:
  "store_reach example_chan \<and> length (global_entries example_chan) = 4 \<and> length (chan_learned example_chan) = 1 \<and>
   chan_live example_chan (cl_chan (chan_learned example_chan ! 0)) \<noteq> None"
proof -
  have "length (global_entries example_chan) = 4 \<and> length (chan_learned example_chan) = 1" by code_simp
  then show ?thesis using store_reach_consistent [OF example_chan_reach] example_chan_reach by simp
qed

theorem orphan_sweep_exact_witness:
  "length (global_entries (snd (snd (purge_chan_orphans example_chan)))) = 3 \<and>
   purge_chan_orphans (snd (snd (purge_chan_orphans example_chan))) = (0, [], snd (snd (purge_chan_orphans example_chan)))"
proof -
  obtain n ns s' where p: "purge_chan_orphans example_chan = (n, ns, s')" by (cases "purge_chan_orphans example_chan")
  have "hub_store_inv example_chan" by (rule store_reach_inv [OF example_chan_reach])
  then have "store_inv example_chan" "uchan_inv example_chan" "learned_wf example_chan" by (simp_all add: hub_store_inv_def learned_inv_alt)
  from orphan_sweep_exact [OF this p]
  have "global_entries s' = filter (\<lambda>en. \<not> orphan_entry example_chan en) (global_entries example_chan)" "purge_chan_orphans s' = (0, [], s')"
    by simp_all
  moreover have "length (filter (\<lambda>en. \<not> orphan_entry example_chan en) (global_entries example_chan)) = 3" by code_simp
  ultimately show ?thesis using p by simp
qed

theorem chan_cascade_complete_witness:
  "let s' = snd (snd (chan_cascade_del (env_at 1000) ''#A'' 200 False example_chan)) in
   length (filter entry_active (global_entries s')) = 2 \<and> learned_find s' ''#a'' = None"
proof -
  let ?s = "snd (snd (chan_cascade_del (env_at 1000) ''#A'' 200 False example_chan))"
  from chan_cascade_complete [OF store_reach_inv [OF example_chan_reach] _ _ refl, of 200 "env_at 1000" "''#A''" False]
  have "global_entries ?s = map (tombed ''#A'' 200) (global_entries example_chan)" "learned_find ?s ''#A'' = None"
    by (simp_all add: ts_ahead_def env_at_def LWW_MAX_FUTURE_def)
  moreover have "length (filter entry_active (map (tombed ''#A'' 200) (global_entries example_chan))) = 2" by code_simp
  moreover have "lower ''#a'' = lower ''#A''" by code_simp
  then have "learned_find ?s ''#a'' = learned_find ?s ''#A''" unfolding learned_find_def learned_index_def eq_ic_def by simp
  ultimately show ?thesis by (simp add: Let_def)
qed

section \<open>Channel names above 72 bytes\<close>

text \<open>
  Property C39.  Any update of a stored channel whose name has more than 72 bytes breaks the index:
  the stored name is cut, so the index still answers for the long name, which the entry no longer
  has, and for the name that is stored it gives whatever it gave before the update.
\<close>

theorem long_channel_breaks_index:
  assumes "idx_ok s" "\<forall>en \<in> set (global_entries s). CHR 0x00 \<notin> set (ce_key en)" "global_find s ''c'' chan = Some i"
    and "72 < length (first_field chan)" "ce_ts (global_entries s ! i) < ts" "\<not> ts_ahead e ts"
    and "update_global_entry e ''c'' chan [] ''add'' ts s = (ok, s')" "stored = ce_value (global_entries s' ! i)"
  shows "ok \<and> length (first_field stored) \<le> 72 \<and> global_find s' ''c'' chan = Some i \<and>
    \<not> global_identity_eq ''c'' stored chan \<and> global_find s' ''c'' stored = global_find s ''c'' stored"
proof -
  let ?en = "global_entries s ! i" let ?v = "trunc_string (first_field (ce_value ?en)) (MAX_CHAN + 8)"
  let ?w = "combined_value ''c'' ?v [] (safe_op ''add'') True"
  have op: "safe_op ''add'' = ''add''" by code_simp
  have i: "i < length (global_entries s)"
    using global_find_linear [OF assms(1) _ assms(2), of "''c''" chan] assms(3)
      position_SomeD [of "\<lambda>e. ce_key e = ''c'' \<and> global_identity_eq ''c'' (ce_value e) chan" "global_entries s" i] by simp
  have len: "length ?v \<le> 72" using trunc_length [of "first_field (ce_value ?en)" "MAX_CHAN + 8"] by (simp add: trunc_string_def MAX_CHAN_def)
  have "length (first_field ?v) \<le> length ?v" by (metis first_field_take length_take min.cobounded1)
  then have fv: "length (first_field ?v) \<le> 72" using len by simp
  then have w: "length (first_field ?w) \<le> 72" using first_field_combined [of "''c''" ?v "[]" "safe_op ''add''"] by (simp add: cmo_key_def)
  have "?w = ?v @ ''||add''" using len by (simp add: combined_value_def op)
  then have act: "global_value_active ?w" using active_op [of "''add''" "?v @ ''|''"] by simp
  have upd: "update_global_entry e ''c'' chan [] ''add'' ts s =
      (True, s\<lparr>global_entries := (global_entries s)[i := ?en\<lparr>ce_value := ?w, ce_ts := ts\<rparr>]\<rparr>)"
    using assms(3,5,6) act unfolding update_global_entry_def
    by (simp add: kept_value_def Let_def key_is_modes_def lww_accepts_def)
  have st: "stored = ?w" using upd assms(7,8) i by auto
  have "\<not> global_identity_eq ''c'' stored chan"
  proof
    assume "global_identity_eq ''c'' stored chan"
    then have "gkey ''c'' stored = gkey ''c'' chan" using gkey_eq [of "''c''" "''c''" stored chan] by simp
    then have "lower (first_field stored) = lower (first_field chan)" by (simp add: gkey_chan)
    then show False using w st assms(4) by (metis length_map not_less)
  qed
  moreover have "global_find s' k x = global_find s k x" for k x using upd assms(7) by (auto simp: global_find_def)
  ultimately show ?thesis using upd assms(3,7) w st by auto
qed

definition long_chan :: string where
  "long_chan = CHR ''#'' # replicate 80 (CHR ''x'')"

definition example_long :: hub_state where
  "example_long = global_reindex (hub_state_new\<lparr>global_entries :=
     [\<lparr>ce_key = ''c'', ce_value = long_chan @ ''||add'', ce_ts = 100, ce_last_used = 0\<rparr>]\<rparr>)"

theorem long_channel_breaks_index_witness:
  "let s' = snd (update_global_entry (env_at 1000) ''c'' long_chan [] ''add'' 200 example_long); stored = ce_value (global_entries s' ! 0)
   in global_find s' ''c'' long_chan = Some 0 \<and> \<not> global_identity_eq ''c'' stored long_chan \<and> length (first_field stored) \<le> 72"
proof -
  have ix: "idx_ok example_long" unfolding example_long_def by (rule global_reindex_ok)
  have g: "\<forall>en \<in> set (global_entries example_long). CHR 0x00 \<notin> set (ce_key en)" by code_simp
  have f: "global_find example_long ''c'' long_chan = Some 0" "72 < length (first_field long_chan)" "ce_ts (global_entries example_long ! 0) < 200"
    by code_simp+
  have a: "\<not> ts_ahead (env_at 1000) 200" by (simp add: ts_ahead_def env_at_def LWW_MAX_FUTURE_def)
  obtain ok s' where u: "update_global_entry (env_at 1000) ''c'' long_chan [] ''add'' 200 example_long = (ok, s')"
    by (cases "update_global_entry (env_at 1000) ''c'' long_chan [] ''add'' 200 example_long")
  from long_channel_breaks_index [OF ix g f a u refl] show ?thesis unfolding u by (simp add: Let_def)
qed

end
