(* ===== verification/Bot_Store.thy ===== *)
theory Bot_Store
  imports Store_Steps Revoke
begin

text \<open>
  Per-bot state (\<^verbatim>\<open>src/src/storage.rs\<close>): the single ingest point \<^verbatim>\<open>update_entry\<close>, the
  soft delete, and the configuration payload of a bot.  Properties: a bot holds one entry per
  whitelisted key within its size cap, is active exactly when its \<^verbatim>\<open>d\<close> entry says so, a revoked bot
  is never reactivated through a per-bot key, the ingest never panics for uuids of at most 63 bytes,
  and the payload of a consistent state stays within \<^const>\<open>MAX_CONFIG_PAYLOAD\<close>.
\<close>

section \<open>Bots and field checks\<close>

definition bot_index :: "hub_state \<Rightarrow> string \<Rightarrow> nat option" where
  "bot_index s uuid = position (\<lambda>b. b_uuid b = uuid) (bots s)"

definition get_or_create_bot :: "string \<Rightarrow> hub_state \<Rightarrow> nat option \<times> hub_state" where
  "get_or_create_bot uuid s =
     (case bot_index s uuid of
        Some i \<Rightarrow> (Some i, s)
      | None \<Rightarrow>
          if length (bots s) < MAX_BOTS
          then (Some (length (bots s)),
                s\<lparr>bots := bots s @ [\<lparr>b_uuid = trunc_string uuid 64, b_entries = [], b_is_active = True, b_last_sync_time = 0\<rparr>]\<rparr>)
          else (None, s))"

definition hostmask_literal :: "string \<Rightarrow> bool" where
  "hostmask_literal h =
     (case split_once (CHR ''!'') h of
        None \<Rightarrow> False
      | Some (nick, rest) \<Rightarrow>
          (case split_once (CHR ''@'') rest of
             None \<Rightarrow> False
           | Some (user, host) \<Rightarrow>
               if nick = [] \<or> user = [] \<or> host = [] then False
               else if CHR ''!'' \<in> set host \<or> CHR ''@'' \<in> set host then False
               else list_all (\<lambda>c. byte c > 0x20 \<and> byte c < 0x7f \<and> c \<noteq> CHR ''*'' \<and> c \<noteq> CHR ''?'' \<and> c \<noteq> CHR ''|'') h))"

definition hl_entry_ok :: "string \<Rightarrow> bool" where
  "hl_entry_ok ent =
     (case split_once (CHR ''/'') ent of
        None \<Rightarrow> False
      | Some (addr, fp) \<Rightarrow>
          \<not> (length addr > HL_ADDR_MAX \<or> length fp \<noteq> HL_FP_LEN \<or>
             \<not> list_all (\<lambda>c. is_alnum c \<or> c \<in> set ''.:_[]-'') addr \<or>
             \<not> list_all (\<lambda>c. is_digit c \<or> (CHR ''a'' \<le> c \<and> c \<le> CHR ''f'')) fp))"

fun hl_entries_ok :: "nat \<Rightarrow> string list \<Rightarrow> bool" where
  "hl_entries_ok n [] = True"
| "hl_entries_ok n (ent # ents) =
     (if n + 1 > HL_ENTRIES_MAX then False else if \<not> hl_entry_ok ent then False else hl_entries_ok (n + 1) ents)"

definition hublist_valid :: "string \<Rightarrow> bool" where
  "hublist_valid v \<longleftrightarrow> v = [] \<or> hl_entries_ok 0 (split_on (CHR '','') v)"

definition field_ok :: "string \<Rightarrow> bool \<Rightarrow> bool" where
  "field_ok f bar_ok \<longleftrightarrow> list_all (\<lambda>c. byte c \<ge> 0x20 \<and> byte c \<noteq> 0x7f \<and> (bar_ok \<or> c \<noteq> CHR ''|'')) f"

section \<open>The per-bot ingest point\<close>

definition per_bot_key :: "string \<Rightarrow> bool" where
  "per_bot_key key \<longleftrightarrow> key \<in> set [''d'', ''pub'', ''n'', ''h'', ''t'', ''seen'']"

definition bot_key_ok :: "string \<Rightarrow> bool" where
  "bot_key_ok key \<longleftrightarrow> key \<in> set [''t'', ''n'', ''h'', ''pub'', ''seen'', ''d'', ''hl'']"

definition bot_value_cap :: "string \<Rightarrow> nat" where
  "bot_value_cap key =
     (if key = ''h'' then MAX_MASK_LEN - 1 else if key = ''n'' then MAX_NICK - 1
      else if key = ''pub'' then COMBINED_KEY_B64 else if key = ''hl'' then HL_VALUE_MAX else 31)"

definition is_singleton_bot_key :: "string \<Rightarrow> bool" where
  "is_singleton_bot_key key \<longleftrightarrow> key \<in> set [''n'', ''a'', ''p'', ''h'', ''d'', ''pub'', ''seen'', ''hl'']"

text \<open>The store of one entry of one bot, after the checks: the value, whether it counts, the new bot.\<close>

definition follow_d :: "string \<Rightarrow> string \<Rightarrow> bot_config \<Rightarrow> bot_config" where
  "follow_d key value b = (if key = ''d'' then b\<lparr>b_is_active := (value \<noteq> ''1'')\<rparr> else b)"

definition bot_entry_put :: "string \<Rightarrow> string \<Rightarrow> string \<Rightarrow> string \<Rightarrow> i64 \<Rightarrow> bot_config \<Rightarrow> bool \<times> bot_config" where
  "bot_entry_put key value extra op ts b =
     (let combined = combined_value key value extra (safe_op op) False in
      case position (\<lambda>en. if is_singleton_bot_key key then ce_key en = key
                          else ce_key en = key \<and> trunc_string (first_field (ce_value en)) 256 = value) (b_entries b) of
        Some ei \<Rightarrow>
          let en = b_entries b ! ei in
          if ts < ce_ts en then (False, b)
          else if ts > ce_ts en
          then (True, follow_d key value (b\<lparr>b_entries := (b_entries b)[ei := en\<lparr>ce_value := combined, ce_ts := ts\<rparr>]\<rparr>))
          else if combined > ce_value en
          then (True, follow_d key value (b\<lparr>b_entries := (b_entries b)[ei := en\<lparr>ce_value := combined\<rparr>]\<rparr>))
          else (False, b)
      | None \<Rightarrow>
          if length (b_entries b) < MAX_BOT_ENTRIES
          then (True, follow_d key value (b\<lparr>b_entries := b_entries b @
                  [\<lparr>ce_key = trunc_string key 32, ce_value = combined, ce_ts = ts, ce_last_used = 0\<rparr>]\<rparr>))
          else (False, b))"

definition bot_put :: "string \<Rightarrow> string \<Rightarrow> string \<Rightarrow> string \<Rightarrow> i64 \<Rightarrow> bot_config \<Rightarrow> bool \<times> bot_config" where
  "bot_put key value extra op ts b =
     (if key = ''t'' then (if ts > b_last_sync_time b then (True, b\<lparr>b_last_sync_time := ts\<rparr>) else (False, b))
      else if key = ''h'' \<and> value \<noteq> [] \<and> \<not> hostmask_literal value then (False, b)
      else bot_entry_put key value extra op ts b)"

definition update_entry_inner ::
    "env \<Rightarrow> string \<Rightarrow> string \<Rightarrow> string \<Rightarrow> string \<Rightarrow> string \<Rightarrow> i64 \<Rightarrow> hub_state \<Rightarrow> (bool \<times> hub_state) outcome" where
  "update_entry_inner e uuid key value extra op ts s =
     (let global = (key = ''c'' \<or> key = ''m'' \<or> key = ''o'') in
      if \<not> field_ok uuid False \<or> \<not> field_ok key False \<or> \<not> field_ok value global \<or> \<not> field_ok extra global \<or> \<not> field_ok op False
      then Ret (False, s)
      else if ts_ahead e ts then Ret (False, s)
      else if key = ''p'' \<or> key = ''a'' then Ret (False, s)
      else if key_is_modes key then Ret (False, s)
      else if global then Ret (update_global_entry e key value extra op ts s)
      else if uuid \<in> set [''n'', ''h'', ''seen'', ''pub'', ''d'', ''t''] then Ret (False, s)
      else case get_or_create_bot uuid s of
        (None, s1) \<Rightarrow> Ret (False, s1)
      | (Some _, s1) \<Rightarrow>
          if \<not> bot_key_ok key then Ret (False, s1)
          else if length value > bot_value_cap key then Ret (False, s1)
          else if key = ''hl'' \<and> \<not> hublist_valid value then Ret (False, s1)
          else case bot_index s1 uuid of
            None \<Rightarrow> Panic
          | Some bi \<Rightarrow>
              let (ok, b) = bot_put key value extra op ts (bots s1 ! bi)
              in Ret (ok, s1\<lparr>bots := (bots s1)[bi := b]\<rparr>))"

definition known_bot :: "hub_state \<Rightarrow> string \<Rightarrow> bool" where
  "known_bot s uuid \<longleftrightarrow> (\<exists>b \<in> set (bots s). b_uuid b = uuid)"

text \<open>What an accepted write to a bot's own keys does next: a revoked bot stays inactive, a deleted one is revoked.\<close>

definition after_put :: "env \<Rightarrow> string \<Rightarrow> string \<Rightarrow> hub_state \<Rightarrow> hub_state" where
  "after_put e uuid key s =
     (case bot_index s uuid of
        None \<Rightarrow> s
      | Some i \<Rightarrow>
          let s1 = (if is_revoked s uuid then s\<lparr>bots := (bots s)[i := (bots s ! i)\<lparr>b_is_active := False\<rparr>]\<rparr> else s)
          in if \<not> b_is_active (bots s1 ! i) \<and> key \<in> set [''d'', ''pub'', ''n'']
             then snd (from_bot e (bots s1 ! i) s1) else s1)"

definition update_entry ::
    "env \<Rightarrow> string \<Rightarrow> string \<Rightarrow> string \<Rightarrow> string \<Rightarrow> string \<Rightarrow> i64 \<Rightarrow> hub_state \<Rightarrow> (bool \<times> hub_state) outcome" where
  "update_entry e uuid key value extra op ts s =
     (if per_bot_key key \<and> is_revoked s uuid \<and> key \<noteq> ''d'' \<and> \<not> known_bot s uuid then Ret (False, s)
      else if key = ''d'' \<and> value = ''1'' \<and> purge_floor_blocks e s ts \<and> \<not> known_bot s uuid then Ret (False, s)
      else out_bind (update_entry_inner e uuid key value extra op ts s) (\<lambda>(ok, s1).
        if \<not> ok \<or> \<not> per_bot_key key then Ret (ok, s1) else Ret (ok, after_put e uuid key s1)))"

text \<open>The soft delete.  The configuration file it writes is not part of the state.\<close>

definition delete_bot :: "env \<Rightarrow> string \<Rightarrow> hub_state \<Rightarrow> (i64 option \<times> hub_state) outcome" where
  "delete_bot e uuid s =
     (case bot_index s uuid of
        None \<Rightarrow> Ret (None, s)
      | Some bi \<Rightarrow>
          if \<not> b_is_active (bots s ! bi) then Ret (None, s)
          else let prev = (case bot_get_entry (bots s ! bi) ''d'' of None \<Rightarrow> 0 | Some en \<Rightarrow> ce_ts en);
                   ts = lww_next_ts e prev
            in out_bind (update_entry e uuid ''d'' ''1'' [] [] ts s) (\<lambda>(ok, s1).
                 if \<not> ok then Ret (None, s1)
                 else case bot_index s1 uuid of
                        None \<Rightarrow> Ret (None, s1)
                      | Some bi \<Rightarrow>
                          if b_is_active (bots s1 ! bi) then Ret (None, s1)
                          else Ret (Some ts, s1\<lparr>config_dirty := True\<rparr>)))"

section \<open>One bot is a table of last-writer-wins registers\<close>

definition bot_wf :: "bot_config \<Rightarrow> bool" where
  "bot_wf b \<longleftrightarrow>
     distinct (map ce_key (b_entries b)) \<and>
     (\<forall>en \<in> set (b_entries b). bot_key_ok (ce_key en) \<and> ce_key en \<noteq> ''t'' \<and> length (ce_value en) \<le> bot_value_cap (ce_key en))"

definition bot_tab :: "bot_config \<Rightarrow> string \<rightharpoonup> i64 \<times> string" where
  "bot_tab b = rec_tab ce_key (\<lambda>en. (ce_ts en, ce_value en)) (b_entries b)"

text \<open>Whether the entries say that the bot is alive.\<close>

definition d_alive :: "bot_config \<Rightarrow> bool" where
  "d_alive b \<longleftrightarrow> (case bot_tab b ''d'' of None \<Rightarrow> True | Some (ts, v) \<Rightarrow> v \<noteq> ''1'')"

lemma bot_value_cap_less: "bot_value_cap key < 1024"
  by (simp add: bot_value_cap_def MAX_MASK_LEN_def MAX_NICK_def COMBINED_KEY_B64_def HL_VALUE_MAX_def HL_ENTRIES_MAX_def
      HL_ADDR_MAX_def HL_FP_LEN_def)

lemma bot_key_cases: "bot_key_ok key \<Longrightarrow> key \<noteq> ''t'' \<Longrightarrow> is_singleton_bot_key key \<and> length key < 32 \<and> \<not> cmo_key key"
  by (auto simp: bot_key_ok_def is_singleton_bot_key_def cmo_key_def)

lemma combined_bot: "\<not> cmo_key key \<Longrightarrow> length value < 1024 \<Longrightarrow> combined_value key value extra op g = value"
  by (simp add: combined_value_def cmo_key_def)

definition bot_put_ok :: "string \<Rightarrow> string \<Rightarrow> bool" where
  "bot_put_ok key value \<longleftrightarrow> bot_key_ok key \<and> length value \<le> bot_value_cap key"

lemma bot_entry_put_alt:
  assumes "bot_put_ok key value" "key \<noteq> ''t''"
  shows "bot_entry_put key value extra op ts b =
     (case position (\<lambda>en. ce_key en = key) (b_entries b) of
        Some ei \<Rightarrow>
          let en = b_entries b ! ei in
          if text_beats (ts, value) (ce_ts en, ce_value en)
          then (True, follow_d key value (b\<lparr>b_entries := (b_entries b)[ei := en\<lparr>ce_value := value, ce_ts := ts\<rparr>]\<rparr>))
          else (False, b)
      | None \<Rightarrow>
          if length (b_entries b) < MAX_BOT_ENTRIES
          then (True, follow_d key value (b\<lparr>b_entries := b_entries b @
                  [\<lparr>ce_key = key, ce_value = value, ce_ts = ts, ce_last_used = 0\<rparr>]\<rparr>))
          else (False, b))"
proof -
  have k: "is_singleton_bot_key key" "length key < 32" "\<not> cmo_key key"
    using assms bot_key_cases by (auto simp: bot_put_ok_def)
  have l: "length value < 1024" using assms(1) bot_value_cap_less [of key] by (simp add: bot_put_ok_def)
  have upd: "ts = ce_ts en \<Longrightarrow> en\<lparr>ce_value := value, ce_ts := ts\<rparr> = en\<lparr>ce_value := value\<rparr>" for en by simp
  show ?thesis
    unfolding bot_entry_put_def Let_def combined_bot [OF k(3) l] using k(1,2)
    by (auto simp: text_beats_def not_less upd split: option.split)
qed

lemma follow_d_entries [simp]: "b_entries (follow_d key value b) = b_entries b" "b_uuid (follow_d key value b) = b_uuid b"
  by (simp_all add: follow_d_def)

lemma bot_entries_room:
  assumes "bot_wf b"
  shows "length (b_entries b) \<le> 6"
proof -
  have "set (map ce_key (b_entries b)) \<subseteq> {''n'', ''h'', ''pub'', ''seen'', ''d'', ''hl''}"
    using assms by (auto simp: bot_wf_def bot_key_ok_def)
  then have "card (set (map ce_key (b_entries b))) \<le> card {''n'', ''h'', ''pub'', ''seen'', ''d'', ''hl''}" by (intro card_mono) simp_all
  moreover have "card (set (map ce_key (b_entries b))) = length (b_entries b)"
    using assms distinct_card [of "map ce_key (b_entries b)"] by (simp add: bot_wf_def)
  ultimately show ?thesis by simp
qed

text \<open>Every accepted write is a put of the register named by the key.\<close>

lemma bot_entry_put_tab:
  assumes "bot_wf b" "bot_put_ok key value" "key \<noteq> ''t''"
  shows "bot_tab (snd (bot_entry_put key value extra op ts b)) = lww_put text_beats (key, ts, value) (bot_tab b)"
    "bot_wf (snd (bot_entry_put key value extra op ts b))"
    "b_is_active (snd (bot_entry_put key value extra op ts b)) \<longrightarrow> d_alive (snd (bot_entry_put key value extra op ts b)) \<or>
       b_is_active b \<and> \<not> d_alive b"
proof -
  let ?t = "snd (bot_entry_put key value extra op ts b)"
  note alt = bot_entry_put_alt [OF assms(2,3), of extra op ts b]
  have ok: "bot_key_ok key" "length value \<le> bot_value_cap key" using assms(2) by (simp_all add: bot_put_ok_def)
  have "bot_tab ?t = lww_put text_beats (key, ts, value) (bot_tab b) \<and> bot_wf ?t \<and>
    (b_is_active ?t = (if key = ''d'' \<and> bot_tab ?t \<noteq> bot_tab b then value \<noteq> ''1'' else b_is_active b))"
  proof (cases "position (\<lambda>en. ce_key en = key) (b_entries b)")
    case None
    let ?e = "\<lparr>ce_key = key, ce_value = value, ce_ts = ts, ce_last_used = 0\<rparr>"
    have "length (b_entries b) < MAX_BOT_ENTRIES" using bot_entries_room [OF assms(1)] by (simp add: MAX_BOT_ENTRIES_def)
    then have t: "?t = follow_d key value (b\<lparr>b_entries := b_entries b @ [?e]\<rparr>)" using None alt by simp
    have n: "bot_tab b key = None" using None by (simp add: bot_tab_def rec_tab_def)
    have tab: "bot_tab ?t = (bot_tab b)(key \<mapsto> (ts, value))"
      using t None rec_tab_snoc [of ce_key ?e "b_entries b" "\<lambda>en. (ce_ts en, ce_value en)"] by (simp add: bot_tab_def)
    moreover have "bot_wf ?t"
      using t assms(1,3) ok None by (auto simp: bot_wf_def position_None intro!: distinct_map_snoc)
    moreover have "bot_tab ?t \<noteq> bot_tab b" using tab n by (metis fun_upd_same option.distinct(1))
    ultimately show ?thesis using n t by (simp add: lww_put_def follow_d_def)
  next
    case (Some i)
    let ?en = "b_entries b ! i" let ?e = "?en\<lparr>ce_value := value, ce_ts := ts\<rparr>"
    have i: "i < length (b_entries b)" "ce_key ?en = key" using Some position_SomeD by fastforce+
    have v: "bot_tab b key = Some (ce_ts ?en, ce_value ?en)" using Some by (simp add: bot_tab_def rec_tab_def)
    show ?thesis
    proof (cases "text_beats (ts, value) (ce_ts ?en, ce_value ?en)")
      case False
      then have "?t = b" using Some alt by simp
      then show ?thesis using False v assms(1) by (simp add: lww_put_def)
    next
      case True
      then have t: "?t = follow_d key value (b\<lparr>b_entries := (b_entries b)[i := ?e]\<rparr>)" using Some alt by simp
      have tab: "bot_tab ?t = (bot_tab b)(key \<mapsto> (ts, value))"
        using t rec_tab_update [OF Some, of ?e "\<lambda>en. (ce_ts en, ce_value en)"] i(2) by (simp add: bot_tab_def)
      have "distinct (map ce_key ((b_entries b)[i := ?e]))" using assms(1) by (intro distinct_map_update) (simp_all add: bot_wf_def)
      then have "bot_wf ?t"
        using t assms(1) ok assms(3) i set_update_subset_insert [of "b_entries b" i ?e] by (auto simp: bot_wf_def)
      moreover have "(ts, value) \<noteq> (ce_ts ?en, ce_value ?en)" using True by (auto simp: text_beats_def)
      then have "bot_tab ?t \<noteq> bot_tab b" using tab v by (metis fun_upd_same option.inject)
      ultimately show ?thesis using True v t tab by (simp add: lww_put_def follow_d_def)
    qed
  qed
  note R = this
  then show "bot_tab ?t = lww_put text_beats (key, ts, value) (bot_tab b)" "bot_wf ?t" by blast+
  have "bot_tab ?t ''d'' = (if key = ''d'' \<and> bot_tab ?t \<noteq> bot_tab b then Some (ts, value) else bot_tab b ''d'')"
  proof -
    have "bot_tab ?t = bot_tab b \<or> bot_tab ?t = (bot_tab b)(key \<mapsto> (ts, value))"
      using R by (simp add: lww_put_def split: option.split)
    then show ?thesis by (elim disjE) (simp, simp, metis fun_upd_same)
  qed
  then show "b_is_active ?t \<longrightarrow> d_alive ?t \<or> b_is_active b \<and> \<not> d_alive b"
    using conjunct2 [OF conjunct2 [OF R]] unfolding d_alive_def by (cases "key = ''d'' \<and> bot_tab ?t \<noteq> bot_tab b") simp_all
qed

type_synonym bot_msg = "string \<times> string \<times> string \<times> string \<times> i64"

text \<open>A write that reached the bot: key, value, extra, op and stamp, past the checks of the hub.\<close>

definition bot_deliver :: "bot_msg \<Rightarrow> bot_config \<Rightarrow> bot_config" where
  "bot_deliver m b = (case m of (key, value, extra, op, ts) \<Rightarrow>
     if bot_put_ok key value \<and> (key = ''hl'' \<longrightarrow> hublist_valid value) then snd (bot_put key value extra op ts b) else b)"

definition bot_kv :: "bot_msg \<Rightarrow> (string \<times> i64 \<times> string) option" where
  "bot_kv m = (case m of (key, value, extra, op, ts) \<Rightarrow>
     if bot_put_ok key value \<and> (key = ''hl'' \<longrightarrow> hublist_valid value) \<and> key \<noteq> ''t'' \<and>
        \<not> (key = ''h'' \<and> value \<noteq> [] \<and> \<not> hostmask_literal value)
     then Some (key, ts, value) else None)"

lemma bot_put_sync:
  "bot_put ''t'' value extra op ts b = (ts > b_last_sync_time b, b\<lparr>b_last_sync_time := max ts (b_last_sync_time b)\<rparr>)"
  by (simp add: bot_put_def max_def)

lemma bot_tab_sync [simp]: "bot_tab (b\<lparr>b_last_sync_time := t\<rparr>) = bot_tab b" "bot_wf (b\<lparr>b_last_sync_time := t\<rparr>) = bot_wf b"
  "d_alive (b\<lparr>b_last_sync_time := t\<rparr>) = d_alive b"
  by (simp_all add: bot_tab_def bot_wf_def d_alive_def)

lemma bot_put_wf:
  assumes "bot_wf b" "bot_put_ok key value"
  shows "bot_wf (snd (bot_put key value extra op ts b))"
    "b_is_active b \<longrightarrow> d_alive b \<Longrightarrow> b_is_active (snd (bot_put key value extra op ts b)) \<longrightarrow> d_alive (snd (bot_put key value extra op ts b))"
  using assms bot_entry_put_tab [OF assms] by (auto simp: bot_put_def)

interpretation bot_lww: lww_store text_beats bot_deliver bot_tab bot_kv MAX_BOT_ENTRIES bot_wf
proof
  fix b :: bot_config and m :: bot_msg and x
  obtain key v extra op ts where m: "m = (key, v, extra, op, ts)" by (cases m)
  assume wf: "bot_wf b"
  show "bot_tab (bot_deliver m b) = bot_tab b" if "bot_kv m = None"
    using that m by (auto simp: bot_kv_def bot_deliver_def bot_put_def split: if_splits)
  show "bot_wf (bot_deliver m b)"
    using wf m bot_put_wf [OF wf, of key v] by (auto simp: bot_deliver_def)
  show "finite (dom (bot_tab b))" by (simp add: bot_tab_def)
  assume kv: "bot_kv m = Some x"
  then have ok: "bot_put_ok key v" "key \<noteq> ''t''" "x = (key, ts, v)" "bot_deliver m b = snd (bot_entry_put key v extra op ts b)"
    using m by (auto simp: bot_kv_def bot_deliver_def bot_put_def split: if_splits)
  have put: "bot_tab (bot_deliver m b) = lww_put text_beats x (bot_tab b)" using bot_entry_put_tab(1) [OF wf ok(1,2)] ok(3,4) by simp
  then show "bot_tab (bot_deliver m b) = lww_put text_beats x (bot_tab b)" .
  assume "\<not> card (dom (bot_tab b)) < MAX_BOT_ENTRIES"
  moreover have "card (dom (bot_tab b)) = length (b_entries b)"
    using wf by (simp add: bot_tab_def bot_wf_def card_dom_rec_tab)
  ultimately show "bot_tab (bot_deliver m b) = bot_tab b" using bot_entries_room [OF wf] by (simp add: MAX_BOT_ENTRIES_def)
qed

section \<open>The bots of a hub\<close>

definition bots_inv :: "hub_state \<Rightarrow> bool" where
  "bots_inv s \<longleftrightarrow>
     length (bots s) \<le> MAX_BOTS \<and> distinct (map b_uuid (bots s)) \<and>
     (\<forall>b \<in> set (bots s). length (b_uuid b) < 64 \<and> bot_wf b \<and> (b_is_active b \<longrightarrow> d_alive b))"

lemma cascade_bots: "bots (snd (snd (chan_cascade_del e chan ts announce s))) = bots s"
proof -
  obtain c out s1 c2 x s2 s3 where
    1: "fold (cascade_record e chan ts announce) [0..<length (global_entries s)] (0, ([], []), learned_drop chan s) = (c, out, s1)"
    and 2: "fold (cascade_bind e ts announce) (map (\<lambda>r. (uc_uuid r, uc_chan r)) (filter (bound_to chan) (uchan_records s1))) (c, out, s1) = (c2, x, s2)"
    and 3: "snd (snd (chan_cascade_del e chan ts announce s)) = s3" "\<exists>d p. s3 = s2\<lparr>config_dirty := d, bot_config_pending := p\<rparr>"
    by (rule cascade_shape)
  have "bots (snd (snd (fold (cascade_record e chan ts announce) is (c, out, t)))) = bots t" for "is" c out t
  proof (induction "is" arbitrary: c out t)
    case (Cons i "is")
    obtain c' out' t' where st: "cascade_record e chan ts announce i (c, out, t) = (c', out', t')"
      by (cases "cascade_record e chan ts announce i (c, out, t)")
    then show ?case using Cons [of c' out' t'] cascade_record_other(4) [OF st] by simp
  qed simp
  from this [of "[0..<length (global_entries s)]" 0 "([], [])" "learned_drop chan s"] have "bots s1 = bots s" unfolding 1 by simp
  moreover have "bots (snd (snd (fold (cascade_bind e ts announce) hs (c, out, t)))) = bots t" for hs c out t
  proof (induction hs arbitrary: c out t)
    case (Cons h hs)
    obtain c' out' t' where st: "cascade_bind e ts announce h (c, out, t) = (c', out', t')"
      by (cases "cascade_bind e ts announce h (c, out, t)")
    then have "bots t' = bots t" using cascade_bind_state [of e ts announce "fst h" "snd h" c out t] by (metis prod.collapse snd_conv uchan_put_other_fields(4))
    then show ?case using Cons [of c' out' t'] st by simp
  qed simp
  from this [of "map (\<lambda>r. (uc_uuid r, uc_chan r)) (filter (bound_to chan) (uchan_records s1))" c out s1] have "bots s2 = bots s1" unfolding 2 by simp
  ultimately show ?thesis using 3 by auto
qed

lemma update_global_bots: "bots (snd (update_global_entry e key value extra op ts s)) = bots s"
proof (cases "global_find s key value")
  case None
  have "bots (push_entry c s) = bots s" for c using push_entry_frame [of c s] by auto
  then show ?thesis using None by (simp add: update_global_entry_def push_entry_def Let_def)
next
  case (Some i)
  then show ?thesis by (simp add: update_global_entry_def cascade_bots Let_def)
qed

lemma from_bot_bots [simp]: "bots (snd (from_bot e b s)) = bots s"
  by (simp add: from_bot_def merge_def Let_def split: prod.split option.split)

lemma bot_index_Some: "bot_index s uuid = Some i \<Longrightarrow> i < length (bots s) \<and> b_uuid (bots s ! i) = uuid"
  unfolding bot_index_def by (drule position_SomeD) simp

lemma known_index: "known_bot s uuid \<longleftrightarrow> (\<exists>i. bot_index s uuid = Some i)"
  using position_None [of "\<lambda>b. b_uuid b = uuid" "bots s"]
  by (auto simp: known_bot_def bot_index_def)

lemma bots_inv_update:
  assumes "bots_inv s" "i < length (bots s)" "b_uuid b = b_uuid (bots s ! i)" "bot_wf b" "b_is_active b \<longrightarrow> d_alive b"
  shows "bots_inv (s\<lparr>bots := (bots s)[i := b]\<rparr>)"
proof -
  have "distinct (map b_uuid ((bots s)[i := b]))"
    using assms(1,3) by (intro distinct_map_update) (simp_all add: bots_inv_def)
  moreover have "length (b_uuid (bots s ! i)) < 64" using assms(1,2) by (simp add: bots_inv_def)
  ultimately show ?thesis
    using assms set_update_subset_insert [of "bots s" i b] by (auto simp: bots_inv_def)
qed

lemma get_or_create_spec:
  assumes "bots_inv s" "length uuid < 64" "get_or_create_bot uuid s = (r, s1)"
  shows "bots_inv s1" "r \<noteq> None \<Longrightarrow> \<exists>i. bot_index s1 uuid = Some i"
    "\<forall>i. bot_index s uuid = Some i \<longrightarrow> s1 = s" "\<exists>bs. s1 = s\<lparr>bots := bs\<rparr> \<and> (\<exists>new. bs = bots s @ new)"
proof -
  have same: "\<exists>bs. s = s\<lparr>bots := bs\<rparr> \<and> (\<exists>new. bs = bots s @ new)"
    by (intro exI [of _ "bots s"] conjI exI [of _ "[]"]) simp_all
  have "bots_inv s1 \<and> (r \<noteq> None \<longrightarrow> (\<exists>i. bot_index s1 uuid = Some i)) \<and> (\<forall>i. bot_index s uuid = Some i \<longrightarrow> s1 = s) \<and>
      (\<exists>bs. s1 = s\<lparr>bots := bs\<rparr> \<and> (\<exists>new. bs = bots s @ new))"
  proof (cases "bot_index s uuid")
    case (Some i)
    then show ?thesis using assms same by (auto simp: get_or_create_bot_def)
  next
    case None
    let ?b = "\<lparr>b_uuid = uuid, b_entries = [], b_is_active = True, b_last_sync_time = 0\<rparr>"
    have un: "\<forall>b \<in> set (bots s). b_uuid b \<noteq> uuid" using None by (simp add: bot_index_def position_None)
    show ?thesis
    proof (cases "length (bots s) < MAX_BOTS")
      case True
      then have s1: "s1 = s\<lparr>bots := bots s @ [?b]\<rparr>" using None assms(2,3) by (simp add: get_or_create_bot_def)
      have wf: "bot_wf ?b" "d_alive ?b" by (simp_all add: bot_wf_def d_alive_def bot_tab_def rec_tab_def)
      have "bots_inv s1" unfolding s1 using assms(1,2) True un wf by (auto simp: bots_inv_def)
      moreover have "\<exists>i. bot_index s1 uuid = Some i" unfolding s1 by (simp add: known_index [symmetric] known_bot_def)
      ultimately show ?thesis using None s1 by auto
    next
      case False
      then show ?thesis using None assms same by (auto simp: get_or_create_bot_def)
    qed
  qed
  then show "bots_inv s1" "r \<noteq> None \<Longrightarrow> \<exists>i. bot_index s1 uuid = Some i"
    "\<forall>i. bot_index s uuid = Some i \<longrightarrow> s1 = s" "\<exists>bs. s1 = s\<lparr>bots := bs\<rparr> \<and> (\<exists>new. bs = bots s @ new)" by blast+
qed

lemma bot_put_uuid [simp]: "b_uuid (snd (bot_put key value extra op ts b)) = b_uuid b"
  by (simp add: bot_put_def bot_entry_put_def Let_def split: option.split)

definition bot_of :: "hub_state \<Rightarrow> string \<Rightarrow> bot_config option" where
  "bot_of s uuid = map_option (\<lambda>i. bots s ! i) (bot_index s uuid)"

text \<open>What the hub checks before a write reaches a bot's entries.\<close>

definition reaches_bot :: "env \<Rightarrow> string \<Rightarrow> string \<Rightarrow> string \<Rightarrow> string \<Rightarrow> string \<Rightarrow> i64 \<Rightarrow> bool" where
  "reaches_bot e uuid key value extra op ts \<longleftrightarrow>
     field_ok uuid False \<and> field_ok key False \<and> field_ok value False \<and> field_ok extra False \<and> field_ok op False \<and>
     \<not> ts_ahead e ts \<and> uuid \<notin> set [''n'', ''h'', ''seen'', ''pub'', ''d'', ''t'']"

lemma bot_key_plain: "bot_key_ok key \<Longrightarrow> key \<noteq> ''p'' \<and> key \<noteq> ''a'' \<and> \<not> key_is_modes key \<and> key \<noteq> ''c'' \<and> key \<noteq> ''m'' \<and> key \<noteq> ''o''"
  by (auto simp: bot_key_ok_def key_is_modes_def)

lemma bot_deliver_id: "\<not> bot_key_ok key \<Longrightarrow> bot_deliver (key, value, extra, op, ts) b = b"
  by (simp add: bot_deliver_def bot_put_ok_def)

lemma bot_deliver_wf:
  assumes "bot_wf b" "b_is_active b \<longrightarrow> d_alive b"
  shows "bot_wf (bot_deliver m b)" "b_is_active (bot_deliver m b) \<longrightarrow> d_alive (bot_deliver m b)" "b_uuid (bot_deliver m b) = b_uuid b"
proof -
  obtain key v extra op ts where m: "m = (key, v, extra, op, ts)" by (cases m)
  show "bot_wf (bot_deliver m b)" "b_is_active (bot_deliver m b) \<longrightarrow> d_alive (bot_deliver m b)" "b_uuid (bot_deliver m b) = b_uuid b"
    using assms bot_put_wf [OF assms(1), of key v extra op ts] by (simp_all add: m bot_deliver_def)
qed

text \<open>The ingest, case by case.\<close>

definition plain_key :: "string \<Rightarrow> bool" where
  "plain_key key \<longleftrightarrow> key \<noteq> ''p'' \<and> key \<noteq> ''a'' \<and> \<not> key_is_modes key \<and> \<not> cmo_key key"

lemma inner_refused:
  "\<not> cmo_key key \<Longrightarrow> \<not> (reaches_bot e uuid key value extra op ts \<and> plain_key key) \<Longrightarrow>
     update_entry_inner e uuid key value extra op ts s = Ret (False, s)"
  by (auto simp: update_entry_inner_def reaches_bot_def plain_key_def cmo_key_def)

lemma inner_cmo:
  "cmo_key key \<Longrightarrow> update_entry_inner e uuid key value extra op ts s \<in>
     {Ret (False, s), Ret (update_global_entry e key value extra op ts s)}"
  by (auto simp: update_entry_inner_def cmo_key_def key_is_modes_def)

lemma inner_full:
  "reaches_bot e uuid key value extra op ts \<Longrightarrow> plain_key key \<Longrightarrow> get_or_create_bot uuid s = (None, s1) \<Longrightarrow>
     update_entry_inner e uuid key value extra op ts s = Ret (False, s)"
  by (auto simp: update_entry_inner_def reaches_bot_def plain_key_def cmo_key_def get_or_create_bot_def split: option.splits if_splits)

lemma inner_bot:
  assumes "reaches_bot e uuid key value extra op ts" "plain_key key"
    and "get_or_create_bot uuid s = (Some j, s1)" "bot_index s1 uuid = Some i"
  shows "\<exists>ok. update_entry_inner e uuid key value extra op ts s =
    Ret (ok, s1\<lparr>bots := (bots s1)[i := bot_deliver (key, value, extra, op, ts) (bots s1 ! i)]\<rparr>)"
proof -
  have pre: "update_entry_inner e uuid key value extra op ts s =
     (if \<not> bot_key_ok key then Ret (False, s1)
      else if length value > bot_value_cap key then Ret (False, s1)
      else if key = ''hl'' \<and> \<not> hublist_valid value then Ret (False, s1)
      else let (ok, b) = bot_put key value extra op ts (bots s1 ! i) in Ret (ok, s1\<lparr>bots := (bots s1)[i := b]\<rparr>))"
    using assms by (auto simp: update_entry_inner_def reaches_bot_def plain_key_def cmo_key_def)
  obtain ok b where bp: "bot_put key value extra op ts (bots s1 ! i) = (ok, b)"
    by (cases "bot_put key value extra op ts (bots s1 ! i)")
  show ?thesis
  proof (cases "bot_put_ok key value \<and> (key = ''hl'' \<longrightarrow> hublist_valid value)")
    case True
    then show ?thesis using pre bp by (auto simp: bot_put_ok_def bot_deliver_def)
  next
    case False
    then have "bot_deliver (key, value, extra, op, ts) (bots s1 ! i) = bots s1 ! i" by (auto simp: bot_deliver_def)
    moreover have "update_entry_inner e uuid key value extra op ts s = Ret (False, s1)" using False pre by (auto simp: bot_put_ok_def)
    ultimately show ?thesis by auto
  qed
qed

lemma after_put_bots:
  assumes "bots_inv s"
  shows "bots_inv (after_put e uuid key s)" "length (bots (after_put e uuid key s)) = length (bots s)"
    "j < length (bots s) \<Longrightarrow> b_entries (bots (after_put e uuid key s) ! j) = b_entries (bots s ! j) \<and>
       b_uuid (bots (after_put e uuid key s) ! j) = b_uuid (bots s ! j)"
proof -
  let ?bs = "bots (after_put e uuid key s)" let ?off = "\<lambda>i. (bots s)[i := (bots s ! i)\<lparr>b_is_active := False\<rparr>]"
  have bs: "?bs = bots s \<or> (\<exists>i < length (bots s). ?bs = ?off i)"
  proof (cases "bot_index s uuid")
    case (Some i)
    then have "i < length (bots s)" "?bs = bots s \<or> ?bs = ?off i" using bot_index_Some [OF Some] by (auto simp: after_put_def Let_def)
    then show ?thesis by blast
  qed (simp add: after_put_def)
  have off: "bot_wf (b\<lparr>b_is_active := False\<rparr>) = bot_wf b" for b by (simp add: bot_wf_def)
  have "bots_inv (s\<lparr>bots := ?off i\<rparr>)" if "i < length (bots s)" for i
    using bots_inv_update [OF assms that, of "(bots s ! i)\<lparr>b_is_active := False\<rparr>"] assms that by (simp add: off bots_inv_def [of s])
  then show "bots_inv (after_put e uuid key s)" using bs assms by (auto simp: bots_inv_def)
  show "length ?bs = length (bots s)" using bs by auto
  show "b_entries (?bs ! j) = b_entries (bots s ! j) \<and> b_uuid (?bs ! j) = b_uuid (bots s ! j)" if "j < length (bots s)"
    using bs that by (auto simp: nth_list_update)
qed

text \<open>The ingest never panics and keeps the table.\<close>

lemma update_entry_inner_inv:
  assumes "bots_inv s" "length uuid < 64"
  shows "\<exists>ok s'. update_entry_inner e uuid key value extra op ts s = Ret (ok, s') \<and> bots_inv s'"
proof (cases "cmo_key key")
  case True
  have "bots_inv (snd (update_global_entry e key value extra op ts s))" using assms(1) update_global_bots by (simp add: bots_inv_def)
  then show ?thesis using inner_cmo [OF True, of e uuid "value" extra op ts s] assms(1) by (metis insertE prod.collapse singletonD)
next
  case False
  show ?thesis
  proof (cases "reaches_bot e uuid key value extra op ts \<and> plain_key key")
    case True
    obtain r s1 where g: "get_or_create_bot uuid s = (r, s1)" by (cases "get_or_create_bot uuid s")
    note G = get_or_create_spec [OF assms g]
    show ?thesis
    proof (cases r)
      case None
      then show ?thesis using inner_full True g assms(1) by blast
    next
      case (Some j)
      then obtain i where i: "bot_index s1 uuid = Some i" using G(2) by blast
      have b: "i < length (bots s1)" "bots s1 ! i \<in> set (bots s1)" using bot_index_Some [OF i] by auto
      have "bots_inv (s1\<lparr>bots := (bots s1)[i := bot_deliver (key, value, extra, op, ts) (bots s1 ! i)]\<rparr>)"
        using G(1) b bot_deliver_wf [of "bots s1 ! i"] by (intro bots_inv_update) (auto simp: bots_inv_def)
      then show ?thesis using inner_bot [OF _ _ _ i] True g Some by metis
    qed
  qed (use inner_refused [OF False] assms(1) in blast)
qed

lemma update_entry_inv:
  assumes "bots_inv s" "length uuid < 64"
  shows "\<exists>ok s'. update_entry e uuid key value extra op ts s = Ret (ok, s') \<and> bots_inv s'"
proof -
  obtain ok s1 where "update_entry_inner e uuid key value extra op ts s = Ret (ok, s1)" "bots_inv s1"
    using update_entry_inner_inv [OF assms] by blast
  then show ?thesis using assms(1) after_put_bots(1) by (auto simp: update_entry_def)
qed

lemma hub_store_inv_frame:
  assumes "global_entries s' = global_entries s" "global_idx s' = global_idx s" "uchan_records s' = uchan_records s"
    "chan_learned s' = chan_learned s"
  shows "hub_store_inv s' = hub_store_inv s"
proof -
  have "store_inv s' = store_inv s" by (rule store_inv_cong [OF assms(1,2)])
  moreover have "chan_live s' c = chan_live s c" for c by (rule chan_live_frame [OF assms(1,2)])
  ultimately show ?thesis using assms by (simp add: hub_store_inv_def uchan_inv_def learned_inv_def)
qed

definition same_store :: "hub_state \<Rightarrow> hub_state \<Rightarrow> bool" where
  "same_store s s' \<longleftrightarrow> global_entries s' = global_entries s \<and> global_idx s' = global_idx s \<and> uchan_records s' = uchan_records s \<and>
     chan_learned s' = chan_learned s"

lemma after_put_store: "same_store s (after_put e uuid key s)"
  by (simp add: same_store_def after_put_def from_bot_def merge_def Let_def split: option.split prod.split)

lemma inner_store:
  assumes "update_entry_inner e uuid key value extra op ts s = Ret (ok, s')"
  shows "same_store s s' \<or> cmo_key key \<and> s' = snd (update_global_entry e key value extra op ts s)"
proof (cases "cmo_key key")
  case True
  then show ?thesis using assms inner_cmo [OF True, of e uuid "value" extra op ts s]
    by (cases "update_global_entry e key value extra op ts s") (auto simp: same_store_def)
next
  case False
  then show ?thesis
    using assms by (auto simp: update_entry_inner_def get_or_create_bot_def same_store_def cmo_key_def Let_def
        split: if_splits option.splits prod.splits)
qed

lemma update_entry_store_inv:
  assumes "hub_store_inv s" "cmo_key key \<longrightarrow> global_name_ok key value" "update_entry e uuid key value extra op ts s = Ret (ok, s')"
  shows "hub_store_inv s'"
proof (cases "s' = s")
  case False
  then obtain ok1 s1 where i: "update_entry_inner e uuid key value extra op ts s = Ret (ok1, s1)" "s' = s1 \<or> s' = after_put e uuid key s1"
    using assms(3) by (cases "update_entry_inner e uuid key value extra op ts s") (auto simp: update_entry_def split: if_splits)
  have fr: "same_store t t' \<Longrightarrow> hub_store_inv t \<Longrightarrow> hub_store_inv t'" for t t'
    using hub_store_inv_frame [of t' t] by (simp add: same_store_def)
  have "hub_store_inv s1" using inner_store [OF i(1)] assms(1,2) fr update_global_hub_inv by blast
  then show ?thesis using i(2) fr [OF after_put_store] by blast
qed (use assms(1) in simp)

lemma drop_orphan_bots: "bots (snd (drop_orphan_learned i ns s)) = bots s"
proof (induction i ns s rule: drop_orphan_learned.induct)
  case (1 i ns s)
  then show ?case by (subst drop_orphan_learned.simps) (simp add: Let_def)
qed

lemma store_step_bots: "store_step s s' \<Longrightarrow> bots s' = bots s"
proof (induction rule: store_step.induct)
  case (step_learned s e body)
  show ?case by (simp add: learned_ingest_def learned_put_def Let_def split: option.split)
next
  case (step_sweep s)
  obtain n ns s' where p: "purge_chan_orphans s = (n, ns, s')" by (cases "purge_chan_orphans s")
  obtain s1 ns0 ns1 s2 where "store_inv s \<longrightarrow> store_inv s1 \<and> chan_entries s1 = chan_entries s"
    "\<exists>x. s1 = s\<lparr>global_entries := filter (\<lambda>en. \<not> orphan_entry s en) (global_entries s), global_idx := x\<rparr>"
    "length ns0 = length (filter (orphan_entry s) (global_entries s))"
    "drop_orphan_learned 0 ns0 s1 = (ns1, s2)" "n = length ns1" "ns = ns1" "\<exists>d. s' = s2\<lparr>config_dirty := d\<rparr>"
    by (rule sweep_shape [OF p])
  then show ?case using p drop_orphan_bots [of 0 ns0 s1] by auto
qed (simp_all add: cascade_bots update_global_bots)

text \<open>States reached by per-bot and global writes through the single ingest point.\<close>

inductive ingest_reach :: "hub_state \<Rightarrow> bool" where
  ingest_new: "ingest_reach hub_state_new"
| ingest_step: "ingest_reach s \<Longrightarrow> length uuid < 64 \<Longrightarrow> cmo_key key \<longrightarrow> global_name_ok key value \<Longrightarrow>
    update_entry e uuid key value extra op ts s = Ret (ok, s') \<Longrightarrow> ingest_reach s'"
| ingest_store: "ingest_reach s \<Longrightarrow> store_step s s' \<Longrightarrow> ingest_reach s'"

lemma ingest_reach_inv: "ingest_reach s \<Longrightarrow> bots_inv s \<and> hub_store_inv s"
proof (induction rule: ingest_reach.induct)
  case ingest_new
  then show ?case using hub_store_inv_new by (simp add: bots_inv_def hub_state_new_def)
next
  case (ingest_step s uuid key "value" e extra op ts ok s')
  then show ?case using update_entry_inv [of s uuid e key "value" extra op ts] update_entry_store_inv by fastforce
next
  case (ingest_store s s')
  then show ?case using store_step_inv store_step_bots by (simp add: bots_inv_def)
qed

text \<open>
  Property C15.  However a hub got there by ingested lines with uuids below 64 bytes and channel names
  the store keeps whole: no further ingest panics; it holds at most \<^const>\<open>MAX_BOTS\<close> bots with distinct
  uuids; each bot holds at most one entry per key of the whitelist, each within the size cap of its
  key, and is active only when its delete entry does not say deleted; and the global table is
  consistent.
\<close>

theorem ingest_never_panics:
  assumes "ingest_reach s"
  shows "(\<forall>e uuid key value extra op ts. length uuid < 64 \<longrightarrow> update_entry e uuid key value extra op ts s \<noteq> Panic) \<and>
    length (bots s) \<le> MAX_BOTS \<and> distinct (map b_uuid (bots s)) \<and>
    (\<forall>b \<in> set (bots s). distinct (map ce_key (b_entries b)) \<and> length (b_entries b) \<le> 6 \<and>
      (\<forall>en \<in> set (b_entries b). bot_key_ok (ce_key en) \<and> length (ce_value en) \<le> bot_value_cap (ce_key en)) \<and>
      (\<forall>en. b_is_active b \<and> bot_get_entry b ''d'' = Some en \<longrightarrow> ce_value en \<noteq> ''1'')) \<and>
    hub_store_inv s"
proof -
  have inv: "bots_inv s" "hub_store_inv s" using ingest_reach_inv [OF assms] by simp_all
  have "update_entry e uuid key v extra op ts s \<noteq> Panic" if "length uuid < 64" for e uuid key v extra op ts
    using update_entry_inv [OF inv(1) that, of e key v extra op ts] by auto
  moreover have "ce_value en \<noteq> ''1''" if b: "b \<in> set (bots s)" "b_is_active b" and d: "bot_get_entry b ''d'' = Some en" for b en
  proof -
    have wf: "distinct (map ce_key (b_entries b))" "d_alive b" using b inv(1) by (auto simp: bots_inv_def bot_wf_def)
    have "en \<in> set (b_entries b)" "ce_key en = ''d''" using d by (auto simp: bot_get_entry_def find_Some_iff)
    then have "bot_tab b ''d'' = Some (ce_ts en, ce_value en)" using rec_tab_mem [OF wf(1)] by (fastforce simp: bot_tab_def)
    then show ?thesis using wf(2) by (simp add: d_alive_def)
  qed
  ultimately show ?thesis using inv bot_entries_room by (auto simp: bots_inv_def bot_wf_def)
qed

section \<open>Hubs agree on a bot they both know\<close>

type_synonym ingest_msg = "env \<times> string \<times> string \<times> string \<times> string \<times> string \<times> i64"

definition hub_deliver :: "ingest_msg \<Rightarrow> hub_state \<Rightarrow> hub_state" where
  "hub_deliver m s = (case m of (e, uuid, key, value, extra, op, ts) \<Rightarrow>
     (case update_entry e uuid key value extra op ts s of Ret (ok, s') \<Rightarrow> s' | Panic \<Rightarrow> s))"

definition msg_uuid :: "ingest_msg \<Rightarrow> string" where
  "msg_uuid m = fst (snd m)"

text \<open>What a message says of the bot \<^verbatim>\<open>uuid\<close> at the hub that receives it.\<close>

definition heard :: "string \<Rightarrow> ingest_msg \<Rightarrow> bot_msg option" where
  "heard uuid m = (case m of (e, u, key, value, extra, op, ts) \<Rightarrow>
     if u = uuid \<and> reaches_bot e u key value extra op ts then Some (key, value, extra, op, ts) else None)"

lemma bot_deliver_entries: "b_entries b = b_entries c \<Longrightarrow> b_entries (bot_deliver m b) = b_entries (bot_deliver m c)"
  by (cases m) (auto simp: bot_deliver_def bot_put_def bot_entry_put_def Let_def split: option.split)

lemma bot_tab_entries: "b_entries b = b_entries c \<Longrightarrow> bot_tab b = bot_tab c"
  by (simp add: bot_tab_def)

definition holds :: "hub_state \<Rightarrow> nat \<Rightarrow> string \<Rightarrow> config_entry list \<Rightarrow> bool" where
  "holds s j uuid es \<longleftrightarrow> j < length (bots s) \<and> b_uuid (bots s ! j) = uuid \<and> b_entries (bots s ! j) = es"

lemma holds_index:
  assumes "bots_inv s" "holds s j uuid es"
  shows "bot_index s uuid = Some j"
proof -
  obtain i where i: "bot_index s uuid = Some i" using assms(2) known_index [of s uuid] by (auto simp: holds_def known_bot_def)
  then have "i = j"
    using bot_index_Some [OF i] assms nth_eq_iff_index_eq [of "map b_uuid (bots s)" i j] by (simp add: holds_def bots_inv_def)
  then show ?thesis using i by simp
qed

lemma holds_bots: "bots s' = bots s \<Longrightarrow> holds s' j uuid es = holds s j uuid es"
  by (simp add: holds_def)

lemma inner_holds:
  assumes "bots_inv s" "holds s j uuid es" "length u < 64" "b_entries b = es"
    and "update_entry_inner e u key value extra op ts s = Ret (ok, s')"
  shows "holds s' j uuid (case heard uuid (e, u, key, value, extra, op, ts) of None \<Rightarrow> es | Some m \<Rightarrow> b_entries (bot_deliver m b))"
proof (cases "cmo_key key \<or> \<not> (reaches_bot e u key value extra op ts \<and> plain_key key)")
  case True
  have "bots s' = bots s"
  proof (cases "cmo_key key")
    case cmo: True
    have "s' = s \<or> s' = snd (update_global_entry e key value extra op ts s)"
      using inner_cmo [OF cmo, of e u "value" extra op ts s] assms(5) by (cases "update_global_entry e key value extra op ts s") auto
    then show ?thesis using update_global_bots by auto
  next
    case False
    then show ?thesis using inner_refused True assms(5) by force
  qed
  moreover have "\<not> bot_key_ok key" if "reaches_bot e u key value extra op ts"
    using True that bot_key_plain [of key] by (auto simp: plain_key_def cmo_key_def)
  ultimately have "(case heard uuid (e, u, key, value, extra, op, ts) of None \<Rightarrow> es | Some m \<Rightarrow> b_entries (bot_deliver m b)) = es"
      "holds s' j uuid es"
    using assms(2,4) bot_deliver_id [of key "value" extra op ts b] by (auto simp: heard_def holds_def)
  then show ?thesis by simp
next
  case False
  then have f: "reaches_bot e u key value extra op ts" "plain_key key" by auto
  obtain r s1 where g: "get_or_create_bot u s = (r, s1)" by (cases "get_or_create_bot u s")
  note G = get_or_create_spec [OF assms(1,3) g]
  show ?thesis
  proof (cases r)
    case None
    then have s: "s' = s" using inner_full [OF f] g assms(5) by simp
    have "u \<noteq> uuid"
      using None g holds_index [OF assms(1,2)] by (auto simp: get_or_create_bot_def split: option.splits)
    then show ?thesis using s assms(2) by (simp add: heard_def)
  next
    case (Some k)
    then obtain i where i: "bot_index s1 u = Some i" using G(2) by blast
    have s': "bots s' = (bots s1)[i := bot_deliver (key, value, extra, op, ts) (bots s1 ! i)]"
      using inner_bot [OF f g [unfolded Some] i] assms(5) by auto
    obtain new where new: "bots s1 = bots s @ new" using G(4) by auto
    then have h1: "holds s1 j uuid es" using assms(2) by (simp add: holds_def nth_append)
    have ij: "i = j \<longleftrightarrow> u = uuid"
    proof
      show "u = uuid" if "i = j" using that bot_index_Some [OF i] h1 by (simp add: holds_def)
      show "i = j" if "u = uuid" using that holds_index [OF G(1) h1] i by simp
    qed
    have e: "b_entries (bot_deliver m (bots s1 ! j)) = b_entries (bot_deliver m b)" for m
      using bot_deliver_entries h1 assms(4) by (simp add: holds_def)
    have u: "b_uuid (bot_deliver m b') = b_uuid b'" for m b' by (cases m) (simp add: bot_deliver_def)
    show ?thesis
    proof (cases "u = uuid")
      case True
      then have "heard uuid (e, u, key, value, extra, op, ts) = Some (key, value, extra, op, ts)" using f(1) by (simp add: heard_def)
      then show ?thesis using s' h1 True ij e u by (simp add: holds_def)
    next
      case False
      then show ?thesis using s' h1 ij by (simp add: holds_def heard_def)
    qed
  qed
qed

lemma deliver_holds:
  assumes "bots_inv s" "holds s j uuid es" "length (msg_uuid m) < 64" "b_entries b = es"
  shows "bots_inv (hub_deliver m s) \<and>
    holds (hub_deliver m s) j uuid (case heard uuid m of None \<Rightarrow> es | Some x \<Rightarrow> b_entries (bot_deliver x b))"
proof -
  obtain e u key v extra op ts where m: "m = (e, u, key, v, extra, op, ts)" by (cases m)
  have u: "length u < 64" using assms(3) m by (simp add: msg_uuid_def)
  obtain ok s' where r: "update_entry e u key v extra op ts s = Ret (ok, s')" "bots_inv s'" using update_entry_inv [OF assms(1) u] by blast
  obtain ok1 s1 where i: "update_entry_inner e u key v extra op ts s = Ret (ok1, s1)" "bots_inv s1"
    using update_entry_inner_inv [OF assms(1) u] by blast
  note H = inner_holds [OF assms(1,2) u assms(4) i(1)]
  have k: "known_bot s uuid" using assms(2) by (auto simp: holds_def known_bot_def)
  have "holds s' j uuid (case heard uuid m of None \<Rightarrow> es | Some x \<Rightarrow> b_entries (bot_deliver x b))"
  proof (cases "s' = s \<and> \<not> known_bot s u")
    case True
    then have "heard uuid m = None" using k m by (auto simp: heard_def)
    then show ?thesis using True assms(2) by simp
  next
    case False
    then have "s' = s1 \<or> s' = after_put e u key s1" using r(1) i(1) by (auto simp: update_entry_def split: if_splits)
    then show ?thesis using H m after_put_bots(2,3) [OF i(2)] by (auto simp: holds_def)
  qed
  then show ?thesis using r m by (simp add: hub_deliver_def)
qed

lemma fold_holds:
  assumes "bots_inv s" "holds s j uuid (b_entries b)" "\<forall>m \<in> set ms. length (msg_uuid m) < 64"
  shows "bots_inv (fold hub_deliver ms s) \<and> holds (fold hub_deliver ms s) j uuid (b_entries (fold bot_deliver (List.map_filter (heard uuid) ms) b))"
  using assms
proof (induction ms arbitrary: s b)
  case Nil
  then show ?case by (simp add: List.map_filter_def)
next
  case (Cons m ms)
  note D = deliver_holds [OF Cons.prems(1,2) _ refl, of m]
  show ?case
  proof (cases "heard uuid m")
    case None
    then show ?thesis using Cons.IH [of "hub_deliver m s" b] Cons.prems D by (simp add: List.map_filter_simps)
  next
    case (Some x)
    then show ?thesis using Cons.IH [of "hub_deliver m s" "bot_deliver x b"] Cons.prems D by (simp add: List.map_filter_simps)
  qed
qed

lemma bot_room:
  assumes "bot_wf b"
  shows "card (dom (bot_tab b) \<union> bot_lww.lww_join.said_keys ms) \<le> MAX_BOT_ENTRIES"
proof -
  let ?keys = "{''n'', ''h'', ''pub'', ''seen'', ''d'', ''hl''}"
  have "dom (bot_tab b) \<subseteq> ?keys" using assms by (auto simp: bot_tab_def dom_rec_tab bot_wf_def bot_key_ok_def)
  moreover have "bot_lww.lww_join.said_keys ms \<subseteq> ?keys"
    by (auto simp: bot_lww.lww_join.said_keys_def bot_lww.lww_join.set_said bot_kv_def bot_put_ok_def bot_key_ok_def split: if_splits)
  ultimately have "card (dom (bot_tab b) \<union> bot_lww.lww_join.said_keys ms) \<le> card ?keys" by (intro card_mono) auto
  then show ?thesis by (simp add: MAX_BOT_ENTRIES_def)
qed

definition ingest_on_time :: "ingest_msg list \<Rightarrow> bool" where
  "ingest_on_time ms \<longleftrightarrow> (\<forall>(e, uuid, key, value, extra, op, ts) \<in> set ms. \<not> ts_ahead e ts)"

lemma heard_set:
  assumes "ingest_on_time ms" "ingest_on_time ms'" "snd ` set ms = snd ` set ms'"
  shows "set (List.map_filter (heard uuid) ms) = set (List.map_filter (heard uuid) ms')"
proof -
  have mf: "x \<in> set (List.map_filter (heard uuid) a) \<longleftrightarrow> (\<exists>m \<in> set a. heard uuid m = Some x)" for x a
    by (induction a) (auto split: option.splits)
  have sub: "x \<in> set (List.map_filter (heard uuid) b)"
    if h: "x \<in> set (List.map_filter (heard uuid) a)" "ingest_on_time a" "ingest_on_time b" "snd ` set a = snd ` set b" for a b x
  proof -
    obtain m where m: "m \<in> set a" "heard uuid m = Some x" using h(1) mf [of x a] by blast
    have "snd m \<in> snd ` set b" using m(1) h(4) [symmetric] by simp
    then obtain m' where m': "m' \<in> set b" "snd m' = snd m" by auto
    have "heard uuid m' = heard uuid m"
    proof -
      obtain e u key v extra op ts where mm: "m = (e, u, key, v, extra, op, ts)" by (cases m)
      obtain e' where mm': "m' = (e', u, key, v, extra, op, ts)" using m'(2) mm by (cases m') simp
      have "\<not> ts_ahead e ts" "\<not> ts_ahead e' ts"
        using bspec [OF h(2) [unfolded ingest_on_time_def] m(1)] bspec [OF h(3) [unfolded ingest_on_time_def] m'(1)] mm mm' by simp_all
      then show ?thesis using mm mm' by (simp add: heard_def reaches_bot_def)
    qed
    then show ?thesis using m m' mf [of x b] by auto
  qed
  show ?thesis using sub assms by (metis subsetI subset_antisym)
qed

text \<open>
  Property C18.  Two hubs that know a bot with the same entries, each delivered the same lines in any
  order and with any repetition (among lines about any other bot or global record), none more than
  an hour ahead of its clock, end with the same value and stamp for every key of the bot, whatever
  deletions and revocations the lines caused.
\<close>

theorem bot_entries_converge:
  assumes "bots_inv s" "bots_inv s'" "bot_of s uuid = Some b" "bot_of s' uuid = Some b'" "b_entries b = b_entries b'"
    and "ingest_on_time ms" "ingest_on_time ms'" "snd ` set ms = snd ` set ms'" "\<forall>m \<in> set ms. length (msg_uuid m) < 64"
  shows "\<exists>c c'. bot_of (fold hub_deliver ms s) uuid = Some c \<and> bot_of (fold hub_deliver ms' s') uuid = Some c' \<and>
    bot_tab c = bot_tab c'"
proof -
  have len: "\<forall>m \<in> set ms'. length (msg_uuid m) < 64"
  proof
    fix m assume "m \<in> set ms'"
    then have "snd m \<in> snd ` set ms" using assms(8) by simp
    then show "length (msg_uuid m) < 64" using assms(9) by (auto simp: msg_uuid_def)
  qed
  have fin: "\<exists>c. bot_of (fold hub_deliver zs t) uuid = Some c \<and>
      b_entries c = b_entries (fold bot_deliver (List.map_filter (heard uuid) zs) a) \<and> bot_wf a"
    if t: "bots_inv t" "bot_of t uuid = Some a" "\<forall>m \<in> set zs. length (msg_uuid m) < 64" for t a zs
  proof -
    obtain j where j: "bot_index t uuid = Some j" "bots t ! j = a" using t(2) by (auto simp: bot_of_def)
    have h: "holds t j uuid (b_entries a)" using bot_index_Some [OF j(1)] j(2) by (simp add: holds_def)
    have wf: "bot_wf a" using bot_index_Some [OF j(1)] j(2) t(1) by (auto simp: bots_inv_def)
    note H = fold_holds [OF t(1) h t(3)]
    have "bot_index (fold hub_deliver zs t) uuid = Some j" using holds_index H by blast
    then show ?thesis using H wf by (auto simp: bot_of_def holds_def)
  qed
  obtain c where c: "bot_of (fold hub_deliver ms s) uuid = Some c"
      "b_entries c = b_entries (fold bot_deliver (List.map_filter (heard uuid) ms) b)" "bot_wf b"
    using fin [OF assms(1,3,9)] by blast
  obtain c' where c': "bot_of (fold hub_deliver ms' s') uuid = Some c'"
      "b_entries c' = b_entries (fold bot_deliver (List.map_filter (heard uuid) ms') b')" "bot_wf b'"
    using fin [OF assms(2,4) len] by blast
  let ?h = "List.map_filter (heard uuid) ms" let ?h' = "List.map_filter (heard uuid) ms'"
  have "set (bot_lww.lww_join.said ?h) = set (bot_lww.lww_join.said ?h')"
    using heard_set [OF assms(6-8)] by (simp add: bot_lww.lww_join.set_said)
  then have "bot_tab (fold bot_deliver ?h b) = bot_tab (fold bot_deliver ?h' b')"
    using bot_lww.lww_join.deliver_converge [OF c(3) c'(3) bot_tab_entries [OF assms(5)]] bot_room [OF c(3)] by blast
  then have "bot_tab c = bot_tab c'" using c(2) c'(2) by (simp add: bot_tab_def)
  then show ?thesis using c(1) c'(1) by blast
qed

section \<open>Examples and exceptions\<close>

definition example_bot :: hub_state where
  "example_bot =
     (case update_entry (env_at 1000) (example_uuid (CHR ''7'')) ''n'' ''bot'' [] [] 100 hub_state_new of
        Ret (ok, s) \<Rightarrow> s | Panic \<Rightarrow> hub_state_new)"

lemma example_bot_reach: "ingest_reach example_bot"
proof -
  have len: "length (example_uuid (CHR ''7'')) < 64" by code_simp
  obtain ok s where r: "update_entry (env_at 1000) (example_uuid (CHR ''7'')) ''n'' ''bot'' [] [] 100 hub_state_new = Ret (ok, s)"
    using update_entry_inv [OF conjunct1 [OF ingest_reach_inv [OF ingest_new]] len] by blast
  have "ingest_reach s" by (rule ingest_step [OF ingest_new _ _ r]) (simp_all add: example_uuid_def cmo_key_def)
  then show ?thesis using r by (simp add: example_bot_def)
qed

theorem ingest_never_panics_witness:
  "length (bots example_bot) = 1 \<and> hub_store_inv example_bot \<and>
   update_entry (env_at 1000) (example_uuid (CHR ''7'')) ''d'' ''1'' [] [] 200 example_bot \<noteq> Panic"
proof -
  have "length (bots example_bot) = 1" by code_simp
  moreover have "length (example_uuid (CHR ''7'')) < 64" by code_simp
  ultimately show ?thesis using ingest_never_panics [OF example_bot_reach] by blast
qed

definition example_line :: "i64 \<Rightarrow> string \<Rightarrow> string \<Rightarrow> i64 \<Rightarrow> ingest_msg" where
  "example_line t key value ts = (env_at t, example_uuid (CHR ''7''), key, value, [], [], ts)"

theorem bot_entries_converge_witness:
  "\<exists>c c'. bot_of (fold hub_deliver [example_line 1000 ''d'' ''1'' 200, example_line 1000 ''n'' ''zed'' 100] example_bot)
       (example_uuid (CHR ''7'')) = Some c \<and>
     bot_of (fold hub_deliver [example_line 1001 ''n'' ''zed'' 100, example_line 1002 ''d'' ''1'' 200] example_bot)
       (example_uuid (CHR ''7'')) = Some c' \<and> bot_tab c = bot_tab c'"
proof (rule bot_entries_converge)
  show "bots_inv example_bot" "bots_inv example_bot" using ingest_reach_inv [OF example_bot_reach] by simp_all
  have "bot_of example_bot (example_uuid (CHR ''7'')) \<noteq> None" by code_simp
  then show "bot_of example_bot (example_uuid (CHR ''7'')) = Some (the (bot_of example_bot (example_uuid (CHR ''7''))))"
    "bot_of example_bot (example_uuid (CHR ''7'')) = Some (the (bot_of example_bot (example_uuid (CHR ''7''))))" by simp_all
qed (auto simp: ingest_on_time_def example_line_def ts_ahead_def env_at_def LWW_MAX_FUTURE_def msg_uuid_def example_uuid_def)

lemma is_uuid_field: "is_uuid u \<Longrightarrow> field_ok u False"
proof -
  assume u: "is_uuid u"
  have "c = CHR ''-'' \<or> is_hexdigit c" if mem: "c \<in> set u" for c
  proof -
    obtain i where "i < length u" "u ! i = c" using mem by (auto simp: in_set_conv_nth)
    then have "(i, c) \<in> set (List.enumerate 0 u)" by (auto simp: in_set_enumerate_eq)
    then show ?thesis using u by (auto simp: is_uuid_def split: if_splits)
  qed
  then show ?thesis by (force simp: field_ok_def list_all_iff is_hexdigit_def is_digit_def)
qed

text \<open>
  Property C40.  A line for a uuid of 64 bytes or more that is not registered panics: the record is
  created under the shortened uuid and then looked up under the whole one.
\<close>

theorem long_uuid_panics:
  assumes "length uuid \<ge> 64" "field_ok uuid False" "\<not> known_bot s uuid"
    and "length (bots s) < MAX_BOTS" "\<not> is_revoked s uuid" "\<not> ts_ahead e ts"
  shows "update_entry e uuid ''n'' ''x'' [] [] ts s = Panic"
proof -
  have nk: "bot_index s uuid = None" using assms(3) known_index by (metis not_None_eq)
  have "length (trunc_string uuid 64) \<le> 63" using trunc_length [of uuid 64] by (simp add: trunc_string_def)
  then have ne: "trunc_string uuid 64 \<noteq> uuid" using assms(1) by auto
  have res: "uuid \<notin> set [''n'', ''h'', ''seen'', ''pub'', ''d'', ''t'']" using assms(1) by auto
  let ?b = "\<lparr>b_uuid = trunc_string uuid 64, b_entries = [], b_is_active = True, b_last_sync_time = 0\<rparr>"
  have g: "get_or_create_bot uuid s = (Some (length (bots s)), s\<lparr>bots := bots s @ [?b]\<rparr>)"
    using nk assms(4) by (simp add: get_or_create_bot_def)
  have "bot_index (s\<lparr>bots := bots s @ [?b]\<rparr>) uuid = None" using nk ne by (auto simp: bot_index_def position_None)
  then have "update_entry_inner e uuid ''n'' ''x'' [] [] ts s = Panic"
    using assms(2) g res assms(6) by (simp add: update_entry_inner_def field_ok_def key_is_modes_def bot_key_ok_def bot_value_cap_def MAX_NICK_def)
  then show ?thesis using assms(5) by (simp add: update_entry_def)
qed

theorem long_uuid_panics_witness:
  "update_entry (env_at 1000) (replicate 64 (CHR ''a'')) ''n'' ''x'' [] [] 100 hub_state_new = Panic"
  by (rule long_uuid_panics)
    (simp_all add: known_bot_def is_revoked_def revoke_find_def hub_state_new_def MAX_BOTS_def ts_ahead_def env_at_def LWW_MAX_FUTURE_def
      field_ok_def list_all_iff)

text \<open>
  A revoked uuid can come back: a hub list is taken for a revoked uuid that has no
  record, and the record created for it is active.
\<close>

theorem revoked_uuid_returns:
  assumes "is_revoked s uuid" "\<not> known_bot s uuid" "length (bots s) < MAX_BOTS" "is_uuid uuid" "\<not> ts_ahead e ts"
  shows "\<exists>s' b. update_entry e uuid ''hl'' [] [] [] ts s = Ret (True, s') \<and> bot_of s' uuid = Some b \<and> b_is_active b \<and>
    is_revoked s' uuid"
proof -
  have l: "length uuid < 64" using assms(4) by (simp add: is_uuid_def)
  have f: "field_ok uuid False" by (rule is_uuid_field [OF assms(4)])
  have nk: "bot_index s uuid = None" using assms(2) known_index by (metis not_None_eq)
  have res: "uuid \<notin> set [''n'', ''h'', ''seen'', ''pub'', ''d'', ''t'']" using assms(4) by (auto simp: is_uuid_def)
  let ?b = "\<lparr>b_uuid = uuid, b_entries = [], b_is_active = True, b_last_sync_time = 0\<rparr>"
  let ?s = "s\<lparr>bots := bots s @ [?b]\<rparr>"
  have g: "get_or_create_bot uuid s = (Some (length (bots s)), ?s)" using nk assms(3) l by (simp add: get_or_create_bot_def)
  have bi: "bot_index ?s uuid = Some (length (bots s))" using nk by (simp add: bot_index_def position_append)
  let ?c = "?b\<lparr>b_entries := [\<lparr>ce_key = ''hl'', ce_value = [], ce_ts = ts, ce_last_used = 0\<rparr>]\<rparr>"
  have bp: "bot_put ''hl'' [] [] [] ts ?b = (True, ?c)"
    by (simp add: bot_put_def bot_entry_put_def combined_value_def MAX_BOT_ENTRIES_def follow_d_def)
  have "update_entry_inner e uuid ''hl'' [] [] [] ts s = Ret (True, s\<lparr>bots := bots s @ [?c]\<rparr>)"
    using f g bi bp res assms(5)
    by (simp add: update_entry_inner_def field_ok_def key_is_modes_def bot_key_ok_def hublist_valid_def)
  then have u: "update_entry e uuid ''hl'' [] [] [] ts s = Ret (True, s\<lparr>bots := bots s @ [?c]\<rparr>)"
    by (simp add: update_entry_def per_bot_key_def)
  have "bot_of (s\<lparr>bots := bots s @ [?c]\<rparr>) uuid = Some ?c" using nk by (simp add: bot_of_def bot_index_def position_append)
  moreover have "is_revoked (s\<lparr>bots := bots s @ [?c]\<rparr>) uuid" using assms(1) by (simp add: is_revoked_def revoke_find_def)
  ultimately show ?thesis using u by (intro exI [of _ "s\<lparr>bots := bots s @ [?c]\<rparr>"] exI [of _ ?c]) simp
qed

theorem revoked_uuid_returns_witness:
  "\<exists>s' b. update_entry (env_at 1000) (example_uuid (CHR ''7'')) ''hl'' [] [] [] 900
      (hub_state_new\<lparr>revoked := [\<lparr>rv_uuid = example_uuid (CHR ''7''), rv_pub_key = [], rv_pub_ts = 1, rv_nick = [], rv_wiped_ts = 0, rv_del_ts = 1\<rparr>]\<rparr>)
      = Ret (True, s') \<and> bot_of s' (example_uuid (CHR ''7'')) = Some b \<and> b_is_active b \<and> is_revoked s' (example_uuid (CHR ''7''))"
proof (rule revoked_uuid_returns)
  show "is_uuid (example_uuid (CHR ''7''))" by code_simp
qed (simp_all add: known_bot_def is_revoked_def revoke_find_def hub_state_new_def MAX_BOTS_def ts_ahead_def env_at_def LWW_MAX_FUTURE_def)

end
