(* ===== verification/Bot_Payload.thy ===== *)
theory Bot_Payload
  imports Bot_Store
begin

text \<open>
  The configuration payload of a bot (\<^verbatim>\<open>generate_bot_payload\<close> of \<^verbatim>\<open>src/src/storage.rs\<close>).
  Property: for a consistent state the payload never exceeds \<^const>\<open>MAX_CONFIG_PAYLOAD\<close>, the size
  its buffers are provisioned for.  Base64 encoding is a parameter, like the decoder of the
  environment.
\<close>

section \<open>The payload\<close>

definition pubkey_b64_decode :: "env \<Rightarrow> (string \<Rightarrow> string) \<Rightarrow> string \<Rightarrow> string option" where
  "pubkey_b64_decode e enc b64 =
     (if length b64 \<noteq> COMBINED_KEY_B64 then None
      else if \<not> list_all (\<lambda>(i, c). if i \<ge> COMBINED_KEY_B64 - 2 then c = CHR ''=''
                                   else is_alnum c \<or> c = CHR ''+'' \<or> c = CHR ''/'') (List.enumerate 0 b64)
      then None
      else case env_b64_std e b64 of
        None \<Rightarrow> None
      | Some dec \<Rightarrow>
          if length dec \<noteq> COMBINED_KEY_LEN \<or> enc dec \<noteq> b64 then None
          else if list_all (\<lambda>c. c = CHR 0x00) (take 32 dec) \<or> list_all (\<lambda>c. c = CHR 0x00) (drop 32 dec) then None
          else Some dec)"

definition entry_line :: "config_entry \<Rightarrow> string" where
  "entry_line en = ce_key en @ ''|'' @ ce_value en @ ''|'' @ show_int (ce_ts en) @ [CHR 0x0A]"

definition payload_entry :: "config_entry \<Rightarrow> bool" where
  "payload_entry en \<longleftrightarrow> ce_key en \<notin> set [''h'', ''n'', ''a'', ''m'', ''o'', ''p'']"

definition own_entry :: "config_entry \<Rightarrow> bool" where
  "own_entry en \<longleftrightarrow> ce_key en \<notin> set [''h'', ''n'', ''c'', ''m'', ''o'', ''a'', ''p'']"

definition trusted_line :: "env \<Rightarrow> (string \<Rightarrow> string) \<Rightarrow> string \<Rightarrow> bot_config \<Rightarrow> string option" where
  "trusted_line e enc uuid b =
     (if b_uuid b = uuid \<or> \<not> b_is_active b then None
      else case bot_get_entry b ''h'' of
        None \<Rightarrow> None
      | Some h \<Rightarrow>
          let pubk = bot_get_entry b ''pub'';
              key_ok = (case pubk of None \<Rightarrow> False | Some p \<Rightarrow> pubkey_b64_decode e enc (ce_value p) \<noteq> None);
              ts = (case pubk of Some p \<Rightarrow> if key_ok \<and> ce_ts p > ce_ts h then ce_ts p else ce_ts h | None \<Rightarrow> ce_ts h);
              key = (if key_ok then (case pubk of None \<Rightarrow> [] | Some p \<Rightarrow> ce_value p) else [])
          in Some (''b|'' @ ce_value h @ ''|'' @ b_uuid b @ ''|'' @ key @ ''|'' @ show_int ts @ [CHR 0x0A]))"

definition generate_bot_payload :: "env \<Rightarrow> (string \<Rightarrow> string) \<Rightarrow> hub_state \<Rightarrow> string \<Rightarrow> string" where
  "generate_bot_payload e enc s uuid =
     (let trusted = List.map_filter (trusted_line e enc uuid) (bots s) in
      concat (map entry_line (filter payload_entry (global_entries s))) @
      learned_append s @
      concat (map format_user_record (user_records s)) @
      concat (map format_mask (mask_records s)) @
      append_access s None @
      ''pd|'' @ show_int (purge_days_setting s) @ ''|'' @ show_int (env_now e) @ [CHR 0x0A] @
      (if opt_flags_ts s > 0 then ''O|'' @ opt_flags s @ ''|'' @ show_int (opt_flags_ts s) @ [CHR 0x0A] else []) @
      (case List.find (\<lambda>b. b_uuid b = uuid) (bots s) of
         None \<Rightarrow> []
       | Some b \<Rightarrow> concat (map entry_line (filter own_entry (b_entries b)))) @
      concat trusted @
      ''T|'' @ show_nat (length trusted) @ [CHR 0x0A])"

section \<open>Line lengths\<close>

lemma length_entry_line:
  "in_i64 (ce_ts en) \<Longrightarrow> length (entry_line en) \<le> length (ce_key en) + length (ce_value en) + 23"
  using length_show_int [of "ce_ts en"] by (simp add: entry_line_def)

lemma rec_num_op_length: "rec_num_ok x \<Longrightarrow> length x \<le> 11" "rec_op_ok op \<Longrightarrow> length op = 3"
  by (auto simp: rec_num_ok_def rec_op_ok_def)

lemma record_length_C:
  assumes "record_valid ''C'' v"
  shows "length v \<le> 646"
proof -
  obtain c m st op where v: "v = join_with bar [c, m, st, op]" "rec_chan_ok c False" "rec_modes_ok m" "rec_settings_ok st C_SETTINGS_MAX"
      "rec_op_ok op" using assms record_valid_C by blast
  have "length c \<le> 64" "length m \<le> 64" "length st \<le> 512" "length op = 3"
    using rec_chan_ok_length [OF v(2)] v(3-5) rec_num_op_length
    by (auto simp: MAX_CHAN_def rec_modes_ok_def C_MODES_MAX_def rec_settings_ok_def C_SETTINGS_MAX_def split: if_splits)
  then show ?thesis using v(1) by simp
qed

lemma record_length_D:
  assumes "record_valid ''D'' v"
  shows "length v \<le> 577"
proof -
  obtain fs where fs: "rec_split v 2 1100 = Some fs" "rec_modes_ok (fs ! 0)" "rec_settings_ok (fs ! 1) D_SETTINGS_MAX"
    using assms by (cases "rec_split v 2 1100") (auto simp: record_valid_def)
  obtain m st where "fs = [m, st]" using fs(1) by (auto simp: rec_split_Some length_Suc_conv numeral_eq_Suc)
  moreover have "join_with bar fs = v" using fs(1) by (auto simp: rec_split_Some)
  ultimately show ?thesis
    using fs(2,3) by (auto simp: rec_modes_ok_def C_MODES_MAX_def rec_settings_ok_def D_SETTINGS_MAX_def split: if_splits)
qed

lemma record_length_B:
  assumes "record_valid ''B'' v"
  shows "length v \<le> 391"
proof -
  have "ban_valid v" using assms by (simp add: record_valid_def)
  then obtain c m x f st r op where v: "v = ban_text c m x f st r op" "ban_fields c m x f st r op" by (rule ban_valid_fields)
  have "length c \<le> 64" "length m \<le> 120" "length x \<le> 11" "length f \<le> 4" "length st \<le> 63" "length r \<le> 120" "length op = 3"
    using v(2) rec_chan_ok_length [of c True] rec_num_op_length
    by (auto simp: ban_fields_def rec_mask_ok_def BAN_MASK_MAX_def BAN_SETTER_MAX_def rec_text_ok_def BAN_REASON_MAX_def MAX_CHAN_def)
  then show ?thesis using v(1) by (simp add: ban_text_def)
qed

definition line_cap :: "string \<Rightarrow> nat" where
  "line_cap key = (if key = ''C'' then C_LINE_MAX else if key = ''D'' then D_LINE_MAX else if key = ''B'' then B_LINE_MAX else GLOBAL_LINE_MAX)"

lemma entry_line_cap:
  assumes "entry_ok en" "in_i64 (ce_ts en)"
  shows "length (entry_line en) \<le> line_cap (ce_key en)"
proof (cases "key_is_modes (ce_key en)")
  case True
  then have v: "record_valid (ce_key en) (ce_value en)" using assms(1) by (simp add: entry_ok_def)
  consider "ce_key en = ''C''" | "ce_key en = ''D''" | "ce_key en = ''B''" using True by (auto simp: key_is_modes_def)
  then show ?thesis
    using v record_length_C record_length_D record_length_B length_entry_line [OF assms(2)]
    by cases (fastforce simp: line_cap_def C_LINE_MAX_def D_LINE_MAX_def B_LINE_MAX_def)+
next
  case False
  then have "length (ce_key en) < 32" "length (ce_value en) < 1024" "ce_key en \<noteq> ''C''" "ce_key en \<noteq> ''D''" "ce_key en \<noteq> ''B''"
    using assms(1) by (auto simp: entry_ok_def key_is_modes_def)
  then show ?thesis using length_entry_line [OF assms(2)] by (simp add: line_cap_def GLOBAL_LINE_MAX_def)
qed

lemma lines_cap:
  "sum_list (map (\<lambda>en. line_cap (ce_key en)) es) =
     n_old es * GLOBAL_LINE_MAX + n_class ''C'' es * C_LINE_MAX + n_class ''D'' es * D_LINE_MAX + n_class ''B'' es * B_LINE_MAX"
  by (induction es) (auto simp: line_cap_def n_old_def n_class_def key_is_modes_def algebra_simps)

lemma length_concat_le:
  assumes "\<forall>x \<in> set xs. length (f x) \<le> k" "length xs \<le> n"
  shows "length (concat (map f xs)) \<le> n * k"
proof -
  have "length (concat (map f xs)) \<le> length xs * k" using assms(1) by (induction xs) auto
  also have "\<dots> \<le> n * k" using assms(2) by simp
  finally show ?thesis .
qed

lemma length_concat_mono: "\<forall>x \<in> set xs. length (f x) \<le> g x \<Longrightarrow> length (concat (map f xs)) \<le> sum_list (map g xs)"
  by (induction xs) auto

lemma sum_list_filter_le: "sum_list (map g (filter P xs)) \<le> sum_list (map (g :: 'a \<Rightarrow> nat) xs)"
  by (induction xs) auto

section \<open>The bound\<close>

text \<open>The sizes and stamps of the records other readers fill: uuids, names, keys and masks within their buffers.\<close>

definition records_fit :: "env \<Rightarrow> hub_state \<Rightarrow> bool" where
  "records_fit e s \<longleftrightarrow>
     length (user_records s) \<le> MAX_HUB_USER_RECORDS \<and>
     (\<forall>u \<in> set (user_records s). length (u_uuid u) \<le> 36 \<and> length (u_name u) \<le> 63 \<and> length (u_pubkey_b64 u) \<le> COMBINED_KEY_B64 \<and>
        in_i64 (u_last_seen u) \<and> in_i64 (u_ts u)) \<and>
     length (mask_records s) \<le> MAX_HUB_USER_MASKS \<and>
     (\<forall>m \<in> set (mask_records s). length (m_uuid m) \<le> 36 \<and> length (m_mask m) < MAX_MASK_LEN \<and> in_i64 (m_last_used m) \<and> in_i64 (m_ts m)) \<and>
     (\<forall>en \<in> set (global_entries s). in_i64 (ce_ts en)) \<and> (\<forall>l \<in> set (chan_learned s). in_i64 (cl_ts l)) \<and>
     (\<forall>r \<in> set (uflag_records s). in_i64 (uf_ts r)) \<and> (\<forall>r \<in> set (uchan_records s). in_i64 (uc_ts r)) \<and>
     (\<forall>b \<in> set (bots s). \<forall>en \<in> set (b_entries b). in_i64 (ce_ts en)) \<and>
     in_i64 (purge_days_setting s) \<and> in_i64 (env_now e) \<and> in_i64 (opt_flags_ts s) \<and> length (opt_flags s) \<le> 1024"

lemma entries_part:
  assumes "store_inv s" "records_fit e s"
  shows "length (concat (map entry_line (filter P (global_entries s)))) \<le>
    MAX_BOT_ENTRIES * GLOBAL_LINE_MAX + MAX_CHANNELS * C_LINE_MAX + D_LINE_MAX + MAX_BANS_TOTAL * B_LINE_MAX"
proof -
  let ?es = "global_entries s"
  have "\<forall>en \<in> set (filter P ?es). length (entry_line en) \<le> line_cap (ce_key en)"
    using entry_line_cap assms by (auto simp: store_inv_def records_fit_def)
  then have "length (concat (map entry_line (filter P ?es))) \<le> sum_list (map (\<lambda>en. line_cap (ce_key en)) (filter P ?es))"
    by (rule length_concat_mono)
  also have "\<dots> \<le> sum_list (map (\<lambda>en. line_cap (ce_key en)) ?es)" by (rule sum_list_filter_le)
  also have "\<dots> \<le> MAX_BOT_ENTRIES * GLOBAL_LINE_MAX + MAX_CHANNELS * C_LINE_MAX + 1 * D_LINE_MAX + MAX_BANS_TOTAL * B_LINE_MAX"
    unfolding lines_cap using assms(1) by (intro add_mono mult_right_mono) (simp_all add: store_inv_def class_caps_def)
  finally show ?thesis by simp
qed

lemma and_le_mask: "and (a :: nat) b \<le> b"
  by (metis AND_upper2' nat_int_comparison(3) of_nat_0_le_iff of_nat_and_eq order_refl)

lemma learned_part:
  assumes "learned_inv s" "records_fit e s"
  shows "length (learned_append s) \<le> MAX_CHANNELS * K_LINE_MAX"
  unfolding learned_append_def
proof (rule length_concat_le)
  show "\<forall>l \<in> set (chan_learned s). length (learned_format l) \<le> K_LINE_MAX"
  proof
    fix l assume l: "l \<in> set (chan_learned s)"
    then have ok: "learned_ok l" "in_i64 (cl_ts l)" using assms by (auto simp: learned_inv_def records_fit_def)
    have "and (cl_modes l) K_MODES_MASK = cl_modes l" using ok(1) by (simp add: learned_ok_def learned_modes_ok_def)
    then have "cl_modes l \<le> K_MODES_MASK" using and_le_mask [of "cl_modes l" K_MODES_MASK] by simp
    then have "cl_modes l < 10 ^ 3" by (simp add: K_MODES_MASK_def)
    then have "length (show_int (int (cl_modes l))) \<le> 3" using length_show_nat [of "cl_modes l" 3] by (simp add: show_int_def)
    then show "length (learned_format l) \<le> K_LINE_MAX"
      using ok length_show_int [of "cl_ts l"]
      by (simp add: learned_format_def learned_ok_def learned_key_ok_def K_LINE_MAX_def MAX_CHAN_def MAX_KEY_def)
  qed
  show "length (chan_learned s) \<le> MAX_CHANNELS" using assms(1) by (simp add: learned_inv_def)
qed

lemma users_part:
  assumes "records_fit e s"
  shows "length (concat (map format_user_record (user_records s))) \<le> MAX_HUB_USER_RECORDS * USER_LINE_MAX"
    "length (concat (map format_mask (mask_records s))) \<le> MAX_HUB_USER_MASKS * MASK_LINE_MAX"
proof -
  have "length (format_user_record u) \<le> USER_LINE_MAX" if "u \<in> set (user_records s)" for u
    using assms that length_show_int [of "u_last_seen u"] length_show_int [of "u_ts u"]
    by (auto simp: records_fit_def format_user_record_def USER_LINE_MAX_def COMBINED_KEY_B64_def)
  then show "length (concat (map format_user_record (user_records s))) \<le> MAX_HUB_USER_RECORDS * USER_LINE_MAX"
    using assms by (intro length_concat_le) (simp_all add: records_fit_def)
  have "length (format_mask m) \<le> MASK_LINE_MAX" if "m \<in> set (mask_records s)" for m
    using assms that length_show_int [of "m_last_used m"] length_show_int [of "m_ts m"]
    by (auto simp: records_fit_def format_mask_def MASK_LINE_MAX_def MAX_MASK_LEN_def)
  then show "length (concat (map format_mask (mask_records s))) \<le> MAX_HUB_USER_MASKS * MASK_LINE_MAX"
    using assms by (intro length_concat_le) (simp_all add: records_fit_def)
qed

lemma flags_length: "uflags_canon f = Some c \<Longrightarrow> length c \<le> 6"
proof -
  assume "uflags_canon f = Some c"
  then obtain hv where "c = map fst (filter snd (zip USER_FLAG_LETTERS hv))" by (auto simp: uflags_canon_def flags_collect_def)
  then have "length c \<le> length USER_FLAG_LETTERS" using length_filter_le [of snd "zip USER_FLAG_LETTERS hv"] by simp
  then show ?thesis by (simp add: USER_FLAG_LETTERS_def)
qed

lemma access_part:
  assumes "uflag_inv s" "uchan_inv s" "records_fit e s"
  shows "length (append_access s None) \<le> USER_ACCESS_RECORDS_MAX"
proof -
  have "length (format_uflag r) \<le> UF_LINE_MAX" if "r \<in> set (uflag_records s)" for r
    using assms that length_show_int [of "uf_ts r"] flags_length [of "uf_flags r" "uf_flags r"]
    by (auto simp: uflag_inv_def uflag_ok_def records_fit_def format_uflag_def UF_LINE_MAX_def uuid_shape_def)
  then have f: "length (concat (map format_uflag (uflag_records s))) \<le> MAX_HUB_USER_FLAGS * UF_LINE_MAX"
    using assms(1) by (intro length_concat_le) (simp_all add: uflag_inv_def)
  have "length (format_uchan r) \<le> UC_LINE_MAX" if "r \<in> set (uchan_records s)" for r
  proof -
    have r: "uchan_ok r" "in_i64 (uc_ts r)" using assms(2,3) that by (auto simp: uchan_inv_def records_fit_def)
    then have "length (uc_chan r) \<le> 64" "length (uc_uuid r) = 36"
      by (auto simp: uchan_ok_def uuid_shape_def uchan_name_ok_def MAX_CHAN_def split: if_splits)
    then show ?thesis using length_show_int [OF r(2)] by (simp add: format_uchan_def UC_LINE_MAX_def)
  qed
  then have c: "length (concat (map format_uchan (uchan_records s))) \<le> MAX_HUB_CHAN_BINDS * UC_LINE_MAX"
    using assms(2) by (intro length_concat_le) (simp_all add: uchan_inv_def)
  have "append_access s None = concat (map format_uflag (uflag_records s)) @ concat (map format_uchan (uchan_records s))"
    by (simp add: append_access_def)
  then show ?thesis using f c by (simp add: USER_ACCESS_RECORDS_MAX_def)
qed

definition own_cap :: "string \<Rightarrow> nat" where
  "own_cap key = (if key = ''hl'' then HL_LINE_MAX else BOT_FIELD_LINE)"

lemma own_part:
  assumes "bot_wf b" "\<forall>en \<in> set (b_entries b). in_i64 (ce_ts en)"
  shows "length (concat (map entry_line (filter own_entry (b_entries b)))) \<le> BOT_SYNC_FIELDS * BOT_FIELD_LINE"
proof -
  let ?es = "filter own_entry (b_entries b)" let ?K = "{''pub'', ''seen'', ''d'', ''hl''}"
  have k: "ce_key en \<in> ?K" "length (ce_value en) \<le> bot_value_cap (ce_key en)" "in_i64 (ce_ts en)" if "en \<in> set ?es" for en
    using assms that by (auto simp: bot_wf_def bot_key_ok_def own_entry_def)
  have "length (entry_line en) \<le> own_cap (ce_key en)" if "en \<in> set ?es" for en
    using k [OF that] length_entry_line [of en]
    by (auto simp: own_cap_def HL_LINE_MAX_def BOT_FIELD_LINE_def bot_value_cap_def COMBINED_KEY_B64_def)
  then have "length (concat (map entry_line ?es)) \<le> sum_list (map (\<lambda>en. own_cap (ce_key en)) ?es)" by (intro length_concat_mono) blast
  also have "\<dots> = sum_list (map own_cap (map ce_key ?es))" by (simp add: comp_def)
  also have "\<dots> = sum own_cap (set (map ce_key ?es))"
    using assms(1) by (intro sum_list_distinct_conv_sum_set) (simp add: bot_wf_def distinct_map_filter)
  also have "\<dots> \<le> sum own_cap ?K" using k(1) by (intro sum_mono2) auto
  also have "\<dots> \<le> BOT_SYNC_FIELDS * BOT_FIELD_LINE"
    by (simp add: own_cap_def HL_LINE_MAX_def HL_VALUE_MAX_def HL_ENTRIES_MAX_def HL_ADDR_MAX_def HL_FP_LEN_def BOT_FIELD_LINE_def
        BOT_SYNC_FIELDS_def)
  finally show ?thesis .
qed

lemma trusted_line_length:
  assumes "trusted_line e enc uuid b = Some l" "bot_wf b" "length (b_uuid b) < 64" "\<forall>en \<in> set (b_entries b). in_i64 (ce_ts en)"
  shows "length l \<le> BLINE_MAX"
proof -
  obtain h where h: "bot_get_entry b ''h'' = Some h"
    using assms(1) by (cases "bot_get_entry b ''h''") (auto simp: trusted_line_def split: if_splits)
  have get: "en \<in> set (b_entries b) \<and> ce_key en = key" if "bot_get_entry b key = Some en" for key en
    using that by (auto simp: bot_get_entry_def find_Some_iff)
  have hv: "length (ce_value h) \<le> 255" "in_i64 (ce_ts h)"
    using get [OF h] assms(2,4) by (auto simp: bot_wf_def bot_value_cap_def MAX_MASK_LEN_def)
  have pv: "length (ce_value p) \<le> 88" "in_i64 (ce_ts p)" if "bot_get_entry b ''pub'' = Some p" for p
    using get [OF that] assms(2,4) by (auto simp: bot_wf_def bot_value_cap_def COMBINED_KEY_B64_def)
  obtain key ts where l: "l = ''b|'' @ ce_value h @ ''|'' @ b_uuid b @ ''|'' @ key @ ''|'' @ show_int ts @ [CHR 0x0A]" "length key \<le> 88" "in_i64 ts"
  proof (cases "bot_get_entry b ''pub''")
    case None
    then show ?thesis using that [of "[]" "ce_ts h"] assms(1) h hv(2) by (auto simp: trusted_line_def Let_def split: if_splits)
  next
    case (Some p)
    let ?ok = "pubkey_b64_decode e enc (ce_value p) \<noteq> None"
    show ?thesis
      using that [of "if ?ok then ce_value p else []" "if ?ok \<and> ce_ts p > ce_ts h then ce_ts p else ce_ts h"] assms(1) h hv(2) Some pv [OF Some]
      by (simp add: trusted_line_def Let_def split: if_splits)
  qed
  then show ?thesis using hv(1) assms(3) length_show_int [OF l(3)] by (simp add: BLINE_MAX_def)
qed

lemma trusted_part:
  assumes "bots_inv s" "records_fit e s"
  shows "length (concat (List.map_filter (trusted_line e enc uuid) (bots s))) \<le> MAX_BOTS * BLINE_MAX"
    "length (List.map_filter (trusted_line e enc uuid) (bots s)) \<le> MAX_BOTS"
proof -
  let ?ls = "List.map_filter (trusted_line e enc uuid) (bots s)"
  have "length ?ls \<le> length (bots s)" by (simp add: List.map_filter_def)
  then show n: "length ?ls \<le> MAX_BOTS" using assms(1) by (simp add: bots_inv_def)
  have "length l \<le> BLINE_MAX" if mem: "l \<in> set ?ls" for l
  proof -
    obtain b where b: "b \<in> set (bots s)" "trusted_line e enc uuid b = Some l" using mem by (auto simp: List.map_filter_def)
    then show ?thesis using assms trusted_line_length [OF b(2)] by (auto simp: bots_inv_def records_fit_def)
  qed
  then show "length (concat ?ls) \<le> MAX_BOTS * BLINE_MAX" using length_concat_le [of ?ls "\<lambda>l. l" BLINE_MAX MAX_BOTS] n by simp
qed

text \<open>
  Property C19.  The configuration payload of a consistent state never exceeds
  \<^const>\<open>MAX_CONFIG_PAYLOAD\<close>, for any bot, however full the tables are.
\<close>

theorem bot_payload_bounded:
  assumes "hub_store_inv s" "bots_inv s" "uflag_inv s" "records_fit e s"
  shows "length (generate_bot_payload e enc s uuid) \<le> MAX_CONFIG_PAYLOAD"
proof -
  have inv: "store_inv s" "uchan_inv s" "learned_inv s" using assms(1) by (simp_all add: hub_store_inv_def)
  let ?own = "case List.find (\<lambda>b. b_uuid b = uuid) (bots s) of None \<Rightarrow> [] | Some b \<Rightarrow> concat (map entry_line (filter own_entry (b_entries b)))"
  have own: "length ?own \<le> BOT_SYNC_FIELDS * BOT_FIELD_LINE"
  proof (cases "List.find (\<lambda>b. b_uuid b = uuid) (bots s)")
    case (Some b)
    then have "b \<in> set (bots s)" by (auto simp: find_Some_iff)
    then have "bot_wf b" "\<forall>en \<in> set (b_entries b). in_i64 (ce_ts en)" using assms(2,4) by (auto simp: bots_inv_def records_fit_def)
    then show ?thesis using Some own_part by simp
  qed simp
  let ?tr = "List.map_filter (trusted_line e enc uuid) (bots s)"
  have "length ?tr < 10 ^ 3" using trusted_part(2) [OF assms(2,4), of enc uuid] by (simp add: MAX_BOTS_def)
  then have t: "length (show_nat (length ?tr)) \<le> 3" using length_show_nat [of "length ?tr" 3] by simp
  have i: "length (show_int (purge_days_setting s)) \<le> 20" "length (show_int (env_now e)) \<le> 20" "length (show_int (opt_flags_ts s)) \<le> 20"
      "length (opt_flags s) \<le> 1024"
    using assms(4) length_show_int by (simp_all add: records_fit_def)
  have "length (generate_bot_payload e enc s uuid) \<le>
      length (concat (map entry_line (filter payload_entry (global_entries s)))) + length (learned_append s) +
      length (concat (map format_user_record (user_records s))) + length (concat (map format_mask (mask_records s))) +
      length (append_access s None) + length ?own + length (concat ?tr) + 1120"
    using t i by (simp add: generate_bot_payload_def Let_def)
  note parts = this entries_part [OF inv(1) assms(4), of payload_entry] learned_part [OF inv(3) assms(4)] users_part [OF assms(4)] access_part [OF assms(3) inv(2) assms(4)]
    trusted_part(1) [OF assms(2,4), of enc uuid] own
  show ?thesis
    unfolding MAX_CONFIG_PAYLOAD_def MODES_RECORDS_MAX_def using parts unfolding PAYLOAD_SLACK_def by linarith
qed

definition example_payload :: hub_state where
  "example_payload = hub_state_new\<lparr>user_records := [example_admin], opt_flags := ''h'', opt_flags_ts := 5\<rparr>"

theorem bot_payload_bounded_witness:
  "length (generate_bot_payload (env_at 1000) (\<lambda>d. []) example_payload ''b'') \<le> MAX_CONFIG_PAYLOAD"
proof (rule bot_payload_bounded)
  show "hub_store_inv example_payload"
    using hub_store_inv_new hub_store_inv_frame [of example_payload hub_state_new] by (simp add: example_payload_def)
  show "bots_inv example_payload" "uflag_inv example_payload"
    by (simp_all add: example_payload_def bots_inv_def uflag_inv_def hub_state_new_def)
  show "records_fit (env_at 1000) example_payload"
    by (simp add: records_fit_def example_payload_def hub_state_new_def example_admin_def example_oper_def example_uuid_def env_at_def in_i64_def I64_MAX_def I64_MIN_def
        MAX_HUB_USER_RECORDS_def COMBINED_KEY_B64_def)
qed

end
