(* ===== verification/Version.thy ===== *)
theory Version
  imports Hub_Base
begin

text \<open>
  The version order of \<^verbatim>\<open>src/src/update.rs\<close>: \<^verbatim>\<open>strverscmp\<close>, the stripped leading \<^verbatim>\<open>v\<close> and
  \<^verbatim>\<open>version_cmp\<close>, which decides whether a peer hub is current enough to be sent the config and
  whether an update is an upgrade.  The property: on dotted decimal versions it is the order of the
  number lists.
\<close>

section \<open>The comparison\<close>

datatype ordering = Ord_Less | Ord_Equal | Ord_Greater

definition cmp_of :: "'a::linorder \<Rightarrow> 'a \<Rightarrow> ordering" where
  "cmp_of x y = (if x < y then Ord_Less else if x = y then Ord_Equal else Ord_Greater)"

definition byte_at :: "string \<Rightarrow> nat \<Rightarrow> nat" where
  "byte_at v i = (if i < length v then byte (v ! i) else 0)"

definition digit_byte :: "nat \<Rightarrow> bool" where
  "digit_byte b \<longleftrightarrow> 48 \<le> b \<and> b \<le> 57"

text \<open>The first loop: the first place the two differ, nothing when a NUL comes first.\<close>

function ver_skip :: "string \<Rightarrow> string \<Rightarrow> nat \<Rightarrow> nat option" where
  "ver_skip a b i =
     (if byte_at a i = byte_at b i then (if byte_at a i = 0 then None else ver_skip a b (i + 1)) else Some i)"
  by pat_completeness auto

termination
  by (relation "measure (\<lambda>(a, b, i). length a - i)") (auto simp: byte_at_def split: if_splits)

text \<open>The second: two digit runs, by length first and then by their first difference.\<close>

function ver_digits :: "string \<Rightarrow> string \<Rightarrow> ordering \<Rightarrow> nat \<Rightarrow> nat \<Rightarrow> nat \<Rightarrow> nat \<Rightarrow> ordering" where
  "ver_digits a b st c1 c2 p1 p2 =
     (let st' = (if st = Ord_Equal then cmp_of c1 c2 else st);
          d1 = (if digit_byte (byte_at a p1) then byte_at a p1 else 0);
          d2 = (if digit_byte (byte_at b p2) then byte_at b p2 else 0);
          q1 = (if digit_byte (byte_at a p1) then p1 + 1 else p1);
          q2 = (if digit_byte (byte_at b p2) then p2 + 1 else p2)
      in if d1 = 0 \<and> d2 = 0 then st'
         else if d1 = 0 then Ord_Less
         else if d2 = 0 then Ord_Greater
         else ver_digits a b st' d1 d2 q1 q2)"
  by pat_completeness auto

termination
  by (relation "measure (\<lambda>(a, b, st, c1, c2, p1, p2). length a - p1)")
     (auto simp: byte_at_def digit_byte_def split: if_splits)

declare ver_skip.simps [simp del] ver_digits.simps [simp del]

definition strverscmp :: "string \<Rightarrow> string \<Rightarrow> ordering" where
  "strverscmp a b =
     (case ver_skip a b 0 of
        None \<Rightarrow> Ord_Equal
      | Some i \<Rightarrow>
          if digit_byte (byte_at a i) \<and> digit_byte (byte_at b i)
          then ver_digits a b Ord_Equal (byte_at a i) (byte_at b i) (i + 1) (i + 1)
          else cmp_of (byte_at a i) (byte_at b i))"

definition strip_v :: "string \<Rightarrow> string" where
  "strip_v v = (case v of c # r \<Rightarrow> if c = CHR ''v'' \<or> c = CHR ''V'' then r else v | [] \<Rightarrow> v)"

definition version_cmp :: "string \<Rightarrow> string \<Rightarrow> ordering" where
  "version_cmp a b = strverscmp (strip_v a) (strip_v b)"

section \<open>The comparison by suffixes\<close>

lemma byte_at_Cons [simp]: "byte_at (x # xs) 0 = byte x" "byte_at (x # xs) (Suc i) = byte_at xs i"
  by (simp_all add: byte_at_def)

lemma byte_at_Nil [simp]: "byte_at [] i = 0"
  by (simp add: byte_at_def)

lemma byte_at_append [simp]: "byte_at (p @ a) (length p + i) = byte_at a i"
  by (simp add: byte_at_def)

lemma digit_byte_is_digit [simp]: "digit_byte (byte c) = is_digit c"
  by (simp add: digit_byte_def is_digit_def)

lemma ver_skip_same:
  assumes "CHR 0x00 \<notin> set p" "byte_at a 0 \<noteq> byte_at b 0"
  shows "ver_skip (q @ p @ a) (q @ p @ b) (length q) = Some (length q + length p)"
  using assms(1)
proof (induction p arbitrary: q)
  case Nil
  show ?case using assms(2) byte_at_append [of q a 0] byte_at_append [of q b 0] by (subst ver_skip.simps) simp
next
  case (Cons x p)
  have "byte x \<noteq> 0" using Cons.prems byte_eq_iff [of x "CHR 0x00"] by auto
  moreover have "byte_at (q @ (x # p) @ a) (length q) = byte x" "byte_at (q @ (x # p) @ b) (length q) = byte x"
    using byte_at_append [of q "x # p @ a" 0] byte_at_append [of q "x # p @ b" 0] by simp_all
  ultimately have "ver_skip (q @ (x # p) @ a) (q @ (x # p) @ b) (length q)
      = ver_skip (q @ (x # p) @ a) (q @ (x # p) @ b) (length q + 1)"
    by (subst ver_skip.simps) simp
  also have "\<dots> = Some (length q + length (x # p))" using Cons.IH [of "q @ [x]"] Cons.prems by simp
  finally show ?case .
qed

lemma ver_skip_equal:
  assumes "CHR 0x00 \<notin> set p"
  shows "ver_skip (q @ p) (q @ p) (length q) = None"
  using assms
proof (induction p arbitrary: q)
  case Nil
  show ?case using byte_at_append [of q "[]" 0] by (subst ver_skip.simps) simp
next
  case (Cons x p)
  have "byte x \<noteq> 0" using Cons.prems byte_eq_iff [of x "CHR 0x00"] by auto
  then have "ver_skip (q @ x # p) (q @ x # p) (length q) = ver_skip (q @ x # p) (q @ x # p) (length q + 1)"
    using byte_at_append [of q "x # p" 0] by (subst ver_skip.simps) simp
  also have "\<dots> = None" using Cons.IH [of "q @ [x]"] Cons.prems by simp
  finally show ?case .
qed

lemma ver_digits_from:
  assumes "st \<noteq> Ord_Equal" "\<forall>c \<in> set d1. is_digit c" "\<forall>c \<in> set d2. is_digit c"
    and "\<not> digit_byte (byte_at r1 0)" "\<not> digit_byte (byte_at r2 0)"
  shows "ver_digits (q1 @ d1 @ r1) (q2 @ d2 @ r2) st c1 c2 (length q1) (length q2) =
    (if length d1 = length d2 then st else cmp_of (length d1) (length d2))"
  using assms(2,3)
proof (induction d1 arbitrary: d2 q1 q2 c1 c2)
  case Nil
  have 1: "\<not> digit_byte (byte_at (q1 @ [] @ r1) (length q1))" using assms(4) byte_at_append [of q1 r1 0] by simp
  show ?case
  proof (cases d2)
    case N: Nil
    then have "\<not> digit_byte (byte_at (q2 @ d2 @ r2) (length q2))" using assms(5) byte_at_append [of q2 r2 0] by simp
    then show ?thesis using 1 assms(1) N by (subst ver_digits.simps) simp
  next
    case (Cons y ys)
    then have "byte_at (q2 @ d2 @ r2) (length q2) = byte y" using byte_at_append [of q2 "y # ys @ r2" 0] by simp
    moreover have "is_digit y" using Nil.prems Cons by simp
    ultimately show ?thesis using 1 assms(1) Cons
      by (subst ver_digits.simps) (simp add: cmp_of_def is_digit_def Let_def)
  qed
next
  case (Cons x xs)
  have x: "byte_at (q1 @ (x # xs) @ r1) (length q1) = byte x" "is_digit x"
    using byte_at_append [of q1 "x # xs @ r1" 0] Cons.prems by simp_all
  show ?case
  proof (cases d2)
    case Nil
    then have "\<not> digit_byte (byte_at (q2 @ d2 @ r2) (length q2))" using assms(5) byte_at_append [of q2 r2 0] by simp
    then show ?thesis using x Nil by (subst ver_digits.simps) (simp add: cmp_of_def is_digit_def Let_def)
  next
    case D: (Cons y ys)
    have y: "byte_at (q2 @ d2 @ r2) (length q2) = byte y" "is_digit y"
      using byte_at_append [of q2 "y # ys @ r2" 0] Cons.prems D by simp_all
    have "ver_digits (q1 @ (x # xs) @ r1) (q2 @ d2 @ r2) st c1 c2 (length q1) (length q2)
        = ver_digits ((q1 @ [x]) @ xs @ r1) ((q2 @ [y]) @ ys @ r2) st (byte x) (byte y)
            (length (q1 @ [x])) (length (q2 @ [y]))"
      using x y assms(1) D by (subst ver_digits.simps) (simp add: is_digit_def Let_def)
    also have "\<dots> = (if length xs = length ys then st else cmp_of (length xs) (length ys))"
      using Cons.prems D by (intro Cons.IH) simp_all
    finally show ?thesis using D by (simp add: cmp_of_def)
  qed
qed

text \<open>The three shapes of a first difference.\<close>

lemma strverscmp_equal: "CHR 0x00 \<notin> set a \<Longrightarrow> strverscmp a a = Ord_Equal"
  using ver_skip_equal [of a "[]"] by (simp add: strverscmp_def)

lemma strverscmp_other:
  assumes "CHR 0x00 \<notin> set p" "byte_at a 0 \<noteq> byte_at b 0"
    and "\<not> (digit_byte (byte_at a 0) \<and> digit_byte (byte_at b 0))"
  shows "strverscmp (p @ a) (p @ b) = cmp_of (byte_at a 0) (byte_at b 0)"
  using ver_skip_same [OF assms(1,2), of "[]"] assms(3) byte_at_append [of p a 0] byte_at_append [of p b 0]
  by (auto simp: strverscmp_def)

lemma strverscmp_digits:
  assumes "CHR 0x00 \<notin> set p" "x \<noteq> y" "is_digit x" "is_digit y"
    and "\<forall>c \<in> set d1. is_digit c" "\<forall>c \<in> set d2. is_digit c"
    and "\<not> digit_byte (byte_at r1 0)" "\<not> digit_byte (byte_at r2 0)"
  shows "strverscmp (p @ x # d1 @ r1) (p @ y # d2 @ r2) =
    (if length d1 = length d2 then cmp_of (byte x) (byte y) else cmp_of (length d1) (length d2))"
proof -
  let ?a = "p @ x # d1 @ r1" let ?b = "p @ y # d2 @ r2"
  have ne: "byte x \<noteq> byte y" using assms(2) byte_eq_iff by blast
  have st: "cmp_of (byte x) (byte y) \<noteq> Ord_Equal" using ne by (simp add: cmp_of_def)
  have v: "ver_skip ?a ?b 0 = Some (length p)" using ver_skip_same [OF assms(1), of "x # d1 @ r1" "y # d2 @ r2" "[]"] ne by simp
  have at: "byte_at ?a (length p) = byte x" "byte_at ?b (length p) = byte y"
    using byte_at_append [of p "x # d1 @ r1" 0] byte_at_append [of p "y # d2 @ r2" 0] by simp_all
  have "ver_digits ?a ?b Ord_Equal (byte x) (byte y) (length p + 1) (length p + 1)
      = ver_digits ?a ?b (cmp_of (byte x) (byte y)) (byte x) (byte y) (length p + 1) (length p + 1)"
    by (subst (1 2) ver_digits.simps) (simp add: st)
  also have "\<dots> = (if length d1 = length d2 then cmp_of (byte x) (byte y) else cmp_of (length d1) (length d2))"
    using ver_digits_from [OF st assms(5-8), of "p @ [x]" "p @ [y]" "byte x" "byte y"] by simp
  finally show ?thesis using v at assms(3,4) by (simp add: strverscmp_def)
qed

section \<open>Decimal numbers by their text\<close>

lemma dec_val_append: "dec_val (a @ b) = dec_val a * 10 ^ length b + dec_val b"
proof (induction b rule: rev_induct)
  case (snoc c b)
  have "dec_val (a @ b @ [c]) = 10 * dec_val (a @ b) + digit_val c" using dec_val_snoc [of "a @ b" c] by simp
  then show ?case using snoc by (simp add: algebra_simps)
qed simp

lemma dec_val_Cons: "dec_val (c # ds) = digit_val c * 10 ^ length ds + dec_val ds"
  using dec_val_append [of "[c]" ds] dec_val_snoc [of "[]" c] by simp

lemma ver_digit_val_less: "is_digit c \<Longrightarrow> digit_val c < 10"
  by (auto simp: is_digit_def digit_val_def)

lemma dec_val_less: "\<forall>c \<in> set ds. is_digit c \<Longrightarrow> dec_val ds < 10 ^ length ds"
proof (induction ds)
  case (Cons c ds)
  then have "digit_val c \<le> 9" "dec_val ds < 10 ^ length ds" using ver_digit_val_less [of c] by auto
  then have "digit_val c * 10 ^ length ds + dec_val ds < 9 * 10 ^ length ds + 10 ^ length ds"
    by (intro add_le_less_mono mult_right_mono) simp_all
  then show ?case by (simp add: dec_val_Cons)
qed simp

lemma show_nat_leading: "0 < n \<Longrightarrow> digit_val (hd (show_nat n)) \<noteq> 0"
proof (induction n rule: show_nat.induct)
  case (1 n)
  show ?case
  proof (cases "n < 10")
    case True
    then show ?thesis using 1 by (simp add: show_nat.simps [of n])
  next
    case False
    then show ?thesis using 1 by (simp add: show_nat.simps [of n] hd_append)
  qed
qed

lemma show_nat_ge: "0 < n \<Longrightarrow> 10 ^ (length (show_nat n) - 1) \<le> n"
proof -
  assume "0 < n"
  obtain c ds where s: "show_nat n = c # ds" using show_nat_not_Nil by (cases "show_nat n") auto
  have "digit_val c \<ge> 1" using show_nat_leading [OF \<open>0 < n\<close>] s by simp
  then have "1 * 10 ^ length ds \<le> digit_val c * 10 ^ length ds + dec_val ds" by (intro trans_le_add1 mult_right_mono) simp_all
  also have "\<dots> = n" using dec_val_show_nat [of n] by (simp add: s dec_val_Cons)
  finally show ?thesis by (simp add: s)
qed

lemma show_nat_zero [simp]: "show_nat 0 = ''0''"
  by code_simp

lemma shorter_is_less: "length (show_nat n) < length (show_nat m) \<Longrightarrow> n < m"
proof -
  assume l: "length (show_nat n) < length (show_nat m)"
  have "0 < m" using l by (cases m) (auto simp: Suc_le_eq)
  then have "10 ^ (length (show_nat m) - 1) \<le> m" by (rule show_nat_ge)
  moreover have "n < 10 ^ length (show_nat n)" using dec_val_less [OF show_nat_digits, of n] by simp
  moreover have "(10::nat) ^ length (show_nat n) \<le> 10 ^ (length (show_nat m) - 1)" using l by (intro power_increasing) auto
  ultimately show ?thesis by linarith
qed

lemma first_digit_less:
  assumes "show_nat n = p @ x # d" "show_nat m = p @ y # e" "length d = length e" "byte x < byte y"
  shows "n < m"
proof -
  have dig: "is_digit x" "is_digit y" "\<forall>c \<in> set d. is_digit c"
    using show_nat_digits [of n] show_nat_digits [of m] assms(1,2) by auto
  then have "digit_val x + 1 \<le> digit_val y" using assms(4) by (auto simp: digit_val_def is_digit_def)
  then have "(digit_val x + 1) * 10 ^ length d \<le> digit_val y * 10 ^ length d" by (rule mult_right_mono) simp
  moreover have "dec_val d < 10 ^ length d" by (rule dec_val_less [OF dig(3)])
  ultimately have "dec_val (p @ x # d) < dec_val (p @ y # e)"
    using assms(3) by (simp add: dec_val_append dec_val_Cons algebra_simps)
  then show ?thesis using assms(1,2) by (metis dec_val_show_nat)
qed

section \<open>Dotted versions\<close>

definition dotted :: "nat list \<Rightarrow> string" where
  "dotted ns = join_with (CHR ''.'') (map show_nat ns)"

text \<open>What may follow a number: the end of the text, or a dot.\<close>

definition ver_tail :: "string \<Rightarrow> bool" where
  "ver_tail r \<longleftrightarrow> r = [] \<or> (\<exists>r'. r = CHR ''.'' # r')"

lemma ver_tail_at: "ver_tail r \<Longrightarrow> \<not> digit_byte (byte_at r 0) \<and> byte_at r 0 < 48"
  by (auto simp: ver_tail_def digit_byte_def)

lemma show_nat_no_nul: "CHR 0x00 \<notin> set (show_nat n)"
  by (rule set_show_nat_notin) (simp add: is_digit_def)

lemma strverscmp_number_less:
  assumes "n < m" "ver_tail r" "ver_tail s" "CHR 0x00 \<notin> set q"
  shows "strverscmp (q @ show_nat n @ r) (q @ show_nat m @ s) = Ord_Less"
    and "strverscmp (q @ show_nat m @ s) (q @ show_nat n @ r) = Ord_Greater"
proof -
  have ne: "show_nat n \<noteq> show_nat m" using assms(1) by (simp add: show_nat_inj)
  obtain p a b where pab: "show_nat n = p @ a" "show_nat m = p @ b" "a = [] \<or> b = [] \<or> hd a \<noteq> hd b"
    using longest_common_prefix [of "show_nat n" "show_nat m"] by blast
  have dig: "\<forall>c \<in> set a. is_digit c" "\<forall>c \<in> set b. is_digit c" "CHR 0x00 \<notin> set (q @ p)"
    using show_nat_digits [of n] show_nat_digits [of m] show_nat_no_nul [of n] pab(1,2) assms(4) by auto
  have b: "b \<noteq> []"
  proof
    assume "b = []"
    then have "length (show_nat m) < length (show_nat n)" using pab ne by (cases a) auto
    then show False using shorter_is_less [of m n] assms(1) by simp
  qed
  then obtain y e where y: "b = y # e" by (cases b) auto
  have "strverscmp (q @ show_nat n @ r) (q @ show_nat m @ s) = Ord_Less \<and>
        strverscmp (q @ show_nat m @ s) (q @ show_nat n @ r) = Ord_Greater"
  proof (cases a)
    case Nil
    have "byte_at r 0 < 48" "\<not> digit_byte (byte_at r 0)" using ver_tail_at [OF assms(2)] by simp_all
    moreover have "48 \<le> byte y" using dig(2) y by (simp add: is_digit_def)
    ultimately show ?thesis
      using strverscmp_other [OF dig(3), of r "y # e @ s"] strverscmp_other [OF dig(3), of "y # e @ s" r] Nil y
      by (simp add: pab(1,2) cmp_of_def)
  next
    case (Cons x d)
    have xy: "x \<noteq> y" "is_digit x" "is_digit y" using pab(3) Cons y dig(1,2) by auto
    have de: "\<forall>c \<in> set d. is_digit c" "\<forall>c \<in> set e. is_digit c" using dig(1,2) Cons y by auto
    have lens: "length d \<le> length e" using shorter_is_less [of m n] assms(1) pab(1,2) Cons y by force
    have less: "byte x < byte y" if "length d = length e"
    proof (rule ccontr)
      assume "\<not> byte x < byte y"
      then have "byte y < byte x" using xy(1) byte_eq_iff [of x y] by linarith
      then have "m < n" using first_digit_less [of m p y e n x d] pab(1,2) Cons y that by simp
      then show False using assms(1) by simp
    qed
    show ?thesis
      using strverscmp_digits [OF dig(3) xy de] strverscmp_digits [OF dig(3) xy(1) [symmetric] xy(3,2) de(2,1)]
        ver_tail_at [OF assms(2)] ver_tail_at [OF assms(3)] lens less Cons y
      by (auto simp: pab(1,2) cmp_of_def)
  qed
  then show "strverscmp (q @ show_nat n @ r) (q @ show_nat m @ s) = Ord_Less"
    and "strverscmp (q @ show_nat m @ s) (q @ show_nat n @ r) = Ord_Greater" by simp_all
qed

text \<open>A dotted version is its first number and a tail.\<close>

definition dots :: "nat list \<Rightarrow> string" where
  "dots ns = concat (map (\<lambda>n. CHR ''.'' # show_nat n) ns)"

lemma dotted_Cons: "dotted (n # ns) = show_nat n @ dots ns"
  by (induction ns arbitrary: n) (simp_all add: dotted_def dots_def)

lemma ver_tail_dots [simp]: "ver_tail (dots ns)"
  by (cases ns) (simp_all add: dots_def ver_tail_def)

lemma cmp_of_Cons: "cmp_of (n # ns) (m # ms) = (if n = m then cmp_of ns ms else cmp_of n m)"
  by (auto simp: cmp_of_def)

lemma strverscmp_dotted:
  "CHR 0x00 \<notin> set q \<Longrightarrow>
   strverscmp (q @ show_nat n @ dots ns) (q @ show_nat m @ dots ms) = cmp_of (n # ns) (m # ms)"
proof (induction ns arbitrary: q n m ms)
  case (Nil q n m ms)
  show ?case
  proof (cases "n = m")
    case True
    have q: "CHR 0x00 \<notin> set (q @ show_nat n)" using Nil show_nat_no_nul by simp
    show ?thesis
    proof (cases ms)
      case N: Nil
      then show ?thesis using True strverscmp_equal [OF q] by (simp add: dots_def cmp_of_def)
    next
      case (Cons k ks)
      then show ?thesis
        using True strverscmp_other [OF q, of "[]" "CHR ''.'' # show_nat k @ dots ks"]
        by (simp add: dots_def cmp_of_def digit_byte_def)
    qed
  next
    case False
    then show ?thesis
      using strverscmp_number_less [of n m, OF _ ver_tail_dots ver_tail_dots Nil]
        strverscmp_number_less [of m n, OF _ ver_tail_dots ver_tail_dots Nil]
      by (cases "n < m") (auto simp: cmp_of_Cons cmp_of_def)
  qed
next
  case (Cons k ks q n m ms)
  show ?case
  proof (cases "n = m")
    case True
    have q: "CHR 0x00 \<notin> set (q @ show_nat n)" using Cons.prems show_nat_no_nul by simp
    show ?thesis
    proof (cases ms)
      case N: Nil
      then show ?thesis
        using True strverscmp_other [OF q, of "CHR ''.'' # show_nat k @ dots ks" "[]"]
        by (simp add: dots_def cmp_of_def digit_byte_def)
    next
      case M: (Cons l ls)
      have "strverscmp (q @ show_nat n @ dots (k # ks)) (q @ show_nat m @ dots ms) = cmp_of (k # ks) (l # ls)"
        using Cons.IH [of "(q @ show_nat n) @ ''.''" k l ls] q True M by (simp add: dots_def)
      then show ?thesis using True M by (simp add: cmp_of_Cons)
    qed
  next
    case False
    then show ?thesis
      using strverscmp_number_less [of n m, OF _ ver_tail_dots ver_tail_dots Cons.prems]
        strverscmp_number_less [of m n, OF _ ver_tail_dots ver_tail_dots Cons.prems]
      by (cases "n < m") (auto simp: cmp_of_Cons cmp_of_def)
  qed
qed

lemma strip_v_dotted:
  assumes "v \<in> {'''', ''v'', ''V''}" "ns \<noteq> []"
  shows "strip_v (v @ dotted ns) = dotted ns"
proof -
  obtain n ns' where ns: "ns = n # ns'" using assms(2) by (cases ns) auto
  obtain c ds where s: "show_nat n = c # ds" using show_nat_not_Nil by (cases "show_nat n") auto
  have "is_digit c" using show_nat_digits [of n] s by simp
  then have "c \<noteq> CHR ''v''" "c \<noteq> CHR ''V''" by (auto simp: is_digit_def)
  then show ?thesis using assms(1) by (auto simp: strip_v_def ns dotted_Cons s)
qed

text \<open>
  Property C13. Versions written as dotted decimal numbers, with or without a leading \<^verbatim>\<open>v\<close>, compare
  as the lists of their numbers: \<^verbatim>\<open>v2.10.0\<close> is newer than \<^verbatim>\<open>2.9.1\<close>, and \<^verbatim>\<open>2.5\<close> older than \<^verbatim>\<open>2.5.1\<close>.
\<close>

theorem version_cmp_dotted:
  assumes "v \<in> {'''', ''v'', ''V''}" "w \<in> {'''', ''v'', ''V''}" "ns \<noteq> []" "ms \<noteq> []"
  shows "version_cmp (v @ dotted ns) (w @ dotted ms) = cmp_of ns ms"
proof -
  obtain n ns' m ms' where "ns = n # ns'" "ms = m # ms'" using assms(3,4) by (cases ns; cases ms) auto
  then have "strverscmp (dotted ns) (dotted ms) = cmp_of ns ms"
    using strverscmp_dotted [of "[]" n ns' m ms'] by (simp add: dotted_Cons)
  then show ?thesis using assms by (simp add: version_cmp_def strip_v_dotted)
qed

theorem version_cmp_dotted_witness:
  "version_cmp ''v2.10.0'' ''2.9.1'' = Ord_Greater"
proof -
  have "dotted [2, 10, 0] = ''2.10.0''" "dotted [2, 9, 1] = ''2.9.1''" by code_simp+
  then show ?thesis
    using version_cmp_dotted [of "''v''" "''''" "[2, 10, 0]" "[2, 9, 1]"] by (simp add: cmp_of_def)
qed

end
