(* ===== verification/Sync_Packet.thy ===== *)
theory Sync_Packet
  imports Bot_Payload
begin

text \<open>
  The full state a hub sends its peers (\<^verbatim>\<open>generate_sync_packet\<close> of \<^verbatim>\<open>src/src/mesh.rs\<close>).  Every part
  is appended only while the packet stays below \<^const>\<open>MAX_SYNC_PAYLOAD\<close>.  Property: for a consistent
  state no part is ever left out, whatever the tables hold.
\<close>

section \<open>The packet\<close>

text \<open>A loop that appends line after line and stops at the first that does not fit; one block, all or nothing.\<close>

fun push_lines :: "nat \<Rightarrow> string list \<Rightarrow> string \<Rightarrow> string" where
  "push_lines n [] out = out"
| "push_lines n (l # ls) out = (if length out + length l \<ge> n then out else push_lines n ls (out @ l))"

definition push_block :: "nat \<Rightarrow> string \<Rightarrow> string \<Rightarrow> string" where
  "push_block n b out = (if length out + length b < n then out @ b else out)"

definition sync_entry :: "config_entry \<Rightarrow> bool" where
  "sync_entry en \<longleftrightarrow> ce_key en \<notin> set [''h'', ''n'', ''w'', ''x'', ''a'', ''o'', ''m'', ''p'']"

definition bot_sync_line :: "bot_config \<Rightarrow> config_entry \<Rightarrow> string" where
  "bot_sync_line b en =
     (if ce_key en = ''seen'' \<or> ce_key en = ''t''
      then ''b|'' @ b_uuid b @ ''|'' @ ce_key en @ ''|'' @ show_int (ce_ts en) @ [CHR 0x0A]
      else ''b|'' @ b_uuid b @ ''|'' @ ce_key en @ ''|'' @ ce_value en @ ''|'' @ show_int (ce_ts en) @ [CHR 0x0A])"

definition opt_line :: "hub_state \<Rightarrow> string" where
  "opt_line s = ''opt|'' @ opt_flags s @ ''|'' @ show_int (opt_flags_ts s) @ [CHR 0x0A]"

definition generate_sync_packet :: "hub_state \<Rightarrow> string" where
  "generate_sync_packet s =
     (let o1 = push_lines MAX_SYNC_PAYLOAD (map entry_line (filter sync_entry (global_entries s))) [];
          o2 = o1 @ learned_append s;
          o3 = push_lines MAX_SYNC_PAYLOAD (map format_user_record (user_records s)) o2;
          o4 = push_lines MAX_SYNC_PAYLOAD (map format_mask (mask_records s)) o3;
          o5 = push_block MAX_SYNC_PAYLOAD (append_access s None) o4;
          o6 = (if opt_flags_ts s > 0 then push_block MAX_SYNC_PAYLOAD (opt_line s) o5 else o5);
          o7 = push_block MAX_SYNC_PAYLOAD (gsetting_append s @ revoke_append s) o6
      in push_lines MAX_SYNC_PAYLOAD (concat (map (\<lambda>b. map (bot_sync_line b) (b_entries b)) (bots s))) o7)"

section \<open>Nothing is left out\<close>

lemma push_lines_all: "length out + length (concat ls) < n \<Longrightarrow> push_lines n ls out = out @ concat ls"
  by (induction n ls out rule: push_lines.induct) auto

lemma push_block_all: "length out + length b < n \<Longrightarrow> push_block n b out = out @ b"
  by (simp add: push_block_def)

lemma rv_line_length: "rv_ok e r \<Longrightarrow> length (revoke_format r) \<le> RV_LINE_MAX"
  using length_show_int [of "rv_pub_ts r"] length_show_int [of "rv_wiped_ts r"] length_show_int [of "rv_del_ts r"]
  by (auto simp: rv_ok_def revoke_format_def RV_LINE_MAX_def is_uuid_def pub_ok_def nick_clean_def COMBINED_KEY_B64_def MAX_NICK_def
      split: if_splits)

lemma revoke_part:
  assumes "rv_inv s" "\<forall>r \<in> set (revoked s). rv_ok e r" "in_i64 (purge_days_setting s)" "in_i64 (purge_days_ts s)"
  shows "length (gsetting_append s @ revoke_append s) \<le> REVOKE_RECORDS_MAX"
proof -
  have "length (revoke_append s) \<le> MAX_REVOKED * RV_LINE_MAX"
    unfolding revoke_append_def using assms(1,2) rv_line_length by (intro length_concat_le) (auto simp: rv_inv_def)
  moreover have "length (gsetting_append s) \<le> HS_LINE_MAX"
    using length_show_int [OF assms(3)] length_show_int [OF assms(4)]
    by (simp add: gsetting_append_def GSET_def gs_get_def gsetting_format_def gs_find_def HS_LINE_MAX_def)
  ultimately show ?thesis by (simp add: REVOKE_RECORDS_MAX_def HUB_GSETTINGS_MAX_def HS_LINE_MAX_def)
qed

definition sync_cap :: "string \<Rightarrow> nat" where
  "sync_cap key = length key + bot_value_cap key + 89"

lemma bot_sync_part:
  assumes "bot_wf b" "length (b_uuid b) < 64" "\<forall>en \<in> set (b_entries b). in_i64 (ce_ts en)"
  shows "length (concat (map (bot_sync_line b) (b_entries b))) \<le> BOT_SYNC_FIELDS * BOT_FIELD_LINE + HL_LINE_MAX"
proof -
  let ?K = "{''n'', ''h'', ''pub'', ''seen'', ''d'', ''hl''}" let ?es = "b_entries b"
  have k: "ce_key en \<in> ?K" "length (ce_value en) \<le> bot_value_cap (ce_key en)" if "en \<in> set ?es" for en
    using assms(1) that by (auto simp: bot_wf_def bot_key_ok_def)
  have "length (bot_sync_line b en) \<le> sync_cap (ce_key en)" if "en \<in> set ?es" for en
  proof -
    have "length (show_int (ce_ts en)) \<le> 20" using assms(3) that length_show_int by blast
    then show ?thesis using k(2) [OF that] assms(2) by (simp add: sync_cap_def bot_sync_line_def)
  qed
  then have "length (concat (map (bot_sync_line b) ?es)) \<le> sum_list (map (\<lambda>en. sync_cap (ce_key en)) ?es)"
    by (intro length_concat_mono) blast
  also have "\<dots> = sum_list (map sync_cap (map ce_key ?es))" by (simp add: comp_def)
  also have "\<dots> = sum sync_cap (set (map ce_key ?es))"
    using assms(1) by (intro sum_list_distinct_conv_sum_set) (simp add: bot_wf_def)
  also have "\<dots> \<le> sum sync_cap ?K" using k(1) by (intro sum_mono2) auto
  also have "\<dots> \<le> BOT_SYNC_FIELDS * BOT_FIELD_LINE + HL_LINE_MAX"
    by (simp add: sync_cap_def bot_value_cap_def store_caps)
  finally show ?thesis .
qed

lemma bots_sync_part:
  assumes "bots_inv s" "records_fit e s"
  shows "length (concat (concat (map (\<lambda>b. map (bot_sync_line b) (b_entries b)) (bots s))))
    \<le> MAX_BOTS * BOT_SYNC_FIELDS * BOT_FIELD_LINE + MAX_BOTS * HL_LINE_MAX"
proof -
  have c: "concat (concat (map (\<lambda>b. map (bot_sync_line b) (b_entries b)) bs)) =
      concat (map (\<lambda>b. concat (map (bot_sync_line b) (b_entries b))) bs)" for bs
    by (induction bs) simp_all
  have "length (concat (map (\<lambda>b. concat (map (bot_sync_line b) (b_entries b))) (bots s)))
      \<le> MAX_BOTS * (BOT_SYNC_FIELDS * BOT_FIELD_LINE + HL_LINE_MAX)"
    using assms bot_sync_part by (intro length_concat_le) (auto simp: bots_inv_def records_fit_def)
  then show ?thesis unfolding c by (simp add: algebra_simps)
qed

text \<open>
  Property C9.  The full-state packet of a consistent hub carries every shared record: the global
  entries, what the bots learned, users, masks, access records, the network flags, the settings, the
  revoke list and every entry of every bot.  No guard on the size ever cuts it.
\<close>

theorem sync_packet_complete:
  assumes "hub_store_inv s" "bots_inv s" "uflag_inv s" "rv_inv s" "records_fit e s"
    and "\<forall>r \<in> set (revoked s). rv_ok e r" "in_i64 (purge_days_ts s)"
  shows "generate_sync_packet s =
      concat (map entry_line (filter sync_entry (global_entries s))) @ learned_append s @
      concat (map format_user_record (user_records s)) @ concat (map format_mask (mask_records s)) @
      append_access s None @ (if opt_flags_ts s > 0 then opt_line s else []) @
      gsetting_append s @ revoke_append s @
      concat (concat (map (\<lambda>b. map (bot_sync_line b) (b_entries b)) (bots s))) \<and>
    length (generate_sync_packet s) < MAX_SYNC_PAYLOAD"
proof -
  have inv: "store_inv s" "uchan_inv s" "learned_inv s" using assms(1) by (simp_all add: hub_store_inv_def)
  let ?g = "concat (map entry_line (filter sync_entry (global_entries s)))" let ?l = "learned_append s"
  let ?u = "concat (map format_user_record (user_records s))" let ?m = "concat (map format_mask (mask_records s))"
  let ?a = "append_access s None" let ?o = "if opt_flags_ts s > 0 then opt_line s else []"
  let ?r = "gsetting_append s @ revoke_append s"
  let ?b = "concat (concat (map (\<lambda>b. map (bot_sync_line b) (b_entries b)) (bots s)))"
  have o: "length ?o \<le> 1050"
    using assms(5) length_show_int [of "opt_flags_ts s"] by (simp add: opt_line_def records_fit_def)
  have pd: "in_i64 (purge_days_setting s)" using assms(5) by (simp add: records_fit_def)
  note parts = entries_part [OF inv(1) assms(5), of sync_entry] learned_part [OF inv(3) assms(5)] users_part [OF assms(5)]
    access_part [OF assms(3) inv(2) assms(5)] revoke_part [OF assms(4,6) pd assms(7)] bots_sync_part [OF assms(2,5)] o
  have sum: "length ?g + length ?l + length ?u + length ?m + length ?a + length ?o + length ?r + length ?b < MAX_SYNC_PAYLOAD"
    unfolding MAX_SYNC_PAYLOAD_def MODES_RECORDS_MAX_def using parts unfolding PAYLOAD_SLACK_def by linarith
  have "push_lines MAX_SYNC_PAYLOAD (map entry_line (filter sync_entry (global_entries s))) [] = ?g"
    using push_lines_all [of "[]"] sum by simp
  moreover have "push_lines MAX_SYNC_PAYLOAD (map format_user_record (user_records s)) (?g @ ?l) = ?g @ ?l @ ?u"
    using push_lines_all [of "?g @ ?l"] sum by simp
  moreover have "push_lines MAX_SYNC_PAYLOAD (map format_mask (mask_records s)) (?g @ ?l @ ?u) = ?g @ ?l @ ?u @ ?m"
    using push_lines_all [of "?g @ ?l @ ?u"] sum by simp
  moreover have "push_block MAX_SYNC_PAYLOAD ?a (?g @ ?l @ ?u @ ?m) = ?g @ ?l @ ?u @ ?m @ ?a"
    using push_block_all [of "?g @ ?l @ ?u @ ?m"] sum by simp
  moreover have "(if opt_flags_ts s > 0 then push_block MAX_SYNC_PAYLOAD (opt_line s) (?g @ ?l @ ?u @ ?m @ ?a) else ?g @ ?l @ ?u @ ?m @ ?a)
      = ?g @ ?l @ ?u @ ?m @ ?a @ ?o"
    using push_block_all [of "?g @ ?l @ ?u @ ?m @ ?a" "opt_line s" MAX_SYNC_PAYLOAD] sum
    by (cases "opt_flags_ts s > 0") simp_all
  moreover have "push_block MAX_SYNC_PAYLOAD ?r (?g @ ?l @ ?u @ ?m @ ?a @ ?o) = ?g @ ?l @ ?u @ ?m @ ?a @ ?o @ ?r"
    using push_block_all [of "?g @ ?l @ ?u @ ?m @ ?a @ ?o" ?r] sum by simp
  moreover have "push_lines MAX_SYNC_PAYLOAD (concat (map (\<lambda>b. map (bot_sync_line b) (b_entries b)) (bots s)))
      (?g @ ?l @ ?u @ ?m @ ?a @ ?o @ ?r) = ?g @ ?l @ ?u @ ?m @ ?a @ ?o @ ?r @ ?b"
    using push_lines_all [of "?g @ ?l @ ?u @ ?m @ ?a @ ?o @ ?r"] sum by simp
  ultimately have e: "generate_sync_packet s = ?g @ ?l @ ?u @ ?m @ ?a @ ?o @ gsetting_append s @ revoke_append s @ ?b"
    unfolding generate_sync_packet_def Let_def by (simp only: append_assoc)
  moreover have "length (generate_sync_packet s) < MAX_SYNC_PAYLOAD" unfolding e using sum by simp
  ultimately show ?thesis by blast
qed

theorem sync_packet_complete_witness:
  "length (generate_sync_packet example_payload) < MAX_SYNC_PAYLOAD"
proof (rule sync_packet_complete [THEN conjunct2])
  show "hub_store_inv example_payload"
    using hub_store_inv_new hub_store_inv_frame [of example_payload hub_state_new] by (simp add: example_payload_def)
  show "bots_inv example_payload" "uflag_inv example_payload" "rv_inv example_payload"
    by (simp_all add: example_payload_def bots_inv_def uflag_inv_def rv_inv_def hub_state_new_def)
  show "records_fit (env_at 1000) example_payload"
    by (simp add: records_fit_def example_payload_def hub_state_new_def example_admin_def example_oper_def example_uuid_def env_at_def in_i64_def I64_MAX_def I64_MIN_def
        MAX_HUB_USER_RECORDS_def COMBINED_KEY_B64_def)
  show "\<forall>r \<in> set (revoked example_payload). rv_ok (env_at 1000) r" "in_i64 (purge_days_ts example_payload)"
    by (simp_all add: example_payload_def hub_state_new_def in_i64_def I64_MAX_def I64_MIN_def)
qed

end
