(* ===== verification/Mesh_Send.thy ===== *)
theory Mesh_Send
  imports Sync_Packet Version Peer_Queue
begin

text \<open>
  Sending to the peer hubs: the fan-out of config changes in \<^verbatim>\<open>src/src/mesh.rs\<close> (the version gate,
  the held sync and its release, the split horizon), the client queries of \<^verbatim>\<open>src/src/state.rs\<close> and
  the peer lookup of \<^verbatim>\<open>src/src/upgrade.rs\<close>.  Properties: exactly the peers that may see a change
  get it, an outdated hub never does, and what was withheld while a peer's version was not known
  is sent as one full sync once it is.  The trace lines of the log are not modelled.
\<close>

section \<open>Client queries\<close>

definition bump_lamport :: "hub_state \<Rightarrow> nat \<times> hub_state" where
  "bump_lamport s = (let n = (next_lamport_seq s + 1) mod 2 ^ 64 in (n, s\<lparr>next_lamport_seq := n\<rparr>))"

definition client_by_fd :: "hub_state \<Rightarrow> i32 \<Rightarrow> nat option" where
  "client_by_fd s fd = (if fd < 0 then None else position (\<lambda>c. c_fd c = fd) (clients s))"

definition bot_client :: "hub_state \<Rightarrow> string \<Rightarrow> nat option" where
  "bot_client s uuid =
     position (\<lambda>c. c_typ c = Ct_Bot \<and> c_authenticated c \<and> \<not> c_superseded c \<and> c_id c = uuid) (clients s)"

definition is_peer :: "hub_client \<Rightarrow> bool" where
  "is_peer c \<longleftrightarrow> c_typ c = Ct_Hub \<and> c_authenticated c"

definition is_bot :: "hub_client \<Rightarrow> bool" where
  "is_bot c \<longleftrightarrow> c_typ c = Ct_Bot \<and> c_authenticated c"

definition peer_clients :: "hub_state \<Rightarrow> nat list" where
  "peer_clients s = filter (\<lambda>i. is_peer (clients s ! i)) [0..<length (clients s)]"

definition bot_clients :: "hub_state \<Rightarrow> nat list" where
  "bot_clients s = filter (\<lambda>i. is_bot (clients s ! i)) [0..<length (clients s)]"

definition peer_uuid_of :: "hub_state \<Rightarrow> nat \<Rightarrow> string" where
  "peer_uuid_of s ci =
     (case List.find (\<lambda>p. p_connected p \<and> p_fd p = c_fd (clients s ! ci)) (peers s) of
        None \<Rightarrow> []
      | Some p \<Rightarrow> p_uuid p)"

definition find_client_hub :: "hub_state \<Rightarrow> string \<Rightarrow> nat option" where
  "find_client_hub s uuid =
     (if uuid = [] then None
      else case List.find (\<lambda>p. p_connected p \<and> p_uuid p = uuid) (peers s) of
        None \<Rightarrow> None
      | Some p \<Rightarrow> position (\<lambda>c. is_peer c \<and> c_fd c = p_fd p) (clients s))"

section \<open>The fan-out\<close>

definition sync_bcast_opcode :: "hub_state \<Rightarrow> nat \<Rightarrow> nat" where
  "sync_bcast_opcode s ci =
     (let cu = peer_uuid_of s ci
      in if cu \<noteq> [] \<and> list_ex (\<lambda>h. mh_uuid h = cu \<and> mh_have_links h) (mesh_hubs s)
         then CMD_PEER_BCAST else CMD_PEER_SYNC)"

definition peer_version_level :: "hub_state \<Rightarrow> nat \<Rightarrow> nat" where
  "peer_version_level s ci =
     (let cu = peer_uuid_of s ci in
      if cu = [] then 0
      else let v1 = (case List.find (\<lambda>p. p_uuid p = cu) (peers s) of None \<Rightarrow> [] | Some p \<Rightarrow> p_remote_version p);
               ver = (if v1 = [] then (case List.find (\<lambda>h. mh_uuid h = cu) (mesh_hubs s) of
                                         None \<Rightarrow> v1 | Some h \<Rightarrow> mh_version h)
                      else v1)
           in if ver = [] then 0
              else if version_cmp ver MESH_MIN_VERSION \<noteq> Ord_Less then 2 else 1)"

definition put_client :: "nat \<Rightarrow> hub_client \<Rightarrow> hub_state \<Rightarrow> hub_state" where
  "put_client ci c s = s\<lparr>clients := (clients s)[ci := c]\<rparr>"

definition peer_enqueue_sync ::
    "env \<Rightarrow> nat \<Rightarrow> nat \<Rightarrow> lane \<Rightarrow> string \<Rightarrow> (string \<times> nat) option \<Rightarrow> hub_state \<Rightarrow> hub_state outcome" where
  "peer_enqueue_sync e ci op ln payload co s =
     (let level = peer_version_level s ci; c = clients s ! ci in
      if level < 2 then Ret (if level = 0 then put_client ci (c\<lparr>c_sync_held := True\<rparr>) s else s)
      else if payload = [] then Ret s
      else case queued_msg_new op ln payload of
        None \<Rightarrow> Ret s
      | Some m0 \<Rightarrow>
          let m = (case co of None \<Rightarrow> m0 | Some (key, seq) \<Rightarrow> set_coalesce (hub_uuid s) seq key m0)
          in out_bind (enqueue e m c) (\<lambda>(_, c'). Ret (put_client ci c' s)))"

definition peer_sync_release :: "env \<Rightarrow> nat \<Rightarrow> hub_state \<Rightarrow> hub_state outcome" where
  "peer_sync_release e ci s =
     (if \<not> c_sync_held (clients s ! ci) \<or> peer_version_level s ci \<noteq> 2 then Ret s
      else let s1 = put_client ci ((clients s ! ci)\<lparr>c_sync_held := False\<rparr>) s;
               full = generate_sync_packet s1;
               (seq, s2) = bump_lamport s1
           in out_bind (peer_enqueue_sync e ci CMD_PEER_SYNC Bulk full (Some (''handshake_sync'', seq)) s2) (\<lambda>s3.
              out_bind (send_urgent e CMD_SYNC_REQUEST [] (clients s3 ! ci)) (\<lambda>(_, c). Ret (put_client ci c s3))))"

definition split_horizon_links :: "env \<Rightarrow> hub_state \<Rightarrow> i32 \<Rightarrow> string list option" where
  "split_horizon_links e s from_fd =
     (case List.find (\<lambda>ci. c_fd (clients s ! ci) = from_fd) (peer_clients s) of
        None \<Rightarrow> None
      | Some ci \<Rightarrow>
          let u = peer_uuid_of s ci in
          if u = [] then None
          else map_option (\<lambda>h. map ml_uuid (filter ml_online (mh_links h)))
                 (List.find (\<lambda>h. mh_uuid h = u \<and> mh_have_links h \<and> env_now e - mh_reported_at h \<le> SYNC_SPLIT_HORIZON_FRESH)
                    (mesh_hubs s)))"

definition sync_to_peer ::
    "env \<Rightarrow> string \<Rightarrow> i32 \<Rightarrow> string list option \<Rightarrow> lane \<Rightarrow> (string \<times> nat) option \<Rightarrow> nat \<Rightarrow> hub_state \<Rightarrow> hub_state outcome" where
  "sync_to_peer e payload exclude_fd sender_links ln co ci s =
     (if c_fd (clients s ! ci) = exclude_fd then Ret s
      else if (case sender_links of
                 None \<Rightarrow> False
               | Some links \<Rightarrow> let cu = peer_uuid_of s ci in cu \<noteq> [] \<and> cu \<in> set links)
      then Ret s
      else peer_enqueue_sync e ci (sync_bcast_opcode s ci) ln payload co s)"

definition sync_send_to_peers ::
    "env \<Rightarrow> string \<Rightarrow> i32 \<Rightarrow> bool \<Rightarrow> lane \<Rightarrow> (string \<times> nat) option \<Rightarrow> hub_state \<Rightarrow> hub_state outcome" where
  "sync_send_to_peers e payload exclude_fd split ln co s =
     (if length payload > MAX_SYNC_PAYLOAD - 10 then Ret s
      else let sender_links = (if split then split_horizon_links e s exclude_fd else None)
           in out_fold (sync_to_peer e payload exclude_fd sender_links ln co) (peer_clients s) s)"

definition sync_lane :: "string \<Rightarrow> lane" where
  "sync_lane payload = (if length payload > 1024 then Bulk else Delta)"

definition broadcast_sync_to_peers :: "env \<Rightarrow> string \<Rightarrow> i32 \<Rightarrow> hub_state \<Rightarrow> hub_state outcome" where
  "broadcast_sync_to_peers e payload exclude_fd s =
     sync_send_to_peers e payload exclude_fd False (sync_lane payload) None s"

definition sync_forward_to_peers :: "env \<Rightarrow> string \<Rightarrow> i32 \<Rightarrow> bool \<Rightarrow> hub_state \<Rightarrow> hub_state outcome" where
  "sync_forward_to_peers e payload origin_fd bcast s =
     sync_send_to_peers e payload origin_fd bcast (sync_lane payload) None s"

section \<open>Loops over the connections\<close>

text \<open>
  A loop over some connections whose body changes nothing but the connection it is at, and depends
  on the others not at all: each is changed as if it were alone.
\<close>

definition clients_ok :: "hub_state \<Rightarrow> bool" where
  "clients_ok s \<longleftrightarrow> (\<forall>c \<in> set (clients s). queue_ok c)"

lemma client_sweep:
  assumes body: "\<And>ci cs. ci \<in> set is \<Longrightarrow> length cs = length (clients s) \<Longrightarrow> cs ! ci = clients s ! ci \<Longrightarrow>
      \<exists>c'. f ci (s\<lparr>clients := cs\<rparr>) = Ret (s\<lparr>clients := cs[ci := c']\<rparr>) \<and> E ci (clients s ! ci) c'"
    and "distinct is" "\<forall>ci \<in> set is. ci < length (clients s)"
  shows "\<exists>cs. out_fold f is s = Ret (s\<lparr>clients := cs\<rparr>) \<and> length cs = length (clients s) \<and>
      (\<forall>ci < length (clients s). if ci \<in> set is then E ci (clients s ! ci) (cs ! ci) else cs ! ci = clients s ! ci)"
proof -
  have "\<exists>cs'. out_fold f js (s\<lparr>clients := cs\<rparr>) = Ret (s\<lparr>clients := cs'\<rparr>) \<and> length cs' = length (clients s) \<and>
      (\<forall>ci < length (clients s). if ci \<in> set js then E ci (clients s ! ci) (cs' ! ci) else cs' ! ci = cs ! ci)"
    if "set js \<subseteq> set is" "distinct js" "length cs = length (clients s)" "\<forall>ci \<in> set js. cs ! ci = clients s ! ci" for js cs
    using that
  proof (induction js arbitrary: cs)
    case (Cons j js)
    have j: "j < length (clients s)" "j \<in> set is" using Cons.prems(1) assms(3) by auto
    obtain c' where c': "f j (s\<lparr>clients := cs\<rparr>) = Ret (s\<lparr>clients := cs[j := c']\<rparr>)" "E j (clients s ! j) c'"
      using body [OF j(2) Cons.prems(3)] Cons.prems(4) by auto
    have k: "\<forall>ci \<in> set js. cs[j := c'] ! ci = clients s ! ci" 
      using Cons.prems(2,4) by (metis distinct.simps(2) list.set_intros(2) nth_list_update_neq)
    obtain cs' where cs': "out_fold f js (s\<lparr>clients := cs[j := c']\<rparr>) = Ret (s\<lparr>clients := cs'\<rparr>)" "length cs' = length (clients s)"
        "\<forall>ci < length (clients s). if ci \<in> set js then E ci (clients s ! ci) (cs' ! ci) else cs' ! ci = cs[j := c'] ! ci"
      using Cons.IH [of "cs[j := c']"] k Cons.prems(1-3) by fastforce
    have "\<forall>ci < length (clients s). if ci \<in> set (j # js) then E ci (clients s ! ci) (cs' ! ci) else cs' ! ci = cs ! ci"
      using cs'(3) c'(2) Cons.prems(2,3) j(1) by (auto simp: nth_list_update split: if_splits)
    then show ?case using c'(1) cs' by auto
  qed auto
  from this [of "is" "clients s"] show ?thesis using assms(2) by simp
qed

lemma peer_clients_iff [simp]: "ci \<in> set (peer_clients s) \<longleftrightarrow> ci < length (clients s) \<and> is_peer (clients s ! ci)"
  by (auto simp: peer_clients_def)

lemma bot_clients_iff [simp]: "ci \<in> set (bot_clients s) \<longleftrightarrow> ci < length (clients s) \<and> is_bot (clients s ! ci)"
  by (auto simp: bot_clients_def)

lemma distinct_clients [simp]: "distinct (peer_clients s)" "distinct (bot_clients s)"
  by (simp_all add: peer_clients_def bot_clients_def)

text \<open>The lookups of a peer read its own connection, the peer table and the mesh table only.\<close>

lemma peer_lookup_frame:
  assumes "c_fd (clients s' ! ci) = c_fd (clients s ! ci)" "peers s' = peers s" "mesh_hubs s' = mesh_hubs s"
  shows "peer_uuid_of s' ci = peer_uuid_of s ci" "peer_version_level s' ci = peer_version_level s ci"
    "sync_bcast_opcode s' ci = sync_bcast_opcode s ci"
proof -
  show u: "peer_uuid_of s' ci = peer_uuid_of s ci" by (simp add: peer_uuid_of_def assms)
  show "peer_version_level s' ci = peer_version_level s ci" unfolding peer_version_level_def u assms(2,3) ..
  show "sync_bcast_opcode s' ci = sync_bcast_opcode s ci" unfolding sync_bcast_opcode_def u assms(2,3) ..
qed

lemma peer_lookup_cong:
  assumes "cs ! ci = clients s ! ci"
  shows "peer_uuid_of (s\<lparr>clients := cs\<rparr>) ci = peer_uuid_of s ci"
    "peer_version_level (s\<lparr>clients := cs\<rparr>) ci = peer_version_level s ci"
    "sync_bcast_opcode (s\<lparr>clients := cs\<rparr>) ci = sync_bcast_opcode s ci"
  using assms by (intro peer_lookup_frame; simp)+

section \<open>Who gets a change\<close>

lemma drop_unlogged_frame [simp]:
  "c_drop_unlogged (push_back e li m c) = c_drop_unlogged c" "c_drop_unlogged (cfg_push_lost m c) = c_drop_unlogged c"
  by (simp_all add: push_back_def cfg_push_lost_def Let_def)

lemma enqueue_drop_count:
  assumes "enqueue e m c = Ret (b, c')"
  shows "c_drop_unlogged c' \<le> max 0 (c_drop_unlogged c + 1)"
proof -
  have co: "c_drop_unlogged c1 = c_drop_unlogged c" if "enqueue_coalesce li i m c = Ret c1" for li i c1
    using that by (auto simp: enqueue_coalesce_def Let_def out_bind_Ret)
  have dr: "c_drop_unlogged c1 \<le> max 0 (c_drop_unlogged c + 1)" if h: "drop_oldest e li c = Ret c1" for li c1
  proof -
    obtain old c2 where p: "pop_front li c = Ret (old, c2)" using h by (cases "pop_front li c") (auto simp: drop_oldest_def)
    then have "c_drop_unlogged c2 = c_drop_unlogged c" by (auto simp: pop_front_def Let_def out_bind_Ret split: list.splits)
    then show ?thesis using h p
      by (auto simp: drop_oldest_def out_bind_Ret drop_warning_def split: option.splits if_splits)
  qed
  show ?thesis using assms unfolding enqueue_def Let_def
    by (auto simp: out_bind_Ret dest!: co dr split: if_splits option.splits)
qed


text \<open>The message, and the specification of the fan-out: what happens to each connection on its own.\<close>

definition sync_msg :: "hub_state \<Rightarrow> nat \<Rightarrow> lane \<Rightarrow> string \<Rightarrow> (string \<times> nat) option \<Rightarrow> queued_msg" where
  "sync_msg s op ln payload co =
     \<lparr>qm_cmd = op, qm_lane = ln, qm_coalesce_key = (case co of None \<Rightarrow> [] | Some (k, q) \<Rightarrow> k),
      qm_lamport_seq = (case co of None \<Rightarrow> 0 | Some (k, q) \<Rightarrow> q),
      qm_origin = (case co of None \<Rightarrow> [] | Some (k, q) \<Rightarrow> hub_uuid s), qm_payload = payload\<rparr>"

definition queued_after :: "queued_msg \<Rightarrow> hub_client \<Rightarrow> hub_client \<Rightarrow> bool" where
  "queued_after m c c' \<longleftrightarrow>
     queue_inv c' \<and> same_link c c' \<and> c_drop_unlogged c' \<le> max 0 (c_drop_unlogged c + 1) \<and>
     queued c' = (let li = lane_index (qm_lane m) in
       if enqueue_refuses m c then queued c else (queued c)[li := lane_put (lane_full li m c) m (queued c ! li)])"

definition reached_by_sender :: "env \<Rightarrow> hub_state \<Rightarrow> i32 \<Rightarrow> bool \<Rightarrow> nat \<Rightarrow> bool" where
  "reached_by_sender e s fd split ci \<longleftrightarrow>
     split \<and> peer_uuid_of s ci \<noteq> [] \<and>
     (case split_horizon_links e s fd of None \<Rightarrow> False | Some links \<Rightarrow> peer_uuid_of s ci \<in> set links)"

definition sync_target :: "env \<Rightarrow> hub_state \<Rightarrow> i32 \<Rightarrow> bool \<Rightarrow> nat \<Rightarrow> bool" where
  "sync_target e s fd split ci \<longleftrightarrow>
     is_peer (clients s ! ci) \<and> c_fd (clients s ! ci) \<noteq> fd \<and> \<not> reached_by_sender e s fd split ci"

definition sync_effect ::
    "hub_state \<Rightarrow> lane \<Rightarrow> string \<Rightarrow> (string \<times> nat) option \<Rightarrow> nat \<Rightarrow> hub_client \<Rightarrow> hub_client \<Rightarrow> bool" where
  "sync_effect s ln payload co ci c c' \<longleftrightarrow>
     (if peer_version_level s ci = 2 then
        (if payload = [] then c' = c else queued_after (sync_msg s (sync_bcast_opcode s ci) ln payload co) c c')
      else if peer_version_level s ci = 0 then c' = c\<lparr>c_sync_held := True\<rparr>
      else c' = c)"

lemma peer_version_level_le [simp]: "peer_version_level s ci \<le> 2"
  by (simp add: peer_version_level_def Let_def)

lemma payload_fits: "length payload \<le> MAX_SYNC_PAYLOAD \<Longrightarrow> length payload \<le> MAX_BULK_PAYLOAD"
  by (simp add: MAX_BULK_PAYLOAD_def)

lemma sync_msg_new:
  assumes "length payload \<le> MAX_SYNC_PAYLOAD"
  shows "queued_msg_new op ln payload = Some m0 \<Longrightarrow>
      (case co of None \<Rightarrow> m0 | Some (key, seq) \<Rightarrow> set_coalesce (hub_uuid s) seq key m0) = sync_msg s op ln payload co"
    "\<exists>m0. queued_msg_new op ln payload = Some m0"
  using payload_fits [OF assms]
  by (auto simp: queued_msg_new_def sync_msg_def set_coalesce_def split: option.splits if_splits)

lemma sync_msg_cong: "sync_msg (s\<lparr>clients := cs\<rparr>) op ln payload co = sync_msg s op ln payload co"
  by (cases co) (simp_all add: sync_msg_def split_beta)

lemma enqueue_queued_after:
  assumes "queue_ok c"
  shows "\<exists>b c'. enqueue e m c = Ret (b, c') \<and> queued_after m c c'"
proof -
  obtain c' where "enqueue e m c = Ret (\<not> enqueue_refuses m c, c')" "queue_inv c'" "same_link c c'"
      "enqueue_refuses m c \<Longrightarrow> c' = c"
      "\<not> enqueue_refuses m c \<Longrightarrow> queued c' = (queued c)[lane_index (qm_lane m) := lane_put (lane_full (lane_index (qm_lane m)) m c) m (queued c ! lane_index (qm_lane m))]"
    using assms enqueue_spec [OF _ _ refl] unfolding queue_ok_def by metis
  then show ?thesis using enqueue_drop_count by (fastforce simp: queued_after_def Let_def)
qed

lemma peer_enqueue_sync_spec:
  assumes "queue_ok (clients s ! ci)" "length payload \<le> MAX_SYNC_PAYLOAD"
  shows "\<exists>c'. peer_enqueue_sync e ci op ln payload co s = Ret (put_client ci c' s) \<and>
     (if peer_version_level s ci = 2 then
        (if payload = [] then c' = clients s ! ci else queued_after (sync_msg s op ln payload co) (clients s ! ci) c')
      else if peer_version_level s ci = 0 then c' = (clients s ! ci)\<lparr>c_sync_held := True\<rparr>
      else c' = clients s ! ci)"
proof -
  have id: "put_client ci (clients s ! ci) s = s" by (simp add: put_client_def)
  obtain m0 where m0: "queued_msg_new op ln payload = Some m0" using sync_msg_new(2) [OF assms(2)] by blast
  have m: "(case co of None \<Rightarrow> m0 | Some (key, seq) \<Rightarrow> set_coalesce (hub_uuid s) seq key m0) = sync_msg s op ln payload co"
    by (rule sync_msg_new(1) [OF assms(2) m0])
  obtain b c' where c': "enqueue e (sync_msg s op ln payload co) (clients s ! ci) = Ret (b, c')"
      "queued_after (sync_msg s op ln payload co) (clients s ! ci) c'"
    using enqueue_queued_after [OF assms(1)] by blast
  consider "peer_version_level s ci = 0" | "peer_version_level s ci = 1" | "peer_version_level s ci = 2"
    using peer_version_level_le [of s ci] by linarith
  then show ?thesis
  proof cases
    case 3
    then show ?thesis
      using id m0 m c' unfolding peer_enqueue_sync_def Let_def by (cases "payload = []") auto
  qed (auto simp: peer_enqueue_sync_def Let_def id)
qed

lemma sync_to_peer_spec:
  assumes "queue_ok (clients s ! ci)" "length payload \<le> MAX_SYNC_PAYLOAD" "is_peer (clients s ! ci)" "cs ! ci = clients s ! ci"
  shows "\<exists>c'. sync_to_peer e payload fd (if split then split_horizon_links e s fd else None) ln co ci (s\<lparr>clients := cs\<rparr>) =
        Ret (s\<lparr>clients := cs[ci := c']\<rparr>) \<and>
      (if sync_target e s fd split ci then sync_effect s ln payload co ci (clients s ! ci) c' else c' = clients s ! ci)"
proof -
  let ?s = "s\<lparr>clients := cs\<rparr>" let ?links = "if split then split_horizon_links e s fd else None"
  have id: "s\<lparr>clients := cs[ci := clients s ! ci]\<rparr> = ?s" using assms(4) by (metis list_update_id)
  note cong = peer_lookup_cong [OF assms(4)]
  have skip: "(case ?links of None \<Rightarrow> False | Some links \<Rightarrow> let cu = peer_uuid_of ?s ci in cu \<noteq> [] \<and> cu \<in> set links)
      \<longleftrightarrow> reached_by_sender e s fd split ci"
    by (auto simp: reached_by_sender_def cong Let_def split: option.splits)
  have un: "sync_to_peer e payload fd ?links ln co ci ?s =
      (if c_fd (clients s ! ci) = fd \<or> reached_by_sender e s fd split ci then Ret ?s
       else peer_enqueue_sync e ci (sync_bcast_opcode s ci) ln payload co ?s)"
    unfolding sync_to_peer_def skip by (simp add: assms(4) cong)
  show ?thesis
  proof (cases "sync_target e s fd split ci")
    case False
    then show ?thesis using un id assms(3) by (auto simp: sync_target_def)
  next
    case True
    have cl: "clients ?s ! ci = clients s ! ci" using assms(4) by simp
    then have "queue_ok (clients ?s ! ci)" using assms(1) by simp
    from peer_enqueue_sync_spec [OF this assms(2), of e "sync_bcast_opcode s ci" ln co]
    obtain c' where c': "peer_enqueue_sync e ci (sync_bcast_opcode s ci) ln payload co ?s = Ret (put_client ci c' ?s)"
        "sync_effect s ln payload co ci (clients s ! ci) c'"
      unfolding sync_effect_def cong sync_msg_cong cl by blast
    then show ?thesis using True un by (auto simp: sync_target_def put_client_def)
  qed
qed

lemma sync_fanout:
  assumes "clients_ok s" "length payload \<le> MAX_SYNC_PAYLOAD - 10"
  shows "\<exists>cs. sync_send_to_peers e payload fd split ln co s = Ret (s\<lparr>clients := cs\<rparr>) \<and> length cs = length (clients s) \<and>
      (\<forall>ci < length (clients s).
         if sync_target e s fd split ci then sync_effect s ln payload co ci (clients s ! ci) (cs ! ci)
         else cs ! ci = clients s ! ci)"
proof -
  let ?links = "if split then split_horizon_links e s fd else None"
  have "\<exists>cs. out_fold (sync_to_peer e payload fd ?links ln co) (peer_clients s) s = Ret (s\<lparr>clients := cs\<rparr>) \<and>
      length cs = length (clients s) \<and>
      (\<forall>ci < length (clients s). if ci \<in> set (peer_clients s) then
         (if sync_target e s fd split ci then sync_effect s ln payload co ci (clients s ! ci) (cs ! ci) else cs ! ci = clients s ! ci)
       else cs ! ci = clients s ! ci)"
    using assms sync_to_peer_spec by (intro client_sweep) (auto simp: clients_ok_def)
  then obtain cs where cs: "out_fold (sync_to_peer e payload fd ?links ln co) (peer_clients s) s = Ret (s\<lparr>clients := cs\<rparr>)"
      "length cs = length (clients s)"
      "\<forall>ci < length (clients s). if ci \<in> set (peer_clients s) then
         (if sync_target e s fd split ci then sync_effect s ln payload co ci (clients s ! ci) (cs ! ci) else cs ! ci = clients s ! ci)
       else cs ! ci = clients s ! ci" by blast
  have "\<forall>ci < length (clients s). if sync_target e s fd split ci then sync_effect s ln payload co ci (clients s ! ci) (cs ! ci)
         else cs ! ci = clients s ! ci"
    using cs(3) by (auto simp: sync_target_def split: if_splits)
  then show ?thesis using cs(1,2) assms(2) by (auto simp: sync_send_to_peers_def Let_def)
qed

text \<open>
  Property C7.  A config change is sent to every authenticated peer hub but the one it came from
  and, for a forwarded broadcast, the peers the sender reports a fresh link to.  Of those a current
  hub gets the message in its queue, one of unknown version is marked for a full sync later, and
  an outdated hub gets nothing.  No other connection and nothing else of the hub changes.
\<close>

theorem sync_fanout_exact:
  assumes "clients_ok s" "length payload \<le> MAX_SYNC_PAYLOAD - 10"
  shows "\<exists>cs. sync_send_to_peers e payload fd split ln co s = Ret (s\<lparr>clients := cs\<rparr>) \<and> length cs = length (clients s) \<and>
      (\<forall>ci < length (clients s).
         if sync_target e s fd split ci then sync_effect s ln payload co ci (clients s ! ci) (cs ! ci)
         else cs ! ci = clients s ! ci)"
  by (rule sync_fanout [OF assms])

text \<open>Three peer hubs: current, current, and too old.\<close>

definition example_peer :: "i32 \<Rightarrow> hub_client" where
  "example_peer fd = (client_new (env_at 0) True fd ''127.0.0.1'' MAX_BUFFER)\<lparr>c_typ := Ct_Hub, c_authenticated := True\<rparr>"

definition example_peer_cfg :: "i32 \<Rightarrow> string \<Rightarrow> string \<Rightarrow> peer_config" where
  "example_peer_cfg fd uuid ver =
     \<lparr>p_ip = [], p_port = 0, p_friendly_name = [], p_uuid = uuid, p_remote_ip = [], p_connected = True, p_fd = fd,
      p_remote_version = ver, p_last_mesh_report = 0, p_last_gossip = []\<rparr>"

definition example_mesh :: hub_state where
  "example_mesh = hub_state_new\<lparr>clients := [example_peer 10, example_peer 11, example_peer 12],
     peers := [example_peer_cfg 10 ''s'' ''2.5.1'', example_peer_cfg 11 ''x'' ''v2.10.0'', example_peer_cfg 12 ''y'' ''2.5.0'']\<rparr>"

lemma queue_ok_example_peer: "queue_ok (example_peer fd)"
proof -
  have "queue_inv (example_peer fd)" unfolding example_peer_def
    by (simp add: client_new_def queue_inv_def lane_ok_def keys_of_def LANE_COUNT_def MAX_QUEUE_PER_LANE_def)
  then show ?thesis by (simp add: queue_ok_def example_peer_def client_new_def)
qed

lemma clients_ok_example_mesh: "clients_ok example_mesh"
  by (simp add: clients_ok_def example_mesh_def queue_ok_example_peer)

theorem sync_fanout_exact_witness:
  "\<exists>cs. sync_send_to_peers (env_at 1000) ''b|bot|n|nick|5'' 10 False Delta None example_mesh = Ret (example_mesh\<lparr>clients := cs\<rparr>) \<and>
     cs ! 0 = example_peer 10 \<and>
     queued_after (sync_msg example_mesh CMD_PEER_SYNC Delta ''b|bot|n|nick|5'' None) (example_peer 11) (cs ! 1) \<and>
     cs ! 2 = example_peer 12"
proof -
  let ?p = "''b|bot|n|nick|5''" let ?s = example_mesh
  have len: "length ?p \<le> MAX_SYNC_PAYLOAD - 10" by (simp add: store_caps)
  obtain cs where cs: "sync_send_to_peers (env_at 1000) ?p 10 False Delta None ?s = Ret (?s\<lparr>clients := cs\<rparr>)"
      "\<forall>ci < length (clients ?s). if sync_target (env_at 1000) ?s 10 False ci
         then sync_effect ?s Delta ?p None ci (clients ?s ! ci) (cs ! ci) else cs ! ci = clients ?s ! ci"
    using sync_fanout_exact [OF clients_ok_example_mesh len, of "env_at 1000" 10 False Delta None] by blast
  have n: "length (clients ?s) = 3" and cl: "clients ?s ! 0 = example_peer 10" "clients ?s ! 1 = example_peer 11" "clients ?s ! 2 = example_peer 12"
    by (simp_all add: example_mesh_def)
  have t: "\<not> sync_target (env_at 1000) ?s 10 False 0" "sync_target (env_at 1000) ?s 10 False 1" "sync_target (env_at 1000) ?s 10 False 2"
    unfolding sync_target_def reached_by_sender_def using cl by (simp_all add: example_peer_def is_peer_def client_new_def)
  have fd: "c_fd (example_peer fd) = fd" for fd by (simp add: example_peer_def client_new_def)
  have v: "version_cmp ''v2.10.0'' MESH_MIN_VERSION = Ord_Greater" "version_cmp ''2.5.0'' MESH_MIN_VERSION = Ord_Less" by code_simp+
  have u: "peer_uuid_of ?s 1 = ''x''" "peer_uuid_of ?s 2 = ''y''"
    unfolding peer_uuid_of_def cl fd by (simp_all add: example_mesh_def example_peer_cfg_def)
  have l: "peer_version_level ?s 1 = 2" "peer_version_level ?s 2 = 1" "sync_bcast_opcode ?s 1 = CMD_PEER_SYNC"
    unfolding peer_version_level_def sync_bcast_opcode_def Let_def u
    using v by (simp_all add: example_mesh_def example_peer_cfg_def hub_state_new_def)
  have "cs ! 0 = example_peer 10" using cs(2) n cl t(1) by simp
  moreover have "queued_after (sync_msg ?s CMD_PEER_SYNC Delta ?p None) (example_peer 11) (cs ! 1)"
    using cs(2) [rule_format, of 1] n cl t(2) l by (simp add: sync_effect_def)
  moreover have "cs ! 2 = example_peer 12"
    using cs(2) [rule_format, of 2] n cl t(3) l by (simp add: sync_effect_def)
  ultimately show ?thesis using cs(1) by blast
qed

section \<open>The held sync\<close>

lemma generate_sync_packet_frame:
  assumes "global_entries s' = global_entries s" "chan_learned s' = chan_learned s" "user_records s' = user_records s"
    "mask_records s' = mask_records s" "uflag_records s' = uflag_records s" "uchan_records s' = uchan_records s"
    "opt_flags s' = opt_flags s" "opt_flags_ts s' = opt_flags_ts s" "purge_days_setting s' = purge_days_setting s"
    "purge_days_ts s' = purge_days_ts s" "revoked s' = revoked s" "bots s' = bots s"
  shows "generate_sync_packet s' = generate_sync_packet s"
proof -
  have "learned_append s' = learned_append s" "append_access s' None = append_access s None" "opt_line s' = opt_line s"
      "gsetting_append s' = gsetting_append s" "revoke_append s' = revoke_append s"
    by (simp_all add: assms learned_append_def append_access_def opt_line_def gsetting_append_def gs_get_def gsetting_format_def
        revoke_append_def GSET_def gs_find_def)
  then show ?thesis unfolding generate_sync_packet_def assms Let_def by simp
qed

lemma lane_put_has: "\<exists>x \<in> set (lane_put full m q). qm_payload x = qm_payload m"
proof (cases "if qm_coalesce_key m \<noteq> [] then position (same_coalesce m) q else None")
  case None
  then show ?thesis by (simp add: lane_put_def)
next
  case (Some i)
  then have i: "i < length q" by (auto dest: position_SomeD split: if_splits)
  have "lane_put full m q = q[i := coalesce_msg m (q ! i)]" using Some by (simp add: lane_put_def)
  then have "coalesce_msg m (q ! i) \<in> set (lane_put full m q)" using i by (simp add: set_update_memI)
  moreover have "qm_payload (coalesce_msg m (q ! i)) = qm_payload m" by (simp add: coalesce_msg_def)
  ultimately show ?thesis by blast
qed

lemma queued_after_has:
  assumes "queued_after m c c'" "\<not> enqueue_refuses m c" "queue_inv c"
  shows "\<exists>x \<in> set (queued c' ! lane_index (qm_lane m)). qm_payload x = qm_payload m"
proof -
  have "lane_index (qm_lane m) < length (queued c)" using queue_inv_lane(1) [OF assms(3) lane_index_less] by simp
  then have "queued c' ! lane_index (qm_lane m) = lane_put (lane_full (lane_index (qm_lane m)) m c) m (queued c ! lane_index (qm_lane m))"
    using assms(1,2) by (simp add: queued_after_def Let_def)
  then show ?thesis using lane_put_has by simp
qed

text \<open>
  Property C10.  What was withheld while a peer's version was unknown is made good: once the peer is
  known to be current, the hub queues one full sync of its present state and asks for the peer's,
  and the mark is gone.  As long as the peer is not current, nothing is sent.
\<close>

theorem sync_release_sends_state:
  assumes "ci < length (clients s)" "queue_inv (clients s ! ci)" "c_drop_unlogged (clients s ! ci) < 2147483646"
    and "0 \<le> c_fd (clients s ! ci)" "length (generate_sync_packet s) \<le> MAX_SYNC_PAYLOAD"
  shows "if c_sync_held (clients s ! ci) \<and> peer_version_level s ci = 2
      then \<exists>c1 c. let seq = (next_lamport_seq s + 1) mod 2 ^ 64; packet = generate_sync_packet s;
                      c0 = (clients s ! ci)\<lparr>c_sync_held := False\<rparr> in
             peer_sync_release e ci s = Ret (s\<lparr>clients := (clients s)[ci := c], next_lamport_seq := seq\<rparr>) \<and>
             (if packet = [] then c1 = c0
              else queued_after (sync_msg s CMD_PEER_SYNC Bulk packet (Some (''handshake_sync'', seq))) c0 c1) \<and>
             queued_after (sync_msg s CMD_SYNC_REQUEST Urgent [] None) c1 c \<and> \<not> c_sync_held c \<and>
             (packet \<noteq> [] \<longrightarrow> (\<exists>m \<in> set (queued c ! lane_index Bulk). qm_payload m = packet))
      else peer_sync_release e ci s = Ret s"
proof (cases "c_sync_held (clients s ! ci) \<and> peer_version_level s ci = 2")
  case False
  then show ?thesis by (auto simp: peer_sync_release_def)
next
  case True
  let ?seq = "(next_lamport_seq s + 1) mod 2 ^ 64" let ?p = "generate_sync_packet s"
  let ?c0 = "(clients s ! ci)\<lparr>c_sync_held := False\<rparr>" let ?cs = "(clients s)[ci := ?c0]"
  let ?s2 = "s\<lparr>clients := ?cs, next_lamport_seq := ?seq\<rparr>"
  let ?m = "sync_msg s CMD_PEER_SYNC Bulk ?p (Some (''handshake_sync'', ?seq))" let ?r = "sync_msg s CMD_SYNC_REQUEST Urgent [] None"
  have c0: "clients ?s2 ! ci = ?c0" using assms(1) by simp
  have q0: "queue_inv ?c0" using assms(2) queue_inv_cong [of ?c0 "clients s ! ci"] by simp
  then have ok: "queue_ok (clients ?s2 ! ci)" unfolding c0 using assms(3) by (simp add: queue_ok_def)
  have pk: "generate_sync_packet (put_client ci ?c0 s) = ?p"
    by (rule generate_sync_packet_frame) (simp_all add: put_client_def)
  have lvl: "peer_version_level ?s2 ci = 2" using True peer_lookup_frame(2) [of ?s2 ci s] assms(1) by simp
  have m: "sync_msg ?s2 CMD_PEER_SYNC Bulk ?p (Some (''handshake_sync'', ?seq)) = ?m" by (simp add: sync_msg_def)
  obtain c1 where c1: "peer_enqueue_sync e ci CMD_PEER_SYNC Bulk ?p (Some (''handshake_sync'', ?seq)) ?s2 = Ret (put_client ci c1 ?s2)"
      "if ?p = [] then c1 = ?c0 else queued_after ?m ?c0 c1"
    using peer_enqueue_sync_spec [OF ok assms(5), of e CMD_PEER_SYNC Bulk "Some (''handshake_sync'', ?seq)"]
    unfolding lvl m c0 by auto
  have ok1: "queue_ok c1"
    using c1(2) q0 assms(3) by (cases "?p = []") (auto simp: queue_ok_def queued_after_def)
  obtain b c where c: "enqueue e ?r c1 = Ret (b, c)" "queued_after ?r c1 c" using enqueue_queued_after [OF ok1] by blast
  have "queued_msg_new CMD_SYNC_REQUEST Urgent [] = Some ?r" by (simp add: queued_msg_new_def sync_msg_def)
  then have rel: "peer_sync_release e ci s = Ret (s\<lparr>clients := (clients s)[ci := c], next_lamport_seq := ?seq\<rparr>)"
    using True c1(1) c(1) assms(1) unfolding peer_sync_release_def Let_def pk
    by (simp add: bump_lamport_def put_client_def send_urgent_def Let_def)
  have "c_sync_held c1 = False" using c1(2) by (cases "?p = []") (auto simp: queued_after_def same_link_def)
  then have held: "\<not> c_sync_held c" using c(2) by (simp add: queued_after_def same_link_def)
  have "queued c ! lane_index Bulk = queued c1 ! lane_index Bulk"
    using c(2) by (simp add: queued_after_def Let_def sync_msg_def lane_index_def)
  moreover have "\<exists>x \<in> set (queued c1 ! lane_index Bulk). qm_payload x = ?p" if "?p \<noteq> []"
    using queued_after_has [of ?m ?c0 c1] c1(2) that q0 assms(4) by (simp add: enqueue_refuses_def sync_msg_def)
  ultimately have has: "?p \<noteq> [] \<longrightarrow> (\<exists>x \<in> set (queued c ! lane_index Bulk). qm_payload x = ?p)" by simp
  show ?thesis unfolding Let_def if_P [OF True]
    by (intro exI [of _ c1] exI [of _ c] conjI rel c1(2) c(2) held has)
qed

definition example_held :: hub_state where
  "example_held = hub_state_new\<lparr>clients := [(example_peer 10)\<lparr>c_sync_held := True\<rparr>],
     peers := [example_peer_cfg 10 ''s'' ''2.5.1''], opt_flags := ''h'', opt_flags_ts := 5\<rparr>"

theorem sync_release_sends_state_witness:
  "\<exists>c. peer_sync_release (env_at 1000) 0 example_held = Ret (example_held\<lparr>clients := [c], next_lamport_seq := 1\<rparr>) \<and>
     \<not> c_sync_held c \<and> generate_sync_packet example_held = ''opt|h|5'' @ [CHR 0x0A]"
proof -
  let ?s = example_held
  have p: "generate_sync_packet ?s = ''opt|h|5'' @ [CHR 0x0A]"
  proof -
    have "show_int 5 = ''5''" by code_simp
    then show ?thesis
      by (simp add: generate_sync_packet_def example_held_def hub_state_new_def learned_append_def append_access_def opt_line_def
          gsetting_append_def GSET_def gs_get_def revoke_append_def push_block_def store_caps)
  qed
  have cl: "clients ?s ! 0 = (example_peer 10)\<lparr>c_sync_held := True\<rparr>" "length (clients ?s) = 1" "next_lamport_seq ?s = 0"
    by (simp_all add: example_held_def hub_state_new_def)
  have q: "queue_inv (clients ?s ! 0)" unfolding cl
    using queue_ok_example_peer [of 10] queue_inv_cong [of "(example_peer 10)\<lparr>c_sync_held := True\<rparr>" "example_peer 10"]
    by (simp add: queue_ok_def)
  have u: "peer_uuid_of ?s 0 = ''s''"
    unfolding peer_uuid_of_def cl by (simp add: example_held_def example_peer_cfg_def example_peer_def client_new_def)
  have "version_cmp ''2.5.1'' MESH_MIN_VERSION = Ord_Equal" by code_simp
  then have l: "peer_version_level ?s 0 = 2"
    unfolding peer_version_level_def Let_def u by (simp add: example_held_def example_peer_cfg_def hub_state_new_def)
  have "\<exists>c. peer_sync_release (env_at 1000) 0 ?s = Ret (?s\<lparr>clients := (clients ?s)[0 := c], next_lamport_seq := (next_lamport_seq ?s + 1) mod 2 ^ 64\<rparr>) \<and> \<not> c_sync_held c"
    using sync_release_sends_state [of 0 ?s "env_at 1000"] q l cl p
    by (auto simp: Let_def example_peer_def client_new_def store_caps)
  then show ?thesis using p cl by (simp add: example_held_def)
qed

end
