(* ===== verification/Mesh_Purge.thy ===== *)
theory Mesh_Purge
  imports Mesh_Send
begin

text \<open>
  The tombstone purge of \<^verbatim>\<open>src/src/mesh.rs\<close>: the \<^verbatim>\<open>PURGE|\<close> line, the ring of purges seen lately that
  stops one from circling the mesh, the scheduled purge's leader, and \<^verbatim>\<open>execute_purge\<close>.  Properties:
  a purge removes exactly the deleted records older than its cutoff and what they orphan, keeps the
  store consistent and tells every connected bot; a purge seen is not run again for as long as the
  ring remembers it.
\<close>

section \<open>The ring of recent purges\<close>

definition is_purge_recent :: "env \<Rightarrow> hub_state \<Rightarrow> i64 \<Rightarrow> string \<Rightarrow> bool" where
  "is_purge_recent e s cutoff pid =
     list_ex (\<lambda>p. rp_cutoff p = cutoff \<and> rp_id p = pid \<and> env_now e - rp_received_at p < PURGE_DEDUP_WINDOW) (recent_purges s)"

definition rp_older :: "recent_purge \<Rightarrow> recent_purge \<Rightarrow> bool" where
  "rp_older a b \<longleftrightarrow> rp_received_at a < rp_received_at b"

definition purge_slot :: "i64 \<Rightarrow> string \<Rightarrow> recent_purge list \<Rightarrow> nat \<times> recent_purge list" where
  "purge_slot cutoff pid ps =
     (case position (\<lambda>p. rp_cutoff p = cutoff \<and> rp_id p = pid) ps of
        Some i \<Rightarrow> (i, ps)
      | None \<Rightarrow>
          if length ps < MAX_RECENT_PURGES then (length ps, ps @ [\<lparr>rp_cutoff = 0, rp_id = [], rp_received_at = 0\<rparr>])
          else (scan_best rp_older ps [1..<length ps] 0, ps))"

definition record_recent_purge :: "env \<Rightarrow> i64 \<Rightarrow> string \<Rightarrow> hub_state \<Rightarrow> hub_state" where
  "record_recent_purge e cutoff pid s =
     (let (slot, ps) = purge_slot cutoff pid (recent_purges s)
      in s\<lparr>recent_purges := ps[slot := \<lparr>rp_cutoff = cutoff, rp_id = trunc_string pid (PURGE_ID_HEX + 1),
                                      rp_received_at = env_now e\<rparr>]\<rparr>)"

definition strip_prefix :: "string \<Rightarrow> string \<Rightarrow> string option" where
  "strip_prefix p s = (if take (length p) s = p then Some (drop (length p) s) else None)"

definition parse_purge_line :: "string \<Rightarrow> (i64 \<times> string) option" where
  "parse_purge_line line =
     (case strip_prefix ''PURGE|'' line of
        None \<Rightarrow> None
      | Some [] \<Rightarrow> None
      | Some (c # cs) \<Rightarrow>
          if \<not> is_digit c then None
          else let p = c # cs; (v, used) = strtoll p in
            if v < 0 then None
            else let rest = drop used p in
              case strip_prefix ''|'' rest of
                Some h \<Rightarrow> if h = [] \<or> length h > PURGE_ID_HEX \<or> \<not> list_all is_hexdigit h then None else Some (v, h)
              | None \<Rightarrow> if rest \<noteq> [] then None else Some (v, []))"

text \<open>The fresh id is drawn from the RNG: a parameter, absent when the draw fails.\<close>

definition purge_msg :: "i64 \<Rightarrow> string \<Rightarrow> string" where
  "purge_msg cutoff pid = ''PURGE|'' @ show_int cutoff @ ''|'' @ pid @ [CHR 0x0A]"

definition broadcast_purge :: "env \<Rightarrow> string option \<Rightarrow> i64 \<Rightarrow> hub_state \<Rightarrow> (bool \<times> hub_state) outcome" where
  "broadcast_purge e rnd cutoff s =
     (case rnd of
        None \<Rightarrow> Ret (False, s)
      | Some pid \<Rightarrow>
          out_bind (broadcast_sync_to_peers e (purge_msg cutoff pid) (- 1) (record_recent_purge e cutoff pid s))
            (\<lambda>s'. Ret (True, s')))"

definition should_initiate_scheduled_purge :: "hub_state \<Rightarrow> bool" where
  "should_initiate_scheduled_purge s \<longleftrightarrow> \<not> list_ex (\<lambda>c. is_peer c \<and> c_id c < hub_uuid s) (clients s)"

section \<open>The purge\<close>

text \<open>One purged tombstone, as the console is told: kind, id, name and stamp.\<close>

type_synonym tomb_note = "string \<times> string \<times> string \<times> i64"

definition past_cutoff :: "i64 \<Rightarrow> i64 \<Rightarrow> bool" where
  "past_cutoff cutoff ts \<longleftrightarrow> cutoff = 0 \<or> ts < cutoff"

definition purged_entry :: "i64 \<Rightarrow> config_entry \<Rightarrow> bool" where
  "purged_entry cutoff en \<longleftrightarrow>
     ce_key en \<in> set [''c'', ''m'', ''o'', ''C'', ''B''] \<and>
     (case rsplit_once (CHR ''|'') (ce_value en) of None \<Rightarrow> False | Some (_, l) \<Rightarrow> l = ''del'') \<and>
     past_cutoff cutoff (ce_ts en)"

definition entry_note :: "config_entry \<Rightarrow> tomb_note" where
  "entry_note en =
     (if ce_key en = ''c'' then ''channel'' else if ce_key en = ''m'' then ''mask'' else if ce_key en = ''C'' then ''chanset''
      else if ce_key en = ''B'' then ''ban'' else ''oper'',
      [], trunc_string (first_field (ce_value en)) 256, ce_ts en)"

definition purged_user :: "i64 \<Rightarrow> user_record \<Rightarrow> bool" where
  "purged_user cutoff u \<longleftrightarrow> \<not> u_is_active u \<and> past_cutoff cutoff (u_ts u)"

definition purged_mask :: "i64 \<Rightarrow> hub_state \<Rightarrow> mask_record \<Rightarrow> bool" where
  "purged_mask cutoff s m \<longleftrightarrow>
     \<not> list_ex (\<lambda>u. u_uuid u = m_uuid m) (user_records s) \<or> (\<not> m_is_active m \<and> past_cutoff cutoff (m_ts m))"

definition bot_del_ts :: "bot_config \<Rightarrow> i64 option" where
  "bot_del_ts b = map_option ce_ts (List.find (\<lambda>en. ce_key en = ''d'' \<and> ce_value en = ''1'') (b_entries b))"

definition purged_bot :: "i64 \<Rightarrow> bot_config \<Rightarrow> bool" where
  "purged_bot cutoff b = (case bot_del_ts b of None \<Rightarrow> False | Some ts \<Rightarrow> cutoff = 0 \<or> (0 < ts \<and> ts < cutoff))"

definition bot_note :: "bot_config \<Rightarrow> tomb_note" where
  "bot_note b =
     (''bot'', b_uuid b, (case bot_get_entry b ''n'' of None \<Rightarrow> [] | Some n \<Rightarrow> ce_value n),
      (case bot_del_ts b of None \<Rightarrow> 0 | Some ts \<Rightarrow> ts))"

text \<open>The parts of \<^verbatim>\<open>execute_purge\<close>, in its order; each gives the tombstones it dropped.\<close>

definition purge_entries :: "i64 \<Rightarrow> hub_state \<Rightarrow> tomb_note list \<times> hub_state" where
  "purge_entries cutoff s =
     (map entry_note (filter (purged_entry cutoff) (global_entries s)),
      global_reindex (s\<lparr>global_entries := filter (\<lambda>en. \<not> purged_entry cutoff en) (global_entries s)\<rparr>))"

definition purge_users :: "i64 \<Rightarrow> hub_state \<Rightarrow> tomb_note list \<times> hub_state" where
  "purge_users cutoff s =
     (map (\<lambda>u. (''user'', [], u_name u, u_ts u)) (filter (purged_user cutoff) (user_records s)),
      s\<lparr>user_records := take MAX_HUB_USER_RECORDS (filter (\<lambda>u. \<not> purged_user cutoff u) (user_records s))\<rparr>)"

definition purge_masks :: "i64 \<Rightarrow> hub_state \<Rightarrow> tomb_note list \<times> hub_state" where
  "purge_masks cutoff s =
     (map (\<lambda>m. (''mask'', [], m_mask m, m_ts m)) (filter (purged_mask cutoff s) (mask_records s)),
      s\<lparr>mask_records := take MAX_HUB_USER_MASKS (filter (\<lambda>m. \<not> purged_mask cutoff s m) (mask_records s))\<rparr>)"

definition purge_bots :: "i64 \<Rightarrow> hub_state \<Rightarrow> tomb_note list \<times> hub_state" where
  "purge_bots cutoff s =
     (map bot_note (filter (purged_bot cutoff) (bots s)),
      s\<lparr>bots := take MAX_BOTS (filter (\<lambda>b. \<not> purged_bot cutoff b) (bots s))\<rparr>)"

definition broadcast_full_config_to_all_bots :: "hub_state \<Rightarrow> hub_state" where
  "broadcast_full_config_to_all_bots s = s\<lparr>bot_config_pending := True\<rparr>"

definition bot_purge_line :: "i64 \<Rightarrow> string" where
  "bot_purge_line cutoff = ''PURGE|'' @ show_int cutoff @ [CHR 0x0A]"

definition purge_to_bot :: "env \<Rightarrow> i64 \<Rightarrow> nat \<Rightarrow> hub_state \<Rightarrow> hub_state outcome" where
  "purge_to_bot e cutoff ci s =
     (case queued_msg_new CMD_CONFIG_DATA Bulk (bot_purge_line cutoff) of
        None \<Rightarrow> Ret s
      | Some m \<Rightarrow> out_bind (enqueue e m (clients s ! ci)) (\<lambda>(_, c). Ret (put_client ci c s)))"

definition execute_purge :: "env \<Rightarrow> i64 \<Rightarrow> hub_state \<Rightarrow> (nat \<times> tomb_note list \<times> hub_state) outcome" where
  "execute_purge e cutoff s =
     (let s0 = purge_floor_set e cutoff s;
          (n1, s1) = purge_entries cutoff s0;
          (orphans, n2, s2) = purge_chan_orphans s1;
          (n3, s3) = purge_users cutoff s2;
          (n4, s4) = purge_masks cutoff s3;
          (binds, s5) = purge cutoff s4;
          (n6, s6) = purge_bots cutoff s5;
          s7 = broadcast_full_config_to_all_bots (s6\<lparr>config_dirty := True\<rparr>);
          notes = n1 @ map (\<lambda>(kind, name, ts). (kind, [], name, ts)) n2 @ n3 @ n4 @ n6
      in out_bind (out_fold (purge_to_bot e cutoff) (bot_clients s7) s7) (\<lambda>s8.
           Ret (length n1 + orphans + length n3 + length n4 + binds + length n6, notes, s8)))"

section \<open>What a purge removes\<close>

lemma purged_entry_inactive: "purged_entry cutoff en \<Longrightarrow> \<not> global_value_active (ce_value en)"
  by (auto simp: purged_entry_def global_value_active_def split: option.splits)

lemma purge_entries_inv:
  assumes "store_inv s"
  shows "store_inv (snd (purge_entries cutoff s))" "chan_live (snd (purge_entries cutoff s)) chan = chan_live s chan"
proof -
  let ?s = "snd (purge_entries cutoff s)"
  show inv: "store_inv ?s"
    unfolding purge_entries_def snd_conv by (rule store_inv_reindex [OF assms]) (simp add: multiset_filter_subset)
  have "chan_live ?s chan = Some n \<longleftrightarrow> chan_live s chan = Some n" for n
    unfolding chan_live_iff [OF inv] chan_live_iff [OF assms]
    using purged_entry_inactive by (fastforce simp: chan_entries_def purge_entries_def)
  then show "chan_live ?s chan = chan_live s chan" by (cases "chan_live s chan"; cases "chan_live ?s chan") auto
qed

lemma purge_entries_frame:
  "\<exists>x. snd (purge_entries cutoff s) = s\<lparr>global_entries := filter (\<lambda>en. \<not> purged_entry cutoff en) (global_entries s), global_idx := x\<rparr>"
  using global_reindex_state [of "s\<lparr>global_entries := filter (\<lambda>en. \<not> purged_entry cutoff en) (global_entries s)\<rparr>"]
  by (simp add: purge_entries_def)

lemma sweep_frame:
  assumes "purge_chan_orphans s = (n, ns, s')" "learned_wf s" "store_inv s"
  shows "\<exists>es x ls d. s' = s\<lparr>global_entries := es, global_idx := x, chan_learned := ls, config_dirty := d\<rparr>"
proof -
  obtain s1 ns0 ns1 s2 where S: "store_inv s \<longrightarrow> store_inv s1 \<and> chan_entries s1 = chan_entries s"
    "\<exists>x. s1 = s\<lparr>global_entries := filter (\<lambda>en. \<not> orphan_entry s en) (global_entries s), global_idx := x\<rparr>"
    "length ns0 = length (filter (orphan_entry s) (global_entries s))"
    "drop_orphan_learned 0 ns0 s1 = (ns1, s2)" "n = length ns1" "ns = ns1" "\<exists>d. s' = s2\<lparr>config_dirty := d\<rparr>"
    by (rule sweep_shape [OF assms(1)])
  obtain x where x: "s1 = s\<lparr>global_entries := filter (\<lambda>en. \<not> orphan_entry s en) (global_entries s), global_idx := x\<rparr>"
    using S(2) by blast
  have "distinct (map learned_key (chan_learned s1))" using assms(2) x by (simp add: learned_wf_def)
  from drop_orphan_learned_spec [OF S(4) this] obtain ls where "s2 = s1\<lparr>chan_learned := ls\<rparr>" by auto
  then show ?thesis using S(7) x by auto
qed

lemma purge_frame: "\<exists>f c d. snd (purge cutoff s) = s\<lparr>uflag_records := f, uchan_records := c, config_dirty := d\<rparr>"
proof -
  let ?k = "filter (\<lambda>r. \<not> purge_drops s cutoff r) (uchan_records s)"
  let ?t = "prune (s\<lparr>uchan_records := ?k\<rparr>)"
  have "\<exists>f c. ?t = s\<lparr>uflag_records := f, uchan_records := c\<rparr>" by (auto simp: prune_def Let_def)
  then obtain f c where t: "?t = s\<lparr>uflag_records := f, uchan_records := c\<rparr>" by blast
  have "snd (purge cutoff s) = s\<lparr>uflag_records := f, uchan_records := c,
      config_dirty := (if length (uchan_records s) - length ?k > 0 then True else config_dirty s)\<rparr>"
    unfolding purge_def Let_def snd_conv t by simp
  then show ?thesis by blast
qed

text \<open>The state after the tables are purged, before the connected bots are told.\<close>

definition purge_state :: "env \<Rightarrow> i64 \<Rightarrow> hub_state \<Rightarrow> hub_state" where
  "purge_state e cutoff s =
     (let s1 = snd (purge_entries cutoff (purge_floor_set e cutoff s));
          s4 = snd (purge_masks cutoff (snd (purge_users cutoff (snd (snd (purge_chan_orphans s1))))));
          s6 = snd (purge_bots cutoff (snd (purge cutoff s4)))
      in broadcast_full_config_to_all_bots (s6\<lparr>config_dirty := True\<rparr>))"

lemma execute_purge_split:
  "\<exists>n notes. execute_purge e cutoff s =
     out_bind (out_fold (purge_to_bot e cutoff) (bot_clients (purge_state e cutoff s)) (purge_state e cutoff s)) (\<lambda>s'. Ret (n, notes, s'))"
  unfolding execute_purge_def purge_state_def Let_def
  by (auto simp: purge_entries_def purge_users_def purge_masks_def purge_bots_def split_beta)

text \<open>The tables of a consistent state after a purge.\<close>

lemma kept_user: "\<not> purged_user cutoff u \<longleftrightarrow> u_is_active u \<or> (cutoff \<noteq> 0 \<and> cutoff \<le> u_ts u)"
  by (auto simp: purged_user_def past_cutoff_def)

lemma kept_mask:
  "\<not> purged_mask cutoff s m \<longleftrightarrow> m_uuid m \<in> u_uuid ` set (user_records s) \<and> (m_is_active m \<or> (cutoff \<noteq> 0 \<and> cutoff \<le> m_ts m))"
proof -
  have "list_ex (\<lambda>u. u_uuid u = m_uuid m) (user_records s) \<longleftrightarrow> m_uuid m \<in> u_uuid ` set (user_records s)" unfolding list_ex_iff image_iff by metis
  then show ?thesis by (auto simp: purged_mask_def past_cutoff_def)
qed

text \<open>What a purge is meant to keep of each table, in terms of the records alone.\<close>

definition entry_stays :: "i64 \<Rightarrow> hub_state \<Rightarrow> config_entry \<Rightarrow> bool" where
  "entry_stays cutoff s en \<longleftrightarrow>
     (if global_value_active (ce_value en)
      then ce_key en \<notin> {''C'', ''B''} \<or> (ce_key en = ''B'' \<and> first_field (ce_value en) = ''*'') \<or>
           length (first_field (ce_value en)) \<ge> MAX_CHAN \<or> chan_live s (first_field (ce_value en)) \<noteq> None
      else ce_key en \<notin> {''c'', ''m'', ''o'', ''C'', ''B''} \<or> (cutoff \<noteq> 0 \<and> cutoff \<le> ce_ts en))"

definition bind_stays :: "i64 \<Rightarrow> hub_state \<Rightarrow> uchan_record \<Rightarrow> bool" where
  "bind_stays cutoff s r \<longleftrightarrow>
     (if uc_active r then uc_chan r = ''*'' \<or> chan_live s (uc_chan r) \<noteq> None
      else (cutoff \<noteq> 0 \<and> cutoff \<le> uc_ts r) \<or>
           (uc_chan r = ''*'' \<and> (\<exists>u \<in> set (user_records s). u_is_active u \<and> u_uuid u = uc_uuid r)))"

definition bot_stays :: "i64 \<Rightarrow> bot_config \<Rightarrow> bool" where
  "bot_stays cutoff b \<longleftrightarrow>
     (case List.find (\<lambda>en. ce_key en = ''d'' \<and> ce_value en = ''1'') (b_entries b) of
        None \<Rightarrow> True
      | Some d \<Rightarrow> cutoff \<noteq> 0 \<and> (ce_ts d \<le> 0 \<or> cutoff \<le> ce_ts d))"

lemma kept_entry: "\<not> purged_entry cutoff en \<and> \<not> orphan_entry s en \<longleftrightarrow> entry_stays cutoff s en"
proof -
  have a: "(case rsplit_once (CHR ''|'') (ce_value en) of None \<Rightarrow> False | Some (_, l) \<Rightarrow> l = ''del'') \<longleftrightarrow> \<not> global_value_active (ce_value en)"
    by (auto simp: global_value_active_def split: option.splits)
  show ?thesis unfolding purged_entry_def a by (auto simp: orphan_entry_def entry_stays_def entry_active_def past_cutoff_def Let_def)
qed

lemma kept_bind: "\<not> purge_drops s cutoff r \<longleftrightarrow> bind_stays cutoff s r"
  by (auto simp: purge_drops_def bind_stays_def)

lemma kept_bot: "\<not> purged_bot cutoff b \<longleftrightarrow> bot_stays cutoff b"
  by (auto simp: purged_bot_def bot_stays_def bot_del_ts_def split: option.splits)

definition purge_keeps :: "i64 \<Rightarrow> hub_state \<Rightarrow> hub_state \<Rightarrow> bool" where
  "purge_keeps cutoff s s' \<longleftrightarrow>
     global_entries s' = filter (entry_stays cutoff s) (global_entries s) \<and>
     mset (chan_learned s') = mset (chan_learned s) \<and>
     user_records s' = filter (\<lambda>u. u_is_active u \<or> (cutoff \<noteq> 0 \<and> cutoff \<le> u_ts u)) (user_records s) \<and>
     mask_records s' = filter (\<lambda>m. m_uuid m \<in> u_uuid ` set (user_records s') \<and> (m_is_active m \<or> (cutoff \<noteq> 0 \<and> cutoff \<le> m_ts m)))
       (mask_records s) \<and>
     uflag_records s' = filter (\<lambda>r. uf_uuid r \<in> u_uuid ` set (user_records s')) (uflag_records s) \<and>
     uchan_records s' = filter (\<lambda>r. uc_uuid r \<in> u_uuid ` set (user_records s') \<and> bind_stays cutoff s r) (uchan_records s) \<and>
     bots s' = filter (bot_stays cutoff) (bots s) \<and> revoked s' = revoked s \<and>
     recent_purges s' = recent_purges s"

lemma take_filter: "length xs \<le> n \<Longrightarrow> take n (filter P xs) = filter P xs"
  by (metis le_trans length_filter_le take_all)

lemma bots_filter_inv: "bots_inv s \<Longrightarrow> bots s' = filter P (bots s) \<Longrightarrow> bots_inv s'"
  by (auto simp: bots_inv_def distinct_map_filter intro: le_trans [OF length_filter_le])

lemma purge_floor_frame: "\<exists>a b. purge_floor_set e cutoff s = s\<lparr>purge_floor := a, purge_floor_until := b\<rparr>"
proof -
  have "purge_floor_set e cutoff s = s\<lparr>purge_floor := (if purge_floor_until s \<le> env_now e \<or>
        (if cutoff > 0 then cutoff else env_now e) > purge_floor s then (if cutoff > 0 then cutoff else env_now e) else purge_floor s),
      purge_floor_until := env_now e + PURGE_FLOOR_HOLD\<rparr>"
    by (simp add: purge_floor_set_def Let_def)
  then show ?thesis by blast
qed

lemma purge_drops_frame:
  assumes "\<And>c. chan_live s' c = chan_live s c"
    and "\<forall>u. u_is_active u \<longrightarrow> (u \<in> set (user_records s') \<longleftrightarrow> u \<in> set (user_records s))"
  shows "purge_drops s' cutoff r = purge_drops s cutoff r"
  using assms(2) unfolding purge_drops_def assms(1) by blast

lemma purge_state_keeps:
  assumes inv: "hub_store_inv s" "uflag_inv s" "bots_inv s"
    and caps: "length (user_records s) \<le> MAX_HUB_USER_RECORDS" "length (mask_records s) \<le> MAX_HUB_USER_MASKS"
  shows "purge_keeps cutoff s (purge_state e cutoff s) \<and> hub_store_inv (purge_state e cutoff s) \<and>
    uflag_inv (purge_state e cutoff s) \<and> bots_inv (purge_state e cutoff s) \<and> clients (purge_state e cutoff s) = clients s \<and>
    bot_config_pending (purge_state e cutoff s)"
proof -
  let ?E = "filter (\<lambda>en. \<not> purged_entry cutoff en) (global_entries s)"
  define s0 where "s0 = purge_floor_set e cutoff s"
  define s1 where "s1 = snd (purge_entries cutoff s0)"
  obtain n ns s2 where P: "purge_chan_orphans s1 = (n, ns, s2)" by (cases "purge_chan_orphans s1")
  define s3 where "s3 = snd (purge_users cutoff s2)"
  define s4 where "s4 = snd (purge_masks cutoff s3)"
  define s5 where "s5 = snd (purge cutoff s4)"
  define s' where "s' = purge_state e cutoff s"
  obtain a b where s0: "s0 = s\<lparr>purge_floor := a, purge_floor_until := b\<rparr>" using purge_floor_frame s0_def by blast
  obtain x where s1: "s1 = s0\<lparr>global_entries := ?E, global_idx := x\<rparr>"
    using purge_entries_frame [of cutoff s0] s0 by (auto simp: s1_def)
  have sinv: "store_inv s" "uchan_inv s" "learned_inv s" using inv(1) by (auto simp: hub_store_inv_def)
  have "store_inv s0" using sinv(1) store_inv_cong [of s0 s] s0 by simp
  note e1 = purge_entries_inv [OF this, of cutoff, folded s1_def]
  have "chan_live s0 c = chan_live s c" for c by (rule chan_live_frame) (simp_all add: s0)
  then have live1: "chan_live s1 c = chan_live s c" for c using e1(2) by simp
  then have same: "orphan_entry s1 = orphan_entry s" "live_slot s1 = live_slot s"
    by (simp_all add: fun_eq_iff orphan_entry_def live_slot_def)
  have u1: "uchan_inv s1" "learned_wf s1" using sinv(2,3) by (simp_all add: s1 s0 uchan_inv_def learned_inv_alt learned_wf_def)
  note sw = orphan_sweep [OF e1(1) u1 P, unfolded same]
  obtain es y ls d where s2: "s2 = s1\<lparr>global_entries := es, global_idx := y, chan_learned := ls, config_dirty := d\<rparr>"
    using sweep_frame [OF P u1(2) e1(1)] by blast
  have "filter_mset (live_slot s) (mset (chan_learned s)) = mset (chan_learned s)"
    using sinv(3) by (simp add: learned_inv_alt filter_mset_eq_conv)
  then have ls: "mset (chan_learned s2) = mset (chan_learned s)" using sw by (simp add: s1 s0)
  have "global_entries s2 = filter (\<lambda>en. \<not> purged_entry cutoff en \<and> \<not> orphan_entry s en) (global_entries s)"
    using sw by (simp add: s1 conj_commute)
  then have ge: "global_entries s2 = filter (entry_stays cutoff s) (global_entries s)" unfolding kept_entry .
  have hub2: "hub_store_inv s2" using sw by blast
  have s3: "s3 = s2\<lparr>user_records := filter (\<lambda>u. \<not> purged_user cutoff u) (user_records s)\<rparr>"
    using take_filter [OF caps(1)] by (simp add: s3_def purge_users_def s2 s1 s0)
  have s4: "s4 = s3\<lparr>mask_records := filter (\<lambda>m. \<not> purged_mask cutoff s3 m) (mask_records s)\<rparr>"
    using take_filter [OF caps(2)] by (simp add: s4_def purge_masks_def s3 s2 s1 s0)
  obtain f c d5 where s5: "s5 = s4\<lparr>uflag_records := f, uchan_records := c, config_dirty := d5\<rparr>"
    using purge_frame s5_def by blast
  have st: "s' = broadcast_full_config_to_all_bots ((snd (purge_bots cutoff s5))\<lparr>config_dirty := True\<rparr>)"
    unfolding s'_def purge_state_def Let_def s0_def [symmetric] s1_def [symmetric] P snd_conv s3_def [symmetric] s4_def [symmetric]
      s5_def [symmetric] ..
  have b5: "bots s5 = bots s" by (simp add: s5 s4 s3 s2 s1 s0)
  have "length (bots s) \<le> MAX_BOTS" using inv(3) by (simp add: bots_inv_def)
  then have s': "s' = s5\<lparr>bots := filter (bot_stays cutoff) (bots s), config_dirty := True, bot_config_pending := True\<rparr>"
    unfolding st broadcast_full_config_to_all_bots_def purge_bots_def snd_conv b5 kept_bot
    using take_filter [of "bots s" MAX_BOTS] by simp
  have i4: "uflag_inv s4" "uchan_inv s4" using inv(2) sinv(2) by (simp_all add: s4 s3 s2 s1 s0 uflag_inv_def uchan_inv_def)
  note pr = purge_records [OF i4, of cutoff, folded s5_def]
  have "chan_live s4 c = chan_live s c" for c
  proof -
    have "chan_live s4 c = chan_live s2 c" by (rule chan_live_frame) (simp_all add: s4 s3)
    also have "\<dots> = chan_live s1 c"
      using sw hub2 e1(1) orphan_key by (intro chan_live_cong) (auto simp: hub_store_inv_def chan_entries_def)
    finally show ?thesis using live1 by simp
  qed
  then have "purge_drops s4 cutoff r = purge_drops s cutoff r" for r
    by (rule purge_drops_frame) (auto simp: s4 s3 purged_user_def)
  then have dr: "\<not> purge_drops s4 cutoff r \<longleftrightarrow> bind_stays cutoff s r" for r using kept_bind by simp
  have keeps: "purge_keeps cutoff s s'"
    unfolding purge_keeps_def using ge ls pr dr by (simp add: s' s5 s4 s3 s2 s1 s0 kept_user kept_mask)
  then have "uflag_inv s'" "bots_inv s'" "uchan_inv s'"
    using uflag_filter_inv [OF inv(2)] bots_filter_inv [OF inv(3)] filter_inv [OF sinv(2)] unfolding purge_keeps_def by metis+
  moreover have "hub_store_inv s'"
  proof -
    let ?t = "s'\<lparr>uchan_records := uchan_records s2\<rparr>"
    have "hub_store_inv ?t = hub_store_inv s2" by (rule hub_store_inv_frame) (simp_all add: s' s5 s4 s3)
    moreover have "store_inv ?t = store_inv s'" by (rule store_inv_cong) simp_all
    moreover have "chan_live ?t c = chan_live s' c" for c by (rule chan_live_frame) simp_all
    then have "learned_inv ?t = learned_inv s'" by (simp add: learned_inv_alt learned_wf_def live_slot_def)
    ultimately show ?thesis using hub2 \<open>uchan_inv s'\<close> by (simp add: hub_store_inv_def)
  qed
  moreover have "clients s' = clients s" "bot_config_pending s'" by (simp_all add: s' s5 s4 s3 s2 s1 s0)
  ultimately show ?thesis using keeps by (simp add: s'_def)
qed

section \<open>The connected bots are told\<close>

definition purge_frame_msg :: "i64 \<Rightarrow> queued_msg" where
  "purge_frame_msg cutoff =
     \<lparr>qm_cmd = CMD_CONFIG_DATA, qm_lane = Bulk, qm_coalesce_key = [], qm_lamport_seq = 0, qm_origin = [],
      qm_payload = bot_purge_line cutoff\<rparr>"

lemma purge_msg_new:
  assumes "in_i64 cutoff"
  shows "queued_msg_new CMD_CONFIG_DATA Bulk (bot_purge_line cutoff) = Some (purge_frame_msg cutoff)"
proof -
  have "length (bot_purge_line cutoff) \<le> 27" using length_show_int [OF assms] by (simp add: bot_purge_line_def)
  then show ?thesis by (simp add: queued_msg_new_def purge_frame_msg_def store_caps)
qed

lemma purge_to_bot_sweep:
  assumes "clients_ok s" "in_i64 cutoff"
  shows "\<exists>cs. out_fold (purge_to_bot e cutoff) (bot_clients s) s = Ret (s\<lparr>clients := cs\<rparr>) \<and> length cs = length (clients s) \<and>
    (\<forall>ci < length (clients s). if is_bot (clients s ! ci) then queued_after (purge_frame_msg cutoff) (clients s ! ci) (cs ! ci)
       else cs ! ci = clients s ! ci)"
proof -
  have "\<exists>c'. purge_to_bot e cutoff ci (s\<lparr>clients := cs\<rparr>) = Ret (s\<lparr>clients := cs[ci := c']\<rparr>) \<and>
      queued_after (purge_frame_msg cutoff) (clients s ! ci) c'"
    if "ci \<in> set (bot_clients s)" "cs ! ci = clients s ! ci" for ci cs
  proof -
    have "queue_ok (clients s ! ci)" using that(1) assms(1) by (simp add: clients_ok_def)
    then obtain b c' where "enqueue e (purge_frame_msg cutoff) (clients s ! ci) = Ret (b, c')"
        "queued_after (purge_frame_msg cutoff) (clients s ! ci) c'" using enqueue_queued_after by blast
    then show ?thesis using that(2)
      by (intro exI [of _ c']) (simp add: purge_to_bot_def purge_msg_new [OF assms(2)] put_client_def)
  qed
  then have "\<exists>cs. out_fold (purge_to_bot e cutoff) (bot_clients s) s = Ret (s\<lparr>clients := cs\<rparr>) \<and> length cs = length (clients s) \<and>
    (\<forall>ci < length (clients s). if ci \<in> set (bot_clients s) then queued_after (purge_frame_msg cutoff) (clients s ! ci) (cs ! ci)
       else cs ! ci = clients s ! ci)"
    by (intro client_sweep) auto
  then show ?thesis by auto
qed

lemma execute_purge_run:
  assumes inv: "hub_store_inv s" "uflag_inv s" "bots_inv s" "clients_ok s" "in_i64 cutoff"
    and caps: "length (user_records s) \<le> MAX_HUB_USER_RECORDS" "length (mask_records s) \<le> MAX_HUB_USER_MASKS"
  shows "\<exists>n notes s'. execute_purge e cutoff s = Ret (n, notes, s') \<and> purge_keeps cutoff s s' \<and>
    hub_store_inv s' \<and> uflag_inv s' \<and> bots_inv s' \<and> bot_config_pending s' \<and> length (clients s') = length (clients s) \<and>
    (\<forall>ci < length (clients s).
       if is_bot (clients s ! ci) then queued_after (purge_frame_msg cutoff) (clients s ! ci) (clients s' ! ci)
       else clients s' ! ci = clients s ! ci)"
proof -
  let ?t = "purge_state e cutoff s"
  obtain n tn where sp: "execute_purge e cutoff s = out_bind (out_fold (purge_to_bot e cutoff) (bot_clients ?t) ?t) (\<lambda>s'. Ret (n, tn, s'))"
    using execute_purge_split by blast
  have t: "purge_keeps cutoff s ?t" "hub_store_inv ?t" "uflag_inv ?t" "bots_inv ?t" "clients ?t = clients s" "bot_config_pending ?t"
    using purge_state_keeps [OF inv(1-3) caps, of cutoff e] by auto
  have "clients_ok ?t" using inv(4) t(5) by (simp add: clients_ok_def)
  then obtain cs where cs: "out_fold (purge_to_bot e cutoff) (bot_clients ?t) ?t = Ret (?t\<lparr>clients := cs\<rparr>)" "length cs = length (clients s)"
      "\<forall>ci < length (clients s). if is_bot (clients s ! ci) then queued_after (purge_frame_msg cutoff) (clients s ! ci) (cs ! ci)
         else cs ! ci = clients s ! ci"
    using purge_to_bot_sweep [OF _ inv(5)] unfolding t(5) [symmetric] by blast
  let ?s' = "?t\<lparr>clients := cs\<rparr>"
  have "hub_store_inv ?s' = hub_store_inv ?t" by (rule hub_store_inv_frame) simp_all
  moreover have "purge_keeps cutoff s ?s'" "uflag_inv ?s'" "bots_inv ?s'"
    using t by (simp_all add: purge_keeps_def uflag_inv_def bots_inv_def)
  ultimately show ?thesis using sp cs t
    by (intro exI [of _ n] exI [of _ tn] exI [of _ ?s']) simp
qed

text \<open>
  Property C6.  A purge of a consistent hub returns, and leaves a consistent hub from which exactly
  these are gone: deleted records stamped before the cutoff (all of them at cutoff 0; the * tombstone
  of a live user stays), live settings and bans of channels that are not live, masks and access
  records of users that are gone, and bots deleted before the cutoff.  A live user, mask, channel or
  bot always stays, and so does the revoke list.  Every connected bot has the purge line queued, and
  a full configuration push is owed to it.  (The push itself is sent later by the maintenance loop,
  behind the purge line.)
\<close>

theorem execute_purge_exact:
  assumes inv: "hub_store_inv s" "uflag_inv s" "bots_inv s" "clients_ok s" "in_i64 cutoff"
    and caps: "length (user_records s) \<le> MAX_HUB_USER_RECORDS" "length (mask_records s) \<le> MAX_HUB_USER_MASKS"
  shows "\<exists>n notes s'. execute_purge e cutoff s = Ret (n, notes, s') \<and> purge_keeps cutoff s s' \<and>
    hub_store_inv s' \<and> uflag_inv s' \<and> bots_inv s' \<and> bot_config_pending s' \<and> length (clients s') = length (clients s) \<and>
    (\<forall>ci < length (clients s).
       if is_bot (clients s ! ci) then queued_after (purge_frame_msg cutoff) (clients s ! ci) (clients s' ! ci)
       else clients s' ! ci = clients s ! ci)"
  by (rule execute_purge_run [OF assms])

definition example_tomb :: hub_state where
  "example_tomb = hub_state_new\<lparr>user_records := [example_admin\<lparr>u_is_active := False, u_ts := 100\<rparr>],
     clients := [(example_peer 10)\<lparr>c_typ := Ct_Bot\<rparr>]\<rparr>"

theorem execute_purge_exact_witness:
  "\<exists>n notes s'. execute_purge (env_at 1000) 500 example_tomb = Ret (n, notes, s') \<and> user_records s' = [] \<and> hub_store_inv s'"
proof -
  let ?s = example_tomb
  have "hub_store_inv ?s" using hub_store_inv_new hub_store_inv_frame [of ?s hub_state_new] by (simp add: example_tomb_def)
  moreover have "uflag_inv ?s" "bots_inv ?s" by (simp_all add: example_tomb_def uflag_inv_def bots_inv_def hub_state_new_def)
  moreover have "clients_ok ?s"
    using queue_ok_example_peer [of 10] queue_inv_cong [of "(example_peer 10)\<lparr>c_typ := Ct_Bot\<rparr>" "example_peer 10"]
    by (simp add: clients_ok_def example_tomb_def queue_ok_def)
  moreover have "in_i64 500" by (simp add: in_i64_def I64_MAX_def I64_MIN_def)
  moreover have "length (user_records ?s) \<le> MAX_HUB_USER_RECORDS" "length (mask_records ?s) \<le> MAX_HUB_USER_MASKS"
    by (simp_all add: example_tomb_def hub_state_new_def store_caps)
  moreover have "filter (\<lambda>u. u_is_active u \<or> (500 \<noteq> (0::int) \<and> 500 \<le> u_ts u)) (user_records ?s) = []"
    by (simp add: example_tomb_def)
  ultimately show ?thesis
    using execute_purge_exact [of ?s 500 "env_at 1000"] by (fastforce simp: purge_keeps_def)
qed

section \<open>A purge seen is remembered\<close>

lemma scan_best_min:
  assumes "lt = (\<lambda>a b. f a < (f b :: 'b::linorder))"
  shows "f (xs ! scan_best lt xs js best) \<le> f (xs ! best) \<and> (\<forall>j \<in> set js. f (xs ! scan_best lt xs js best) \<le> f (xs ! j))"
proof (induction js arbitrary: best)
  case (Cons j js)
  show ?case
  proof (cases "f (xs ! j) < f (xs ! best)")
    case True
    then show ?thesis using Cons.IH [of j] assms by (auto intro: order_trans)
  next
    case False
    then show ?thesis using Cons.IH [of best] assms by (auto intro: order_trans)
  qed
qed simp

text \<open>How many of the ring came at or after a time.\<close>

definition rp_since :: "i64 \<Rightarrow> recent_purge list \<Rightarrow> nat" where
  "rp_since t ps = length (filter (\<lambda>p. t \<le> rp_received_at p) ps)"

definition rp_holds :: "i64 \<Rightarrow> i64 \<Rightarrow> string \<Rightarrow> recent_purge list \<Rightarrow> bool" where
  "rp_holds t cutoff pid ps \<longleftrightarrow> (\<exists>p \<in> set ps. rp_cutoff p = cutoff \<and> rp_id p = pid \<and> t \<le> rp_received_at p)"

lemma filter_update_le: "length (filter P (xs[i := x])) \<le> Suc (length (filter P xs))"
  by (induction xs arbitrary: i) (auto split: nat.splits)

lemma record_ring:
  assumes "length (recent_purges s) \<le> MAX_RECENT_PURGES"
  shows "length (recent_purges (record_recent_purge e cutoff pid s)) \<le> MAX_RECENT_PURGES"
    "0 < t \<Longrightarrow> rp_since t (recent_purges (record_recent_purge e cutoff pid s)) \<le> Suc (rp_since t (recent_purges s))"
proof -
  obtain i ps where sl: "purge_slot cutoff pid (recent_purges s) = (i, ps)" by (cases "purge_slot cutoff pid (recent_purges s)")
  have ps: "ps = recent_purges s \<or> (length (recent_purges s) < MAX_RECENT_PURGES \<and>
      ps = recent_purges s @ [\<lparr>rp_cutoff = 0, rp_id = [], rp_received_at = 0\<rparr>])"
    using sl by (auto simp: purge_slot_def split: option.splits if_splits)
  then show "length (recent_purges (record_recent_purge e cutoff pid s)) \<le> MAX_RECENT_PURGES"
    using assms sl by (auto simp: record_recent_purge_def)
  assume "0 < t"
  then have "rp_since t ps = rp_since t (recent_purges s)" using ps by (auto simp: rp_since_def)
  then show "rp_since t (recent_purges (record_recent_purge e cutoff pid s)) \<le> Suc (rp_since t (recent_purges s))"
    using filter_update_le [of "\<lambda>p. t \<le> rp_received_at p" ps i] sl by (simp add: record_recent_purge_def rp_since_def)
qed

lemma record_holds:
  assumes "length pid \<le> PURGE_ID_HEX"
  shows "rp_holds (env_now e) cutoff pid (recent_purges (record_recent_purge e cutoff pid s))"
proof -
  obtain i ps where sl: "purge_slot cutoff pid (recent_purges s) = (i, ps)" by (cases "purge_slot cutoff pid (recent_purges s)")
  have "i < length ps"
    using sl scan_best_range [of 0 "length (recent_purges s)" "[1..<length (recent_purges s)]"]
    by (cases "recent_purges s = []") (auto simp: purge_slot_def MAX_RECENT_PURGES_def dest: position_SomeD split: option.splits if_splits)
  then show ?thesis using sl assms set_update_memI [of i ps] by (force simp: record_recent_purge_def rp_holds_def)
qed

lemma rp_holds_recent:
  "rp_holds t cutoff pid (recent_purges s) \<Longrightarrow> env_now e - t < PURGE_DEDUP_WINDOW \<Longrightarrow> is_purge_recent e s cutoff pid"
  by (force simp: is_purge_recent_def rp_holds_def list_ex_iff)

lemma record_keeps:
  assumes "length (recent_purges s) \<le> MAX_RECENT_PURGES" "rp_holds t cutoff pid (recent_purges s)"
    and "rp_since t (recent_purges s) < MAX_RECENT_PURGES" "t \<le> env_now e" "length pid' \<le> PURGE_ID_HEX"
  shows "rp_holds t cutoff pid (recent_purges (record_recent_purge e cutoff' pid' s))"
proof -
  let ?ps = "recent_purges s" let ?n = "\<lparr>rp_cutoff = cutoff', rp_id = pid', rp_received_at = env_now e\<rparr>"
  obtain k where k: "k < length ?ps" "rp_cutoff (?ps ! k) = cutoff" "rp_id (?ps ! k) = pid" "t \<le> rp_received_at (?ps ! k)"
    using assms(2) by (auto simp: rp_holds_def in_set_conv_nth)
  obtain i ps where sl: "purge_slot cutoff' pid' ?ps = (i, ps)" by (cases "purge_slot cutoff' pid' ?ps")
  have rec: "recent_purges (record_recent_purge e cutoff' pid' s) = ps[i := ?n]"
    using sl assms(5) by (simp add: record_recent_purge_def)
  have pk: "k < length ps" "ps ! k = ?ps ! k"
    using sl k(1) by (auto simp: purge_slot_def nth_append split: option.splits if_splits)
  show ?thesis
  proof (cases "i = k")
    case False
    then have "ps[i := ?n] ! k = ?ps ! k" using pk by simp
    then show ?thesis unfolding rec rp_holds_def using k pk(1) by (metis length_list_update nth_mem)
  next
    case True
    have "rp_cutoff (?ps ! k) = cutoff' \<and> rp_id (?ps ! k) = pid'"
    proof (cases "position (\<lambda>p. rp_cutoff p = cutoff' \<and> rp_id p = pid') ?ps")
      case (Some j)
      then show ?thesis using sl True by (auto simp: purge_slot_def dest: position_SomeD)
    next
      case None
      then have full: "i = scan_best rp_older ?ps [1..<length ?ps] 0" "length ?ps = MAX_RECENT_PURGES"
        using sl True k(1) assms(1) by (auto simp: purge_slot_def split: if_splits)
      have "rp_received_at (?ps ! k) \<le> rp_received_at (?ps ! j)" if "j < length ?ps" for j
        using scan_best_min [of rp_older rp_received_at ?ps "[1..<length ?ps]" 0] that full(1) True
        by (cases j) (auto simp: rp_older_def fun_eq_iff)
      then have "\<forall>p \<in> set ?ps. t \<le> rp_received_at p" using k(4) by (force simp: in_set_conv_nth)
      then have "rp_since t ?ps = length ?ps" by (simp add: rp_since_def)
      then show ?thesis using assms(3) full(2) by simp
    qed
    then show ?thesis unfolding rec rp_holds_def using k pk(1) True assms(4)
      by (intro bexI [of _ ?n]) (auto simp: set_update_memI)
  qed
qed

text \<open>
  A purge the hub has recorded, by its own broadcast or from a peer, is recognised for
  the whole deduplication window, so a copy that comes back around the mesh is neither run nor
  forwarded again, as long as fewer than \<^const>\<open>MAX_RECENT_PURGES\<close> other purges are recorded in the
  meantime.
\<close>

theorem purge_remembered:
  assumes "length (recent_purges s) \<le> MAX_RECENT_PURGES" "0 < env_now e"
    and older: "\<forall>p \<in> set (recent_purges s). rp_received_at p < env_now e" and "length pid \<le> PURGE_ID_HEX"
    and more: "length rs < MAX_RECENT_PURGES" "\<forall>(e', c, i) \<in> set rs. env_now e \<le> env_now e' \<and> length i \<le> PURGE_ID_HEX"
    and "env_now e'' - env_now e < PURGE_DEDUP_WINDOW"
  shows "is_purge_recent e'' (fold (\<lambda>(e', c, i). record_recent_purge e' c i) rs (record_recent_purge e cutoff pid s)) cutoff pid"
proof -
  let ?t = "env_now e" let ?s1 = "record_recent_purge e cutoff pid s"
  let ?run = "\<lambda>rs s. fold (\<lambda>(e', c, i). record_recent_purge e' c i) rs s"
  have z: "rp_since ?t (recent_purges s) = 0" using older by (auto simp: rp_since_def filter_empty_conv)
  have l1: "length (recent_purges ?s1) \<le> MAX_RECENT_PURGES" "rp_since ?t (recent_purges ?s1) \<le> 1"
    using record_ring(1) [OF assms(1), of e cutoff pid] record_ring(2) [OF assms(1,2), of e cutoff pid] z by simp_all
  have h1: "rp_holds ?t cutoff pid (recent_purges ?s1)" by (rule record_holds [OF assms(4)])
  have "rp_holds ?t cutoff pid (recent_purges (?run rs s1))"
    if "length (recent_purges s1) \<le> MAX_RECENT_PURGES" "rp_holds ?t cutoff pid (recent_purges s1)"
      "rp_since ?t (recent_purges s1) + length rs \<le> MAX_RECENT_PURGES"
      "\<forall>(e', c, i) \<in> set rs. ?t \<le> env_now e' \<and> length i \<le> PURGE_ID_HEX" for rs s1
    using that
  proof (induction rs arbitrary: s1)
    case (Cons r rs)
    obtain e' c i where r: "r = (e', c, i)" by (cases r)
    have k: "rp_holds ?t cutoff pid (recent_purges (record_recent_purge e' c i s1))"
      using Cons.prems r by (intro record_keeps) auto
    have "rp_since ?t (recent_purges (record_recent_purge e' c i s1)) + length rs \<le> MAX_RECENT_PURGES"
      using record_ring(2) [OF Cons.prems(1) assms(2), of e' c i] Cons.prems(3) by simp
    then show ?case using Cons.IH [OF record_ring(1) [OF Cons.prems(1)] k] Cons.prems(4) r by simp
  qed simp
  from this [OF l1(1) h1 _ more(2)] have "rp_holds ?t cutoff pid (recent_purges (?run rs ?s1))" using l1(2) more(1) by simp
  then show ?thesis using assms(7) rp_holds_recent by blast
qed

theorem purge_remembered_witness:
  "is_purge_recent (env_at 1060) (record_recent_purge (env_at 1010) 0 ''bb'' (record_recent_purge (env_at 1000) 0 ''aa'' hub_state_new)) 0 ''aa''"
  using purge_remembered [of hub_state_new "env_at 1000" "''aa''" "[(env_at 1010, 0, ''bb'')]" "env_at 1060" 0]
  by (simp add: hub_state_new_def env_at_def MAX_RECENT_PURGES_def PURGE_ID_HEX_def PURGE_DEDUP_WINDOW_def)


text \<open>
  The purge line a hub floods is read back by every other hub as it was meant: of the
  lines of the message the first gives the cutoff and the id again, and there is no other.
\<close>

theorem purge_msg_roundtrip:
  assumes "0 \<le> cutoff" "cutoff \<le> I64_MAX" "pid \<noteq> []" "length pid \<le> PURGE_ID_HEX" "list_all is_hexdigit pid"
  shows "\<exists>line. split_on (CHR 0x0A) (purge_msg cutoff pid) = [line, []] \<and> parse_purge_line line = Some (cutoff, pid)"
proof -
  let ?d = "show_int cutoff"
  have "in_i64 cutoff" using assms(1,2) by (simp add: in_i64_def I64_MIN_def)
  then have st: "strtoll (?d @ CHR ''|'' # pid) = (cutoff, length ?d)" by (intro strtoll_show_int) (simp_all add: is_digit_def)
  have d: "?d \<noteq> []" "\<forall>c \<in> set ?d. is_digit c" using assms(1) show_nat_digits [of "nat cutoff"] by (auto simp: show_int_def list_all_iff)
  then obtain c cs where c: "?d = c # cs" "is_digit c" by (cases ?d) auto
  have h: "CHR 0x0A \<notin> set pid" using assms(5) by (auto simp: list_all_iff is_hexdigit_def is_digit_def)
  have "CHR 0x0A \<notin> set ?d" using d(2) by (auto simp: is_digit_def)
  then have "split_on (CHR 0x0A) ((''PURGE|'' @ ?d @ ''|'' @ pid) @ CHR 0x0A # []) = [''PURGE|'' @ ?d @ ''|'' @ pid, []]"
    using h by (subst split_on_append) simp_all
  moreover have "parse_purge_line (''PURGE|'' @ ?d @ ''|'' @ pid) = Some (cutoff, pid)"
    using st assms(1,3-5) c by (simp add: parse_purge_line_def strip_prefix_def Let_def)
  ultimately show ?thesis by (simp add: purge_msg_def)
qed

theorem purge_msg_roundtrip_witness:
  "\<exists>line. split_on (CHR 0x0A) (purge_msg 86400 ''0af9'') = [line, []] \<and> parse_purge_line line = Some (86400, ''0af9'')"
  by (rule purge_msg_roundtrip) (simp_all add: I64_MAX_def PURGE_ID_HEX_def is_hexdigit_def is_digit_def)

end
