(* ===== verification/Mesh_Ingest.thy ===== *)
theory Mesh_Ingest
  imports Mesh_Purge Link_Framing
begin

text \<open>
  The ingest of a peer hub's sync (\<^verbatim>\<open>process_peer_sync\<close> of \<^verbatim>\<open>src/src/mesh.rs\<close>): every kind of line it
  takes, with the parsers of \<^verbatim>\<open>src/src/config.rs\<close>, the activity repair of \<^verbatim>\<open>src/src/activity.rs\<close> and
  the retirement of revoked bots of \<^verbatim>\<open>src/src/auth.rs\<close> it calls.  The trace lines and the traffic
  statistics are not modelled; the base64 encoder, the cipher and what each bot's socket answers are
  parameters.
\<close>

section \<open>Parsers\<close>

definition parse_opt_value :: "string \<Rightarrow> (string \<times> i64) option" where
  "parse_opt_value v =
     (case split_once (CHR ''|'') v of
        None \<Rightarrow> None
      | Some (l, rest) \<Rightarrow>
          let flags = take MAX_OPT_FLAGS (filter is_alnum l);
              (ts, used) = strtoll rest
          in if used = 0 \<or> ts \<le> 0 then None
             else case drop used rest of
                    [] \<Rightarrow> Some (flags, ts)
                  | c # _ \<Rightarrow> if c = CHR ''|'' \<or> c = CHR 0x0D then Some (flags, ts) else None)"

definition field_pubkey :: "env \<Rightarrow> (string \<Rightarrow> string) \<Rightarrow> string \<Rightarrow> string option" where
  "field_pubkey e enc f =
     (if length f \<noteq> COMBINED_KEY_B64 then None else map_option (\<lambda>_. f) (pubkey_b64_decode e enc f))"

definition parse_user_record :: "env \<Rightarrow> (string \<Rightarrow> string) \<Rightarrow> string \<Rightarrow> char \<Rightarrow> user_record option" where
  "parse_user_record e enc data typ =
     (let f = split_fields data 8 in
      if length f < 6 \<or> \<not> is_uuid (f ! 0) then None
      else if f ! 1 = [] \<or> length (f ! 1) \<ge> 64 then None
      else let out = \<lparr>u_uuid = f ! 0, u_name = f ! 1, u_pubkey_b64 = [], u_has_pubkey = False, u_typ = typ,
                      u_is_active = (f ! 3 = ''add''), u_last_seen = atoll (f ! 4), u_ts = atoll (f ! 5)\<rparr>
           in if f ! 2 \<noteq> []
              then map_option (\<lambda>k. out\<lparr>u_pubkey_b64 := k, u_has_pubkey := True\<rparr>) (field_pubkey e enc (f ! 2))
              else Some out)"

text \<open>
  \<^verbatim>\<open>split_whitespace().next()\<close>: the length of the Unicode white-space character a text starts with (0
  for none), and the first word.
\<close>

definition ws_len :: "string \<Rightarrow> nat" where
  "ws_len s =
     (case map byte s of
        [] \<Rightarrow> 0
      | a # r \<Rightarrow>
          if (9 \<le> a \<and> a \<le> 13) \<or> a = 32 then 1
          else case r of
            [] \<Rightarrow> 0
          | b # r' \<Rightarrow>
              if a = 0xC2 \<and> (b = 0x85 \<or> b = 0xA0) then 2
              else case r' of
                [] \<Rightarrow> 0
              | c # _ \<Rightarrow>
                  if (a = 0xE1 \<and> b = 0x9A \<and> c = 0x80) \<or>
                     (a = 0xE2 \<and> b = 0x80 \<and> ((0x80 \<le> c \<and> c \<le> 0x8A) \<or> c = 0xA8 \<or> c = 0xA9 \<or> c = 0xAF)) \<or>
                     (a = 0xE2 \<and> b = 0x81 \<and> c = 0x9F) \<or> (a = 0xE3 \<and> b = 0x80 \<and> c = 0x80)
                  then 3 else 0)"

lemma ws_len_Nil [simp]: "ws_len [] = 0"
  by (simp add: ws_len_def)

function skip_ws :: "string \<Rightarrow> string" where
  "skip_ws s = (if ws_len s = 0 then s else skip_ws (drop (ws_len s) s))"
  by pat_completeness auto

termination
proof (relation "measure length")
  fix s :: string
  assume "ws_len s \<noteq> 0"
  then have "s \<noteq> []" by (cases s) simp_all
  then show "(drop (ws_len s) s, s) \<in> measure length" using \<open>ws_len s \<noteq> 0\<close> by simp
qed simp

declare skip_ws.simps [simp del]

fun until_ws :: "string \<Rightarrow> string" where
  "until_ws [] = []"
| "until_ws (c # cs) = (if ws_len (c # cs) > 0 then [] else c # until_ws cs)"

definition first_word :: "string \<Rightarrow> string" where
  "first_word s = until_ws (skip_ws s)"

section \<open>Activity repair\<close>

datatype slot = Slot_User nat | Slot_Mask nat | Slot_Ban nat

definition raise :: "env \<Rightarrow> slot \<Rightarrow> i64 \<Rightarrow> hub_state \<Rightarrow> bool \<times> hub_state" where
  "raise e sl ts s =
     (if ts > env_now e + ACTIVITY_MAX_FUTURE then (False, s)
      else case sl of
        Slot_User i \<Rightarrow>
          let u = user_records s ! i in
          if ts \<le> u_last_seen u then (False, s)
          else (True, s\<lparr>user_records := (user_records s)[i := u\<lparr>u_last_seen := ts\<rparr>], config_dirty := True\<rparr>)
      | Slot_Mask i \<Rightarrow>
          let m = mask_records s ! i in
          if ts \<le> m_last_used m then (False, s)
          else (True, s\<lparr>mask_records := (mask_records s)[i := m\<lparr>m_last_used := ts\<rparr>], config_dirty := True\<rparr>)
      | Slot_Ban i \<Rightarrow>
          let g = global_entries s ! i in
          if ts \<le> ce_last_used g then (False, s)
          else (True, s\<lparr>global_entries := (global_entries s)[i := g\<lparr>ce_last_used := ts\<rparr>], config_dirty := True\<rparr>))"

section \<open>Global entries\<close>

definition is_global_key :: "string \<Rightarrow> bool" where
  "is_global_key key \<longleftrightarrow> key \<in> set [''c'', ''m'', ''o'', ''a'', ''p'', ''C'', ''D'', ''B'']"

definition raw_norm :: "string \<Rightarrow> string \<Rightarrow> string \<Rightarrow> string" where
  "raw_norm key stored value =
     (if key \<noteq> ''c'' then value
      else let sl = length (first_field stored) in
        case find_bar value of
          Some b \<Rightarrow> if sl + length (drop b value) < 1024 then take sl stored @ drop b value else value
        | None \<Rightarrow> value)"

definition store_global_entry_raw :: "env \<Rightarrow> string \<Rightarrow> string \<Rightarrow> i64 \<Rightarrow> hub_state \<Rightarrow> bool \<times> hub_state" where
  "store_global_entry_raw e key value ts s =
     (if key_is_modes key then put_record e key value ts s
      else case global_find s key value of
        Some i \<Rightarrow>
          let g = global_entries s ! i; norm0 = raw_norm key (ce_value g) value in
          if lww_accepts e ts (global_value_active norm0) (ce_ts g) (global_value_active (ce_value g))
          then let norm = trunc_string norm0 1024;
                   s1 = s\<lparr>global_entries := (global_entries s)[i := g\<lparr>ce_value := norm, ce_ts := ts\<rparr>]\<rparr>
               in (True, if key = ''c'' \<and> \<not> global_value_active norm
                         then snd (snd (chan_cascade_del e (trunc_string (first_field norm) MAX_CHAN) ts False s1)) else s1)
          else (False, s)
      | None \<Rightarrow>
          if ts_ahead e ts then (False, s)
          else if \<not> global_value_active value \<and> purge_floor_blocks e s ts then (False, s)
          else if global_room s key
          then let s1 = s\<lparr>global_entries := global_entries s @
                     [\<lparr>ce_key = trunc_string key 32, ce_value = trunc_string value 1024, ce_ts = ts, ce_last_used = 0\<rparr>]\<rparr>
               in (True, global_note_new (length (global_entries s1) - 1) s1)
          else (False, s))"

definition parse_global_channel_value :: "string \<Rightarrow> (string \<times> string \<times> i32 \<times> string) option" where
  "parse_global_channel_value value =
     (case (split_once (CHR ''|'') value, rsplit_once (CHR ''|'') value) of
        (Some (chan, after), Some (before, op)) \<Rightarrow>
          if length before > length chan then
            (let middle = trunc_string (drop (length chan + 1) before) 128 in
             case rsplit_once (CHR ''|'') middle of
               Some (key, modes) \<Rightarrow> Some (chan, key, atoi modes, op)
             | None \<Rightarrow> Some (chan, middle, 0, op))
          else Some (chan, [], 0, op)
      | _ \<Rightarrow> None)"

definition global_channel_modes :: "hub_state \<Rightarrow> string \<Rightarrow> i32" where
  "global_channel_modes s chan = (case learned_find s chan of None \<Rightarrow> 0 | Some l \<Rightarrow> int (cl_modes l))"

section \<open>One line of a sync\<close>

record sync_counters =
  sc_updates :: nat
  sc_bot_push_updates :: nat
  sc_forward :: string

definition push_fwd :: "nat \<Rightarrow> string \<Rightarrow> sync_counters \<Rightarrow> sync_counters" where
  "push_fwd room l cnt =
     (if length (sc_forward cnt) + room < MAX_SYNC_PAYLOAD then cnt\<lparr>sc_forward := sc_forward cnt @ l\<rparr> else cnt)"

definition count_update :: "bool \<Rightarrow> sync_counters \<Rightarrow> sync_counters" where
  "count_update push cnt =
     cnt\<lparr>sc_updates := sc_updates cnt + 1, sc_bot_push_updates := (if push then sc_bot_push_updates cnt + 1 else sc_bot_push_updates cnt)\<rparr>"

text \<open>The user record a line is about: by uuid, by the name of a live user (merged), or a new slot.\<close>

definition incoming_wins :: "user_record \<Rightarrow> user_record \<Rightarrow> bool" where
  "incoming_wins inc ex \<longleftrightarrow>
     u_last_seen inc > u_last_seen ex \<or> (u_last_seen inc = u_last_seen ex \<and> u_ts inc > u_ts ex) \<or>
     (u_last_seen inc = u_last_seen ex \<and> u_ts inc = u_ts ex \<and> u_uuid inc < u_uuid ex)"

definition adopt_uuid :: "env \<Rightarrow> nat \<Rightarrow> string \<Rightarrow> hub_state \<Rightarrow> hub_state" where
  "adopt_uuid e ni new s =
     (let old = u_uuid (user_records s ! ni);
          s1 = remap_uuid e old new s;
          s2 = s1\<lparr>mask_records := map (\<lambda>m. if m_uuid m = old then m\<lparr>m_uuid := new\<rparr> else m) (mask_records s1)\<rparr>
      in s2\<lparr>user_records := (user_records s2)[ni := (user_records s2 ! ni)\<lparr>u_uuid := new\<rparr>], config_dirty := True\<rparr>)"

definition user_slot :: "env \<Rightarrow> char \<Rightarrow> user_record \<Rightarrow> hub_state \<Rightarrow> nat option \<times> hub_state" where
  "user_slot e key inc s =
     (let found = position (\<lambda>u. u_uuid u = u_uuid inc) (user_records s);
          same_name = (if found = None \<and> u_is_active inc
                       then position (\<lambda>ex. u_is_active ex \<and> u_typ ex = key \<and> eq_ic (u_name ex) (u_name inc)) (user_records s)
                       else None)
      in case (found, same_name) of
           (Some i, _) \<Rightarrow> (Some i, s)
         | (None, Some ni) \<Rightarrow>
             if incoming_wins inc (user_records s ! ni) then (Some ni, adopt_uuid e ni (u_uuid inc) s) else (None, s)
         | (None, None) \<Rightarrow>
             if length (user_records s) < MAX_HUB_USER_RECORDS \<and> \<not> ts_ahead e (u_ts inc) \<and>
                (u_is_active inc \<or> \<not> purge_floor_blocks e s (u_ts inc))
             then (Some (length (user_records s)),
                   s\<lparr>user_records := user_records s @
                       [\<lparr>u_uuid = u_uuid inc, u_name = [], u_pubkey_b64 = [], u_has_pubkey = False, u_typ = CHR 0x00,
                         u_is_active = False, u_last_seen = 0, u_ts = 0\<rparr>]\<rparr>)
             else (None, s))"

definition user_written :: "char \<Rightarrow> user_record \<Rightarrow> user_record \<Rightarrow> user_record" where
  "user_written key inc u =
     (let u1 = u\<lparr>u_name := u_name inc, u_typ := key, u_is_active := u_is_active inc,
                u_last_seen := (if u_last_seen inc > u_last_seen u then u_last_seen inc else u_last_seen u), u_ts := u_ts inc\<rparr>
      in if u_has_pubkey inc then u1\<lparr>u_pubkey_b64 := u_pubkey_b64 inc, u_has_pubkey := True\<rparr> else u1)"

definition sync_user_record ::
    "env \<Rightarrow> (string \<Rightarrow> string) \<Rightarrow> char \<Rightarrow> string \<Rightarrow> hub_state \<times> sync_counters \<Rightarrow> hub_state \<times> sync_counters" where
  "sync_user_record e enc key vstart sc =
     (let (s, cnt) = sc in
      case parse_user_record e enc vstart key of
        None \<Rightarrow> (s, cnt)
      | Some inc \<Rightarrow>
          (case user_slot e key inc s of
             (None, s1) \<Rightarrow> (s1, cnt)
           | (Some ui, s1) \<Rightarrow>
               let cur = user_records s1 ! ui in
               if \<not> lww_accepts e (u_ts inc) (u_is_active inc) (u_ts cur) (u_is_active cur)
               then (snd (raise e (Slot_User ui) (u_last_seen inc) s1), cnt)
               else let s2 = s1\<lparr>user_records := (user_records s1)[ui := user_written key inc cur], config_dirty := True\<rparr>;
                        uline = format_user_record (user_records s2 ! ui);
                        cnt1 = count_update True cnt
                    in (s2, if length uline < USER_LINE_MAX then push_fwd (length uline) uline cnt1 else cnt1)))"

definition sync_mask_record ::
    "env \<Rightarrow> string \<Rightarrow> string \<Rightarrow> hub_state \<times> sync_counters \<Rightarrow> hub_state \<times> sync_counters" where
  "sync_mask_record e vstart line sc =
     (let (s, cnt) = sc; f = split_fields vstart 5 in
      if length f < 5 then (s, cnt)
      else let uuid = trunc_string (f ! 0) 37; mask = trunc_string (f ! 1) MAX_MASK_LEN;
               last_used = atoll (f ! 3); ts = atoll (f ! 4);
               active = (take 3 (trunc_string (f ! 2) 8) = ''add'')
        in if \<not> list_ex (\<lambda>u. u_uuid u = uuid) (user_records s) then (s, cnt)
           else let slot = (case position (\<lambda>m. m_uuid m = uuid \<and> eq_ic (m_mask m) mask) (mask_records s) of
                              Some i \<Rightarrow> Some (i, s)
                            | None \<Rightarrow>
                                if length (mask_records s) < MAX_HUB_USER_MASKS \<and> \<not> ts_ahead e ts \<and>
                                   (active \<or> \<not> purge_floor_blocks e s ts)
                                then Some (length (mask_records s),
                                       s\<lparr>mask_records := mask_records s @
                                           [\<lparr>m_uuid = uuid, m_mask = mask, m_is_active = False, m_last_used = 0, m_ts = 0\<rparr>]\<rparr>)
                                else None)
        in case slot of
             None \<Rightarrow> (s, cnt)
           | Some (mi, s1) \<Rightarrow>
               let cur = mask_records s1 ! mi in
               if \<not> lww_accepts e ts active (m_ts cur) (m_is_active cur)
               then (snd (raise e (Slot_Mask mi) last_used s1), cnt)
               else (s1\<lparr>mask_records := (mask_records s1)[mi := cur\<lparr>m_is_active := active,
                            m_last_used := (if last_used > m_last_used cur then last_used else m_last_used cur), m_ts := ts\<rparr>],
                         config_dirty := True\<rparr>,
                     push_fwd (length line + 1) (line @ [CHR 0x0A]) (count_update True cnt)))"

text \<open>
  The parts of a \<^verbatim>\<open>b|\<close> line: uuid, key, the value as it arrived, the three parts handed to the store,
  and the stamp.
\<close>

definition bot_parts :: "string \<Rightarrow> string \<Rightarrow> string \<times> string \<times> string" where
  "bot_parts key val =
     (let (v, ex, op) =
        (if key = ''c'' \<or> key = ''o'' then
           (case split_once (CHR ''|'') val of
              None \<Rightarrow> ([], [], [])
            | Some (l, rest) \<Rightarrow>
                (case rsplit_once (CHR ''|'') rest of
                   None \<Rightarrow> (trunc_string l 512, [], [])
                 | Some (mid, tail) \<Rightarrow> (trunc_string l 512, trunc_string mid 256, trunc_string tail 16)))
         else if key = ''m'' then
           (case split_once (CHR ''|'') val of
              None \<Rightarrow> ([], [], [])
            | Some (l, rest) \<Rightarrow> (trunc_string l 512, [], trunc_string rest 16))
         else ([], [], []))
      in (if v = [] then val else v, ex, op))"

datatype bot_line =
    Bot_Bad
  | Bot_Stamp string string i64
  | Bot_Value string string string i64

definition parse_bot_line :: "string \<Rightarrow> bot_line" where
  "parse_bot_line ptr =
     (case split_once (CHR ''|'') ptr of
        None \<Rightarrow> Bot_Bad
      | Some (u, rest) \<Rightarrow>
          (case split_once (CHR ''|'') rest of
             None \<Rightarrow> Bot_Bad
           | Some (k, tail) \<Rightarrow>
               let uuid = trunc_string u 64; key = trunc_string k 32 in
               case rsplit_once (CHR ''|'') tail of
                 None \<Rightarrow> if key = ''seen'' \<or> key = ''t'' then Bot_Stamp uuid key (atoll tail) else Bot_Bad
               | Some (v, t) \<Rightarrow> Bot_Value uuid key (trunc_string v 1024) (atoll t)))"

definition sync_bot_entry :: "env \<Rightarrow> string \<Rightarrow> hub_state \<times> sync_counters \<Rightarrow> (hub_state \<times> sync_counters) outcome" where
  "sync_bot_entry e ptr sc =
     (let (s, cnt) = sc in
      case parse_bot_line ptr of
        Bot_Bad \<Rightarrow> Ret (s, cnt)
      | Bot_Stamp uuid key ts \<Rightarrow>
          out_bind (update_entry e uuid key [] [] [] ts s) (\<lambda>(ok, s1).
            let line = ''b|'' @ uuid @ ''|'' @ key @ ''|'' @ show_int ts @ [CHR 0x0A]
            in Ret (s1, if ok then push_fwd (length line) line (count_update False cnt) else cnt))
      | Bot_Value uuid key val ts \<Rightarrow>
          let (v, ex, op) = bot_parts key val in
          out_bind (update_entry e uuid key v ex op ts s) (\<lambda>(ok, s1).
            let line = ''b|'' @ uuid @ ''|'' @ key @ ''|'' @ val @ ''|'' @ show_int ts @ [CHR 0x0A]
            in Ret (s1, if ok then push_fwd (length line + 1200) line (count_update (key \<noteq> ''seen'' \<and> key \<noteq> ''t'') cnt) else cnt)))"

section \<open>Retiring revoked bots\<close>

definition retire_one :: "env \<Rightarrow> nat \<Rightarrow> nat \<times> hub_state \<Rightarrow> (nat \<times> hub_state) outcome" where
  "retire_one e i ns =
     (let (n, s) = ns; c = clients s ! i in
      if c_typ c \<noteq> Ct_Bot \<or> \<not> c_authenticated c \<or> c_retiring c \<or> \<not> is_revoked s (c_id c) then Ret (n, s)
      else case queued_msg_new CMD_BOT_RETIRE Urgent [] of
        None \<Rightarrow> Ret (n, s)
      | Some m \<Rightarrow>
          out_bind (enqueue e m c) (\<lambda>(ok, c1).
            if \<not> ok then Ret (n, put_client i c1 s)
            else Ret (n + 1, put_client i (c1\<lparr>c_retiring := True, c_retire_sent := env_now e\<rparr>) s)))"

text \<open>The rows of revoked bots leave the tree.\<close>

function drop_revoked_rows :: "nat \<Rightarrow> hub_state \<Rightarrow> hub_state" where
  "drop_revoked_rows i s =
     (if \<not> i < length (roster s) then s
      else if is_revoked s (br_bot_uuid (roster s ! i))
      then drop_revoked_rows i (s\<lparr>roster := swap_remove i (roster s), tree_dirty := True\<rparr>)
      else drop_revoked_rows (i + 1) s)"
  by pat_completeness auto

termination
  by (relation "measure (\<lambda>(i, s). length (roster s) - i)") auto

declare drop_revoked_rows.simps [simp del]

definition retire_revoked_bots :: "env \<Rightarrow> hub_state \<Rightarrow> (nat \<times> hub_state) outcome" where
  "retire_revoked_bots e s =
     out_bind (out_fold (retire_one e) [0..<length (clients s)] (0, s)) (\<lambda>(n, s1). Ret (n, drop_revoked_rows 0 s1))"

section \<open>The whole sync\<close>

text \<open>
  What a line may change: the hub, the sockets of the connected bots (one world per connection), and
  the counters.
\<close>

type_synonym sync_run = "hub_state \<times> (nat \<Rightarrow> link_world) \<times> sync_counters"

definition invite_to_bot :: "env \<Rightarrow> aead \<Rightarrow> string \<Rightarrow> nat \<Rightarrow> sync_run \<Rightarrow> sync_run outcome" where
  "invite_to_bot e ae payload ci r =
     (let (s, net, cnt) = r in
      out_bind (send_cmd_to_bot e ae CMD_INVITE_REQUEST payload (clients s ! ci) (net ci)) (\<lambda>(_, c, w).
        Ret (put_client ci c s, net(ci := w), cnt)))"

definition sync_purge_line :: "env \<Rightarrow> string \<Rightarrow> i32 \<Rightarrow> bool \<Rightarrow> sync_run \<Rightarrow> sync_run outcome" where
  "sync_purge_line e line origin_fd bcast r =
     (let (s, net, cnt) = r in
      case parse_purge_line line of
        None \<Rightarrow> Ret r
      | Some (cutoff, pid) \<Rightarrow>
          if is_purge_recent e s cutoff pid then Ret r
          else out_bind (execute_purge e cutoff (record_recent_purge e cutoff pid s)) (\<lambda>(purged, _, s1).
                 let cnt1 = cnt\<lparr>sc_updates := sc_updates cnt + purged\<rparr> in
                 if origin_fd \<noteq> - 1
                 then out_bind (sync_forward_to_peers e line origin_fd bcast s1) (\<lambda>s2. Ret (s2, net, cnt1))
                 else Ret (s1, net, cnt1)))"

definition sync_invite_line :: "env \<Rightarrow> aead \<Rightarrow> string \<Rightarrow> sync_run \<Rightarrow> sync_run outcome" where
  "sync_invite_line e ae body r =
     (let (s, net, cnt) = r; f = split_fields body 2 in
      if length f = 2 \<and> f ! 0 \<noteq> [] \<and> f ! 1 \<noteq> [] \<and> first_word (f ! 1) \<noteq> []
      then out_fold (invite_to_bot e ae (f ! 0 @ ''|'' @ first_word (f ! 1))) (bot_clients s) r
      else Ret r)"

text \<open>The records of the tables; the line is one of the shapes \<^verbatim>\<open>uf|\<close> to \<^verbatim>\<open>rv|\<close>.\<close>

definition sync_access_line :: "env \<Rightarrow> char \<Rightarrow> string \<Rightarrow> string \<Rightarrow> hub_state \<times> sync_counters \<Rightarrow> hub_state \<times> sync_counters" where
  "sync_access_line e kind body line sc =
     (let (s, cnt) = sc; (r, s1) = ingest e kind body True s
      in (s1, if r = Some True then push_fwd UC_LINE_MAX (line @ [CHR 0x0A]) (count_update True cnt) else cnt))"

definition sync_learned_line :: "env \<Rightarrow> string \<Rightarrow> string \<Rightarrow> hub_state \<times> sync_counters \<Rightarrow> hub_state \<times> sync_counters" where
  "sync_learned_line e body line sc =
     (let (s, cnt) = sc; (ok, s1) = learned_ingest e body s
      in if ok then (s1\<lparr>config_dirty := True\<rparr>, push_fwd K_LINE_MAX (line @ [CHR 0x0A]) (count_update True cnt)) else (s1, cnt))"

definition sync_opt_line :: "env \<Rightarrow> string \<Rightarrow> string \<Rightarrow> hub_state \<times> sync_counters \<Rightarrow> hub_state \<times> sync_counters" where
  "sync_opt_line e body line sc =
     (let (s, cnt) = sc in
      case parse_opt_value body of
        None \<Rightarrow> (s, cnt)
      | Some (flags, ts) \<Rightarrow>
          if opt_accepts e ts flags (opt_flags_ts s) (opt_flags s)
          then (s\<lparr>opt_flags := flags, opt_flags_ts := ts, config_dirty := True\<rparr>,
                push_fwd (length line + 64) (line @ [CHR 0x0A]) (count_update True cnt))
          else (s, cnt))"

definition sync_setting_line :: "env \<Rightarrow> string \<Rightarrow> string \<Rightarrow> hub_state \<times> sync_counters \<Rightarrow> hub_state \<times> sync_counters" where
  "sync_setting_line e body line sc =
     (let (s, cnt) = sc; (r, s1) = gsetting_ingest e body s
      in (s1, if r = Some True then push_fwd HS_LINE_MAX (line @ [CHR 0x0A]) (count_update False cnt) else cnt))"

definition sync_revoke_line :: "env \<Rightarrow> string \<Rightarrow> hub_state \<times> sync_counters \<Rightarrow> hub_state \<times> sync_counters" where
  "sync_revoke_line e body sc =
     (let (s, cnt) = sc in
      case revoke_parse e body of
        None \<Rightarrow> (s, cnt)
      | Some rv \<Rightarrow>
          let (ok, s1) = merge rv s in
          (s1, if ok then (let cnt1 = count_update False cnt in
                           case revoke_find s1 (rv_uuid rv) of
                             Some r \<Rightarrow> push_fwd RV_LINE_MAX (revoke_format r) cnt1
                           | None \<Rightarrow> cnt1)
               else cnt))"

text \<open>A line of a global key; the retired password-era shapes are dropped.\<close>

definition sync_global_line ::
    "env \<Rightarrow> (string \<Rightarrow> string) \<Rightarrow> string \<Rightarrow> string \<Rightarrow> string \<Rightarrow> hub_state \<times> sync_counters \<Rightarrow> hub_state \<times> sync_counters" where
  "sync_global_line e enc key vstart line sc =
     (let (s, cnt) = sc;
          first_f = (case split_once (CHR ''|'') vstart of Some (l, _) \<Rightarrow> if length l < 40 then l else [] | None \<Rightarrow> []);
          new_fmt = has_uuid_dashes first_f;
          user_key = (key = ''a'' \<or> key = ''o'')
      in if new_fmt \<and> user_key then sync_user_record e enc (hd key) vstart sc
         else if new_fmt \<and> key = ''m'' then sync_mask_record e vstart line sc
         else if key = ''p'' \<or> user_key then sc
         else case rsplit_once (CHR ''|'') vstart of
                None \<Rightarrow> sc
              | Some (v, t) \<Rightarrow>
                  if v = [] then sc
                  else let val = trunc_string v 1024; ts = atoll t;
                           (ok, s1) = store_global_entry_raw e key val ts s;
                           fwd = key @ ''|'' @ val @ ''|'' @ show_int ts @ [CHR 0x0A]
                       in (s1, if ok then push_fwd (length fwd + 1200) fwd (count_update True cnt) else cnt))"

definition sync_record ::
    "env \<Rightarrow> (string \<Rightarrow> string) \<Rightarrow> string \<Rightarrow> hub_state \<times> sync_counters \<Rightarrow> (hub_state \<times> sync_counters) outcome" where
  "sync_record e enc line sc =
     (case (strip_prefix ''uf|'' line, strip_prefix ''uc|'' line) of
        (Some body, _) \<Rightarrow> Ret (sync_access_line e (CHR ''f'') body line sc)
      | (None, Some body) \<Rightarrow> Ret (sync_access_line e (CHR ''c'') body line sc)
      | (None, None) \<Rightarrow>
        (case strip_prefix ''K|'' line of Some body \<Rightarrow> Ret (sync_learned_line e body line sc) | None \<Rightarrow>
        (case strip_prefix ''opt|'' line of Some body \<Rightarrow> Ret (sync_opt_line e body line sc) | None \<Rightarrow>
        (case strip_prefix ''hs|'' line of Some body \<Rightarrow> Ret (sync_setting_line e body line sc) | None \<Rightarrow>
        (case strip_prefix ''rv|'' line of Some body \<Rightarrow> Ret (sync_revoke_line e body sc) | None \<Rightarrow>
        (case (strip_prefix ''b|'' line, split_once (CHR ''|'') line) of
           (Some ptr, _) \<Rightarrow> sync_bot_entry e ptr sc
         | (None, None) \<Rightarrow> sync_bot_entry e line sc
         | (None, Some (key, vstart)) \<Rightarrow>
             if length key < 32 \<and> is_global_key key then Ret (sync_global_line e enc key vstart line sc)
             else sync_bot_entry e line sc))))))"

definition sync_line :: "env \<Rightarrow> aead \<Rightarrow> (string \<Rightarrow> string) \<Rightarrow> i32 \<Rightarrow> bool \<Rightarrow> string \<Rightarrow> sync_run \<Rightarrow> sync_run outcome" where
  "sync_line e ae enc origin_fd bcast line r =
     (if line = [] then Ret r
      else if strip_prefix ''PURGE|'' line \<noteq> None then sync_purge_line e line origin_fd bcast r
      else case strip_prefix ''invite|'' line of
             Some body \<Rightarrow> sync_invite_line e ae body r
           | None \<Rightarrow> (case r of (s, net, cnt) \<Rightarrow>
               out_bind (sync_record e enc line (s, cnt)) (\<lambda>(s1, cnt1). Ret (s1, net, cnt1))))"

definition sync_counters_new :: sync_counters where
  "sync_counters_new = \<lparr>sc_updates = 0, sc_bot_push_updates = 0, sc_forward = []\<rparr>"

text \<open>After the lines: left-over access records go, defaults are made, the admin floor is kept.\<close>

definition sync_settle :: "env \<Rightarrow> hub_state \<times> sync_counters \<Rightarrow> (hub_state \<times> sync_counters) outcome" where
  "sync_settle e sc =
     (let (s, cnt) = sc;
          (made, s1) = migrate e (prune s);
          cnt1 = (if made > 0 then count_update True cnt else cnt)
      in if sc_updates cnt1 = 0 then Ret (s1, cnt1)
         else case admin_floor_restore e s1 of
           (None, s2) \<Rightarrow> Ret (s2, cnt1)
         | (Some (flr, _), s2) \<Rightarrow>
             let cnt2 = cnt1\<lparr>sc_bot_push_updates := sc_bot_push_updates cnt1 + 1\<rparr> in
             if flr \<noteq> [] then out_bind (broadcast_sync_to_peers e flr (- 1) s2) (\<lambda>s3. Ret (s3, cnt2)) else Ret (s2, cnt2))"

definition sync_finish :: "env \<Rightarrow> i32 \<Rightarrow> bool \<Rightarrow> hub_state \<times> sync_counters \<Rightarrow> hub_state outcome" where
  "sync_finish e origin_fd bcast sc =
     (let (s, cnt) = sc in
      if sc_updates cnt = 0 then Ret s
      else out_bind (retire_revoked_bots e (s\<lparr>config_dirty := True\<rparr>)) (\<lambda>(_, s1).
           out_bind (if sc_forward cnt \<noteq> [] then sync_forward_to_peers e (sc_forward cnt) origin_fd bcast s1 else Ret s1) (\<lambda>s2.
             Ret (if sc_bot_push_updates cnt > 0 then broadcast_full_config_to_all_bots s2 else s2))))"

definition process_peer_sync ::
    "env \<Rightarrow> aead \<Rightarrow> (string \<Rightarrow> string) \<Rightarrow> string \<Rightarrow> i32 \<Rightarrow> bool \<Rightarrow> hub_state \<times> (nat \<Rightarrow> link_world)
      \<Rightarrow> (hub_state \<times> (nat \<Rightarrow> link_world)) outcome" where
  "process_peer_sync e ae enc payload origin_fd bcast sn =
     out_bind (out_fold (sync_line e ae enc origin_fd bcast) (split_on (CHR 0x0A) (trunc payload MAX_SYNC_PAYLOAD))
                 (fst sn, snd sn, sync_counters_new)) (\<lambda>(s, net, cnt).
     out_bind (sync_settle e (s, cnt)) (\<lambda>sc.
     out_bind (sync_finish e origin_fd bcast sc) (\<lambda>s1. Ret (s1, net))))"

end
