(* ===== verification/Mesh_Safe.thy ===== *)
theory Mesh_Safe
  imports Mesh_Ingest
begin

text \<open>
  What a peer's sync can do to a hub.  The invariant of the whole hub is kept by every kind of line,
  so any payload leaves a consistent hub and never panics; a key is never erased by a record without
  one; and the retired password-era lines change nothing.
\<close>

section \<open>What an operation leaves alone\<close>

definition people :: "hub_state \<Rightarrow> user_record list \<times> mask_record list \<times> uflag_record list \<times> hub_client list" where
  "people s = (user_records s, mask_records s, uflag_records s, clients s)"

lemma people_simps [simp]:
  "people (s\<lparr>global_entries := es\<rparr>) = people s" "people (s\<lparr>global_idx := x\<rparr>) = people s"
  "people (s\<lparr>chan_learned := ls\<rparr>) = people s" "people (s\<lparr>uchan_records := us\<rparr>) = people s"
  "people (s\<lparr>config_dirty := d\<rparr>) = people s" "people (s\<lparr>bot_config_pending := p\<rparr>) = people s"
  "people (s\<lparr>bots := bs\<rparr>) = people s" "people (s\<lparr>revoked := rs\<rparr>) = people s"
  "people (s\<lparr>recent_purges := ps\<rparr>) = people s" "people (s\<lparr>opt_flags := f\<rparr>) = people s" "people (s\<lparr>opt_flags_ts := t\<rparr>) = people s"
  "people (s\<lparr>purge_days_setting := d'\<rparr>) = people s" "people (s\<lparr>purge_days_ts := t'\<rparr>) = people s"
  by (simp_all add: people_def)

text \<open>The global store leaves the bots and the revoke list alone too.\<close>

definition rest :: "hub_state \<Rightarrow> (user_record list \<times> mask_record list \<times> uflag_record list \<times> hub_client list) \<times> bot_config list \<times> revoked_rec list" where
  "rest s = (people s, bots s, revoked s)"

lemma rest_simps [simp]:
  "rest (s\<lparr>global_entries := es\<rparr>) = rest s" "rest (s\<lparr>global_idx := x\<rparr>) = rest s"
  "rest (s\<lparr>chan_learned := ls\<rparr>) = rest s" "rest (s\<lparr>uchan_records := us\<rparr>) = rest s"
  "rest (s\<lparr>config_dirty := d\<rparr>) = rest s" "rest (s\<lparr>bot_config_pending := p\<rparr>) = rest s"
  by (simp_all add: rest_def)

lemma rest_put_record [simp]: "rest (snd (put_record e key value ts s)) = rest s"
  using put_record_frame [of e key "value" ts s] by auto

lemma rest_uchan_put [simp]: "rest (snd (uchan_put e uuid chan active ts s)) = rest s"
  by (cases rule: uchan_put_cases [of e uuid chan active ts s]) (simp_all add: uchan_store_def)

lemma rest_learned_drop [simp]: "rest (learned_drop chan s) = rest s"
  by (simp add: learned_drop_def split: option.split)

lemma rest_cascade [simp]: "rest (snd (snd (chan_cascade_del e chan ts announce s))) = rest s"
proof -
  obtain c out s1 c2 x s2 s3 where
    1: "fold (cascade_record e chan ts announce) [0..<length (global_entries s)] (0, ([], []), learned_drop chan s) = (c, out, s1)"
    and 2: "fold (cascade_bind e ts announce) (map (\<lambda>r. (uc_uuid r, uc_chan r)) (filter (bound_to chan) (uchan_records s1))) (c, out, s1) = (c2, x, s2)"
    and 3: "snd (snd (chan_cascade_del e chan ts announce s)) = s3" "\<exists>d p. s3 = s2\<lparr>config_dirty := d, bot_config_pending := p\<rparr>"
    by (rule cascade_shape)
  have r: "rest (snd (snd (cascade_record e chan ts announce i y))) = rest (snd (snd y))" for i y
  proof -
    obtain c out t c' out' t' where y: "y = (c, out, t)" "cascade_record e chan ts announce i y = (c', out', t')"
      by (cases y; cases "cascade_record e chan ts announce i y")
    then have "t' = t \<or> t' = snd (put_record e (ce_key (global_entries t ! i)) (cascade_tomb (global_entries t ! i)) ts t)"
      by (auto simp: cascade_record_def Let_def split: prod.splits bool.splits if_splits)
    then show ?thesis using y by auto
  qed
  have b: "rest (snd (snd (cascade_bind e ts announce h y))) = rest (snd (snd y))" for h y
    by (cases y; cases h) (simp add: cascade_bind_state)
  have R: "rest (snd (snd (fold (cascade_record e chan ts announce) js y))) = rest (snd (snd y))" for js y
    by (rule fold_invariant [where P = "\<lambda>z. rest (snd (snd z)) = rest (snd (snd y))" and Q = "\<lambda>_. True"]) (simp_all add: r)
  have B: "rest (snd (snd (fold (cascade_bind e ts announce) hs y))) = rest (snd (snd y))" for hs y
    by (rule fold_invariant [where P = "\<lambda>z. rest (snd (snd z)) = rest (snd (snd y))" and Q = "\<lambda>_. True"]) (simp_all add: b)
  from R [of "[0..<length (global_entries s)]" "(0, ([], []), learned_drop chan s)"] have "rest s1 = rest s" unfolding 1 by simp
  moreover from B [of "map (\<lambda>r. (uc_uuid r, uc_chan r)) (filter (bound_to chan) (uchan_records s1))" "(c, out, s1)"]
  have "rest s2 = rest s1" unfolding 2 by simp
  ultimately show ?thesis using 3 by auto
qed

lemma rest_push_entry [simp]: "rest (push_entry en s) = rest s"
  using push_entry_frame [of en s] by auto

lemma rest_note_new [simp]: "rest (global_note_new i s) = rest s"
  by (simp add: global_note_new_alt)

lemma rest_update_global [simp]: "rest (snd (update_global_entry e key value extra op ts s)) = rest s"
  by (simp add: update_global_entry_def Let_def split: option.split)

lemma rest_store_raw [simp]: "rest (snd (store_global_entry_raw e key value ts s)) = rest s"
  by (simp add: store_global_entry_raw_def Let_def split: option.split)

lemma rest_learned_ingest [simp]: "rest (snd (learned_ingest e body s)) = rest s"
  by (simp add: learned_ingest_def learned_put_def Let_def split: option.split)

lemma people_update_global [simp]: "people (snd (update_global_entry e key value extra op ts s)) = people s"
    "revoked (snd (update_global_entry e key value extra op ts s)) = revoked s"
  using rest_update_global [of e key "value" extra op ts s] by (simp_all add: rest_def)

lemma people_merge [simp]: "people (snd (merge r s)) = people s"
  by (simp add: merge_def Let_def split: option.split)

lemma people_from_bot [simp]: "people (snd (from_bot e b s)) = people s"
  by (simp add: from_bot_def split: prod.split)

lemma people_after_put [simp]: "people (after_put e uuid key s) = people s"
  by (simp add: after_put_def Let_def split: option.split)

lemma people_get_or_create: "get_or_create_bot uuid s = (r, s1) \<Longrightarrow> people s1 = people s \<and> revoked s1 = revoked s"
  by (auto simp: get_or_create_bot_def Let_def split: option.splits if_splits)

lemma rv_after_put: "rv_inv s \<Longrightarrow> rv_inv (after_put e uuid key s)"
proof -
  assume inv: "rv_inv s"
  have "rv_inv (t\<lparr>bots := bs\<rparr>) = rv_inv t" "rv_inv (t\<lparr>config_dirty := d\<rparr>) = rv_inv t" for t bs d by (simp_all add: rv_inv_def)
  then show ?thesis using inv
    by (simp add: after_put_def from_bot_def Let_def merge_inv split: option.split prod.split)
qed

lemma people_update_entry:
  assumes "update_entry e uuid key value extra op ts s = Ret (ok, s')"
  shows "people s' = people s" "rv_inv s \<Longrightarrow> rv_inv s'"
proof -
  have inner: "people t = people s \<and> revoked t = revoked s" if "update_entry_inner e uuid key value extra op ts s = Ret (ok', t)" for ok' t
  proof (cases "key = ''c'' \<or> key = ''m'' \<or> key = ''o''")
    case True
    then have "t = s \<or> t = snd (update_global_entry e key value extra op ts s)"
      using that by (auto simp: update_entry_inner_def split: if_splits)
    then show ?thesis by auto
  next
    case False
    then show ?thesis using that people_get_or_create [of uuid s]
      by (auto simp: update_entry_inner_def Let_def split: if_splits prod.splits option.splits)
  qed
  have s': "s' = s \<or> (\<exists>ok' t. update_entry_inner e uuid key value extra op ts s = Ret (ok', t) \<and> (s' = t \<or> s' = after_put e uuid key t))"
    using assms by (cases "update_entry_inner e uuid key value extra op ts s") (auto simp: update_entry_def split: if_splits)
  show "people s' = people s" using s' inner by auto
  have "rv_inv t" if "update_entry_inner e uuid key value extra op ts s = Ret (ok', t)" "rv_inv s" for ok' t
    using inner [OF that(1)] that(2) by (simp add: rv_inv_def)
  then show "rv_inv s \<Longrightarrow> rv_inv s'" using s' rv_after_put by blast
qed

lemma people_gsetting_ingest [simp]: "people (snd (gsetting_ingest e body s)) = people s"
  by (simp add: gsetting_ingest_def gs_put_def Let_def split: option.split prod.split)

section \<open>Channel entries as they arrive\<close>

lemma push_cmo_hub_inv:
  assumes "hub_store_inv s" "cmo_key (ce_key en)" "length (ce_value en) < 1024" "global_room s (ce_key en)"
    and "rec_key en \<notin> rec_key ` set (global_entries s)"
  shows "hub_store_inv (push_entry en s)"
proof -
  have inv: "store_inv s" "uchan_inv s" "learned_inv s" using assms(1) by (simp_all add: hub_store_inv_def)
  have ok: "entry_ok en" "\<not> live_ban en" using cmo_plain [OF assms(2)] assms(3) by (auto simp: entry_ok_def live_ban_def)
  have st: "store_inv (push_entry en s)" using push_entry_inv [OF inv(1) ok(1) assms(4,5)] ok(2) by simp
  have "chan_learned (push_entry en s) = chan_learned s" "uchan_records (push_entry en s) = uchan_records s"
    using push_entry_frame [of en s] by auto
  then show ?thesis using st inv push_chan_live [OF inv(1) st] by (simp add: hub_store_inv_def learned_inv_def uchan_inv_def)
qed

lemma raw_norm_ident:
  assumes "cmo_key key" "gkey key stored = gkey key value" "length value < 1024"
  shows "gkey key (raw_norm key stored value) = gkey key stored" "length (raw_norm key stored value) < 1024"
proof -
  have cl: "find_bar value = Some b \<Longrightarrow> first_field (take (length (first_field stored)) stored @ drop b value) = first_field stored" for b
  proof -
    assume b: "find_bar value = Some b"
    then have "b < length value" "value ! b = CHR ''|''" by (auto simp: find_bar_def dest: position_SomeD)
    then have "drop b value = CHR ''|'' # drop (Suc b) value" by (metis Cons_nth_drop_Suc)
    then show ?thesis
      using first_field_take [of stored] first_field_append [OF first_field_bar_free, of stored "drop (Suc b) value"] by simp
  qed
  show "gkey key (raw_norm key stored value) = gkey key stored"
  proof (cases "raw_norm key stored value = value")
    case False
    then obtain b where "find_bar value = Some b" "raw_norm key stored value = take (length (first_field stored)) stored @ drop b value"
      by (auto simp: raw_norm_def Let_def split: option.splits if_splits)
    then have "first_field (raw_norm key stored value) = first_field stored" using cl by simp
    then show ?thesis by (rule cmo_gkey [OF assms(1)])
  qed (simp add: assms(2))
  show "length (raw_norm key stored value) < 1024"
    using assms(3) length_takeWhile_le [of "\<lambda>c. c \<noteq> CHR ''|''" stored]
    by (auto simp: raw_norm_def Let_def first_field_def split: option.splits)
qed

text \<open>A deleted channel's name is cut for the cascade; a name that long has no learned slot to lose.\<close>

lemma learned_drop_fold: "lower a = lower b \<Longrightarrow> learned_drop a s = learned_drop b s"
  by (simp add: learned_drop_def learned_index_key)

lemma learned_drop_long:
  assumes "\<forall>l \<in> set (chan_learned s). length (cl_chan l) < MAX_CHAN" "MAX_CHAN \<le> length chan"
  shows "learned_drop chan s = s"
proof -
  have "learned_index s chan = None"
    unfolding learned_index_key position_None learned_key_def
  proof
    fix l assume "l \<in> set (chan_learned s)"
    then have "length (lower (cl_chan l)) \<noteq> length (lower chan)" using assms by fastforce
    then show "lower (cl_chan l) \<noteq> lower chan" by metis
  qed
  then show ?thesis by (simp add: learned_drop_def)
qed

lemma store_raw_hub_inv:
  assumes "hub_store_inv s" "cmo_key key \<or> key_is_modes key" "length value < 1024"
  shows "hub_store_inv (snd (store_global_entry_raw e key value ts s))"
proof (cases "key_is_modes key")
  case True
  then show ?thesis using put_record_hub_inv [OF assms(1)] by (simp add: store_global_entry_raw_def)
next
  case False
  then have k: "cmo_key key" "CHR 0x00 \<notin> set key" "length key < 32" using assms(2) cmo_plain by auto
  have inv: "store_inv s" "learned_inv s" using assms(1) by (simp_all add: hub_store_inv_def)
  show ?thesis
  proof (cases "global_find s key value")
    case None
    let ?en = "\<lparr>ce_key = key, ce_value = value, ce_ts = ts, ce_last_used = 0\<rparr>"
    have "snd (store_global_entry_raw e key value ts s) = s \<or>
        (global_room s key \<and> snd (store_global_entry_raw e key value ts s) = push_entry ?en s)"
      using None False k(3) assms(3) by (simp add: store_global_entry_raw_def push_entry_def Let_def)
    moreover have "hub_store_inv (push_entry ?en s)" if "global_room s key"
      using push_cmo_hub_inv [OF assms(1), of ?en] k(1) assms(3) that global_find_None [OF inv(1) None] by simp
    ultimately show ?thesis using assms(1) by auto
  next
    case (Some i)
    let ?g = "global_entries s ! i" let ?n = "raw_norm key (ce_value ?g) value"
    let ?s1 = "s\<lparr>global_entries := (global_entries s)[i := ?g\<lparr>ce_value := ?n, ce_ts := ts\<rparr>]\<rparr>"
    let ?ch = "trunc_string (first_field ?n) MAX_CHAN"
    note F = global_find_Some [OF inv(1) Some k(2)]
    note N = raw_norm_ident [OF k(1) F(3) assms(3)]
    have ck: "cmo_key (ce_key ?g)" "gkey (ce_key ?g) ?n = gkey (ce_key ?g) (ce_value ?g)" using k(1) F(2) N(1) by simp_all
    note U = update_found_inv [OF assms(1) F(1) refl ck N(2) refl, of ts]
    have r: "snd (store_global_entry_raw e key value ts s) \<in>
        {s, if key = ''c'' \<and> \<not> global_value_active ?n then snd (snd (chan_cascade_del e ?ch ts False ?s1)) else ?s1}"
      unfolding store_global_entry_raw_def Let_def Some option.case trunc_string_id [OF N(2)] using False by simp
    have "hub_store_inv (snd (snd (chan_cascade_del e ?ch ts False ?s1)))" if c: "key = ''c''"
    proof (rule cascade_establishes [OF U(1,2)])
      have low: "lower (first_field ?n) = lower (first_field (ce_value ?g))" using N(1) c by (simp add: gkey_chan)
      have d: "learned_inv (learned_drop (first_field ?n) ?s1)"
        using U(4) F(2) c learned_drop_fold [OF low, of ?s1] by simp
      show "learned_inv (learned_drop ?ch ?s1)"
      proof (cases "length (first_field ?n) < MAX_CHAN")
        case True
        then show ?thesis using d by simp
      next
        case False
        have "\<forall>l \<in> set (chan_learned ?s1). length (cl_chan l) < MAX_CHAN" using inv(2) by (simp add: learned_inv_def learned_ok_def)
        then show ?thesis using d learned_drop_long [of ?s1 "first_field ?n"] False learned_drop_inv by simp
      qed
    qed
    moreover have "hub_store_inv ?s1" if "\<not> (key = ''c'' \<and> \<not> global_value_active ?n)"
      using U(1-3) F(2) that by (auto simp: hub_store_inv_def)
    ultimately show ?thesis using r assms(1) by auto
  qed
qed

section \<open>The invariant of a hub in the mesh\<close>

text \<open>
  The queues are well formed, and the counters of unlogged drops leave room for \<^verbatim>\<open>k\<close> more (the crate's
  checked arithmetic would panic when one overflows).
\<close>

definition links_ok :: "nat \<Rightarrow> hub_state \<Rightarrow> bool" where
  "links_ok k s \<longleftrightarrow> (\<forall>c \<in> set (clients s). queue_inv c \<and> max 0 (c_drop_unlogged c) + int k < 2147483647)"

definition mesh_inv :: "nat \<Rightarrow> hub_state \<Rightarrow> bool" where
  "mesh_inv k s \<longleftrightarrow>
     hub_store_inv s \<and> uflag_inv s \<and> bots_inv s \<and> rv_inv s \<and> links_ok k s \<and>
     length (user_records s) \<le> MAX_HUB_USER_RECORDS \<and> length (mask_records s) \<le> MAX_HUB_USER_MASKS"

lemma links_ok_mono: "links_ok k s \<Longrightarrow> j \<le> k \<Longrightarrow> links_ok j s"
  by (force simp: links_ok_def)

lemma mesh_inv_mono: "mesh_inv k s \<Longrightarrow> j \<le> k \<Longrightarrow> mesh_inv j s"
  using links_ok_mono by (auto simp: mesh_inv_def)

lemma links_clients_ok: "links_ok k s \<Longrightarrow> clients_ok s"
  by (fastforce simp: links_ok_def clients_ok_def queue_ok_def)

lemma mesh_inv_people:
  assumes "mesh_inv k s" "people s' = people s" "hub_store_inv s'" "bots_inv s'" "rv_inv s'"
  shows "mesh_inv k s'"
  using assms by (simp add: mesh_inv_def people_def uflag_inv_def links_ok_def)

text \<open>The other half of the state: what the user and access records do not touch.\<close>

definition store_part :: "hub_state \<Rightarrow> config_entry list \<times> global_idx_rec \<times> chan_learned_rec list \<times> bot_config list \<times> revoked_rec list \<times> hub_client list" where
  "store_part s = (global_entries s, global_idx s, chan_learned s, bots s, revoked s, clients s)"

lemma store_part_simps [simp]:
  "store_part (s\<lparr>user_records := us\<rparr>) = store_part s" "store_part (s\<lparr>mask_records := ms\<rparr>) = store_part s"
  "store_part (s\<lparr>uflag_records := fs\<rparr>) = store_part s" "store_part (s\<lparr>uchan_records := cs\<rparr>) = store_part s"
  "store_part (s\<lparr>config_dirty := d\<rparr>) = store_part s" "store_part (s\<lparr>floor_warned := w\<rparr>) = store_part s"
  "store_part (s\<lparr>adrop := a\<rparr>) = store_part s" "store_part (s\<lparr>adrop_next := n\<rparr>) = store_part s"
  by (simp_all add: store_part_def)

lemma mesh_inv_store:
  assumes "mesh_inv k s" "store_part s' = store_part s" "uchan_inv s'" "uflag_inv s'"
    and "length (user_records s') \<le> MAX_HUB_USER_RECORDS" "length (mask_records s') \<le> MAX_HUB_USER_MASKS"
  shows "mesh_inv k s'"
proof -
  have st: "global_entries s' = global_entries s" "global_idx s' = global_idx s" "chan_learned s' = chan_learned s"
      "bots s' = bots s" "revoked s' = revoked s" "clients s' = clients s"
    using assms(2) by (simp_all add: store_part_def)
  have "store_inv s' = store_inv s" by (rule store_inv_cong [OF st(1,2)])
  moreover have "chan_live s' c = chan_live s c" for c by (rule chan_live_frame [OF st(1,2)])
  ultimately have "hub_store_inv s'" using assms(1,3) st(3) by (simp add: mesh_inv_def hub_store_inv_def learned_inv_def)
  then show ?thesis using assms st by (simp add: mesh_inv_def bots_inv_def rv_inv_def links_ok_def)
qed

lemma uflag_put_frame [simp]:
  "store_part (snd (uflag_put e uuid flags ts s)) = store_part s" "mask_records (snd (uflag_put e uuid flags ts s)) = mask_records s"
  by (cases rule: uflag_put_cases [of e uuid flags ts s]; simp add: uflag_store_def Let_def)+

lemma uchan_put_frame [simp]:
  "store_part (snd (uchan_put e uuid chan a ts s)) = store_part s" "user_records (snd (uchan_put e uuid chan a ts s)) = user_records s"
  "mask_records (snd (uchan_put e uuid chan a ts s)) = mask_records s" "uflag_records (snd (uchan_put e uuid chan a ts s)) = uflag_records s"
  by (cases rule: uchan_put_cases [of e uuid chan a ts s]; simp add: uchan_store_def)+

lemma mesh_uflag_put: "mesh_inv k s \<Longrightarrow> mesh_inv k (snd (uflag_put e uuid flags ts s))"
  by (rule mesh_inv_store) (auto simp: mesh_inv_def hub_store_inv_def uchan_inv_def intro: uflag_put_inv)

lemma mesh_uchan_put: "mesh_inv k s \<Longrightarrow> mesh_inv k (snd (uchan_put e uuid chan a ts s))"
  by (rule mesh_inv_store) (auto simp: mesh_inv_def hub_store_inv_def uflag_inv_def intro: uchan_put_inv)

section \<open>A user adopting another uuid\<close>

lemma distinct_map_fresh: "distinct (map f xs) \<Longrightarrow> f y \<notin> f ` set xs \<Longrightarrow> distinct (map f (xs[i := y]))"
  by (simp add: map_update distinct_list_update)

lemma remap_uflag_inv:
  assumes "uflag_inv s" "uuid_shape new" "i < length (uflag_records s)"
  shows "uflag_inv (remap_uflag e old new i s)" "length (uflag_records (remap_uflag e old new i s)) = length (uflag_records s)"
proof -
  let ?r = "uflag_records s ! i"
  have ok: "uflag_ok ?r" using assms(1,3) by (simp add: uflag_inv_def)
  show "length (uflag_records (remap_uflag e old new i s)) = length (uflag_records s)"
    by (simp add: remap_uflag_def Let_def split: option.split)
  show "uflag_inv (remap_uflag e old new i s)"
  proof (cases "uflag_find s new")
    case None
    then have "distinct (map uf_uuid ((uflag_records s)[i := ?r\<lparr>uf_uuid := new\<rparr>]))"
      using assms(1) by (intro distinct_map_fresh) (auto simp: uflag_inv_def uflag_find_def position_None)
    then show ?thesis using None assms ok set_update_subset_insert [of "uflag_records s" i "?r\<lparr>uf_uuid := new\<rparr>"]
      by (auto simp: remap_uflag_def Let_def uflag_inv_def uflag_ok_def)
  next
    case (Some d)
    let ?d = "(uflag_records s ! d)\<lparr>uf_flags := uf_flags ?r, uf_ts := uf_ts ?r\<rparr>"
    have d: "d < length (uflag_records s)" using Some by (auto simp: uflag_find_def dest: position_SomeD)
    then have dok: "uflag_ok ?d" using assms(1) ok nth_mem [OF d] by (auto simp: uflag_inv_def uflag_ok_def)
    have "distinct (map uf_uuid ((uflag_records s)[d := ?d]))" using assms(1) by (intro distinct_map_update) (simp_all add: uflag_inv_def)
    then show ?thesis using Some assms(1) dok set_update_subset_insert [of "uflag_records s" d ?d]
      by (auto simp: remap_uflag_def Let_def uflag_inv_def)
  qed
qed

lemma remap_uchan_inv:
  assumes "uchan_inv s" "uuid_shape new" "i < length (uchan_records s)"
  shows "uchan_inv (remap_uchan e old new i s)" "length (uchan_records (remap_uchan e old new i s)) = length (uchan_records s)"
proof -
  let ?r = "uchan_records s ! i"
  have ok: "uchan_ok ?r" using assms(1,3) by (simp add: uchan_inv_def)
  show "length (uchan_records (remap_uchan e old new i s)) = length (uchan_records s)"
    by (simp add: remap_uchan_def Let_def split: option.split)
  show "uchan_inv (remap_uchan e old new i s)"
  proof (cases "uchan_find s new (uc_chan ?r)")
    case None
    then have "distinct (map uchan_key ((uchan_records s)[i := ?r\<lparr>uc_uuid := new\<rparr>]))"
      using assms(1) by (intro distinct_map_fresh) (auto simp: uchan_inv_def uchan_find_key position_None uchan_key_def)
    then show ?thesis using None assms ok set_update_subset_insert [of "uchan_records s" i "?r\<lparr>uc_uuid := new\<rparr>"]
      by (auto simp: remap_uchan_def Let_def uchan_inv_def uchan_ok_def)
  next
    case (Some d)
    let ?d = "(uchan_records s ! d)\<lparr>uc_active := uc_active ?r, uc_ts := uc_ts ?r\<rparr>"
    have d: "d < length (uchan_records s)" using Some by (auto simp: uchan_find_def dest: position_SomeD)
    then have dok: "uchan_ok ?d" using assms(1) ok nth_mem [OF d] by (auto simp: uchan_inv_def uchan_ok_def)
    have "distinct (map uchan_key ((uchan_records s)[d := ?d]))"
      using assms(1) by (intro distinct_map_update) (simp_all add: uchan_inv_def uchan_key_def)
    then show ?thesis using Some assms(1) dok set_update_subset_insert [of "uchan_records s" d ?d]
      by (auto simp: remap_uchan_def Let_def uchan_inv_def)
  qed
qed

lemma remap_frame [simp]:
  "store_part (remap_uflag e old new i s) = store_part s" "user_records (remap_uflag e old new i s) = user_records s"
  "mask_records (remap_uflag e old new i s) = mask_records s" "uchan_records (remap_uflag e old new i s) = uchan_records s"
  "store_part (remap_uchan e old new i s) = store_part s" "user_records (remap_uchan e old new i s) = user_records s"
  "mask_records (remap_uchan e old new i s) = mask_records s" "uflag_records (remap_uchan e old new i s) = uflag_records s"
  by (simp_all add: remap_uflag_def remap_uchan_def Let_def split: option.split)

definition same_users :: "hub_state \<Rightarrow> hub_state \<Rightarrow> bool" where
  "same_users s s' \<longleftrightarrow> store_part s' = store_part s \<and> user_records s' = user_records s \<and> mask_records s' = mask_records s"

lemma remap_uuid_inv:
  assumes "uflag_inv s" "uchan_inv s" "uuid_shape new"
  shows "uflag_inv (remap_uuid e old new s)" "uchan_inv (remap_uuid e old new s)" "same_users s (remap_uuid e old new s)"
proof -
  let ?n = "length (uflag_records s)" let ?m = "length (uchan_records s)"
  let ?P = "\<lambda>t. uflag_inv t \<and> length (uflag_records t) = ?n \<and> uchan_records t = uchan_records s \<and> same_users s t"
  define t where "t = fold (remap_uflag e old new) [0..<?n] s"
  have "?P t" unfolding t_def
    by (rule fold_invariant [where P = ?P and Q = "\<lambda>i. i < ?n"])
      (use assms remap_uflag_inv in \<open>auto simp: same_users_def\<close>)
  then have t: "uflag_inv t" "uchan_records t = uchan_records s" "same_users s t" by simp_all
  let ?Q = "\<lambda>u. uchan_inv u \<and> length (uchan_records u) = ?m \<and> uflag_inv u \<and> same_users s u"
  have "uchan_inv t" using assms(2) t(2) by (simp add: uchan_inv_def)
  then have "?Q (fold (remap_uchan e old new) [0..<?m] t)"
    by (intro fold_invariant [where P = ?Q and Q = "\<lambda>i. i < ?m"])
      (use t assms(3) remap_uchan_inv in \<open>auto simp: same_users_def uflag_inv_def\<close>)
  moreover have "remap_uuid e old new s = fold (remap_uchan e old new) [0..<?m] t" by (simp add: remap_uuid_def t_def Let_def t(2) [unfolded t_def])
  ultimately show "uflag_inv (remap_uuid e old new s)" "uchan_inv (remap_uuid e old new s)" "same_users s (remap_uuid e old new s)" by simp_all
qed

lemma is_uuid_shape: "is_uuid u \<Longrightarrow> uuid_shape u"
proof -
  assume u: "is_uuid u"
  have "if i \<in> {8, 13, 18, 23} then u ! i = CHR ''-'' else is_hexdigit (u ! i)" if "i < 36" for i
  proof -
    have "(i, u ! i) \<in> set (List.enumerate 0 u)" using u that by (simp add: is_uuid_def in_set_enumerate_eq)
    then show ?thesis using u unfolding is_uuid_def by blast
  qed
  then show ?thesis using u by (simp add: uuid_shape_def is_uuid_def)
qed

section \<open>Every record line keeps the invariant\<close>

lemma mesh_users:
  assumes "mesh_inv k s" "store_part s' = store_part s" "uchan_records s' = uchan_records s" "uflag_records s' = uflag_records s"
    and "length (user_records s') \<le> MAX_HUB_USER_RECORDS" "length (mask_records s') \<le> MAX_HUB_USER_MASKS"
  shows "mesh_inv k s'"
  by (rule mesh_inv_store [OF assms(1,2)]) (use assms in \<open>auto simp: mesh_inv_def hub_store_inv_def uchan_inv_def uflag_inv_def\<close>)

lemma mesh_adopt:
  assumes "mesh_inv k s" "is_uuid new"
  shows "mesh_inv k (adopt_uuid e ni new s)"
proof -
  let ?old = "u_uuid (user_records s ! ni)" let ?r = "remap_uuid e ?old new s"
  have "uflag_inv s" "uchan_inv s" using assms(1) by (simp_all add: mesh_inv_def hub_store_inv_def)
  note R = remap_uuid_inv [OF this is_uuid_shape [OF assms(2)], of e ?old]
  show ?thesis
    by (rule mesh_inv_store [OF assms(1)])
      (use R assms(1) in \<open>auto simp: adopt_uuid_def Let_def same_users_def uflag_inv_def uchan_inv_def mesh_inv_def\<close>)
qed

lemma parse_user_uuid: "parse_user_record e enc data typ = Some inc \<Longrightarrow> is_uuid (u_uuid inc)"
  by (auto simp: parse_user_record_def Let_def split: if_splits)

lemma mesh_user_slot:
  assumes "mesh_inv k s" "is_uuid (u_uuid inc)" "user_slot e key inc s = (r, s')"
  shows "mesh_inv k s'"
proof -
  let ?new = "\<lambda>u. s\<lparr>user_records := user_records s @ [u]\<rparr>"
  have "s' = s \<or> (\<exists>ni. s' = adopt_uuid e ni (u_uuid inc) s) \<or> (\<exists>u. s' = ?new u \<and> length (user_records s) < MAX_HUB_USER_RECORDS)"
    using assms(3) by (auto simp: user_slot_def Let_def split: option.splits if_splits)
  moreover have "mesh_inv k (?new u)" if "length (user_records s) < MAX_HUB_USER_RECORDS" for u
    by (rule mesh_users [OF assms(1)]) (use that assms(1) in \<open>auto simp: mesh_inv_def\<close>)
  ultimately show ?thesis using assms(1,2) mesh_adopt by auto
qed

lemma mesh_raise: "mesh_inv k s \<Longrightarrow> sl = Slot_User i \<or> sl = Slot_Mask i \<Longrightarrow> mesh_inv k (snd (raise e sl ts s))"
proof -
  assume inv: "mesh_inv k s" and sl: "sl = Slot_User i \<or> sl = Slot_Mask i"
  have "mesh_inv k (s\<lparr>user_records := (user_records s)[i := u], config_dirty := True\<rparr>)" for u
    by (rule mesh_users [OF inv]) (use inv in \<open>simp_all add: mesh_inv_def\<close>)
  moreover have "mesh_inv k (s\<lparr>mask_records := (mask_records s)[i := m], config_dirty := True\<rparr>)" for m
    by (rule mesh_users [OF inv]) (use inv in \<open>simp_all add: mesh_inv_def\<close>)
  ultimately show ?thesis using inv sl by (auto simp: raise_def Let_def)
qed

lemma mesh_user_line: "mesh_inv k s \<Longrightarrow> mesh_inv k (fst (sync_user_record e enc key vstart (s, cnt)))"
proof (cases "parse_user_record e enc vstart key")
  case (Some inc)
  assume inv: "mesh_inv k s"
  obtain r s1 where sl: "user_slot e key inc s = (r, s1)" by (cases "user_slot e key inc s")
  have s1: "mesh_inv k s1" by (rule mesh_user_slot [OF inv parse_user_uuid [OF Some] sl])
  have w: "mesh_inv k (s1\<lparr>user_records := (user_records s1)[ui := u], config_dirty := True\<rparr>)" for ui u
    by (rule mesh_users [OF s1]) (use s1 in \<open>auto simp: mesh_inv_def\<close>)
  show ?thesis
  proof (cases r)
    case None
    then show ?thesis using Some sl s1 by (simp add: sync_user_record_def)
  next
    case R: (Some ui)
    show ?thesis using Some sl R w mesh_raise [OF s1, of "Slot_User ui" ui e "u_last_seen inc"]
      by (simp add: sync_user_record_def Let_def)
  qed
qed (simp add: sync_user_record_def)

lemma mesh_mask_line: "mesh_inv k s \<Longrightarrow> mesh_inv k (fst (sync_mask_record e vstart line (s, cnt)))"
proof -
  assume inv: "mesh_inv k s"
  let ?add = "\<lambda>m. s\<lparr>mask_records := mask_records s @ [m]\<rparr>"
  have a: "mesh_inv k (?add m)" if "length (mask_records s) < MAX_HUB_USER_MASKS" for m
    by (rule mesh_users [OF inv]) (use that inv in \<open>auto simp: mesh_inv_def\<close>)
  have w: "mesh_inv k (t\<lparr>mask_records := (mask_records t)[i := m], config_dirty := True\<rparr>)" if "mesh_inv k t" for t i m
    by (rule mesh_users [OF that]) (use that in \<open>auto simp: mesh_inv_def\<close>)
  have "\<exists>t i. mesh_inv k t \<and> (fst (sync_mask_record e vstart line (s, cnt)) = s \<or>
      (\<exists>u. fst (sync_mask_record e vstart line (s, cnt)) = snd (raise e (Slot_Mask i) u t)) \<or>
      (\<exists>m. fst (sync_mask_record e vstart line (s, cnt)) = t\<lparr>mask_records := (mask_records t)[i := m], config_dirty := True\<rparr>))"
  proof (cases "position (\<lambda>m. m_uuid m = trunc_string (split_fields vstart 5 ! 0) 37 \<and>
      eq_ic (m_mask m) (trunc_string (split_fields vstart 5 ! 1) MAX_MASK_LEN)) (mask_records s)")
    case (Some i)
    then show ?thesis using inv by (intro exI [of _ s] exI [of _ i]) (auto simp: sync_mask_record_def Let_def)
  next
    case None
    let ?m = "\<lparr>m_uuid = trunc_string (split_fields vstart 5 ! 0) 37, m_mask = trunc_string (split_fields vstart 5 ! 1) MAX_MASK_LEN,
      m_is_active = False, m_last_used = 0, m_ts = 0\<rparr>"
    show ?thesis
    proof (cases "length (mask_records s) < MAX_HUB_USER_MASKS")
      case True
      then show ?thesis using None a [OF True, of ?m]
        by (intro exI [of _ "?add ?m"] exI [of _ "length (mask_records s)"]) (auto simp: sync_mask_record_def Let_def)
    next
      case False
      then show ?thesis using None inv by (intro exI [of _ s]) (simp add: sync_mask_record_def Let_def)
    qed
  qed
  then show ?thesis using inv w mesh_raise by metis
qed

lemma mesh_access_line: "mesh_inv k s \<Longrightarrow> mesh_inv k (fst (sync_access_line e kind body line (s, cnt)))"
proof -
  assume inv: "mesh_inv k s"
  have "mesh_inv k (snd (ingest e kind body True s))"
    using inv mesh_uflag_put [OF inv] mesh_uchan_put [OF inv] by (auto simp: ingest_def Let_def split_beta)
  then show ?thesis by (simp add: sync_access_line_def Let_def split_beta)
qed

text \<open>The lines of the global store and of the smaller tables.\<close>

lemma trunc_string_less: "0 < cap \<Longrightarrow> length (trunc_string v cap) < cap"
  using trunc_length [of v cap] by (simp add: trunc_string_def)

lemma mesh_rest: "mesh_inv k s \<Longrightarrow> rest s' = rest s \<Longrightarrow> hub_store_inv s' \<Longrightarrow> mesh_inv k s'"
  by (rule mesh_inv_people) (simp_all add: rest_def mesh_inv_def bots_inv_def rv_inv_def)

lemma mesh_dirty [simp]: "mesh_inv k (s\<lparr>config_dirty := d\<rparr>) = mesh_inv k s"
proof -
  have "hub_store_inv (s\<lparr>config_dirty := d\<rparr>) = hub_store_inv s" by (rule hub_store_inv_frame) simp_all
  then show ?thesis by (simp add: mesh_inv_def uflag_inv_def bots_inv_def rv_inv_def links_ok_def)
qed

lemma mesh_store_raw:
  assumes "mesh_inv k s" "cmo_key key \<or> key_is_modes key" "length value < 1024"
  shows "mesh_inv k (snd (store_global_entry_raw e key value ts s))"
  using assms mesh_rest [OF assms(1)] store_raw_hub_inv by (simp add: mesh_inv_def)

lemma mesh_global_line:
  assumes "mesh_inv k s" "is_global_key key"
  shows "mesh_inv k (fst (sync_global_line e enc key vstart line (s, cnt)))"
proof -
  have st: "mesh_inv k (snd (store_global_entry_raw e key (trunc_string v 1024) ts s))"
    if "\<not> (key = ''p'' \<or> key = ''a'' \<or> key = ''o'')" for v ts
  proof (rule mesh_store_raw [OF assms(1)])
    show "cmo_key key \<or> key_is_modes key" using that assms(2) unfolding is_global_key_def cmo_key_def key_is_modes_def by auto
    show "length (trunc_string v 1024) < 1024" by (rule trunc_string_less) simp
  qed
  show ?thesis
    using assms mesh_user_line mesh_mask_line st
    by (simp add: sync_global_line_def Let_def split_beta split: option.split)
qed

lemma mesh_learned_line: "mesh_inv k s \<Longrightarrow> mesh_inv k (fst (sync_learned_line e body line (s, cnt)))"
proof -
  assume inv: "mesh_inv k s"
  have "mesh_inv k (snd (learned_ingest e body s))"
    using inv learned_ingest_hub_inv by (intro mesh_rest [OF inv]) (simp_all add: mesh_inv_def)
  then show ?thesis by (simp add: sync_learned_line_def split_beta Let_def)
qed

lemma mesh_opt_line: "mesh_inv k s \<Longrightarrow> mesh_inv k (fst (sync_opt_line e body line (s, cnt)))"
proof -
  assume inv: "mesh_inv k s"
  have "hub_store_inv (s\<lparr>opt_flags := f, opt_flags_ts := t\<rparr>) = hub_store_inv s" for f t by (rule hub_store_inv_frame) simp_all
  then have "mesh_inv k (s\<lparr>opt_flags := f, opt_flags_ts := t\<rparr>)" for f t
    using inv by (simp add: mesh_inv_def uflag_inv_def bots_inv_def rv_inv_def links_ok_def)
  then show ?thesis using inv by (auto simp: sync_opt_line_def split: option.split)
qed

lemma mesh_setting_line: "mesh_inv k s \<Longrightarrow> mesh_inv k (fst (sync_setting_line e body line (s, cnt)))"
proof -
  assume inv: "mesh_inv k s"
  have "hub_store_inv (s\<lparr>purge_days_setting := f, purge_days_ts := t\<rparr>) = hub_store_inv s" for f t by (rule hub_store_inv_frame) simp_all
  then have "mesh_inv k (s\<lparr>purge_days_setting := f, purge_days_ts := t\<rparr>)" for f t
    using inv by (simp add: mesh_inv_def uflag_inv_def bots_inv_def rv_inv_def links_ok_def)
  then have "mesh_inv k (snd (gsetting_ingest e body s))"
    using inv by (auto simp: gsetting_ingest_def gs_put_def Let_def split: option.split prod.split)
  then show ?thesis by (simp add: sync_setting_line_def split_beta Let_def)
qed

lemma mesh_revoke_line: "mesh_inv k s \<Longrightarrow> mesh_inv k (fst (sync_revoke_line e body (s, cnt)))"
proof -
  assume inv: "mesh_inv k s"
  have "hub_store_inv (snd (merge r s)) = hub_store_inv s" for r
    by (rule hub_store_inv_frame) (simp_all add: merge_def Let_def split: option.split)
  moreover have "bots (snd (merge r s)) = bots s" for r by (simp add: merge_def Let_def split: option.split)
  ultimately have "mesh_inv k (snd (merge r s))" for r
    using inv by (intro mesh_inv_people [OF inv]) (simp_all add: mesh_inv_def bots_inv_def merge_inv)
  then show ?thesis using inv by (simp add: sync_revoke_line_def split_beta Let_def split: option.split)
qed

text \<open>A record of a bot.  The composer cuts a channel name longer than 72 bytes, so those are left out.\<close>

definition bot_line_fits :: "string \<Rightarrow> bool" where
  "bot_line_fits ptr \<longleftrightarrow>
     (case parse_bot_line ptr of
        Bot_Value uuid key val ts \<Rightarrow> key = ''c'' \<longrightarrow> length (first_field (fst (bot_parts key val))) < MAX_CHAN + 8
      | _ \<Rightarrow> True)"

lemma parse_bot_uuid:
  assumes "parse_bot_line ptr = Bot_Stamp uuid key ts \<or> parse_bot_line ptr = Bot_Value uuid key val ts"
  shows "length uuid < 64"
  using assms trunc_string_less [of 64] by (auto simp: parse_bot_line_def Let_def split: option.splits prod.splits if_splits)

lemma bot_parts_short:
  assumes "length val < 1024"
  shows "length (first_field (fst (bot_parts key val))) < 1024"
proof -
  have t: "length (trunc_string l 512) < 1024" for l using trunc_string_less [of 512 l] by simp
  have "length (fst (bot_parts key val)) < 1024"
    using t assms by (auto simp: bot_parts_def Let_def split: option.split prod.split)
  then show ?thesis unfolding first_field_def by (rule le_less_trans [OF length_takeWhile_le])
qed

lemma mesh_update_entry:
  assumes "mesh_inv k s" "length uuid < 64" "cmo_key key \<longrightarrow> global_name_ok key value"
  shows "\<exists>ok s'. update_entry e uuid key value extra op ts s = Ret (ok, s') \<and> mesh_inv k s'"
proof -
  have inv: "bots_inv s" "hub_store_inv s" "rv_inv s" using assms(1) by (simp_all add: mesh_inv_def)
  obtain ok s' where u: "update_entry e uuid key value extra op ts s = Ret (ok, s')" "bots_inv s'"
    using update_entry_inv [OF inv(1) assms(2)] by blast
  moreover have "mesh_inv k s'"
    using mesh_inv_people [OF assms(1)] people_update_entry [OF u(1)] update_entry_store_inv [OF inv(2) assms(3) u(1)] u(2) inv(3) by blast
  ultimately show ?thesis by blast
qed

lemma mesh_bot_line:
  assumes "mesh_inv k s" "bot_line_fits ptr"
  shows "\<exists>s' cnt'. sync_bot_entry e ptr (s, cnt) = Ret (s', cnt') \<and> mesh_inv k s'"
proof (cases "parse_bot_line ptr")
  case Bot_Bad
  then show ?thesis using assms(1) by (simp add: sync_bot_entry_def)
next
  case (Bot_Stamp uuid key ts)
  have "key = ''seen'' \<or> key = ''t''"
    using Bot_Stamp by (auto simp: parse_bot_line_def Let_def split: option.splits prod.splits if_splits)
  then have "cmo_key key \<longrightarrow> global_name_ok key []" by (auto simp: cmo_key_def)
  from mesh_update_entry [OF assms(1) parse_bot_uuid this] Bot_Stamp
  obtain ok s' where "update_entry e uuid key [] [] [] ts s = Ret (ok, s')" "mesh_inv k s'" by blast
  then show ?thesis using Bot_Stamp by (simp add: sync_bot_entry_def Let_def)
next
  case (Bot_Value uuid key val ts)
  obtain v ex op where p: "bot_parts key val = (v, ex, op)" by (cases "bot_parts key val")
  have "length val < 1024"
    using Bot_Value trunc_string_less [of 1024] by (auto simp: parse_bot_line_def Let_def split: option.splits prod.splits if_splits)
  then have "cmo_key key \<longrightarrow> global_name_ok key v"
    using assms(2) Bot_Value bot_parts_short [of val key] p by (auto simp: bot_line_fits_def global_name_ok_def)
  from mesh_update_entry [OF assms(1) parse_bot_uuid this] Bot_Value
  obtain ok s' where "update_entry e uuid key v ex op ts s = Ret (ok, s')" "mesh_inv k s'" by blast
  then show ?thesis using Bot_Value p by (simp add: sync_bot_entry_def Let_def)
qed

definition line_fits :: "string \<Rightarrow> bool" where
  "line_fits line \<longleftrightarrow>
     strip_prefix ''invite|'' line = None \<and> bot_line_fits (case strip_prefix ''b|'' line of Some ptr \<Rightarrow> ptr | None \<Rightarrow> line)"

text \<open>The run of a line returns, in a consistent hub.\<close>

definition runs_ok :: "nat \<Rightarrow> (hub_state \<times> sync_counters) outcome \<Rightarrow> bool" where
  "runs_ok k r \<longleftrightarrow> (\<exists>s' cnt'. r = Ret (s', cnt') \<and> mesh_inv k s')"

lemma runs_ok_Ret [simp]: "runs_ok k (Ret x) = mesh_inv k (fst x)"
  by (cases x) (auto simp: runs_ok_def)

lemma mesh_record:
  assumes "mesh_inv k s" "line_fits line"
  shows "runs_ok k (sync_record e enc line (s, cnt))"
proof -
  note L = assms(1) mesh_access_line [OF assms(1)] mesh_learned_line [OF assms(1)] mesh_opt_line [OF assms(1)]
    mesh_setting_line [OF assms(1)] mesh_revoke_line [OF assms(1)] mesh_global_line [OF assms(1)]
  have b: "runs_ok k (sync_bot_entry e (case strip_prefix ''b|'' line of Some ptr \<Rightarrow> ptr | None \<Rightarrow> line) (s, cnt))"
    using mesh_bot_line [OF assms(1)] assms(2) unfolding line_fits_def runs_ok_def by blast
  show ?thesis
  proof (cases "strip_prefix ''b|'' line")
    case None
    with b have "runs_ok k (sync_bot_entry e line (s, cnt))" by simp
    then show ?thesis unfolding sync_record_def None using L by (simp split: option.split prod.split)
  next
    case (Some ptr)
    with b have "runs_ok k (sync_bot_entry e ptr (s, cnt))" by simp
    then show ?thesis unfolding sync_record_def Some using L by (simp split: option.split prod.split)
  qed
qed

section \<open>Purges and the fan-out spend drop counts\<close>

definition link_step :: "hub_client \<Rightarrow> hub_client \<Rightarrow> bool" where
  "link_step c c' \<longleftrightarrow> (queue_inv c \<longrightarrow> queue_inv c') \<and> max 0 (c_drop_unlogged c') \<le> max 0 (c_drop_unlogged c) + 1"

lemma link_step_refl [simp]: "link_step c c"
  by (simp add: link_step_def)

lemma queued_link_step: "queued_after m c c' \<Longrightarrow> link_step c c'"
  by (auto simp: queued_after_def link_step_def)

lemma links_step:
  assumes "links_ok (Suc k) s" "length cs = length (clients s)" "\<forall>i < length (clients s). link_step (clients s ! i) (cs ! i)"
    "clients s' = cs"
  shows "links_ok k s'"
  unfolding links_ok_def assms(4)
proof
  fix c assume "c \<in> set cs"
  then obtain i where i: "i < length (clients s)" "c = cs ! i" using assms(2) by (metis in_set_conv_nth)
  then have "link_step (clients s ! i) c" "clients s ! i \<in> set (clients s)" using assms(3) by simp_all
  then show "queue_inv c \<and> max 0 (c_drop_unlogged c) + int k < 2147483647"
    using assms(1) by (fastforce simp: links_ok_def link_step_def)
qed

lemma mesh_step:
  assumes "mesh_inv (Suc k) s" "length cs = length (clients s)" "\<forall>i < length (clients s). link_step (clients s ! i) (cs ! i)"
  shows "mesh_inv k (s\<lparr>clients := cs\<rparr>)"
proof -
  have "hub_store_inv (s\<lparr>clients := cs\<rparr>) = hub_store_inv s" by (rule hub_store_inv_frame) simp_all
  moreover have "links_ok k (s\<lparr>clients := cs\<rparr>)" using links_step [OF _ assms(2,3)] assms(1) by (simp add: mesh_inv_def)
  ultimately show ?thesis using assms(1) by (simp add: mesh_inv_def uflag_inv_def bots_inv_def rv_inv_def)
qed

lemma mesh_send:
  assumes "mesh_inv (Suc k) s"
  shows "\<exists>s'. sync_send_to_peers e payload fd split ln co s = Ret s' \<and> mesh_inv k s'"
proof (cases "length payload \<le> MAX_SYNC_PAYLOAD - 10")
  case True
  have "clients_ok s" using assms links_clients_ok by (auto simp: mesh_inv_def)
  from sync_fanout [OF this True, of e fd split ln co]
  obtain cs where cs: "sync_send_to_peers e payload fd split ln co s = Ret (s\<lparr>clients := cs\<rparr>)" "length cs = length (clients s)"
      "\<forall>ci < length (clients s). if sync_target e s fd split ci then sync_effect s ln payload co ci (clients s ! ci) (cs ! ci)
         else cs ! ci = clients s ! ci" by blast
  have "link_step (clients s ! i) (cs ! i)" if "i < length (clients s)" for i
  proof -
    have "cs ! i = clients s ! i \<or> cs ! i = (clients s ! i)\<lparr>c_sync_held := True\<rparr> \<or> (\<exists>m. queued_after m (clients s ! i) (cs ! i))"
      using cs(3) that unfolding sync_effect_def by metis
    then show ?thesis using queued_link_step by (auto simp: link_step_def queue_inv_def)
  qed
  then show ?thesis using cs(1) mesh_step [OF assms cs(2)] by auto
next
  case False
  then show ?thesis using assms mesh_inv_mono by (auto simp: sync_send_to_peers_def)
qed

lemma mesh_purge:
  assumes "mesh_inv (Suc k) s" "in_i64 cutoff"
  shows "\<exists>n tn s'. execute_purge e cutoff s = Ret (n, tn, s') \<and> mesh_inv k s'"
proof -
  have inv: "hub_store_inv s" "uflag_inv s" "bots_inv s" "clients_ok s" "rv_inv s"
      and caps: "length (user_records s) \<le> MAX_HUB_USER_RECORDS" "length (mask_records s) \<le> MAX_HUB_USER_MASKS"
    using assms(1) links_clients_ok by (auto simp: mesh_inv_def)
  from execute_purge_run [OF inv(1-4) assms(2) caps, of e]
  obtain n tn s' where x: "execute_purge e cutoff s = Ret (n, tn, s')" and pk: "purge_keeps cutoff s s'" "hub_store_inv s'" "uflag_inv s'" "bots_inv s'"
      and cl: "length (clients s') = length (clients s)"
        "\<forall>ci < length (clients s). if is_bot (clients s ! ci) then queued_after (purge_frame_msg cutoff) (clients s ! ci) (clients s' ! ci)
           else clients s' ! ci = clients s ! ci" by blast
  have "\<forall>i < length (clients s). link_step (clients s ! i) (clients s' ! i)" using cl(2) queued_link_step link_step_refl by metis
  then have "links_ok k s'" using links_step [OF _ cl(1)] assms(1) by (auto simp: mesh_inv_def)
  moreover have "rv_inv s'" using inv(5) pk(1) by (simp add: rv_inv_def purge_keeps_def)
  moreover have "length (user_records s') \<le> MAX_HUB_USER_RECORDS" "length (mask_records s') \<le> MAX_HUB_USER_MASKS"
    using pk(1) caps le_trans [OF length_filter_le caps(1)] le_trans [OF length_filter_le caps(2)] unfolding purge_keeps_def by (elim conjE; simp)+
  ultimately show ?thesis using x pk by (auto simp: mesh_inv_def)
qed

section \<open>The end of a sync\<close>

lemma mesh_prune: "mesh_inv k s \<Longrightarrow> mesh_inv k (prune s)"
proof -
  assume inv: "mesh_inv k s"
  then have i: "uflag_inv s" "uchan_inv s" by (simp_all add: mesh_inv_def hub_store_inv_def)
  have "store_part (prune s) = store_part s" "user_records (prune s) = user_records s" "mask_records (prune s) = mask_records s"
    by (simp_all add: prune_def Let_def)
  then show ?thesis
    using inv uflag_filter_inv [OF i(1) prune_records(1) [OF i]] filter_inv [OF i(2) prune_records(2) [OF i]]
    by (intro mesh_inv_store [OF inv]) (simp_all add: mesh_inv_def)
qed

lemma mesh_migrate: "mesh_inv k s \<Longrightarrow> mesh_inv k (snd (migrate e s))"
proof -
  assume inv: "mesh_inv k s"
  have "mesh_inv k (snd (migrate_user e ut ms))" if "mesh_inv k (snd ms)" for ut ms
    using that mesh_uflag_put [OF that] mesh_uchan_put [OF that] by (simp add: migrate_user_def split_beta Let_def)
  then have "mesh_inv k (snd (fold (migrate_user e) us (0, s)))" for us
    by (intro fold_invariant [where P = "\<lambda>z. mesh_inv k (snd z)" and Q = "\<lambda>_. True"]) (simp_all add: inv)
  then show ?thesis by (simp add: migrate_def)
qed

lemma mesh_restore_user: "mesh_inv k s \<Longrightarrow> mesh_inv k (snd (restore_user ci s))"
proof -
  assume inv: "mesh_inv k s"
  have "mesh_inv k (s\<lparr>user_records := (user_records s)[ci := u], mask_records := map f (mask_records s)\<rparr>)" for u f
    by (rule mesh_users [OF inv]) (use inv in \<open>simp_all add: mesh_inv_def\<close>)
  then show ?thesis using inv by (simp add: restore_user_def restore_masks_def Let_def)
qed

lemma mesh_restore_flag: "mesh_inv k s \<Longrightarrow> mesh_inv k (snd (restore_flag e uuid s))"
  using mesh_uflag_put by (simp add: restore_flag_def Let_def split_beta split: option.split)

lemma mesh_floor: "mesh_inv k s \<Longrightarrow> mesh_inv k (snd (admin_floor_restore e s))"
proof -
  assume inv: "mesh_inv k s"
  have fw: "mesh_inv k (t\<lparr>floor_warned := w\<rparr>)" if "mesh_inv k t" for t w
    by (rule mesh_users [OF that]) (use that in \<open>simp_all add: mesh_inv_def\<close>)
  have "mesh_inv k (snd (snd (restore_one e newest ct es)))" if "mesh_inv k (snd (snd es))" for newest ct es
    using that mesh_restore_flag mesh_restore_user by (simp add: restore_one_def split_beta Let_def)
  then have "mesh_inv k (snd (snd (fold (restore_one e newest) cand (0, [], s))))" for newest cand
    by (intro fold_invariant [where P = "\<lambda>z. mesh_inv k (snd (snd z))" and Q = "\<lambda>_. True"]) (simp_all add: inv)
  then show ?thesis using fw inv by (simp add: admin_floor_restore_def split_beta Let_def split: option.split)
qed

lemma mesh_settle:
  assumes "mesh_inv (Suc k) s"
  shows "runs_ok k (sync_settle e (s, cnt))"
proof -
  obtain made s1 where m: "migrate e (prune s) = (made, s1)" by (cases "migrate e (prune s)")
  have s1: "mesh_inv (Suc k) s1" using mesh_migrate [OF mesh_prune [OF assms], of e] m by simp
  obtain r s2 where f: "admin_floor_restore e s1 = (r, s2)" by (cases "admin_floor_restore e s1")
  have s2: "mesh_inv (Suc k) s2" using mesh_floor [OF s1, of e] f by simp
  have b: "\<exists>s3. broadcast_sync_to_peers e flr (- 1) s2 = Ret s3 \<and> mesh_inv k s3" for flr
    unfolding broadcast_sync_to_peers_def by (rule mesh_send [OF s2])
  have d: "mesh_inv k s1" "mesh_inv k s2" using s1 s2 mesh_inv_mono by auto
  have "runs_ok k (out_bind (broadcast_sync_to_peers e flr (- 1) s2) (\<lambda>s3. Ret (s3, c)))" for flr c
    using b [of flr] by auto
  then show ?thesis using d by (simp add: sync_settle_def m f Let_def split: option.split)
qed

lemma drop_rows_frame: "\<exists>r d. drop_revoked_rows i s = s\<lparr>roster := r, tree_dirty := d\<rparr>"
proof (induction i s rule: drop_revoked_rows.induct)
  case (1 i s)
  show ?case
  proof (cases "i < length (roster s)")
    case False
    then show ?thesis by (subst drop_revoked_rows.simps) (intro exI [of _ "roster s"] exI [of _ "tree_dirty s"], simp)
  next
    case True
    then show ?thesis using 1 by (subst drop_revoked_rows.simps) fastforce
  qed
qed

lemma mesh_rows: "mesh_inv k s \<Longrightarrow> mesh_inv k (drop_revoked_rows i s)"
proof -
  assume inv: "mesh_inv k s"
  obtain r d where d: "drop_revoked_rows i s = s\<lparr>roster := r, tree_dirty := d\<rparr>" using drop_rows_frame by blast
  have "hub_store_inv (s\<lparr>roster := r, tree_dirty := d\<rparr>) = hub_store_inv s" by (rule hub_store_inv_frame) simp_all
  then show ?thesis using inv d by (simp add: mesh_inv_def uflag_inv_def bots_inv_def rv_inv_def links_ok_def)
qed

text \<open>What happens to the connection of a revoked bot, and to the others.\<close>

definition to_retire :: "hub_state \<Rightarrow> hub_client \<Rightarrow> bool" where
  "to_retire s c \<longleftrightarrow> c_typ c = Ct_Bot \<and> c_authenticated c \<and> \<not> c_retiring c \<and> is_revoked s (c_id c)"

definition retire_msg :: queued_msg where
  "retire_msg = \<lparr>qm_cmd = CMD_BOT_RETIRE, qm_lane = Urgent, qm_coalesce_key = [], qm_lamport_seq = 0, qm_origin = [], qm_payload = []\<rparr>"

text \<open>The connection that is told: marked, the message in its urgent lane, and every other field as it was.\<close>

definition retire_effect :: "env \<Rightarrow> hub_client \<Rightarrow> hub_client \<Rightarrow> bool" where
  "retire_effect e c c' \<longleftrightarrow>
     (if enqueue_refuses retire_msg c then c' = c
      else c' = c\<lparr>c_retiring := True, c_retire_sent := env_now e, c_write_wait_since := c_write_wait_since c',
                  c_out_lanes := c_out_lanes c', c_out_total_bytes := c_out_total_bytes c'\<rparr> \<and> queue_inv c' \<and> c_drop_unlogged c' \<le> max 0 (c_drop_unlogged c + 1) \<and>
           queued c' = (queued c)[0 := lane_put (lane_full 0 retire_msg c) retire_msg (queued c ! 0)])"

definition retire_count :: "hub_state \<Rightarrow> hub_client \<Rightarrow> nat" where
  "retire_count s c = (if to_retire s c \<and> \<not> enqueue_refuses retire_msg c then 1 else 0)"

lemma retire_link_step: "retire_effect e c c' \<Longrightarrow> link_step c c'"
  by (simp add: retire_effect_def link_step_def split: if_splits) linarith

lemma enqueue_retire:
  assumes "\<not> enqueue_refuses retire_msg c"
  shows "enqueue e retire_msg c = Ret (True, push_back e (lane_index Urgent) retire_msg c)"
  using assms by (simp add: enqueue_def enqueue_refuses_def retire_msg_def Let_def)

lemma push_back_frame:
  "c' = push_back e li m c \<Longrightarrow> c' = c\<lparr>c_write_wait_since := c_write_wait_since c', c_out_lanes := c_out_lanes c', c_out_total_bytes := c_out_total_bytes c'\<rparr>"
  by (simp add: push_back_def Let_def)

lemma retire_one_step:
  assumes "queue_ok (clients s ! i)"
  shows "\<exists>c'. retire_one e i (n, s) = Ret (n + retire_count s (clients s ! i), put_client i c' s) \<and>
    (if to_retire s (clients s ! i) then retire_effect e (clients s ! i) c' else c' = clients s ! i)"
proof -
  let ?c = "clients s ! i"
  have id: "put_client i ?c s = s" by (simp add: put_client_def)
  have m: "queued_msg_new CMD_BOT_RETIRE Urgent [] = Some retire_msg" by (simp add: queued_msg_new_def retire_msg_def store_caps)
  obtain c' where c': "enqueue e retire_msg ?c = Ret (\<not> enqueue_refuses retire_msg ?c, c')" "queue_inv c'"
      "enqueue_refuses retire_msg ?c \<Longrightarrow> c' = ?c"
      "\<not> enqueue_refuses retire_msg ?c \<Longrightarrow> queued c' = (queued ?c)[0 := lane_put (lane_full 0 retire_msg ?c) retire_msg (queued ?c ! 0)]"
    using assms enqueue_spec [of ?c "lane_index (qm_lane retire_msg)" retire_msg e] unfolding queue_ok_def
    by (auto simp: retire_msg_def lane_index_def)
  have q: "queue_inv (c'\<lparr>c_retiring := True, c_retire_sent := env_now e\<rparr>)" using c'(2) by (simp add: queue_inv_def)
  consider "\<not> to_retire s ?c" | "to_retire s ?c" "enqueue_refuses retire_msg ?c" | "to_retire s ?c" "\<not> enqueue_refuses retire_msg ?c" by blast
  then show ?thesis
  proof cases
    case 1
    then show ?thesis using id by (intro exI [of _ ?c]) (auto simp: retire_one_def to_retire_def retire_count_def Let_def)
  next
    case 2
    then show ?thesis using c' id m
      by (intro exI [of _ ?c]) (auto simp: retire_one_def to_retire_def retire_count_def retire_effect_def Let_def)
  next
    case 3
    let ?c' = "c'\<lparr>c_retiring := True, c_retire_sent := env_now e\<rparr>"
    have "c' = push_back e (lane_index Urgent) retire_msg ?c" using c'(1) enqueue_retire [OF 3(2), of e] by simp
    from push_back_frame [OF this]
    have fr: "?c' = ?c\<lparr>c_retiring := True, c_retire_sent := env_now e, c_write_wait_since := c_write_wait_since ?c',
        c_out_lanes := c_out_lanes ?c', c_out_total_bytes := c_out_total_bytes ?c'\<rparr>"
      by (cases c'; cases "clients s ! i") simp
    have "retire_effect e ?c ?c'"
      unfolding retire_effect_def using 3(2) fr q enqueue_drop_count [OF c'(1)] c'(4) by simp
    then show ?thesis using c' m 3
      by (intro exI [of _ ?c']) (auto simp: retire_one_def to_retire_def retire_count_def Let_def)
  qed
qed

lemma retire_sweep:
  assumes "distinct js" "set js \<subseteq> {..<length (clients s)}" "\<forall>j \<in> set js. queue_ok (clients s ! j)"
  shows "\<exists>cs. out_fold (retire_one e) js (n, s) = Ret (n + sum_list (map (\<lambda>j. retire_count s (clients s ! j)) js), s\<lparr>clients := cs\<rparr>) \<and>
    length cs = length (clients s) \<and>
    (\<forall>i < length (clients s). if i \<in> set js \<and> to_retire s (clients s ! i) then retire_effect e (clients s ! i) (cs ! i) else cs ! i = clients s ! i)"
  using assms
proof (induction js arbitrary: n s)
  case Nil
  then show ?case by (intro exI [of _ "clients s"]) simp
next
  case (Cons j js)
  let ?n = "n + retire_count s (clients s ! j)"
  obtain c' where j: "retire_one e j (n, s) = Ret (?n, put_client j c' s)"
      "if to_retire s (clients s ! j) then retire_effect e (clients s ! j) c' else c' = clients s ! j"
    using retire_one_step [of s j e n] Cons.prems(3) by auto
  let ?s = "put_client j c' s"
  have tr: "to_retire ?s = to_retire s" "retire_count ?s = retire_count s"
    by (simp_all add: fun_eq_iff to_retire_def retire_count_def put_client_def is_revoked_def revoke_find_def)
  have nth: "clients ?s ! i = clients s ! i" if "i \<noteq> j" for i using that by (simp add: put_client_def)
  have js: "i \<in> set js \<Longrightarrow> i \<noteq> j" for i using Cons.prems(1) by auto
  have q: "\<forall>i \<in> set js. queue_ok (clients ?s ! i)" using Cons.prems(3) js nth by simp
  obtain cs where cs: "out_fold (retire_one e) js (?n, ?s) =
        Ret (?n + sum_list (map (\<lambda>i. retire_count ?s (clients ?s ! i)) js), ?s\<lparr>clients := cs\<rparr>)" "length cs = length (clients s)"
      "\<forall>i < length (clients s). if i \<in> set js \<and> to_retire ?s (clients ?s ! i) then retire_effect e (clients ?s ! i) (cs ! i) else cs ! i = clients ?s ! i"
    using Cons.IH [of ?s ?n] Cons.prems(1,2) q by (auto simp: put_client_def)
  have m: "map (\<lambda>i. retire_count ?s (clients ?s ! i)) js = map (\<lambda>i. retire_count s (clients s ! i)) js" using js nth tr by simp
  have "if i \<in> set (j # js) \<and> to_retire s (clients s ! i) then retire_effect e (clients s ! i) (cs ! i) else cs ! i = clients s ! i"
    if i: "i < length (clients s)" for i
  proof (cases "i = j")
    case True
    then have "cs ! i = clients ?s ! j" using cs(3) [rule_format, OF i] Cons.prems(1) by simp
    then have "cs ! i = c'" using True i by (simp add: put_client_def)
    then show ?thesis using True j(2) by simp
  next
    case False
    then show ?thesis using cs(3) [rule_format, OF i, unfolded nth [OF False] tr(1)] by simp
  qed
  then show ?case using j(1) cs(1,2) unfolding m by (intro exI [of _ cs]) (simp add: put_client_def)
qed

lemma retire_run:
  assumes "clients_ok s"
  shows "\<exists>cs. retire_revoked_bots e s = Ret (sum_list (map (retire_count s) (clients s)), drop_revoked_rows 0 (s\<lparr>clients := cs\<rparr>)) \<and>
    length cs = length (clients s) \<and>
    (\<forall>i < length (clients s). if to_retire s (clients s ! i) then retire_effect e (clients s ! i) (cs ! i) else cs ! i = clients s ! i)"
proof -
  let ?js = "[0..<length (clients s)]"
  have m: "map (\<lambda>j. retire_count s (clients s ! j)) ?js = map (retire_count s) (clients s)" by (rule nth_equalityI) simp_all
  have "distinct ?js" "set ?js \<subseteq> {..<length (clients s)}" "\<forall>j \<in> set ?js. queue_ok (clients s ! j)"
    using assms by (auto simp: clients_ok_def)
  note retire_sweep [OF this, of e 0]
  then obtain cs where "out_fold (retire_one e) ?js (0, s) = Ret (0 + sum_list (map (\<lambda>j. retire_count s (clients s ! j)) ?js), s\<lparr>clients := cs\<rparr>)"
      "length cs = length (clients s)"
      "\<forall>i < length (clients s). if i \<in> set ?js \<and> to_retire s (clients s ! i) then retire_effect e (clients s ! i) (cs ! i) else cs ! i = clients s ! i"
    by blast
  then show ?thesis unfolding m by (intro exI [of _ cs]) (simp add: retire_revoked_bots_def)
qed

lemma mesh_retire:
  assumes "mesh_inv (Suc k) s"
  shows "\<exists>n s'. retire_revoked_bots e s = Ret (n, s') \<and> mesh_inv k s'"
proof -
  have "clients_ok s" using assms links_clients_ok by (auto simp: mesh_inv_def)
  from retire_run [OF this, of e]
  obtain n cs where cs: "retire_revoked_bots e s = Ret (n, drop_revoked_rows 0 (s\<lparr>clients := cs\<rparr>))" "length cs = length (clients s)"
      "\<forall>i < length (clients s). link_step (clients s ! i) (cs ! i)" using retire_link_step link_step_refl by metis
  then show ?thesis using mesh_rows [OF mesh_step [OF assms cs(2,3)]] by auto
qed

lemma mesh_finish:
  assumes "mesh_inv (Suc (Suc k)) s"
  shows "\<exists>s'. sync_finish e origin_fd bcast (s, cnt) = Ret s' \<and> mesh_inv k s'"
proof -
  obtain n s1 where r: "retire_revoked_bots e (s\<lparr>config_dirty := True\<rparr>) = Ret (n, s1)" "mesh_inv (Suc k) s1"
    using mesh_retire [of "Suc k" "s\<lparr>config_dirty := True\<rparr>" e] assms by auto
  obtain s2 where f: "(if sc_forward cnt \<noteq> [] then sync_forward_to_peers e (sc_forward cnt) origin_fd bcast s1 else Ret s1) = Ret s2" "mesh_inv k s2"
    using mesh_send [OF r(2), of e "sc_forward cnt" origin_fd bcast "sync_lane (sc_forward cnt)" None] mesh_inv_mono [OF r(2), of k]
    by (cases "sc_forward cnt = []") (auto simp: sync_forward_to_peers_def)
  have "hub_store_inv (s2\<lparr>bot_config_pending := True\<rparr>) = hub_store_inv s2" by (rule hub_store_inv_frame) simp_all
  then have p: "mesh_inv k (broadcast_full_config_to_all_bots s2)"
    using f(2) by (simp add: broadcast_full_config_to_all_bots_def mesh_inv_def uflag_inv_def bots_inv_def rv_inv_def links_ok_def)
  show ?thesis using assms p f r(1) mesh_inv_mono [OF assms, of k] by (auto simp: sync_finish_def)
qed

section \<open>The whole sync\<close>

lemma mesh_record_purge: "mesh_inv k s \<Longrightarrow> mesh_inv k (record_recent_purge e cutoff pid s)"
proof -
  assume inv: "mesh_inv k s"
  obtain ps where p: "record_recent_purge e cutoff pid s = s\<lparr>recent_purges := ps\<rparr>"
    by (simp add: record_recent_purge_def split_beta)
  have "hub_store_inv (s\<lparr>recent_purges := ps\<rparr>) = hub_store_inv s" by (rule hub_store_inv_frame) simp_all
  then show ?thesis using inv p by (simp add: mesh_inv_def uflag_inv_def bots_inv_def rv_inv_def links_ok_def)
qed

lemma parse_purge_cutoff: "parse_purge_line line = Some (cutoff, pid) \<Longrightarrow> in_i64 cutoff"
proof -
  assume h: "parse_purge_line line = Some (cutoff, pid)"
  then obtain p where "cutoff = fst (strtoll p)"
    by (auto simp: parse_purge_line_def Let_def split_beta split: option.splits list.splits if_splits)
  then show ?thesis using strtoll_range by simp
qed

lemma mesh_purge_line:
  assumes "mesh_inv (Suc (Suc k)) s"
  shows "\<exists>s' cnt'. sync_purge_line e line origin_fd bcast (s, net, cnt) = Ret (s', net, cnt') \<and> mesh_inv k s'"
proof (cases "parse_purge_line line")
  case (Some cp)
  obtain cutoff pid where cp: "cp = (cutoff, pid)" by (cases cp)
  have m: "mesh_inv (Suc k) t \<Longrightarrow> mesh_inv k t" for t using mesh_inv_mono [of "Suc k" t k] by simp
  obtain n tn s1 where x: "execute_purge e cutoff (record_recent_purge e cutoff pid s) = Ret (n, tn, s1)" "mesh_inv (Suc k) s1"
    using mesh_purge [OF mesh_record_purge [OF assms] parse_purge_cutoff] Some cp by blast
  obtain s2 where f: "sync_forward_to_peers e line origin_fd bcast s1 = Ret s2" "mesh_inv k s2"
    using mesh_send [OF x(2)] unfolding sync_forward_to_peers_def by blast
  show ?thesis using Some cp x f m mesh_inv_mono [OF assms, of k] by (simp add: sync_purge_line_def Let_def)
qed (use mesh_inv_mono [OF assms, of k] in \<open>simp add: sync_purge_line_def\<close>)

lemma mesh_sync_line:
  assumes "mesh_inv (Suc (Suc k)) s" "line_fits line"
  shows "\<exists>s' cnt'. sync_line e ae enc origin_fd bcast line (s, net, cnt) = Ret (s', net, cnt') \<and> mesh_inv k s'"
proof -
  have k: "mesh_inv k s" using mesh_inv_mono [OF assms(1), of k] by simp
  obtain s' cnt' where r: "sync_record e enc line (s, cnt) = Ret (s', cnt')" "mesh_inv k s'"
    using mesh_record [OF k assms(2)] unfolding runs_ok_def by blast
  have i: "strip_prefix ''invite|'' line = None" using assms(2) by (simp add: line_fits_def)
  show ?thesis using k r mesh_purge_line [OF assms(1), of e line origin_fd bcast net cnt]
    unfolding sync_line_def i by simp
qed

lemma mesh_sync_lines:
  assumes "mesh_inv (2 * length ls + k) s" "\<forall>l \<in> set ls. line_fits l"
  shows "\<exists>s' cnt'. out_fold (sync_line e ae enc origin_fd bcast) ls (s, net, cnt) = Ret (s', net, cnt') \<and> mesh_inv k s'"
  using assms
proof (induction ls arbitrary: s cnt)
  case (Cons l ls)
  have "mesh_inv (Suc (Suc (2 * length ls + k))) s" using Cons.prems(1) by simp
  then obtain s1 cnt1 where "sync_line e ae enc origin_fd bcast l (s, net, cnt) = Ret (s1, net, cnt1)" "mesh_inv (2 * length ls + k) s1"
    using mesh_sync_line [of "2 * length ls + k" s l e ae enc origin_fd bcast net cnt] Cons.prems(2) by auto
  then show ?case using Cons.IH [of s1 cnt1] Cons.prems(2) by simp
qed simp

lemma length_split_on: "length (split_on c s) \<le> Suc (length s)"
  by (induction c s rule: split_on.induct) (auto split: list.split)

text \<open>
  Property C5.  Whatever records and purges a peer hub sends, in any mix, order and number and well
  formed or not, the ingest of its sync ends without a panic and leaves a consistent hub: the store
  and its index, the access tables, the bots, the revoke list and every outbound queue keep their
  invariants and caps, and the sockets of the bots are not touched.  Left out are the pass-through
  invites and bot lines that name a channel of more than 72 bytes.
\<close>

theorem process_peer_sync_safe:
  assumes "mesh_inv (2 * length payload + 5 + k) s"
    and "\<forall>l \<in> set (split_on (CHR 0x0A) (trunc payload MAX_SYNC_PAYLOAD)). line_fits l"
  shows "\<exists>s'. process_peer_sync e ae enc payload origin_fd bcast (s, net) = Ret (s', net) \<and> mesh_inv k s'"
proof -
  let ?ls = "split_on (CHR 0x0A) (trunc payload MAX_SYNC_PAYLOAD)"
  have "length (trunc payload MAX_SYNC_PAYLOAD) \<le> length payload" using trunc_take by (metis length_take min.cobounded1)
  then have "2 * length ?ls + Suc (Suc (Suc k)) \<le> 2 * length payload + 5 + k"
    using length_split_on [of "CHR 0x0A" "trunc payload MAX_SYNC_PAYLOAD"] by linarith
  from mesh_sync_lines [OF mesh_inv_mono [OF assms(1) this] assms(2)]
  obtain s1 cnt1 where 1: "out_fold (sync_line e ae enc origin_fd bcast) ?ls (s, net, sync_counters_new) = Ret (s1, net, cnt1)"
      "mesh_inv (Suc (Suc (Suc k))) s1" by blast
  obtain s2 cnt2 where 2: "sync_settle e (s1, cnt1) = Ret (s2, cnt2)" "mesh_inv (Suc (Suc k)) s2"
    using mesh_settle [OF 1(2)] unfolding runs_ok_def by blast
  obtain s3 where "sync_finish e origin_fd bcast (s2, cnt2) = Ret s3" "mesh_inv k s3" using mesh_finish [OF 2(2)] by blast
  then show ?thesis using 1(1) 2(1) by (simp add: process_peer_sync_def)
qed



lemma mesh_inv_example: "mesh_inv 1000 example_tomb"
proof -
  let ?s = example_tomb
  have "hub_store_inv ?s" using hub_store_inv_new hub_store_inv_frame [of ?s hub_state_new] by (simp add: example_tomb_def)
  moreover have "uflag_inv ?s" "bots_inv ?s" "rv_inv ?s"
    by (simp_all add: example_tomb_def uflag_inv_def bots_inv_def rv_inv_def hub_state_new_def)
  moreover have "links_ok 1000 ?s"
    using queue_ok_example_peer [of 10] queue_inv_cong [of "(example_peer 10)\<lparr>c_typ := Ct_Bot\<rparr>" "example_peer 10"]
    by (simp add: links_ok_def example_tomb_def queue_ok_def example_peer_def client_new_def)
  moreover have "length (user_records ?s) \<le> MAX_HUB_USER_RECORDS" "length (mask_records ?s) \<le> MAX_HUB_USER_MASKS"
    by (simp_all add: example_tomb_def hub_state_new_def store_caps)
  ultimately show ?thesis by (simp add: mesh_inv_def)
qed

theorem process_peer_sync_safe_witness:
  "\<exists>s'. process_peer_sync (env_at 1000) toy_aead (\<lambda>x. x) (''PURGE|500'' @ [CHR 0x0A] @ ''hs|purge_days|30|900'') 7 True (example_tomb, \<lambda>_. example_world) = Ret (s', \<lambda>_. example_world) \<and>
     mesh_inv 0 s'"
proof (rule process_peer_sync_safe)
  let ?p = "''PURGE|500'' @ [CHR 0x0A] @ ''hs|purge_days|30|900''"
  show "mesh_inv (2 * length ?p + 5 + 0) example_tomb" using mesh_inv_mono [OF mesh_inv_example] by simp
  have "trunc ?p MAX_SYNC_PAYLOAD = ?p" by (simp add: trunc_def store_caps)
  moreover have "split_on (CHR 0x0A) ?p = [''PURGE|500'', ''hs|purge_days|30|900'']" by code_simp
  moreover have "bot_line_fits ''PURGE|500''" "bot_line_fits ''hs|purge_days|30|900''" by code_simp+
  ultimately show "\<forall>l \<in> set (split_on (CHR 0x0A) (trunc ?p MAX_SYNC_PAYLOAD)). line_fits l"
    by (simp add: line_fits_def strip_prefix_def)
qed

end
