(* ===== verification/Mesh_Effects.thy ===== *)
theory Mesh_Effects
  imports Mesh_Safe
begin

text \<open>
  What single lines of a peer's sync do: a key is never erased by a record without one, the retired
  password-era lines change nothing, a purge is taken once, and revoked bots are sent away.
\<close>

section \<open>Keys\<close>

lemma adopt_users:
  assumes "ni < length (user_records s)"
  shows "user_records (adopt_uuid e ni new s) = (user_records s)[ni := (user_records s ! ni)\<lparr>u_uuid := new\<rparr>]"
proof -
  let ?old = "u_uuid (user_records s ! ni)"
  have f: "user_records (fold (remap_uflag e a b) is t) = user_records t" for a b "is" t
    by (rule fold_invariant [where P = "\<lambda>z. user_records z = user_records t" and Q = "\<lambda>_. True"]) simp_all
  have c: "user_records (fold (remap_uchan e a b) is t) = user_records t" for a b "is" t
    by (rule fold_invariant [where P = "\<lambda>z. user_records z = user_records t" and Q = "\<lambda>_. True"]) simp_all
  have "user_records (remap_uuid e ?old new s) = user_records s" by (simp add: remap_uuid_def Let_def f c)
  then show ?thesis by (simp add: adopt_uuid_def Let_def)
qed

text \<open>The key of a record after a step: kept, or replaced by the key the line carries.\<close>

definition key_kept :: "user_record option \<Rightarrow> user_record \<Rightarrow> user_record \<Rightarrow> bool" where
  "key_kept inc u u' \<longleftrightarrow>
     (u_has_pubkey u \<longrightarrow> u_has_pubkey u') \<and>
     ((u_has_pubkey u' = u_has_pubkey u \<and> u_pubkey_b64 u' = u_pubkey_b64 u) \<or>
      (\<exists>i. inc = Some i \<and> u_has_pubkey i \<and> u_pubkey_b64 u' = u_pubkey_b64 i))"

lemma key_kept_refl [simp]: "key_kept inc u u"
  by (simp add: key_kept_def)

lemma user_slot_keys:
  assumes "user_slot e key inc s = (r, s1)" "i < length (user_records s)"
  shows "i < length (user_records s1) \<and> u_has_pubkey (user_records s1 ! i) = u_has_pubkey (user_records s ! i) \<and>
    u_pubkey_b64 (user_records s1 ! i) = u_pubkey_b64 (user_records s ! i)"
proof -
  have "s1 = s \<or> (\<exists>ni. ni < length (user_records s) \<and> s1 = adopt_uuid e ni (u_uuid inc) s) \<or>
      (\<exists>u. s1 = s\<lparr>user_records := user_records s @ [u]\<rparr>)"
    using assms(1) by (auto simp: user_slot_def Let_def dest!: position_SomeD sym [of "Some _" "position _ _"] split: option.splits if_splits)
  then show ?thesis using assms(2) by (auto simp: adopt_users nth_list_update nth_append split: if_splits)
qed

text \<open>
  Property C12.  A user record that arrives from a peer never takes a key away: every user of the hub
  keeps its place, a user that has a key still has one, and a key changes only to the key the line
  itself carries and the parser has checked.  A key-less record, as an old hub or a broken console
  sends, changes no key.
\<close>

theorem sync_user_key_kept:
  assumes "i < length (user_records s)" "sync_user_record e enc key vstart (s, cnt) = (s', cnt')"
  shows "i < length (user_records s') \<and> key_kept (parse_user_record e enc vstart key) (user_records s ! i) (user_records s' ! i)"
proof (cases "parse_user_record e enc vstart key")
  case (Some inc)
  obtain r s1 where sl: "user_slot e key inc s = (r, s1)" by (cases "user_slot e key inc s")
  note K = user_slot_keys [OF sl assms(1)]
  show ?thesis
  proof (cases r)
    case None
    then show ?thesis using assms(2) Some sl K by (auto simp: sync_user_record_def key_kept_def)
  next
    case R: (Some ui)
    let ?w = "user_written key inc (user_records s1 ! ui)"
    have w: "key_kept (Some inc) (user_records s1 ! ui) ?w" by (auto simp: user_written_def key_kept_def Let_def)
    have "user_records s' = user_records s1 \<or> user_records s' = (user_records s1)[ui := ?w] \<or>
        (\<exists>t. user_records s' = (user_records s1)[ui := (user_records s1 ! ui)\<lparr>u_last_seen := t\<rparr>])"
      using assms(2) Some sl R by (auto simp: sync_user_record_def raise_def Let_def split: if_splits)
    then have "i < length (user_records s') \<and> key_kept (Some inc) (user_records s1 ! i) (user_records s' ! i)"
    proof (elim disjE exE)
      assume "user_records s' = (user_records s1)[ui := ?w]"
      then show ?thesis using K w by (cases "i = ui") simp_all
    next
      fix t assume "user_records s' = (user_records s1)[ui := (user_records s1 ! ui)\<lparr>u_last_seen := t\<rparr>]"
      then show ?thesis using K by (cases "i = ui") (simp_all add: key_kept_def)
    qed (use K in simp)
    then show ?thesis using K Some by (auto simp: key_kept_def)
  qed
qed (use assms in \<open>simp add: sync_user_record_def\<close>)

definition example_keyed :: hub_state where
  "example_keyed = hub_state_new\<lparr>user_records := [example_admin\<lparr>u_has_pubkey := True, u_pubkey_b64 := ''key''\<rparr>]\<rparr>"

theorem sync_user_key_kept_witness:
  "u_has_pubkey (user_records (fst (sync_user_record (env_at 1000) (\<lambda>x. x) (CHR ''a'')
      (example_uuid (CHR ''1'') @ ''|root||add|0|900|'') (example_keyed, sync_counters_new))) ! 0)"
proof -
  let ?v = "example_uuid (CHR ''1'') @ ''|root||add|0|900|''"
  obtain s' cnt' where r: "sync_user_record (env_at 1000) (\<lambda>x. x) (CHR ''a'') ?v (example_keyed, sync_counters_new) = (s', cnt')"
    by fastforce
  have "0 < length (user_records example_keyed)" "u_has_pubkey (user_records example_keyed ! 0)" by (simp_all add: example_keyed_def)
  then show ?thesis using sync_user_key_kept [OF _ r, of 0] r by (simp add: key_kept_def)
qed

section \<open>Retired lines\<close>

text \<open>
  The password-era lines are dropped: a \<^verbatim>\<open>p|\<close> line, and an \<^verbatim>\<open>a|\<close> or \<^verbatim>\<open>o|\<close> line whose
  first field is not a uuid, change neither the hub nor what is forwarded, whatever follows.
\<close>

theorem password_lines_dropped:
  assumes "key = ''p'' \<or> ((key = ''a'' \<or> key = ''o'') \<and> \<not> has_uuid_dashes (first_field vstart))"
  shows "sync_line e ae enc origin_fd bcast (key @ ''|'' @ vstart) r = Ret r"
proof -
  obtain s net cnt where r: "r = (s, net, cnt)" by (cases r)
  have so: "split_once (CHR ''|'') (key @ ''|'' @ vstart) = Some (key, vstart)" using assms by (auto simp: split_once_Some)
  let ?l = "key @ ''|'' @ vstart"
  have sp: "strip_prefix ''PURGE|'' ?l = None" "strip_prefix ''invite|'' ?l = None" "strip_prefix ''uf|'' ?l = None"
      "strip_prefix ''uc|'' ?l = None" "strip_prefix ''K|'' ?l = None" "strip_prefix ''opt|'' ?l = None"
      "strip_prefix ''hs|'' ?l = None" "strip_prefix ''rv|'' ?l = None" "strip_prefix ''b|'' ?l = None"
    using assms by (auto simp: strip_prefix_def)
  have first: "\<not> has_uuid_dashes (case split_once (CHR ''|'') vstart of Some (l, _) \<Rightarrow> if length l < 40 then l else [] | None \<Rightarrow> [])"
    if "\<not> has_uuid_dashes (first_field vstart)"
  proof (cases "split_once (CHR ''|'') vstart")
    case None
    then show ?thesis by (simp add: has_uuid_dashes_def)
  next
    case (Some lr)
    then have "first_field vstart = fst lr" by (cases lr) (auto simp: split_once_Some first_field_append)
    then show ?thesis using that Some by (cases lr) (simp add: has_uuid_dashes_def)
  qed
  have "sync_global_line e enc key vstart (key @ ''|'' @ vstart) (s, cnt) = (s, cnt)"
    using assms first by (auto simp: sync_global_line_def Let_def)
  then have "sync_record e enc ?l (s, cnt) = Ret (s, cnt)"
    using assms unfolding sync_record_def so sp by (auto simp: is_global_key_def)
  then show ?thesis unfolding sync_line_def sp r by simp
qed

theorem password_lines_dropped_witness:
  "sync_line (env_at 1000) toy_aead (\<lambda>x. x) 7 True ''p|secret|100'' (hub_state_new, \<lambda>_. example_world, sync_counters_new) =
     Ret (hub_state_new, \<lambda>_. example_world, sync_counters_new)"
  using password_lines_dropped [of "''p''" "''secret|100''"] by simp

section \<open>A purge is taken once\<close>

lemma send_frame:
  assumes "clients_ok s" "sync_send_to_peers e payload fd split ln co s = Ret s'"
  shows "\<exists>cs. s' = s\<lparr>clients := cs\<rparr>"
proof (cases "length payload \<le> MAX_SYNC_PAYLOAD - 10")
  case True
  then show ?thesis using sync_fanout [OF assms(1) True, of e fd split ln co] assms(2) by auto
next
  case False
  then have "s' = s" using assms(2) by (simp add: sync_send_to_peers_def)
  then show ?thesis by (intro exI [of _ "clients s"]) simp
qed

lemma parse_purge_id: "parse_purge_line line = Some (cutoff, pid) \<Longrightarrow> length pid \<le> PURGE_ID_HEX"
  by (auto simp: parse_purge_line_def Let_def split_beta split: option.splits list.splits if_splits)

text \<open>What a purge line does to the ring of recent purges.\<close>

lemma purge_line_ring:
  assumes "mesh_inv (Suc (Suc k)) s" "sync_purge_line e line fd b (s, net, cnt) = Ret (s1, net1, cnt1)"
  shows "recent_purges s1 = (case parse_purge_line line of
      None \<Rightarrow> recent_purges s
    | Some (cutoff, pid) \<Rightarrow> if is_purge_recent e s cutoff pid then recent_purges s else recent_purges (record_recent_purge e cutoff pid s))"
proof (cases "parse_purge_line line")
  case None
  then show ?thesis using assms(2) by (simp add: sync_purge_line_def)
next
  case (Some cp)
  obtain cutoff pid where cp: "cp = (cutoff, pid)" by (cases cp)
  note p = Some [unfolded cp]
  show ?thesis
  proof (cases "is_purge_recent e s cutoff pid")
    case True
    then show ?thesis using assms(2) p by (simp add: sync_purge_line_def)
  next
    case False
    let ?r = "record_recent_purge e cutoff pid s"
    have i: "mesh_inv (Suc (Suc k)) ?r" by (rule mesh_record_purge [OF assms(1)])
    have inv: "hub_store_inv ?r" "uflag_inv ?r" "bots_inv ?r" "clients_ok ?r"
        and caps: "length (user_records ?r) \<le> MAX_HUB_USER_RECORDS" "length (mask_records ?r) \<le> MAX_HUB_USER_MASKS"
      using i links_clients_ok by (auto simp: mesh_inv_def)
    obtain n tn s2 where x: "execute_purge e cutoff ?r = Ret (n, tn, s2)" "recent_purges s2 = recent_purges ?r"
      using execute_purge_run [OF inv parse_purge_cutoff [OF p] caps, of e] by (auto simp: purge_keeps_def)
    have c2: "clients_ok s2" using mesh_purge [OF i parse_purge_cutoff [OF p], of e] x(1) links_clients_ok by (auto simp: mesh_inv_def)
    have "s1 = s2 \<or> sync_forward_to_peers e line fd b s2 = Ret s1"
      using p False assms(2) x(1) by (cases "sync_forward_to_peers e line fd b s2") (auto simp: sync_purge_line_def Let_def split: if_splits)
    then have "recent_purges s1 = recent_purges ?r"
      using x(2) send_frame [OF c2] unfolding sync_forward_to_peers_def by fastforce
    then show ?thesis using p False by simp
  qed
qed

text \<open>Further purge lines, each at its time, from its peer and in its manner.\<close>

type_synonym purge_delivery = "env \<times> string \<times> i32 \<times> bool"

definition purge_lines :: "purge_delivery list \<Rightarrow> sync_run \<Rightarrow> sync_run outcome" where
  "purge_lines ds = out_fold (\<lambda>(e, line, fd, b). sync_purge_line e line fd b) ds"

lemma record_ring_cong:
  "recent_purges s' = recent_purges s \<Longrightarrow> recent_purges (record_recent_purge e c i s') = recent_purges (record_recent_purge e c i s)"
  by (simp add: record_recent_purge_def split_beta)

lemma purge_lines_hold:
  assumes "mesh_inv (2 * length ds + k) s" "0 < t" "rp_holds t cutoff pid (recent_purges s)"
    and "length (recent_purges s) \<le> MAX_RECENT_PURGES" "rp_since t (recent_purges s) + length ds \<le> MAX_RECENT_PURGES"
    and "\<forall>(e, line, fd, b) \<in> set ds. t \<le> env_now e" "purge_lines ds (s, net, cnt) = Ret (s1, net1, cnt1)"
  shows "rp_holds t cutoff pid (recent_purges s1)"
  using assms
proof (induction ds arbitrary: s net cnt)
  case Nil
  then show ?case by (simp add: purge_lines_def)
next
  case (Cons d ds)
  obtain e line fd b where d: "d = (e, line, fd, b)" by (cases d)
  have inv: "mesh_inv (Suc (Suc (2 * length ds + k))) s" using Cons.prems(1) by simp
  obtain s2 net2 cnt2 where st: "sync_purge_line e line fd b (s, net, cnt) = Ret (s2, net2, cnt2)" "mesh_inv (2 * length ds + k) s2"
    using mesh_purge_line [OF inv] by blast
  then have run: "purge_lines ds (s2, net2, cnt2) = Ret (s1, net1, cnt1)" using Cons.prems(7) by (simp add: purge_lines_def d)
  have "rp_holds t cutoff pid (recent_purges s2) \<and> length (recent_purges s2) \<le> MAX_RECENT_PURGES \<and>
      rp_since t (recent_purges s2) \<le> Suc (rp_since t (recent_purges s))"
  proof (cases "recent_purges s2 = recent_purges s")
    case True
    then show ?thesis using Cons.prems(3,4) by simp
  next
    case False
    then obtain c i where ci: "parse_purge_line line = Some (c, i)" "recent_purges s2 = recent_purges (record_recent_purge e c i s)"
      using purge_line_ring [OF inv st(1)] by (auto split: option.splits if_splits)
    have te: "t \<le> env_now e" using Cons.prems(6) d by simp
    have "rp_holds t cutoff pid (recent_purges (record_recent_purge e c i s))"
      using Cons.prems(5) by (intro record_keeps [OF Cons.prems(4,3) _ te parse_purge_id [OF ci(1)]]) simp
    then show ?thesis using ci(2) record_ring [OF Cons.prems(4), where e = e and cutoff = c and pid = i] Cons.prems(2) by simp
  qed
  then show ?case using Cons.IH [OF st(2) Cons.prems(2) _ _ _ _ run] Cons.prems(5,6) by auto
qed

text \<open>
  Property C8.  The flood of a purge through the mesh ends.  A hub that has run a purge line and passed
  it on takes a later copy, from whichever peer and however it was addressed, as nothing at all: the
  hub, its queues and the sockets stay as they are.  That holds for every copy that comes within the
  deduplication window, and with any other purge lines in between, as long as they are fewer than
  the ring of recent purges has places (the ring gives up the oldest of its purges first).
\<close>

theorem purge_taken_once:
  assumes "mesh_inv (2 * Suc (length ds)) s" "parse_purge_line line = Some (cutoff, pid)" "\<not> is_purge_recent e s cutoff pid"
    and "length (recent_purges s) \<le> MAX_RECENT_PURGES" "0 < env_now e" "\<forall>p \<in> set (recent_purges s). rp_received_at p < env_now e"
    and "length ds < MAX_RECENT_PURGES" "\<forall>(e', line', fd', b') \<in> set ds. env_now e \<le> env_now e'"
    and "purge_lines ((e, line, fd, b) # ds) (s, net, cnt) = Ret (s1, net1, cnt1)" "env_now e'' - env_now e < PURGE_DEDUP_WINDOW"
  shows "sync_purge_line e'' line fd'' b'' (s1, net1, cnt1) = Ret (s1, net1, cnt1)"
proof -
  let ?t = "env_now e" let ?r = "record_recent_purge e cutoff pid s"
  have inv: "mesh_inv (Suc (Suc (2 * length ds))) s" using assms(1) by simp
  obtain s2 net2 cnt2 where st: "sync_purge_line e line fd b (s, net, cnt) = Ret (s2, net2, cnt2)" "mesh_inv (2 * length ds) s2"
    using mesh_purge_line [OF inv] by blast
  have run: "purge_lines ds (s2, net2, cnt2) = Ret (s1, net1, cnt1)" using assms(9) st(1) by (simp add: purge_lines_def)
  have ring: "recent_purges s2 = recent_purges ?r" using purge_line_ring [OF inv st(1)] assms(2,3) by simp
  have "rp_since ?t (recent_purges s) = 0" using assms(6) by (auto simp: rp_since_def filter_empty_conv)
  then have l: "length (recent_purges s2) \<le> MAX_RECENT_PURGES" "rp_since ?t (recent_purges s2) \<le> 1"
    using record_ring(1) [OF assms(4), of e cutoff pid] record_ring(2) [OF assms(4,5), of e cutoff pid] ring by simp_all
  have h: "rp_holds ?t cutoff pid (recent_purges s2)" unfolding ring by (rule record_holds [OF parse_purge_id [OF assms(2)]])
  have "mesh_inv (2 * length ds + 0) s2" "rp_since ?t (recent_purges s2) + length ds \<le> MAX_RECENT_PURGES"
    using st(2) l(2) assms(7) by simp_all
  from purge_lines_hold [OF this(1) assms(5) h l(1) this(2) assms(8) run] have "is_purge_recent e'' s1 cutoff pid"
    using rp_holds_recent assms(10) by blast
  then show ?thesis using assms(2) by (simp add: sync_purge_line_def)
qed

theorem purge_taken_once_witness:
  "\<exists>s1 cnt1. purge_lines [(env_at 1000, ''PURGE|500'', 7, True), (env_at 1010, ''PURGE|600'', 7, True)]
       (example_tomb, \<lambda>_. example_world, sync_counters_new) = Ret (s1, \<lambda>_. example_world, cnt1) \<and>
     sync_purge_line (env_at 1030) ''PURGE|500'' 9 False (s1, \<lambda>_. example_world, cnt1) = Ret (s1, \<lambda>_. example_world, cnt1)"
proof -
  let ?ds = "[(env_at 1010, ''PURGE|600'', 7 :: i32, True)]"
  have inv: "mesh_inv (2 * Suc (length ?ds)) example_tomb" using mesh_inv_mono [OF mesh_inv_example, of "2 * Suc (length ?ds)"] by simp
  have p: "parse_purge_line ''PURGE|500'' = Some (500, [])" by code_simp
  have n: "\<not> is_purge_recent (env_at 1000) example_tomb 500 []" "length (recent_purges example_tomb) \<le> MAX_RECENT_PURGES"
      "\<forall>p \<in> set (recent_purges example_tomb). rp_received_at p < env_now (env_at 1000)"
    by (simp_all add: is_purge_recent_def example_tomb_def hub_state_new_def)
  have i: "mesh_inv (Suc (Suc 2)) example_tomb" using inv by (simp add: numeral_eq_Suc)
  obtain sa ca where a: "sync_purge_line (env_at 1000) ''PURGE|500'' 7 True (example_tomb, \<lambda>_. example_world, sync_counters_new) =
      Ret (sa, \<lambda>_. example_world, ca)" "mesh_inv (Suc (Suc 0)) sa" using mesh_purge_line [OF i] by (metis numeral_2_eq_2)
  obtain s1 cnt1 where b: "sync_purge_line (env_at 1010) ''PURGE|600'' 7 True (sa, \<lambda>_. example_world, ca) = Ret (s1, \<lambda>_. example_world, cnt1)"
    using mesh_purge_line [OF a(2)] by blast
  have r: "purge_lines ((env_at 1000, ''PURGE|500'', 7, True) # ?ds) (example_tomb, \<lambda>_. example_world, sync_counters_new) =
      Ret (s1, \<lambda>_. example_world, cnt1)" using a(1) b by (simp add: purge_lines_def)
  have "sync_purge_line (env_at 1030) ''PURGE|500'' 9 False (s1, \<lambda>_. example_world, cnt1) = Ret (s1, \<lambda>_. example_world, cnt1)"
    by (rule purge_taken_once [OF inv p n(1,2) _ n(3) _ _ r]) (simp_all add: env_at_def MAX_RECENT_PURGES_def PURGE_DEDUP_WINDOW_def)
  then show ?thesis using r by blast
qed

section \<open>Revoked bots\<close>

lemma drop_rows_mset:
  "i \<le> length (roster s) \<Longrightarrow> \<forall>r \<in> set (take i (roster s)). \<not> is_revoked s (br_bot_uuid r) \<Longrightarrow>
   mset (roster (drop_revoked_rows i s)) = filter_mset (\<lambda>r. \<not> is_revoked s (br_bot_uuid r)) (mset (roster s))"
proof (induction i s rule: drop_revoked_rows.induct)
  case (1 i s)
  show ?case
  proof (cases "i < length (roster s)")
    case False
    then have "filter_mset (\<lambda>r. \<not> is_revoked s (br_bot_uuid r)) (mset (roster s)) = mset (roster s)"
      using "1.prems" by (auto simp: filter_mset_eq_conv)
    then show ?thesis using False by (subst drop_revoked_rows.simps) simp
  next
    case True
    let ?s = "s\<lparr>roster := swap_remove i (roster s), tree_dirty := True\<rparr>"
    have rv: "is_revoked ?s = is_revoked s" by (simp add: is_revoked_def revoke_find_def fun_eq_iff)
    show ?thesis
    proof (cases "is_revoked s (br_bot_uuid (roster s ! i))")
      case R: True
      have "i \<le> length (swap_remove i (roster s))" using True by simp
      moreover have "take i (swap_remove i (roster s)) = take i (roster s)"
        using True nth_swap_remove_before [of _ i "roster s"] by (intro nth_equalityI) simp_all
      ultimately have "mset (roster (drop_revoked_rows i ?s)) = filter_mset (\<lambda>r. \<not> is_revoked s (br_bot_uuid r)) (mset (swap_remove i (roster s)))"
        using "1.IH"(1) True R "1.prems" by (simp add: rv)
      then show ?thesis using True R mset_swap_remove [OF True, symmetric] by (subst drop_revoked_rows.simps) simp
    next
      case False
      have "\<forall>r \<in> set (take (i + 1) (roster s)). \<not> is_revoked s (br_bot_uuid r)"
        using "1.prems"(2) False True by (simp add: take_Suc_conv_app_nth)
      then show ?thesis using "1.IH"(2) True False "1.prems" by (subst drop_revoked_rows.simps) simp
    qed
  qed
qed


text \<open>
  Property C11.  After the revoke list has changed, every connected bot that is on it and has not been
  told yet is told to retire, once, by the urgent lane, and marked with the time (unless the queue
  refuses the message: then it stays as it was, for the next sweep); the count is the number told.
  Nothing else of a told connection changes (but the clock of its first queued message), nothing at
  all of the others, and exactly the rows of revoked bots leave the tree.
\<close>

theorem retire_revoked_exact:
  assumes "clients_ok s"
  shows "\<exists>s'. retire_revoked_bots e s = Ret (sum_list (map (retire_count s) (clients s)), s') \<and>
    mset (roster s') = filter_mset (\<lambda>r. \<not> is_revoked s (br_bot_uuid r)) (mset (roster s)) \<and>
    length (clients s') = length (clients s) \<and>
    (\<forall>i < length (clients s). if to_retire s (clients s ! i) then retire_effect e (clients s ! i) (clients s' ! i) else clients s' ! i = clients s ! i)"
proof -
  obtain cs where cs: "retire_revoked_bots e s = Ret (sum_list (map (retire_count s) (clients s)), drop_revoked_rows 0 (s\<lparr>clients := cs\<rparr>))"
      "length cs = length (clients s)"
      "\<forall>i < length (clients s). if to_retire s (clients s ! i) then retire_effect e (clients s ! i) (cs ! i) else cs ! i = clients s ! i"
    using retire_run [OF assms] by blast
  obtain r d where d: "drop_revoked_rows 0 (s\<lparr>clients := cs\<rparr>) = s\<lparr>clients := cs, roster := r, tree_dirty := d\<rparr>"
    using drop_rows_frame [of 0 "s\<lparr>clients := cs\<rparr>"] by auto
  have "is_revoked (s\<lparr>clients := cs\<rparr>) = is_revoked s" by (simp add: is_revoked_def revoke_find_def fun_eq_iff)
  then have "mset r = filter_mset (\<lambda>r. \<not> is_revoked s (br_bot_uuid r)) (mset (roster s))"
    using drop_rows_mset [of 0 "s\<lparr>clients := cs\<rparr>"] d by simp
  then show ?thesis using cs d by simp
qed

definition example_wanted :: hub_state where
  "example_wanted = hub_state_new\<lparr>clients := [(example_peer 10)\<lparr>c_typ := Ct_Bot, c_id := ''bot''\<rparr>],
     revoked := [\<lparr>rv_uuid = ''bot'', rv_pub_key = [], rv_pub_ts = 0, rv_nick = [], rv_wiped_ts = 0, rv_del_ts = 9\<rparr>]\<rparr>"

theorem retire_revoked_exact_witness:
  "\<exists>s'. retire_revoked_bots (env_at 1000) example_wanted = Ret (1, s') \<and> c_retiring (clients s' ! 0) \<and> c_retire_sent (clients s' ! 0) = 1000"
proof -
  let ?c = "(example_peer 10)\<lparr>c_typ := Ct_Bot, c_id := ''bot''\<rparr>"
  have cl: "clients example_wanted = [?c]" by (simp add: example_wanted_def)
  have ok: "clients_ok example_wanted"
    using queue_ok_example_peer [of 10] queue_inv_cong [of ?c "example_peer 10"] unfolding clients_ok_def cl by (simp add: queue_ok_def)
  have t: "to_retire example_wanted ?c"
    by (simp add: to_retire_def is_revoked_def revoke_find_def example_wanted_def example_peer_def client_new_def)
  have r: "\<not> enqueue_refuses retire_msg ?c"
    by (simp add: enqueue_refuses_def lane_full_def lane_index_def retire_msg_def example_peer_def client_new_def store_caps LANE_COUNT_def
        MAX_QUEUE_PER_LANE_def MAX_QUEUED_BYTES_PER_PEER_def MAX_BULK_PAYLOAD_def MAX_CONFIG_PAYLOAD_def PAYLOAD_SLACK_def)
  obtain s' where s': "retire_revoked_bots (env_at 1000) example_wanted = Ret (sum_list (map (retire_count example_wanted) [?c]), s')"
      "retire_effect (env_at 1000) ?c (clients s' ! 0)"
    using retire_revoked_exact [OF ok, of "env_at 1000"] t unfolding cl by auto
  have "clients s' ! 0 = ?c\<lparr>c_retiring := True, c_retire_sent := 1000, c_write_wait_since := c_write_wait_since (clients s' ! 0),
      c_out_lanes := c_out_lanes (clients s' ! 0), c_out_total_bytes := c_out_total_bytes (clients s' ! 0)\<rparr>"
    using s'(2) r unfolding retire_effect_def by (simp add: env_at_def)
  from arg_cong [OF this, of c_retiring] arg_cong [OF this, of c_retire_sent]
  have "c_retiring (clients s' ! 0)" "c_retire_sent (clients s' ! 0) = 1000" by simp_all
  then show ?thesis using s'(1) t r by (simp add: retire_count_def)
qed

end
