(* ===== verification/Rate_Limit.thy ===== *)
theory Rate_Limit
  imports Hub_State Cstr "HOL-Library.Signed_Division"
begin

unbundle bit_operations_syntax

text \<open>
  The gates on a new connection: the allow and deny lists, the per-address table of
  \<^verbatim>\<open>src/src/ratelimit.rs\<close>, and the SSH-only table and the eviction choice of
  \<^verbatim>\<open>src/src/connlimits.rs\<close>.  Log lines are left out; the random draw of the early drop is an argument
  (absent when it fails).  An \<^verbatim>\<open>i32\<close> counter panics when it overflows.
\<close>

definition MAX_IP_RATE_LIMITS :: nat where "MAX_IP_RATE_LIMITS = 500"
definition MAX_KNOWN_IPS :: nat where "MAX_KNOWN_IPS = 256"
definition KNOWN_IP_MEMORY :: i64 where "KNOWN_IP_MEMORY = 86400"
definition STARTUP_LOG_EVERY :: i64 where "STARTUP_LOG_EVERY = 60"
definition SSH_BLOCK_MAX :: i32 where "SSH_BLOCK_MAX = 86400"
definition SSH_BLOCK_MEMORY :: i64 where "SSH_BLOCK_MEMORY = 86400"
definition SSH_SUCCESS_MEMORY :: i64 where "SSH_SUCCESS_MEMORY = 86400"
definition MAX_SSH_IPS :: nat where "MAX_SSH_IPS = 256"

definition inc_i32 :: "i32 \<Rightarrow> i32 outcome" where
  "inc_i32 v = (if v = 2147483647 then Panic else Ret (v + 1))"

section \<open>The SSH table\<close>

definition ssh_fresh :: "string \<Rightarrow> i64 \<Rightarrow> ssh_ip" where
  "ssh_fresh ip now =
     \<lparr>si_ip = trunc_string ip 64, si_win_start = now, si_conn_n = 0, si_fail_last = 0, si_fail_n = 0, si_blocked_until = 0,
      si_last_block = 0, si_level = 0, si_last_seen = now, si_last_success = 0\<rparr>"

fun ssh_recycle :: "i64 \<Rightarrow> ssh_ip list \<Rightarrow> nat list \<Rightarrow> nat option \<Rightarrow> nat option" where
  "ssh_recycle now tab [] slot = slot"
| "ssh_recycle now tab (i # is) slot =
     ssh_recycle now tab is
       (if si_blocked_until (tab ! i) > now then slot
        else case slot of
          None \<Rightarrow> Some i
        | Some s \<Rightarrow> if si_last_seen (tab ! i) < si_last_seen (tab ! s) then Some i else slot)"

definition block_ends_sooner :: "ssh_ip \<Rightarrow> ssh_ip \<Rightarrow> bool" where
  "block_ends_sooner a b \<longleftrightarrow> si_blocked_until a < si_blocked_until b"

definition ssh_find :: "string \<Rightarrow> i64 \<Rightarrow> ssh_ip list \<Rightarrow> nat \<times> ssh_ip list" where
  "ssh_find ip now tab =
     (case position (\<lambda>e. si_ip e = ip) tab of
        Some i \<Rightarrow> (i, tab[i := (tab ! i)\<lparr>si_last_seen := now\<rparr>])
      | None \<Rightarrow>
          if length tab < MAX_SSH_IPS then (length tab, tab @ [ssh_fresh ip now])
          else let slot = (case ssh_recycle now tab [0..<length tab] None of
                             Some s \<Rightarrow> s
                           | None \<Rightarrow> scan_best block_ends_sooner tab [1..<length tab] 0)
               in (slot, tab[slot := ssh_fresh ip now]))"

fun block_secs :: "nat \<Rightarrow> i64 \<Rightarrow> i64" where
  "block_secs 0 secs = secs"
| "block_secs (Suc n) secs = (if secs < SSH_BLOCK_MAX then block_secs n (secs * 2) else secs)"

definition start_block :: "conn_cfg_rec \<Rightarrow> i64 \<Rightarrow> ssh_ip \<Rightarrow> i32 \<times> ssh_ip" where
  "start_block cfg now e =
     (let lev = (if si_last_block e > 0 \<and> now - si_last_block e < SSH_BLOCK_MEMORY
                 then (if si_level e < 30 then si_level e + 1 else si_level e) else 0);
          secs = min (block_secs (nat lev) (cc_block cfg)) SSH_BLOCK_MAX
      in (secs, e\<lparr>si_level := lev, si_blocked_until := now + secs, si_last_block := now, si_conn_n := 0, si_fail_n := 0\<rparr>))"

definition block_expired :: "ssh_ip \<Rightarrow> ssh_ip" where
  "block_expired e = (if si_blocked_until e > 0 then e\<lparr>si_blocked_until := 0, si_conn_n := 0, si_fail_n := 0\<rparr> else e)"

definition ssh_recent :: "i64 \<Rightarrow> ssh_ip \<Rightarrow> bool" where
  "ssh_recent now e \<longleftrightarrow> si_last_success e > 0 \<and> now - si_last_success e < SSH_SUCCESS_MEMORY"

definition ssh_table_connect :: "conn_cfg_rec \<Rightarrow> string \<Rightarrow> i64 \<Rightarrow> ssh_ip list \<Rightarrow> (bool \<times> i32 \<times> ssh_ip list) outcome" where
  "ssh_table_connect cfg ip now tab =
     (let (i, tab1) = ssh_find ip now tab; e = tab1 ! i in
      if si_blocked_until e > now then Ret (False, 0, tab1)
      else let e1 = block_expired e in
        if ssh_recent now e1 then Ret (True, 0, tab1[i := e1])
        else let e2 = (if now - si_win_start e1 \<ge> cc_connect_s cfg then e1\<lparr>si_win_start := now, si_conn_n := 0\<rparr> else e1) in
          out_bind (inc_i32 (si_conn_n e2)) (\<lambda>n.
            let e3 = e2\<lparr>si_conn_n := n\<rparr> in
            if n > cc_connect_n cfg then (let (secs, e4) = start_block cfg now e3 in Ret (False, secs, tab1[i := e4]))
            else Ret (True, 0, tab1[i := e3])))"

definition ssh_table_success :: "string \<Rightarrow> i64 \<Rightarrow> ssh_ip list \<Rightarrow> ssh_ip list" where
  "ssh_table_success ip now tab = (let (i, tab1) = ssh_find ip now tab in tab1[i := (tab1 ! i)\<lparr>si_last_success := now\<rparr>])"

definition ssh_table_peek :: "ssh_ip list \<Rightarrow> string \<Rightarrow> ssh_ip option" where
  "ssh_table_peek tab ip = List.find (\<lambda>e. si_ip e = ip) tab"

definition ssh_table_recent_ok :: "ssh_ip list \<Rightarrow> string \<Rightarrow> i64 \<Rightarrow> bool" where
  "ssh_table_recent_ok tab ip now = (case ssh_table_peek tab ip of None \<Rightarrow> False | Some e \<Rightarrow> ssh_recent now e)"

definition ssh_table_failed :: "conn_cfg_rec \<Rightarrow> string \<Rightarrow> i64 \<Rightarrow> ssh_ip list \<Rightarrow> (i32 \<times> ssh_ip list) outcome" where
  "ssh_table_failed cfg ip now tab =
     (let (i, tab1) = ssh_find ip now tab; e = tab1 ! i in
      if si_blocked_until e > now then Ret (0, tab1)
      else let e1 = block_expired e;
               e2 = (if si_fail_last e1 > 0 \<and> now - si_fail_last e1 > cc_authfail_s cfg then e1\<lparr>si_fail_n := 0\<rparr> else e1)
        in out_bind (inc_i32 (si_fail_n e2)) (\<lambda>n.
             let e3 = e2\<lparr>si_fail_n := n, si_fail_last := now\<rparr> in
             if n \<ge> cc_authfail_n cfg then (let (secs, e4) = start_block cfg now e3 in Ret (secs, tab1[i := e4]))
             else Ret (0, tab1[i := e3])))"

section \<open>Eviction\<close>

definition login_count :: "(string \<times> i64) list \<Rightarrow> string \<Rightarrow> string \<Rightarrow> nat" where
  "login_count logins new_ip ip = (if ip = new_ip then 1 else 0) + length (filter (\<lambda>(x, _). x = ip) logins)"

fun evict_scan :: "(string \<times> i64) list \<Rightarrow> string \<Rightarrow> nat list \<Rightarrow> (nat \<times> nat) option \<Rightarrow> (nat \<times> nat) option" where
  "evict_scan logins new_ip [] best = best"
| "evict_scan logins new_ip (i # is) best =
     (let cnt = login_count logins new_ip (fst (logins ! i)) in
      evict_scan logins new_ip is
        (case best of
           None \<Rightarrow> Some (i, cnt)
         | Some (b, best_cnt) \<Rightarrow>
             if cnt > best_cnt \<or> (cnt = best_cnt \<and> snd (logins ! i) < snd (logins ! b)) then Some (i, cnt) else best))"

definition evict_pick :: "(string \<times> i64) list \<Rightarrow> string \<Rightarrow> nat option" where
  "evict_pick logins new_ip = map_option fst (evict_scan logins new_ip [0..<length logins] None)"

section \<open>The table of addresses\<close>

definition rl_busy :: "i64 \<Rightarrow> ip_rate_limit \<Rightarrow> bool" where
  "rl_busy t e \<longleftrightarrow> rl_active e > 0 \<or> (rl_blocked_until e > 0 \<and> t < rl_blocked_until e)"

definition rl_last :: "ip_rate_limit \<Rightarrow> i64" where
  "rl_last e = max (max (rl_first_seen e) (rl_last_failed e)) (rl_churn_start e)"

fun idle_slot :: "i64 \<Rightarrow> ip_rate_limit list \<Rightarrow> nat list \<Rightarrow> (nat \<times> i64) option \<Rightarrow> (nat \<times> i64) option" where
  "idle_slot t es [] slot = slot"
| "idle_slot t es (i # is) slot =
     idle_slot t es is
       (if rl_busy t (es ! i) then slot
        else case slot of
          None \<Rightarrow> Some (i, rl_last (es ! i))
        | Some (_, oldest) \<Rightarrow> if rl_last (es ! i) < oldest then Some (i, rl_last (es ! i)) else slot)"

definition ip_limit_slot :: "hub_state \<Rightarrow> string \<Rightarrow> i64 \<Rightarrow> (nat \<times> bool) option" where
  "ip_limit_slot s ip t =
     (case position (\<lambda>e. rl_ip e = ip) (ip_limits s) of
        Some i \<Rightarrow> Some (i, False)
      | None \<Rightarrow>
          if length (ip_limits s) < MAX_IP_RATE_LIMITS then Some (length (ip_limits s), True)
          else map_option (\<lambda>(i, _). (i, True)) (idle_slot t (ip_limits s) [0..<length (ip_limits s)] None))"

definition rl_fresh :: "string \<Rightarrow> i64 \<Rightarrow> ip_rate_limit" where
  "rl_fresh ip t =
     \<lparr>rl_ip = trunc_string ip 64, rl_active = 0, rl_failed = 0, rl_last_failed = 0, rl_blocked_until = 0, rl_first_seen = t,
      rl_churn_start = t, rl_churn_count = 0\<rparr>"

definition find_or_create :: "env \<Rightarrow> string \<Rightarrow> hub_state \<Rightarrow> nat option \<times> hub_state" where
  "find_or_create e ip s =
     (case ip_limit_slot s ip (env_now e) of
        None \<Rightarrow> (None, s)
      | Some (i, False) \<Rightarrow> (Some i, s)
      | Some (i, True) \<Rightarrow>
          (Some i, s\<lparr>ip_limits := (if i = length (ip_limits s) then ip_limits s @ [rl_fresh ip (env_now e)]
                                  else (ip_limits s)[i := rl_fresh ip (env_now e)])\<rparr>))"

definition older_known :: "string \<times> i64 \<Rightarrow> string \<times> i64 \<Rightarrow> bool" where
  "older_known a b \<longleftrightarrow> snd a < snd b"

definition known_ip_note :: "env \<Rightarrow> string \<Rightarrow> hub_state \<Rightarrow> hub_state" where
  "known_ip_note e ip s =
     (if ip = [] then s
      else case position (\<lambda>k. fst k = ip) (known_ips s) of
        Some i \<Rightarrow> s\<lparr>known_ips := (known_ips s)[i := (fst (known_ips s ! i), env_now e)]\<rparr>
      | None \<Rightarrow>
          if length (known_ips s) < MAX_KNOWN_IPS then s\<lparr>known_ips := known_ips s @ [(trunc_string ip 64, env_now e)]\<rparr>
          else s\<lparr>known_ips := (known_ips s)[scan_best older_known (known_ips s) [1..<length (known_ips s)] 0 :=
                                  (trunc_string ip 64, env_now e)]\<rparr>)"

definition ip_known :: "hub_state \<Rightarrow> string \<Rightarrow> i64 \<Rightarrow> bool" where
  "ip_known s ip t =
     (if list_ex (\<lambda>p. p_ip p = ip \<or> p_remote_ip p = ip) (peers s) then True
      else case List.find (\<lambda>k. fst k = ip) (known_ips s) of
        Some k \<Rightarrow> t - snd k < KNOWN_IP_MEMORY
      | None \<Rightarrow> if list_ex (\<lambda>r. br_ip r = ip) (roster s) then True else ssh_table_recent_ok (ssh_ips s) ip t)"

definition startup_refused :: "i64 \<Rightarrow> hub_state \<Rightarrow> hub_state outcome" where
  "startup_refused t s =
     (if t - startup_logged s \<ge> STARTUP_LOG_EVERY then Ret (s\<lparr>startup_logged := t, startup_unlogged := 0\<rparr>)
      else out_bind (inc_i32 (startup_unlogged s)) (\<lambda>n. Ret (s\<lparr>startup_unlogged := n\<rparr>)))"

definition trusted_loopback :: "hub_state \<Rightarrow> string \<Rightarrow> bool" where
  "trusted_loopback s ip \<longleftrightarrow> trust_loopback s \<and> (ip = ''127.0.0.1'' \<or> ip = ''::1'')"

definition startup_drop :: "conn_cfg_rec \<Rightarrow> nat option \<Rightarrow> int \<Rightarrow> bool" where
  "startup_drop cc rnd open =
     (let start = cc_startups_start cc; full = max (cc_startups_full cc) start in
      if open < start then False
      else if open < full then
        (let p = cc_startups_rate cc + ((100 - cc_startups_rate cc) * (open - start)) sdiv (full - start) in
         case rnd of None \<Rightarrow> True | Some r \<Rightarrow> int (r mod 100) < p mod 4294967296)
      else True)"

definition startup_admit :: "env \<Rightarrow> nat option \<Rightarrow> string \<Rightarrow> hub_state \<Rightarrow> (bool \<times> hub_state) outcome" where
  "startup_admit e rnd ip s =
     (if trusted_loopback s ip then Ret (True, s)
      else if ip_known s ip (env_now e) then Ret (True, s)
      else if ip_limit_slot s ip (env_now e) = None
      then out_bind (startup_refused (env_now e) s) (\<lambda>s1. Ret (False, s1))
      else let open = int (length (filter (\<lambda>c. c_inbound c \<and> \<not> c_authenticated c) (clients s))) in
        if startup_drop (conn_cfg s) rnd open then out_bind (startup_refused (env_now e) s) (\<lambda>s1. Ret (False, s1))
        else Ret (True, s))"

definition put_limit :: "nat \<Rightarrow> ip_rate_limit \<Rightarrow> hub_state \<Rightarrow> hub_state" where
  "put_limit i r s = s\<lparr>ip_limits := (ip_limits s)[i := r]\<rparr>"

definition rl_unblocked :: "i64 \<Rightarrow> ip_rate_limit \<Rightarrow> ip_rate_limit" where
  "rl_unblocked t r = (if rl_blocked_until r > 0 \<and> t \<ge> rl_blocked_until r then r\<lparr>rl_blocked_until := 0, rl_failed := 0\<rparr> else r)"

definition is_ip_allowed :: "env \<Rightarrow> string \<Rightarrow> hub_state \<Rightarrow> (bool \<times> hub_state) outcome" where
  "is_ip_allowed e ip s =
     (if trusted_loopback s ip then Ret (True, s)
      else case find_or_create e ip s of
        (None, s1) \<Rightarrow> Ret (True, s1)
      | (Some i, s1) \<Rightarrow>
          let t = env_now e; r = ip_limits s1 ! i; cc = conn_cfg s1 in
          if rl_blocked_until r > 0 \<and> t < rl_blocked_until r then Ret (False, s1)
          else let r1 = rl_unblocked t r in
            if ssh_table_recent_ok (ssh_ips s1) ip t then Ret (rl_active r1 < cc_perip cc, put_limit i r1 s1)
            else let r2 = (if t - rl_churn_start r1 \<ge> cc_churn_s cc then r1\<lparr>rl_churn_start := t, rl_churn_count := 0\<rparr> else r1) in
              out_bind (inc_i32 (rl_churn_count r2)) (\<lambda>n.
                let r3 = r2\<lparr>rl_churn_count := n\<rparr> in
                if n > cc_churn_n cc then Ret (False, put_limit i (r3\<lparr>rl_blocked_until := t + cc_churn_block cc\<rparr>) s1)
                else Ret (rl_active r3 < cc_perip cc, put_limit i r3 s1)))"

definition increment_active_connections :: "env \<Rightarrow> string \<Rightarrow> hub_state \<Rightarrow> hub_state outcome" where
  "increment_active_connections e ip s =
     (case find_or_create e ip s of
        (None, s1) \<Rightarrow> Ret s1
      | (Some i, s1) \<Rightarrow>
          out_bind (inc_i32 (rl_active (ip_limits s1 ! i))) (\<lambda>n. Ret (put_limit i ((ip_limits s1 ! i)\<lparr>rl_active := n\<rparr>) s1)))"

definition decrement_active_connections :: "string \<Rightarrow> hub_state \<Rightarrow> hub_state" where
  "decrement_active_connections ip s =
     (case position (\<lambda>e. rl_ip e = ip) (ip_limits s) of
        None \<Rightarrow> s
      | Some i \<Rightarrow>
          let r = ip_limits s ! i in
          if rl_active r > 0 then put_limit i (r\<lparr>rl_active := rl_active r - 1\<rparr>) s else s)"

definition record_failed_auth :: "env \<Rightarrow> string \<Rightarrow> hub_state \<Rightarrow> hub_state outcome" where
  "record_failed_auth e ip s =
     (if trusted_loopback s ip then Ret s
      else case find_or_create e ip s of
        (None, s1) \<Rightarrow> Ret s1
      | (Some i, s1) \<Rightarrow>
          let t = env_now e; r = ip_limits s1 ! i; cc = conn_cfg s1;
              r1 = (if t - rl_last_failed r > cc_fail_s cc then r\<lparr>rl_failed := 0\<rparr> else r)
          in out_bind (inc_i32 (rl_failed r1)) (\<lambda>n.
               let r2 = r1\<lparr>rl_failed := n, rl_last_failed := t\<rparr> in
               Ret (put_limit i (if n \<ge> cc_fail_n cc then r2\<lparr>rl_blocked_until := t + cc_fail_block cc\<rparr> else r2) s1)))"

definition ssh_failed :: "env \<Rightarrow> string \<Rightarrow> hub_state \<Rightarrow> hub_state outcome" where
  "ssh_failed e ip s =
     (if trusted_loopback s ip then Ret s
      else out_bind (ssh_table_failed (conn_cfg s) ip (env_now e) (ssh_ips s)) (\<lambda>(_, tab). Ret (s\<lparr>ssh_ips := tab\<rparr>)))"

definition cleanup_old_ip_limits :: "env \<Rightarrow> hub_state \<Rightarrow> hub_state" where
  "cleanup_old_ip_limits e s =
     s\<lparr>ip_limits := filter (\<lambda>r. \<not> (rl_active r = 0 \<and> rl_blocked_until r = 0 \<and> env_now e - rl_first_seen r > 3600)) (ip_limits s)\<rparr>"

section \<open>Addresses and the access lists\<close>

text \<open>\<^verbatim>\<open>Ipv4Addr::from_str\<close> and its text: four decimal octets without leading zeros.\<close>

definition octet :: "string \<Rightarrow> nat option" where
  "octet p =
     (if p \<noteq> [] \<and> length p \<le> 3 \<and> list_all is_digit p \<and> (length p = 1 \<or> hd p \<noteq> CHR ''0'') \<and> dec_val p \<le> 255
      then Some (dec_val p) else None)"

definition ipv4_parse :: "string \<Rightarrow> 32 word option" where
  "ipv4_parse s =
     (case map octet (split_on (CHR ''.'') s) of
        [Some a, Some b, Some c, Some d] \<Rightarrow> Some (of_nat (((a * 256 + b) * 256 + c) * 256 + d))
      | _ \<Rightarrow> None)"

definition ipv4_text :: "32 word \<Rightarrow> string" where
  "ipv4_text w =
     (let n = unat w in
      show_nat (n div 16777216) @ ''.'' @ show_nat (n div 65536 mod 256) @ ''.'' @ show_nat (n div 256 mod 256) @ ''.'' @
      show_nat (n mod 256))"

definition prefix_parse :: "string \<Rightarrow> nat option" where
  "prefix_parse p =
     (if (case p of
            [a] \<Rightarrow> is_digit a
          | [a, b] \<Rightarrow> is_digit a \<and> is_digit b \<and> a \<noteq> CHR ''0''
          | _ \<Rightarrow> False) \<and> dec_val p \<le> 32
      then Some (dec_val p) else None)"

definition prefix_mask :: "nat \<Rightarrow> 32 word" where
  "prefix_mask n = (if n = 0 then 0 else push_bit (32 - n) 0xFFFFFFFF)"

definition acl_text :: "nat \<Rightarrow> 32 word \<Rightarrow> string" where
  "acl_text n net = (if n = 32 then ipv4_text net else ipv4_text net @ ''/'' @ show_nat n)"

definition ip_acl_parse :: "string \<Rightarrow> ip_acl option" where
  "ip_acl_parse input =
     (if input = [] \<or> length input \<ge> IP_ACL_PATTERN_MAX then None
      else case (case split_once (CHR ''/'') input of
                   None \<Rightarrow> Some (input, 32)
                 | Some (l, p) \<Rightarrow> map_option (\<lambda>n. (l, n)) (prefix_parse p)) of
        None \<Rightarrow> None
      | Some (addr, n) \<Rightarrow>
          (case ipv4_parse addr of
             None \<Rightarrow> None
           | Some a \<Rightarrow>
               let net = a AND prefix_mask n; txt = acl_text n net in
                if length txt \<ge> IP_ACL_PATTERN_MAX then None
                  else Some \<lparr>acl_pattern = txt, acl_net = net, acl_mask = prefix_mask n, acl_added = 0, acl_console = False\<rparr>))"

definition ip_acl_match :: "ip_acl list \<Rightarrow> 32 word \<Rightarrow> bool \<Rightarrow> bool" where
  "ip_acl_match l addr console = list_ex (\<lambda>e. acl_console e = console \<and> addr AND acl_mask e = acl_net e) l"

definition ip_acl_scope_count :: "ip_acl list \<Rightarrow> bool \<Rightarrow> nat" where
  "ip_acl_scope_count l console = length (filter (\<lambda>e. acl_console e = console) l)"

definition ip_acl_verdict :: "hub_state \<Rightarrow> string \<Rightarrow> bool \<Rightarrow> i32" where
  "ip_acl_verdict s ip console =
     (let parsed = ipv4_parse ip; addr = (case parsed of None \<Rightarrow> 0 | Some a \<Rightarrow> a) in
      if ip_acl_scope_count (ip_deny s) console > 0 \<and> (parsed = None \<or> ip_acl_match (ip_deny s) addr console) then 1
      else if ip_acl_scope_count (ip_allow s) console > 0 \<and> (parsed = None \<or> \<not> ip_acl_match (ip_allow s) addr console) then 2
      else 0)"

definition ip_acl_permits :: "hub_state \<Rightarrow> string \<Rightarrow> bool" where
  "ip_acl_permits s ip \<longleftrightarrow> ip_acl_verdict s ip False = 0"

definition ip_acl_permits_console :: "hub_state \<Rightarrow> string \<Rightarrow> bool" where
  "ip_acl_permits_console s ip \<longleftrightarrow> ip_acl_verdict s ip True = 0"

definition check_ip_access_lists :: "hub_state \<Rightarrow> string \<Rightarrow> bool" where
  "check_ip_access_lists s ip \<longleftrightarrow> ip_acl_verdict s ip False = 0"

definition ssh_admit :: "env \<Rightarrow> string \<Rightarrow> hub_state \<Rightarrow> (bool \<times> hub_state) outcome" where
  "ssh_admit e ip s =
     (if \<not> ip_acl_permits_console s ip then Ret (False, s)
      else if trusted_loopback s ip then Ret (True, s)
      else out_bind (ssh_table_connect (conn_cfg s) ip (env_now e) (ssh_ips s)) (\<lambda>(ok, _, tab). Ret (ok, s\<lparr>ssh_ips := tab\<rparr>)))"

text \<open>\<^verbatim>\<open>ip_acl_list\<close> as a lens: the list of a letter, and the state with that list replaced.\<close>

definition ip_acl_list :: "char \<Rightarrow> hub_state \<Rightarrow> (ip_acl list \<times> (ip_acl list \<Rightarrow> hub_state)) option" where
  "ip_acl_list c s =
     (if c = CHR ''w'' then Some (ip_allow s, \<lambda>l. s\<lparr>ip_allow := l\<rparr>)
      else if c = CHR ''x'' then Some (ip_deny s, \<lambda>l. s\<lparr>ip_deny := l\<rparr>)
      else None)"

definition ip_acl_add :: "char \<Rightarrow> ip_acl \<Rightarrow> hub_state \<Rightarrow> ip_acl_add_result \<times> hub_state" where
  "ip_acl_add c e s =
     (case ip_acl_list c s of
        None \<Rightarrow> (Acl_BadList, s)
      | Some (l, put) \<Rightarrow>
          if list_ex (\<lambda>x. same_net x e) l then (Acl_Duplicate, s)
          else if length l \<ge> MAX_IP_ACL_ENTRIES then (Acl_Full, s)
          else (Acl_Added, put (l @ [e])))"

definition ip_acl_remove :: "char \<Rightarrow> ip_acl \<Rightarrow> hub_state \<Rightarrow> bool \<times> hub_state" where
  "ip_acl_remove c e s =
     (case ip_acl_list c s of
        None \<Rightarrow> (False, s)
      | Some (l, put) \<Rightarrow>
          (case position (\<lambda>x. same_net x e) l of
             None \<Rightarrow> (False, s)
           | Some i \<Rightarrow> (True, put (take i l @ drop (Suc i) l))))"


section \<open>Addresses read back\<close>

lemma show_nat_small:
  "k < 10 \<Longrightarrow> show_nat k = [digit_char k]"
  "10 \<le> k \<Longrightarrow> k < 100 \<Longrightarrow> show_nat k = [digit_char (k div 10), digit_char (k mod 10)]"
  "100 \<le> k \<Longrightarrow> k < 1000 \<Longrightarrow> show_nat k = [digit_char (k div 100), digit_char (k div 10 mod 10), digit_char (k mod 10)]"
proof -
  show one: "k < 10 \<Longrightarrow> show_nat k = [digit_char k]" for k by (subst show_nat.simps) simp
  show two: "10 \<le> k \<Longrightarrow> k < 100 \<Longrightarrow> show_nat k = [digit_char (k div 10), digit_char (k mod 10)]" for k
    by (subst show_nat.simps) (simp add: one)
  show "100 \<le> k \<Longrightarrow> k < 1000 \<Longrightarrow> show_nat k = [digit_char (k div 100), digit_char (k div 10 mod 10), digit_char (k mod 10)]"
    by (subst show_nat.simps) (simp add: two div_mult2_eq [symmetric])
qed

lemma digit_char_zero: "0 < d \<Longrightarrow> d < 10 \<Longrightarrow> digit_char d \<noteq> CHR ''0''"
  using byte_digit_char [of d] by force

lemma octet_show: "k < 256 \<Longrightarrow> octet (show_nat k) = Some k"
proof -
  assume k: "k < 256"
  consider "k < 10" | "10 \<le> k" "k < 100" | "100 \<le> k" "k < 1000" using k by linarith
  then have "length (show_nat k) \<le> 3 \<and> (length (show_nat k) = 1 \<or> hd (show_nat k) \<noteq> CHR ''0'')"
    by cases (use k in \<open>simp_all add: show_nat_small digit_char_zero\<close>)
  then show ?thesis using k show_nat_digits [of k] by (simp add: octet_def list_all_iff)
qed

lemma prefix_show: "n \<le> 32 \<Longrightarrow> prefix_parse (show_nat n) = Some n"
proof -
  have "\<forall>n \<in> set [0..<33]. prefix_parse (show_nat n) = Some n" by code_simp
  then show "n \<le> 32 \<Longrightarrow> prefix_parse (show_nat n) = Some n" by simp
qed

lemma prefix_parse_le: "prefix_parse p = Some n \<Longrightarrow> n \<le> 32 \<and> length p \<le> 2"
  by (auto simp: prefix_parse_def split: if_splits list.splits)

lemma ipv4_parse_shape:
  assumes "ipv4_parse s = Some w"
  shows "length s \<le> 15 \<and> CHR ''/'' \<notin> set s"
proof -
  obtain a b c d where o: "map octet (split_on (CHR ''.'') s) = [Some a, Some b, Some c, Some d]"
    using assms by (auto simp: ipv4_parse_def split: list.splits option.splits)
  then obtain p q r t where sp: "split_on (CHR ''.'') s = [p, q, r, t]" by (auto simp: map_eq_Cons_conv)
  have ok: "length x \<le> 3 \<and> CHR ''/'' \<notin> set x" if "octet x = Some k" for x k
    using that by (auto simp: octet_def list_all_iff is_digit_def split: if_splits)
  have "length p \<le> 3 \<and> CHR ''/'' \<notin> set p" "length q \<le> 3 \<and> CHR ''/'' \<notin> set q" "length r \<le> 3 \<and> CHR ''/'' \<notin> set r"
      "length t \<le> 3 \<and> CHR ''/'' \<notin> set t" using o sp ok by auto
  moreover have "s = p @ CHR ''.'' # q @ CHR ''.'' # r @ CHR ''.'' # t" using join_split_on [of "CHR ''.''" s] sp by simp
  ultimately show ?thesis by simp
qed

lemma octets_join:
  fixes n :: nat
  shows "((n div 16777216 * 256 + n div 65536 mod 256) * 256 + n div 256 mod 256) * 256 + n mod 256 = n"
proof -
  have "n div 16777216 = n div 65536 div 256" "n div 65536 = n div 256 div 256" by (simp_all add: div_mult2_eq [symmetric])
  then have "n div 16777216 * 256 + n div 65536 mod 256 = n div 65536" "n div 65536 * 256 + n div 256 mod 256 = n div 256"
    by (metis div_mult_mod_eq)+
  then show ?thesis by simp
qed

lemma digits_free: "\<not> is_digit c \<Longrightarrow> c \<notin> set (show_nat k)"
  using show_nat_digits by blast

lemma ipv4_text_roundtrip: "ipv4_parse (ipv4_text w) = Some w"
proof -
  let ?n = "unat w"
  have "?n < 2 ^ LENGTH(32)" by (rule unsigned_less)
  then have k: "?n div 16777216 < 256" by simp
  have d: "CHR ''.'' \<notin> set (show_nat k)" for k by (rule digits_free) (simp add: is_digit_def)
  have "split_on (CHR ''.'') (ipv4_text w) =
      [show_nat (?n div 16777216), show_nat (?n div 65536 mod 256), show_nat (?n div 256 mod 256), show_nat (?n mod 256)]"
    using d by (simp add: ipv4_text_def Let_def split_on_append split_on_free)
  then have "map octet (split_on (CHR ''.'') (ipv4_text w)) =
      [Some (?n div 16777216), Some (?n div 65536 mod 256), Some (?n div 256 mod 256), Some (?n mod 256)]"
    using k by (simp add: octet_show)
  then have "ipv4_parse (ipv4_text w) =
      Some (of_nat (((?n div 16777216 * 256 + ?n div 65536 mod 256) * 256 + ?n div 256 mod 256) * 256 + ?n mod 256))"
    by (simp only: ipv4_parse_def list.case option.case)
  then show ?thesis unfolding octets_join by simp
qed

lemma ipv4_text_slash: "CHR ''/'' \<notin> set (ipv4_text w)"
  using digits_free [of "CHR ''/''"] by (simp add: ipv4_text_def Let_def is_digit_def)

lemma ipv4_text_not_Nil: "ipv4_text w \<noteq> []"
  by (simp add: ipv4_text_def Let_def)

lemma ipv4_text_length: "length (ipv4_text w) \<le> 15"
proof -
  have l: "length (show_nat k) \<le> 3" if "k < 256" for k using octet_show [OF that] by (auto simp: octet_def split: if_splits)
  have "unat w < 2 ^ LENGTH(32)" by (rule unsigned_less)
  then have "unat w div 16777216 < 256" by simp
  from l [OF this] l [of "unat w div 65536 mod 256"] l [of "unat w div 256 mod 256"] l [of "unat w mod 256"]
  show ?thesis by (simp add: ipv4_text_def Let_def)
qed

lemma show_prefix_length: "n \<le> 32 \<Longrightarrow> length (show_nat n) \<le> 2"
proof -
  assume "n \<le> 32"
  then consider "n < 10" | "10 \<le> n" "n < 100" by linarith
  then show ?thesis by cases (simp_all add: show_nat_small)
qed

section \<open>What an entry of an access list matches\<close>

lemma bit_prefix_mask: "n \<le> 32 \<Longrightarrow> bit (prefix_mask n) i \<longleftrightarrow> 32 - n \<le> i \<and> i < 32"
proof -
  assume n: "n \<le> 32"
  have "(0xFFFFFFFF :: 32 word) = mask 32" by (simp add: mask_eq_exp_minus_1)
  then have "prefix_mask n = (if n = 0 then 0 else push_bit (32 - n) (mask 32))" by (simp only: prefix_mask_def)
  then show ?thesis using n by (auto simp: bit_push_bit_iff bit_mask_iff simp del: mask_numeral)
qed

lemma prefix_match:
  assumes "n \<le> 32"
  shows "(x :: 32 word) AND prefix_mask n = y AND prefix_mask n \<longleftrightarrow> drop_bit (32 - n) x = drop_bit (32 - n) y"
proof
  assume h: "x AND prefix_mask n = y AND prefix_mask n"
  show "drop_bit (32 - n) x = drop_bit (32 - n) y"
  proof (rule bit_word_eqI)
    fix i :: nat assume "i < LENGTH(32)"
    have "bit (x AND prefix_mask n) (32 - n + i) = bit (y AND prefix_mask n) (32 - n + i)" using h by simp
    then show "bit (drop_bit (32 - n) x) i = bit (drop_bit (32 - n) y) i"
      using bit_imp_le_length [of x "32 - n + i"] bit_imp_le_length [of y "32 - n + i"]
      by (auto simp: bit_drop_bit_eq bit_and_iff bit_prefix_mask [OF assms])
  qed
next
  assume h: "drop_bit (32 - n) x = drop_bit (32 - n) y"
  show "x AND prefix_mask n = y AND prefix_mask n"
  proof (rule bit_word_eqI)
    fix i :: nat
    have "bit (drop_bit (32 - n) x) (i - (32 - n)) = bit (drop_bit (32 - n) y) (i - (32 - n))" using h by simp
    then show "bit (x AND prefix_mask n) i = bit (y AND prefix_mask n) i"
      by (auto simp: bit_drop_bit_eq bit_and_iff bit_prefix_mask [OF assms])
  qed
qed

text \<open>
  Property C22.  The access lists mean what they say.  \<^verbatim>\<open>a.b.c.d/n\<close> is accepted for every prefix
  length and matches exactly the addresses that agree with \<^verbatim>\<open>a.b.c.d\<close> in the first \<^verbatim>\<open>n\<close> bits; and the
  canonical text that is stored, listed and saved is read back as the same entry, so a saved list
  never comes back wider or narrower.
\<close>

theorem ip_acl_entry_meaning:
  assumes "ipv4_parse addr = Some a" "prefix_parse p = Some n"
  shows "\<exists>en. ip_acl_parse (addr @ ''/'' @ p) = Some en \<and> ip_acl_parse (acl_pattern en) = Some en \<and>
    (\<forall>x. ip_acl_match [en] x False \<longleftrightarrow> drop_bit (32 - n) x = drop_bit (32 - n) a)"
proof -
  let ?net = "a AND prefix_mask n" let ?t = "acl_text n ?net"
  let ?en = "\<lparr>acl_pattern = ?t, acl_net = ?net, acl_mask = prefix_mask n, acl_added = 0, acl_console = False\<rparr>"
  have n: "n \<le> 32" "length p \<le> 2" using prefix_parse_le [OF assms(2)] by simp_all
  have sh: "length addr \<le> 15" "CHR ''/'' \<notin> set addr" using ipv4_parse_shape [OF assms(1)] by simp_all
  have len: "length ?t < IP_ACL_PATTERN_MAX" using ipv4_text_length [of ?net] show_prefix_length [OF n(1)] by (auto simp: acl_text_def IP_ACL_PATTERN_MAX_def)
  have so: "split_once (CHR ''/'') (addr @ CHR ''/'' # p) = Some (addr, p)" using sh(2) by simp
  have 1: "ip_acl_parse (addr @ ''/'' @ p) = Some ?en"
    using assms so len sh n(2) by (simp add: ip_acl_parse_def IP_ACL_PATTERN_MAX_def Let_def)
  have "(case split_once (CHR ''/'') ?t of None \<Rightarrow> Some (?t, 32) | Some (l, p) \<Rightarrow> map_option (\<lambda>n. (l, n)) (prefix_parse p)) =
      Some (ipv4_text ?net, n)"
  proof (cases "n = 32")
    case True
    then show ?thesis using split_once_None [of "CHR ''/''" "ipv4_text ?net"] ipv4_text_slash [of ?net] by (simp add: acl_text_def)
  next
    case False
    then show ?thesis using ipv4_text_slash [of ?net] prefix_show [OF n(1)] by (simp add: acl_text_def)
  qed
  moreover have "?t \<noteq> []" using ipv4_text_not_Nil by (simp add: acl_text_def)
  moreover have "?net AND prefix_mask n = ?net" by (simp add: and.assoc)
  ultimately have 2: "ip_acl_parse ?t = Some ?en"
    using len ipv4_text_roundtrip [of ?net] unfolding ip_acl_parse_def Let_def by simp
  have 3: "ip_acl_match [?en] x False \<longleftrightarrow> drop_bit (32 - n) x = drop_bit (32 - n) a" for x
    using prefix_match [OF n(1), of x a] by (simp add: ip_acl_match_def)
  show ?thesis using 1 2 3 by (intro exI [of _ ?en]) simp
qed

theorem ip_acl_entry_meaning_witness:
  "\<exists>en. ip_acl_parse (''10.1.2.3'' @ ''/'' @ ''8'') = Some en \<and> ip_acl_parse (acl_pattern en) = Some en \<and>
     (\<forall>x. ip_acl_match [en] x False \<longleftrightarrow> drop_bit (32 - 8) x = drop_bit (32 - 8) (0x0A010203 :: 32 word))"
proof (rule ip_acl_entry_meaning)
  have "map octet (split_on (CHR ''.'') ''10.1.2.3'') = [Some 10, Some 1, Some 2, Some 3]" by code_simp
  then show "ipv4_parse ''10.1.2.3'' = Some 0x0A010203" unfolding ipv4_parse_def by simp
  show "prefix_parse ''8'' = Some 8" by code_simp
qed

section \<open>One address over time\<close>

text \<open>What the operations do to the entry of an address: the check of a connection, its opening and closing, a failed login.\<close>

definition allow_entry :: "conn_cfg_rec \<Rightarrow> i64 \<Rightarrow> ip_rate_limit \<Rightarrow> (bool \<times> ip_rate_limit) outcome" where
  "allow_entry cc t r =
     (if rl_blocked_until r > 0 \<and> t < rl_blocked_until r then Ret (False, r)
      else let r1 = rl_unblocked t r;
               r2 = (if t - rl_churn_start r1 \<ge> cc_churn_s cc then r1\<lparr>rl_churn_start := t, rl_churn_count := 0\<rparr> else r1)
        in out_bind (inc_i32 (rl_churn_count r2)) (\<lambda>n.
             if n > cc_churn_n cc then Ret (False, r2\<lparr>rl_churn_count := n, rl_blocked_until := t + cc_churn_block cc\<rparr>)
             else Ret (rl_active r < cc_perip cc, r2\<lparr>rl_churn_count := n\<rparr>)))"

definition fail_entry :: "conn_cfg_rec \<Rightarrow> i64 \<Rightarrow> ip_rate_limit \<Rightarrow> ip_rate_limit outcome" where
  "fail_entry cc t r =
     out_bind (inc_i32 (if t - rl_last_failed r > cc_fail_s cc then 0 else rl_failed r)) (\<lambda>n.
       let r2 = r\<lparr>rl_failed := n, rl_last_failed := t\<rparr> in
       Ret (if n \<ge> cc_fail_n cc then r2\<lparr>rl_blocked_until := t + cc_fail_block cc\<rparr> else r2))"

definition open_entry :: "ip_rate_limit \<Rightarrow> ip_rate_limit outcome" where
  "open_entry r = out_bind (inc_i32 (rl_active r)) (\<lambda>n. Ret (r\<lparr>rl_active := n\<rparr>))"

definition close_entry :: "ip_rate_limit \<Rightarrow> ip_rate_limit" where
  "close_entry r = (if rl_active r > 0 then r\<lparr>rl_active := rl_active r - 1\<rparr> else r)"

text \<open>Runs of these operations at given times; the answers are those of the connection checks.\<close>

datatype ip_event = Ev_Connect | Ev_Fail | Ev_Open | Ev_Close

fun ip_event_step :: "env \<Rightarrow> string \<Rightarrow> ip_event \<Rightarrow> hub_state \<Rightarrow> (bool list \<times> hub_state) outcome" where
  "ip_event_step e ip Ev_Connect s = out_bind (is_ip_allowed e ip s) (\<lambda>(ok, s1). Ret ([ok], s1))"
| "ip_event_step e ip Ev_Fail s = out_bind (record_failed_auth e ip s) (\<lambda>s1. Ret ([], s1))"
| "ip_event_step e ip Ev_Open s = out_bind (increment_active_connections e ip s) (\<lambda>s1. Ret ([], s1))"
| "ip_event_step e ip Ev_Close s = Ret ([], decrement_active_connections ip s)"

fun ip_run :: "env \<Rightarrow> string \<Rightarrow> (ip_event \<times> i64) list \<Rightarrow> hub_state \<Rightarrow> (bool list \<times> hub_state) outcome" where
  "ip_run e ip [] s = Ret ([], s)"
| "ip_run e ip (ev # evs) s =
     out_bind (ip_event_step (e\<lparr>env_now := snd ev\<rparr>) ip (fst ev) s) (\<lambda>(ok, s1).
       out_bind (ip_run e ip evs s1) (\<lambda>(oks, s2). Ret (ok @ oks, s2)))"

fun entry_step :: "conn_cfg_rec \<Rightarrow> i64 \<Rightarrow> ip_event \<Rightarrow> ip_rate_limit \<Rightarrow> (bool list \<times> ip_rate_limit) outcome" where
  "entry_step cc t Ev_Connect r = out_bind (allow_entry cc t r) (\<lambda>(ok, r1). Ret ([ok], r1))"
| "entry_step cc t Ev_Fail r = out_bind (fail_entry cc t r) (\<lambda>r1. Ret ([], r1))"
| "entry_step cc t Ev_Open r = out_bind (open_entry r) (\<lambda>r1. Ret ([], r1))"
| "entry_step cc t Ev_Close r = Ret ([], close_entry r)"

fun entry_run :: "conn_cfg_rec \<Rightarrow> (ip_event \<times> i64) list \<Rightarrow> ip_rate_limit \<Rightarrow> (bool list \<times> ip_rate_limit) outcome" where
  "entry_run cc [] r = Ret ([], r)"
| "entry_run cc (ev # evs) r =
     out_bind (entry_step cc (snd ev) (fst ev) r) (\<lambda>(ok, r1). out_bind (entry_run cc evs r1) (\<lambda>(oks, r2). Ret (ok @ oks, r2)))"

text \<open>
  The entry of an address that is held to the limits: it has one, it is not the trusted loopback, and
  it has no console login on record (which would exempt it from the churn window for a day).
\<close>

definition held_to :: "hub_state \<Rightarrow> string \<Rightarrow> nat \<Rightarrow> bool" where
  "held_to s ip i \<longleftrightarrow>
     position (\<lambda>e. rl_ip e = ip) (ip_limits s) = Some i \<and> \<not> trusted_loopback s ip \<and>
     (\<forall>e \<in> set (ssh_ips s). si_ip e = ip \<longrightarrow> si_last_success e \<le> 0)"

lemma held_no_recent: "held_to s ip i \<Longrightarrow> \<not> ssh_table_recent_ok (ssh_ips s) ip t"
  by (auto simp: held_to_def ssh_table_recent_ok_def ssh_table_peek_def ssh_recent_def find_Some_iff dest!: nth_mem split: option.splits)

lemma held_index: "held_to s ip i \<Longrightarrow> i < length (ip_limits s) \<and> rl_ip (ip_limits s ! i) = ip"
  by (auto simp: held_to_def dest: position_SomeD)

lemma position_update:
  assumes "position P xs = Some i" "P y"
  shows "position P (xs[i := y]) = Some i"
  using assms by (auto simp: position_Some nth_list_update)

lemma held_put: "held_to s ip i \<Longrightarrow> rl_ip r = ip \<Longrightarrow> held_to (put_limit i r s) ip i"
  by (simp add: held_to_def put_limit_def trusted_loopback_def position_update)

lemma held_find: "held_to s ip i \<Longrightarrow> find_or_create e ip s = (Some i, s)"
  by (simp add: find_or_create_def ip_limit_slot_def held_to_def)

lemma put_limit_same [simp]: "put_limit i (ip_limits s ! i) s = s"
  by (simp add: put_limit_def)

lemma put_limit_twice: "held_to s ip i \<Longrightarrow> ip_limits (put_limit i r s) ! i = r \<and> conn_cfg (put_limit i r s) = conn_cfg s \<and>
    put_limit i r' (put_limit i r s) = put_limit i r' s"
  using held_index by (auto simp: put_limit_def)

lemma allow_held:
  assumes "held_to s ip i"
  shows "is_ip_allowed e ip s =
    out_bind (allow_entry (conn_cfg s) (env_now e) (ip_limits s ! i)) (\<lambda>(ok, r). Ret (ok, put_limit i r s))"
proof -
  have a: "rl_active (rl_unblocked t r) = rl_active r" for t r by (simp add: rl_unblocked_def)
  show ?thesis
    unfolding is_ip_allowed_def held_find [OF assms] using held_no_recent [OF assms] assms
    by (auto simp: held_to_def allow_entry_def Let_def inc_i32_def a)
qed

lemma fail_held:
  assumes "held_to s ip i"
  shows "record_failed_auth e ip s = out_bind (fail_entry (conn_cfg s) (env_now e) (ip_limits s ! i)) (\<lambda>r. Ret (put_limit i r s))"
  unfolding record_failed_auth_def held_find [OF assms] using assms by (auto simp: held_to_def fail_entry_def inc_i32_def Let_def)

lemma open_held:
  assumes "held_to s ip i"
  shows "increment_active_connections e ip s = out_bind (open_entry (ip_limits s ! i)) (\<lambda>r. Ret (put_limit i r s))"
  unfolding increment_active_connections_def held_find [OF assms] by (auto simp: open_entry_def inc_i32_def)

lemma close_held:
  assumes "held_to s ip i"
  shows "decrement_active_connections ip s = put_limit i (close_entry (ip_limits s ! i)) s"
  using assms by (auto simp: held_to_def decrement_active_connections_def close_entry_def Let_def)

lemma entry_step_ip: "entry_step cc t ev r = Ret (ok, r') \<Longrightarrow> rl_ip r' = rl_ip r"
  by (cases ev) (auto simp: allow_entry_def fail_entry_def open_entry_def close_entry_def Let_def inc_i32_def rl_unblocked_def split: if_splits)

lemma step_held:
  assumes "held_to s ip i"
  shows "ip_event_step e ip ev s = out_bind (entry_step (conn_cfg s) (env_now e) ev (ip_limits s ! i)) (\<lambda>(ok, r). Ret (ok, put_limit i r s))"
proof (cases ev)
  case Ev_Connect
  then show ?thesis by (cases "allow_entry (conn_cfg s) (env_now e) (ip_limits s ! i)") (auto simp: allow_held [OF assms])
next
  case Ev_Fail
  then show ?thesis by (cases "fail_entry (conn_cfg s) (env_now e) (ip_limits s ! i)") (simp_all add: fail_held [OF assms])
next
  case Ev_Open
  then show ?thesis by (cases "open_entry (ip_limits s ! i)") (simp_all add: open_held [OF assms])
next
  case Ev_Close
  then show ?thesis by (simp add: close_held [OF assms])
qed

lemma ip_run_entry:
  assumes "held_to s ip i"
  shows "ip_run e ip evs s = out_bind (entry_run (conn_cfg s) evs (ip_limits s ! i)) (\<lambda>(oks, r). Ret (oks, put_limit i r s))"
  using assms
proof (induction evs arbitrary: s)
  case (Cons ev evs)
  show ?case
  proof (cases "entry_step (conn_cfg s) (snd ev) (fst ev) (ip_limits s ! i)")
    case Panic
    then show ?thesis by (simp add: step_held [OF Cons.prems])
  next
    case (Ret x)
    obtain ok r where x: "x = (ok, r)" by (cases x)
    have h: "held_to (put_limit i r s) ip i"
      using held_put [OF Cons.prems] entry_step_ip [OF Ret [unfolded x]] held_index [OF Cons.prems] by simp
    then show ?thesis using Cons.IH [OF h] put_limit_twice [OF Cons.prems, of r]
      by (cases "entry_run (conn_cfg s) evs r") (auto simp: step_held [OF Cons.prems] Ret x)
  qed
qed simp

section \<open>The churn window\<close>

abbreviation admitted :: "bool list \<Rightarrow> nat" where
  "admitted oks \<equiv> count_list oks True"

text \<open>One operation leaves the churn window alone, or it is a check that counts itself in it.\<close>

lemma entry_step_churn:
  assumes "entry_step cc t ev r = Ret (ok, r')"
  shows "(rl_churn_start r' = rl_churn_start r \<and> rl_churn_count r \<le> rl_churn_count r' \<and>
      (ok = [True] \<longrightarrow> rl_churn_count r' = rl_churn_count r + 1 \<and> rl_churn_count r' \<le> cc_churn_n cc)) \<or>
    (cc_churn_s cc \<le> t - rl_churn_start r \<and> rl_churn_start r' = t \<and> rl_churn_count r' = 1 \<and> (ok = [True] \<longrightarrow> 1 \<le> cc_churn_n cc))"
    "ok = [] \<or> ok = [True] \<or> ok = [False]"
  using assms
  by (cases ev; auto simp: allow_entry_def fail_entry_def open_entry_def close_entry_def Let_def inc_i32_def rl_unblocked_def split: if_splits)+

lemma window_admits:
  assumes "\<forall>ev \<in> set evs. snd ev - rl_churn_start r < cc_churn_s cc" "entry_run cc evs r = Ret (oks, r')"
  shows "int (admitted oks) \<le> max 0 (cc_churn_n cc - rl_churn_count r)"
  using assms
proof (induction evs arbitrary: r oks)
  case (Cons ev evs)
  obtain ok r1 oks1 where a: "entry_step cc (snd ev) (fst ev) r = Ret (ok, r1)" "entry_run cc evs r1 = Ret (oks1, r')" "oks = ok @ oks1"
    using Cons.prems(2) by (auto simp: out_bind_Ret)
  note C = entry_step_churn [OF a(1)]
  have r1: "rl_churn_start r1 = rl_churn_start r" "rl_churn_count r \<le> rl_churn_count r1"
      "ok = [True] \<Longrightarrow> rl_churn_count r1 = rl_churn_count r + 1 \<and> rl_churn_count r1 \<le> cc_churn_n cc"
    using C(1) Cons.prems(1) by auto
  have "int (admitted oks1) \<le> max 0 (cc_churn_n cc - rl_churn_count r1)" using Cons.IH [OF _ a(2)] Cons.prems(1) r1(1) by simp
  then show ?case using r1(2,3) a(3) C(2) by auto
qed simp

lemma span_admits:
  assumes "\<forall>ev \<in> set evs. a \<le> snd ev \<and> snd ev < a + cc_churn_s cc" "entry_run cc evs r = Ret (oks, r')"
    and "0 \<le> cc_churn_n cc"
  shows "int (admitted oks) \<le> max 0 (cc_churn_n cc - rl_churn_count r) + cc_churn_n cc"
  using assms(1,2)
proof (induction evs arbitrary: r oks)
  case (Cons ev evs)
  obtain ok r1 oks1 where st: "entry_step cc (snd ev) (fst ev) r = Ret (ok, r1)" "entry_run cc evs r1 = Ret (oks1, r')" "oks = ok @ oks1"
    using Cons.prems(2) by (auto simp: out_bind_Ret)
  have IH: "int (admitted oks1) \<le> max 0 (cc_churn_n cc - rl_churn_count r1) + cc_churn_n cc"
    using Cons.IH [OF _ st(2)] Cons.prems(1) by simp
  note C = entry_step_churn [OF st(1)]
  from C(1) show ?case
  proof
    assume "rl_churn_start r1 = rl_churn_start r \<and> rl_churn_count r \<le> rl_churn_count r1 \<and>
      (ok = [True] \<longrightarrow> rl_churn_count r1 = rl_churn_count r + 1 \<and> rl_churn_count r1 \<le> cc_churn_n cc)"
    then show ?thesis using IH st(3) C(2) by auto
  next
    assume r1: "cc_churn_s cc \<le> snd ev - rl_churn_start r \<and> rl_churn_start r1 = snd ev \<and> rl_churn_count r1 = 1 \<and> (ok = [True] \<longrightarrow> 1 \<le> cc_churn_n cc)"
    then have "\<forall>ev \<in> set evs. snd ev - rl_churn_start r1 < cc_churn_s cc" using Cons.prems(1) by auto
    from window_admits [OF this st(2)] show ?thesis using r1 st(3) assms(3) C(2) by auto
  qed
qed (use assms(3) in simp)

text \<open>The counters of an entry are far from overflow for two billion operations.\<close>

definition counters_below :: "int \<Rightarrow> ip_rate_limit \<Rightarrow> bool" where
  "counters_below k r \<longleftrightarrow>
     0 \<le> rl_churn_count r \<and> rl_churn_count r + k \<le> 2147483647 \<and> 0 \<le> rl_failed r \<and> rl_failed r + k \<le> 2147483647 \<and>
     0 \<le> rl_active r \<and> rl_active r + k \<le> 2147483647"

lemma entry_step_returns:
  assumes "counters_below (k + 1) r" "0 \<le> k"
  shows "\<exists>ok r'. entry_step cc t ev r = Ret (ok, r') \<and> length ok = (if ev = Ev_Connect then 1 else 0) \<and> counters_below k r'"
  using assms
  by (cases ev) (auto simp: counters_below_def allow_entry_def fail_entry_def open_entry_def close_entry_def Let_def inc_i32_def rl_unblocked_def)

lemma entry_run_returns:
  assumes "counters_below (int (length evs)) r"
  shows "\<exists>oks r'. entry_run cc evs r = Ret (oks, r') \<and> length oks = length (filter (\<lambda>ev. fst ev = Ev_Connect) evs)"
  using assms
proof (induction evs arbitrary: r)
  case (Cons ev evs)
  have "counters_below (int (length evs) + 1) r" using Cons.prems by (simp add: add.commute)
  from entry_step_returns [OF this, of cc "snd ev" "fst ev"]
  obtain ok r1 where a: "entry_step cc (snd ev) (fst ev) r = Ret (ok, r1)" "length ok = (if fst ev = Ev_Connect then 1 else 0)"
      "counters_below (int (length evs)) r1" by auto
  obtain oks r2 where "entry_run cc evs r1 = Ret (oks, r2)" "length oks = length (filter (\<lambda>ev. fst ev = Ev_Connect) evs)"
    using Cons.IH [OF a(3)] by blast
  then show ?case using a(1,2) by auto
qed simp

text \<open>
  Property C21.  The churn gate holds a flood that never fails a login.  An address that is held to the
  limits (it has an entry, it is not the trusted loopback, and it has no console login on record)
  may connect as often as it likes, open, close and fail connections in between, in whatever state
  its entry is: within any span of the configured length at most twice the configured number of
  connections is let in.  (Twice: a span may touch two windows.)  The operations always return, below
  two billion of them.  They are those of the address itself; its entry is not recycled meanwhile.
\<close>

theorem churn_gate_bounds:
  assumes "held_to s ip i" "\<forall>ev \<in> set evs. a \<le> snd ev \<and> snd ev < a + cc_churn_s (conn_cfg s)"
    and "0 \<le> cc_churn_n (conn_cfg s)" "counters_below (int (length evs)) (ip_limits s ! i)"
  shows "\<exists>oks s'. ip_run e ip evs s = Ret (oks, s') \<and> length oks = length (filter (\<lambda>ev. fst ev = Ev_Connect) evs) \<and>
    int (count_list oks True) \<le> 2 * cc_churn_n (conn_cfg s)"
proof -
  obtain oks r where r: "entry_run (conn_cfg s) evs (ip_limits s ! i) = Ret (oks, r)"
      "length oks = length (filter (\<lambda>ev. fst ev = Ev_Connect) evs)"
    using entry_run_returns [OF assms(4)] by blast
  from span_admits [OF assms(2) r(1) assms(3)] assms(4) have "int (admitted oks) \<le> 2 * cc_churn_n (conn_cfg s)"
    by (auto simp: counters_below_def)
  then show ?thesis using r by (simp add: ip_run_entry [OF assms(1)])
qed

definition example_limits :: hub_state where
  "example_limits = hub_state_new\<lparr>ip_limits := [rl_fresh ''10.0.0.1'' 1000]\<rparr>"

lemma example_held: "held_to example_limits ''10.0.0.1'' 0"
  by (simp add: held_to_def example_limits_def rl_fresh_def trusted_loopback_def hub_state_new_def position_Some)

lemma example_entry: "conn_cfg example_limits = conn_cfg_default" "ip_limits example_limits ! 0 = rl_fresh ''10.0.0.1'' 1000"
  by (simp_all add: example_limits_def hub_state_new_def)

theorem churn_gate_bounds_witness:
  "\<exists>oks s'. ip_run (env_at 1000) ''10.0.0.1'' (replicate 100 (Ev_Connect, 1005)) example_limits = Ret (oks, s') \<and> length oks = 100 \<and>
     int (count_list oks True) \<le> 2 * cc_churn_n conn_cfg_default"
proof -
  have f: "filter (\<lambda>ev. fst ev = Ev_Connect) (replicate 100 (Ev_Connect, 1005 :: i64)) = replicate 100 (Ev_Connect, 1005)" by simp
  have "counters_below 100 (rl_fresh ''10.0.0.1'' 1000)" by (simp add: counters_below_def rl_fresh_def)
  then show ?thesis
    using churn_gate_bounds [OF example_held, of "replicate 100 (Ev_Connect, 1005)" 1000 "env_at 1000"]
    unfolding example_entry f by (simp add: conn_cfg_default_def)
qed

section \<open>Failed logins\<close>

text \<open>
  One attempt at a login: the connection is checked, and when it is let in it is opened, fails its
  login and is closed.
\<close>

definition login_attempt :: "env \<Rightarrow> string \<Rightarrow> hub_state \<Rightarrow> (bool \<times> hub_state) outcome" where
  "login_attempt e ip s =
     out_bind (is_ip_allowed e ip s) (\<lambda>(ok, s1).
       if \<not> ok then Ret (False, s1)
       else out_bind (increment_active_connections e ip s1) (\<lambda>s2.
         out_bind (record_failed_auth e ip s2) (\<lambda>s3. Ret (True, decrement_active_connections ip s3))))"

fun attempt_run :: "env \<Rightarrow> string \<Rightarrow> i64 list \<Rightarrow> hub_state \<Rightarrow> (bool list \<times> hub_state) outcome" where
  "attempt_run e ip [] s = Ret ([], s)"
| "attempt_run e ip (t # ts) s =
     out_bind (login_attempt (e\<lparr>env_now := t\<rparr>) ip s) (\<lambda>(ok, s1).
       out_bind (attempt_run e ip ts s1) (\<lambda>(oks, s2). Ret (ok # oks, s2)))"

definition attempt_entry :: "conn_cfg_rec \<Rightarrow> i64 \<Rightarrow> ip_rate_limit \<Rightarrow> (bool \<times> ip_rate_limit) outcome" where
  "attempt_entry cc t r =
     out_bind (allow_entry cc t r) (\<lambda>(ok, r1).
       if \<not> ok then Ret (False, r1)
       else out_bind (open_entry r1) (\<lambda>r2. out_bind (fail_entry cc t r2) (\<lambda>r3. Ret (True, close_entry r3))))"

lemma attempt_held:
  assumes "held_to s ip i"
  shows "login_attempt e ip s = out_bind (attempt_entry (conn_cfg s) (env_now e) (ip_limits s ! i)) (\<lambda>(ok, r). Ret (ok, put_limit i r s))"
proof (cases "allow_entry (conn_cfg s) (env_now e) (ip_limits s ! i)")
  case (Ret x)
  obtain ok r1 where x: "x = (ok, r1)" by (cases x)
  have ip: "rl_ip r1 = ip" using entry_step_ip [of "conn_cfg s" "env_now e" Ev_Connect] Ret x held_index [OF assms] by auto
  let ?s1 = "put_limit i r1 s"
  have h1: "held_to ?s1 ip i" by (rule held_put [OF assms ip])
  note P = put_limit_twice [OF assms]
  show ?thesis
  proof (cases "open_entry r1")
    case R2: (Ret r2)
    have ip2: "rl_ip r2 = ip" using R2 ip by (auto simp: open_entry_def out_bind_Ret)
    let ?s2 = "put_limit i r2 s"
    have h2: "held_to ?s2 ip i" by (rule held_put [OF assms ip2])
    show ?thesis
    proof (cases "fail_entry (conn_cfg s) (env_now e) r2")
      case R3: (Ret r3)
      have ip3: "rl_ip r3 = ip" using entry_step_ip [of "conn_cfg s" "env_now e" Ev_Fail r2] R3 ip2 by auto
      have h3: "held_to (put_limit i r3 s) ip i" by (rule held_put [OF assms ip3])
      show ?thesis
        using Ret x R2 R3 P by (simp add: login_attempt_def attempt_entry_def allow_held [OF assms] open_held [OF h1] fail_held [OF h2] close_held [OF h3])
    next
      case Panic
      then show ?thesis
        using Ret x R2 P by (simp add: login_attempt_def attempt_entry_def allow_held [OF assms] open_held [OF h1] fail_held [OF h2])
    qed
  next
    case Panic
    then show ?thesis using Ret x P by (simp add: login_attempt_def attempt_entry_def allow_held [OF assms] open_held [OF h1])
  qed
qed (simp add: login_attempt_def attempt_entry_def allow_held [OF assms])

text \<open>An attempt that is let in counts one failure; the count it starts from may have lapsed.\<close>

definition live_failures :: "conn_cfg_rec \<Rightarrow> i64 \<Rightarrow> ip_rate_limit \<Rightarrow> i32" where
  "live_failures cc t r = (if 0 < rl_blocked_until r \<or> t - rl_last_failed r > cc_fail_s cc then 0 else rl_failed r)"

lemma attempt_fails:
  assumes "0 \<le> rl_blocked_until r" "rl_blocked_until r \<le> t" "0 \<le> rl_active r" "rl_active r < cc_perip cc" "cc_perip cc \<le> 2147483647"
    and "0 \<le> rl_churn_count r" "rl_churn_count r < cc_churn_n cc" "cc_churn_n cc \<le> 2147483647"
    and "0 \<le> live_failures cc t r" "live_failures cc t r < 2147483647"
  shows "\<exists>r'. attempt_entry cc t r = Ret (True, r') \<and> rl_failed r' = live_failures cc t r + 1 \<and> rl_last_failed r' = t \<and>
    rl_blocked_until r' = (if cc_fail_n cc \<le> live_failures cc t r + 1 then t + cc_fail_block cc else 0) \<and>
    rl_active r' = rl_active r \<and> 0 \<le> rl_churn_count r' \<and> rl_churn_count r' \<le> rl_churn_count r + 1 \<and> rl_ip r' = rl_ip r"
proof -
  define r1 where "r1 = (if 0 < rl_blocked_until r then r\<lparr>rl_blocked_until := 0, rl_failed := 0\<rparr> else r)"
  define r2 where "r2 = (if t - rl_churn_start r \<ge> cc_churn_s cc then r1\<lparr>rl_churn_start := t, rl_churn_count := 1\<rparr>
      else r1\<lparr>rl_churn_count := rl_churn_count r + 1\<rparr>)"
  have un: "rl_unblocked t r = r1" using assms(2) by (simp add: rl_unblocked_def r1_def)
  have f1: "rl_active r1 = rl_active r" "rl_churn_start r1 = rl_churn_start r" "rl_churn_count r1 = rl_churn_count r" "rl_blocked_until r1 = 0"
      "rl_last_failed r1 = rl_last_failed r" "rl_ip r1 = rl_ip r" "rl_failed r1 = (if 0 < rl_blocked_until r then 0 else rl_failed r)"
    using assms(1) by (simp_all add: r1_def)
  have al: "allow_entry cc t r = Ret (True, r2)"
    using assms(2,4,6-8) f1(2,3) by (auto simp: allow_entry_def un r2_def Let_def inc_i32_def)
  have f2: "rl_active r2 = rl_active r" "rl_blocked_until r2 = 0" "rl_last_failed r2 = rl_last_failed r" "rl_ip r2 = rl_ip r"
      "rl_failed r2 = (if 0 < rl_blocked_until r then 0 else rl_failed r)" "0 \<le> rl_churn_count r2" "rl_churn_count r2 \<le> rl_churn_count r + 1"
    using f1 assms(6) by (simp_all add: r2_def)
  have op: "open_entry r2 = Ret (r2\<lparr>rl_active := rl_active r + 1\<rparr>)" using f2(1) assms(3-5) by (simp add: open_entry_def inc_i32_def)
  have lf: "(if t - rl_last_failed r2 > cc_fail_s cc then 0 else rl_failed r2) = live_failures cc t r" using f2 by (simp add: live_failures_def)
  define r3 where "r3 = (let x = r2\<lparr>rl_active := rl_active r + 1, rl_failed := live_failures cc t r + 1, rl_last_failed := t\<rparr> in
      if cc_fail_n cc \<le> live_failures cc t r + 1 then x\<lparr>rl_blocked_until := t + cc_fail_block cc\<rparr> else x)"
  have "fail_entry cc t (r2\<lparr>rl_active := rl_active r + 1\<rparr>) = out_bind (inc_i32 (live_failures cc t r)) (\<lambda>n.
      let x = r2\<lparr>rl_active := rl_active r + 1, rl_failed := n, rl_last_failed := t\<rparr> in
      Ret (if n \<ge> cc_fail_n cc then x\<lparr>rl_blocked_until := t + cc_fail_block cc\<rparr> else x))"
    by (simp add: fail_entry_def lf [symmetric])
  then have fa: "fail_entry cc t (r2\<lparr>rl_active := rl_active r + 1\<rparr>) = Ret r3"
    using assms(10) by (simp add: inc_i32_def r3_def Let_def)
  have f3: "rl_active r3 = rl_active r + 1" by (simp add: r3_def Let_def)
  have "attempt_entry cc t r = Ret (True, r3\<lparr>rl_active := rl_active r\<rparr>)"
    using al op fa f3 assms(3) by (simp add: attempt_entry_def close_entry_def)
  then show ?thesis using f2 by (intro exI [of _ "r3\<lparr>rl_active := rl_active r\<rparr>"]) (simp add: r3_def Let_def)
qed

text \<open>Failures no further apart than the window keep counting.\<close>

fun close_by :: "int \<Rightarrow> i64 list \<Rightarrow> bool" where
  "close_by d (t # u # ts) \<longleftrightarrow> u - t \<le> d \<and> close_by d (u # ts)"
| "close_by d _ \<longleftrightarrow> True"

text \<open>The limits an attempt must stay below to be counted as a failure and nothing else.\<close>

definition attempts_fit :: "conn_cfg_rec \<Rightarrow> int \<Rightarrow> ip_rate_limit \<Rightarrow> bool" where
  "attempts_fit cc k r \<longleftrightarrow>
     0 \<le> rl_active r \<and> rl_active r < cc_perip cc \<and> cc_perip cc \<le> 2147483647 \<and>
     0 \<le> rl_churn_count r \<and> rl_churn_count r + k \<le> cc_churn_n cc \<and> cc_churn_n cc \<le> 2147483647"

lemma attempts_block:
  assumes "held_to s ip i" "ts \<noteq> []" "close_by (cc_fail_s (conn_cfg s)) ts" "attempts_fit (conn_cfg s) (int (length ts)) (ip_limits s ! i)"
    and "0 \<le> rl_blocked_until (ip_limits s ! i)" "rl_blocked_until (ip_limits s ! i) \<le> hd ts"
    and "0 \<le> live_failures (conn_cfg s) (hd ts) (ip_limits s ! i)"
    and "live_failures (conn_cfg s) (hd ts) (ip_limits s ! i) + int (length ts) = cc_fail_n (conn_cfg s)" "cc_fail_n (conn_cfg s) \<le> 2147483647"
    and "\<forall>t \<in> set ts. 0 \<le> t"
  shows "\<exists>r. attempt_run e ip (ts @ us) s =
      out_bind (attempt_run e ip us (put_limit i r s)) (\<lambda>(oks, s'). Ret (replicate (length ts) True @ oks, s')) \<and>
    rl_ip r = ip \<and> rl_blocked_until r = last ts + cc_fail_block (conn_cfg s)"
  using assms
proof (induction ts arbitrary: s)
  case (Cons t ts)
  let ?r = "ip_limits s ! i" let ?cc = "conn_cfg s"
  have "\<exists>r'. attempt_entry ?cc t ?r = Ret (True, r') \<and> rl_failed r' = live_failures ?cc t ?r + 1 \<and> rl_last_failed r' = t \<and>
    rl_blocked_until r' = (if cc_fail_n ?cc \<le> live_failures ?cc t ?r + 1 then t + cc_fail_block ?cc else 0) \<and>
    rl_active r' = rl_active ?r \<and> 0 \<le> rl_churn_count r' \<and> rl_churn_count r' \<le> rl_churn_count ?r + 1 \<and> rl_ip r' = rl_ip ?r"
    using Cons.prems(4-9) by (intro attempt_fails) (simp_all add: attempts_fit_def)
  then obtain r1 where r1: "attempt_entry ?cc t ?r = Ret (True, r1)" "rl_failed r1 = live_failures ?cc t ?r + 1" "rl_last_failed r1 = t"
      "rl_blocked_until r1 = (if cc_fail_n ?cc \<le> live_failures ?cc t ?r + 1 then t + cc_fail_block ?cc else 0)"
      "rl_active r1 = rl_active ?r" "0 \<le> rl_churn_count r1" "rl_churn_count r1 \<le> rl_churn_count ?r + 1" "rl_ip r1 = rl_ip ?r" by blast
  have ip: "rl_ip r1 = ip" using r1(8) held_index [OF Cons.prems(1)] by simp
  let ?s = "put_limit i r1 s"
  have h: "held_to ?s ip i" by (rule held_put [OF Cons.prems(1) ip])
  note P = put_limit_twice [OF Cons.prems(1)]
  have st: "attempt_run e ip ((t # ts) @ us) s = out_bind (attempt_run e ip (ts @ us) ?s) (\<lambda>(oks, s'). Ret (True # oks, s'))"
    by (simp add: attempt_held [OF Cons.prems(1)] r1(1))
  show ?case
  proof (cases "ts = []")
    case True
    then show ?thesis using st r1(4) ip Cons.prems(8) by (intro exI [of _ r1]) simp
  next
    case False
    then obtain u us' where u: "ts = u # us'" by (cases ts) auto
    have b: "rl_blocked_until r1 = 0" using r1(4) Cons.prems(8) u by simp
    have lf: "live_failures ?cc u r1 = live_failures ?cc t ?r + 1" using b r1(2,3) Cons.prems(3) u by (simp add: live_failures_def)
    have "\<exists>r. attempt_run e ip (ts @ us) ?s =
        out_bind (attempt_run e ip us (put_limit i r ?s)) (\<lambda>(oks, s'). Ret (replicate (length ts) True @ oks, s')) \<and>
      rl_ip r = ip \<and> rl_blocked_until r = last ts + cc_fail_block (conn_cfg ?s)"
      using Cons.prems(3,4,7-10) r1(5-7) b lf u P by (intro Cons.IH [OF h]) (simp_all add: attempts_fit_def)
    then obtain r where "attempt_run e ip (ts @ us) ?s =
        out_bind (attempt_run e ip us (put_limit i r s)) (\<lambda>(oks, s'). Ret (replicate (length ts) True @ oks, s'))"
      "rl_ip r = ip" "rl_blocked_until r = last ts + cc_fail_block ?cc" using P by auto
    then show ?thesis using st False by (intro exI [of _ r]) (cases "attempt_run e ip us (put_limit i r s)", auto)
  qed
qed simp

lemma attempts_refused:
  assumes "held_to s ip i" "\<forall>t \<in> set us. 0 < t \<and> t < rl_blocked_until (ip_limits s ! i)"
  shows "attempt_run e ip us s = Ret (replicate (length us) False, s)"
  using assms
  by (induction us) (simp_all add: attempt_held [OF assms(1)] attempt_entry_def allow_entry_def)

text \<open>
  Property C20.  An address that fails its logins is shut out.  An address that is held to the limits
  (it has an entry, it is not the trusted loopback, it has no console login on record) and has no
  failures on record that still count makes attempt after attempt, each a connection that is
  checked, opened, fails its login and is closed: exactly as many as the limit allows are let in,
  when none is further from the one before than the window; then every attempt until the end of the
  block is refused before it can try anything.  The attempts up to the limit stay below the churn
  limit, a free slot of the address remains, and nothing else changes its entry in between.
\<close>

theorem failed_logins_block:
  assumes "held_to s ip i" "r = ip_limits s ! i" "cc = conn_cfg s"
    and "int (length ts) = cc_fail_n cc" "ts \<noteq> []" "cc_fail_n cc \<le> 2147483647" "close_by (cc_fail_s cc) ts" "\<forall>t \<in> set ts. 0 \<le> t"
    and "rl_failed r = 0 \<or> cc_fail_s cc < hd ts - rl_last_failed r \<or> 0 < rl_blocked_until r"
    and "0 \<le> rl_blocked_until r" "rl_blocked_until r \<le> hd ts" "attempts_fit cc (int (length ts)) r"
    and "\<forall>t \<in> set us. 0 < t \<and> t < last ts + cc_fail_block cc"
  shows "\<exists>s'. attempt_run e ip (ts @ us) s = Ret (replicate (length ts) True @ replicate (length us) False, s')"
proof -
  have lf: "live_failures cc (hd ts) r = 0" using assms(9) by (auto simp: live_failures_def)
  have "\<exists>r. attempt_run e ip (ts @ us) s =
      out_bind (attempt_run e ip us (put_limit i r s)) (\<lambda>(oks, s'). Ret (replicate (length ts) True @ oks, s')) \<and>
    rl_ip r = ip \<and> rl_blocked_until r = last ts + cc_fail_block (conn_cfg s)"
    using assms(4-8,10-12) lf unfolding assms(2,3) by (intro attempts_block [OF assms(1)]) simp_all
  then obtain r' where r': "attempt_run e ip (ts @ us) s =
      out_bind (attempt_run e ip us (put_limit i r' s)) (\<lambda>(oks, s'). Ret (replicate (length ts) True @ oks, s'))"
      "rl_ip r' = ip" "rl_blocked_until r' = last ts + cc_fail_block cc" using assms(3) by blast
  have "attempt_run e ip us (put_limit i r' s) = Ret (replicate (length us) False, put_limit i r' s)"
    using assms(13) r'(3) put_limit_twice [OF assms(1), of r'] by (intro attempts_refused [OF held_put [OF assms(1) r'(2)]]) simp
  then show ?thesis using r'(1) by simp
qed

theorem failed_logins_block_witness:
  "\<exists>s'. attempt_run (env_at 1000) ''10.0.0.1'' [1001, 1500, 1502, 1510, 1600] example_limits = Ret ([True, True, True, False, False], s')"
proof -
  have "\<exists>s'. attempt_run (env_at 1000) ''10.0.0.1'' ([1001, 1500, 1502] @ [1510, 1600]) example_limits =
      Ret (replicate (length [1001, 1500, 1502 :: i64]) True @ replicate (length [1510, 1600 :: i64]) False, s')"
    by (rule failed_logins_block [OF example_held refl refl])
      (simp_all add: example_entry conn_cfg_default_def attempts_fit_def rl_fresh_def)
  then show ?thesis by (simp add: numeral_eq_Suc)
qed

section \<open>The SSH table\<close>

lemma block_secs_pow: "0 < secs \<Longrightarrow> min (block_secs n secs) SSH_BLOCK_MAX = min (secs * 2 ^ n) SSH_BLOCK_MAX"
proof (induction n arbitrary: secs)
  case (Suc n)
  show ?case
  proof (cases "secs < SSH_BLOCK_MAX")
    case True
    then show ?thesis using Suc.IH [of "secs * 2"] Suc.prems by (simp add: algebra_simps)
  next
    case False
    moreover have "(1::int) \<le> 2 ^ Suc n" by (rule one_le_power) simp
    then have "secs * 1 \<le> secs * 2 ^ Suc n" using Suc.prems by (intro mult_left_mono) simp_all
    ultimately show ?thesis by simp
  qed
qed simp

definition next_level :: "i64 \<Rightarrow> ssh_ip \<Rightarrow> i32" where
  "next_level now e =
     (if si_last_block e > 0 \<and> now - si_last_block e < 86400 then (if si_level e < 30 then si_level e + 1 else si_level e) else 0)"

lemma start_block_spec:
  assumes "0 < cc_block cfg" "start_block cfg now e = (secs, e')"
  shows "secs = min (cc_block cfg * 2 ^ nat (next_level now e)) 86400" "si_blocked_until e' = now + secs" "si_ip e' = si_ip e"
    "si_level e' = next_level now e" "si_last_block e' = now"
  using assms(2) block_secs_pow [OF assms(1), of "nat (next_level now e)"]
  by (auto simp: start_block_def next_level_def Let_def SSH_BLOCK_MEMORY_def SSH_BLOCK_MAX_def)

lemma ssh_find_row:
  assumes "length ip < 64" "ssh_find ip now tab = (i, tab1)"
  shows "i < length tab1 \<and> position (\<lambda>e. si_ip e = ip) tab1 = Some i"
proof (cases "position (\<lambda>e. si_ip e = ip) tab")
  case (Some j)
  then have "j < length tab" "si_ip (tab ! j) = ip" by (auto dest: position_SomeD)
  then show ?thesis using Some assms(2) position_update [OF Some, of "(tab ! j)\<lparr>si_last_seen := now\<rparr>"]
    by (auto simp: ssh_find_def)
next
  case None
  let ?f = "ssh_fresh ip now"
  have f: "si_ip ?f = ip" using assms(1) by (simp add: ssh_fresh_def)
  have no: "\<forall>e \<in> set tab. si_ip e \<noteq> ip" using None by (simp add: position_None)
  show ?thesis
  proof (cases "length tab < MAX_SSH_IPS")
    case True
    then show ?thesis using None assms(2) no f by (auto simp: ssh_find_def position_Some nth_append)
  next
    case False
    have r: "\<forall>j. ssh_recycle now tab is slot = Some j \<longrightarrow> j < length tab"
      if "\<forall>j \<in> set is. j < length tab" "\<forall>j. slot = Some j \<longrightarrow> j < length tab" for "is" slot
      using that by (induction "is" arbitrary: slot) (auto split: option.splits)
    have "0 < length tab" using False by (cases tab) (simp_all add: MAX_SSH_IPS_def)
    then have "scan_best block_ends_sooner tab [1..<length tab] 0 < length tab" by (intro scan_best_range) auto
    moreover have "ssh_recycle now tab [0..<length tab] None = Some j \<Longrightarrow> j < length tab" for j using r [of "[0..<length tab]" None] by auto
    ultimately have i: "i < length tab" "tab1 = tab[i := ?f]"
      using None False assms(2) by (auto simp: ssh_find_def Let_def split: option.splits)
    then show ?thesis using no f by (auto simp: position_Some nth_list_update)
  qed
qed

text \<open>Connections of one address at given times.\<close>

fun connect_run :: "conn_cfg_rec \<Rightarrow> string \<Rightarrow> i64 list \<Rightarrow> ssh_ip list \<Rightarrow> (bool list \<times> ssh_ip list) outcome" where
  "connect_run cfg ip [] tab = Ret ([], tab)"
| "connect_run cfg ip (t # ts) tab =
     out_bind (ssh_table_connect cfg ip t tab) (\<lambda>(ok, _, tab1). out_bind (connect_run cfg ip ts tab1) (\<lambda>(oks, tab2). Ret (ok # oks, tab2)))"

lemma peek_position: "ssh_table_peek tab ip = map_option (\<lambda>i. tab ! i) (position (\<lambda>e. si_ip e = ip) tab)"
  by (induction tab) (auto simp: ssh_table_peek_def option.map_comp comp_def)

lemma connect_run_blocked:
  assumes "ssh_table_peek tab ip = Some e" "\<forall>t \<in> set ts. t < si_blocked_until e"
  shows "\<exists>tab' e'. connect_run cfg ip ts tab = Ret (replicate (length ts) False, tab') \<and> ssh_table_peek tab' ip = Some e' \<and>
    si_blocked_until e' = si_blocked_until e \<and> si_level e' = si_level e \<and> si_last_block e' = si_last_block e"
  using assms
proof (induction ts arbitrary: tab e)
  case (Cons t ts)
  obtain i where i: "position (\<lambda>e. si_ip e = ip) tab = Some i" "tab ! i = e"
    using Cons.prems(1) by (auto simp: peek_position)
  have il: "i < length tab" "si_ip e = ip" using position_SomeD [OF i(1)] i(2) by auto
  let ?e = "e\<lparr>si_last_seen := t\<rparr>" let ?tab = "tab[i := ?e]"
  have c: "ssh_table_connect cfg ip t tab = Ret (False, 0, ?tab)"
    using i il Cons.prems(2) by (simp add: ssh_table_connect_def ssh_find_def Let_def)
  have "position (\<lambda>e. si_ip e = ip) ?tab = Some i" using i(1) il(2) by (intro position_update) auto
  then have p: "ssh_table_peek ?tab ip = Some ?e" using il(1) by (simp add: peek_position)
  have "\<forall>t \<in> set ts. t < si_blocked_until ?e" using Cons.prems(2) by simp
  from Cons.IH [OF p this] show ?case using c by auto
qed simp

lemma find_row_entry:
  assumes "length ip < 64" "ssh_find ip now tab = (i, tab1)"
  shows "tab1 ! i = (case ssh_table_peek tab ip of Some e \<Rightarrow> e\<lparr>si_last_seen := now\<rparr> | None \<Rightarrow> ssh_fresh ip now)"
proof (cases "position (\<lambda>e. si_ip e = ip) tab")
  case (Some j)
  then show ?thesis using assms(2) position_SomeD [OF Some] by (auto simp: ssh_find_def peek_position)
next
  case None
  have "tab1 = tab @ [ssh_fresh ip now] \<and> i = length tab \<or> tab1 = tab[i := ssh_fresh ip now]"
    using None assms(2) by (auto simp: ssh_find_def Let_def split: if_splits)
  moreover have "i < length tab1" using ssh_find_row [OF assms] by simp
  ultimately have "tab1 ! i = ssh_fresh ip now" by auto
  then show ?thesis using None by (simp add: peek_position)
qed

text \<open>
  Property C23.  A refused SSH login that starts a block shuts the address out of the console.  The
  first block lasts the configured time; each further one within a day of the last is one level
  higher (thirty at most) and lasts twice as long, up to a day; after a day without a block the
  levels start again.  Until the block ends every SSH connection of the address is turned away,
  however often it asks, and asking neither lengthens nor shortens the block.
\<close>

theorem ssh_block_holds:
  assumes "ssh_table_failed cfg ip now tab = Ret (secs, tab')" "0 < secs" "0 < cc_block cfg" "length ip < 64"
    and "lev = (case ssh_table_peek tab ip of
           Some e \<Rightarrow> if 0 < si_last_block e \<and> now - si_last_block e < 86400 then (if si_level e < 30 then si_level e + 1 else si_level e) else 0
         | None \<Rightarrow> 0)"
    and "\<forall>t \<in> set ts. t < now + secs"
  shows "secs = min (cc_block cfg * 2 ^ nat lev) 86400 \<and>
    (\<exists>tab'' e'. connect_run cfg ip ts tab' = Ret (replicate (length ts) False, tab'') \<and> ssh_table_peek tab'' ip = Some e' \<and>
       si_level e' = lev \<and> si_blocked_until e' = now + secs \<and> si_last_block e' = now)"
proof -
  obtain i tab1 where f: "ssh_find ip now tab = (i, tab1)" by (cases "ssh_find ip now tab")
  note row = ssh_find_row [OF assms(4) f]
  obtain e3 e4 where b: "start_block cfg now e3 = (secs, e4)" "tab' = tab1[i := e4]" "si_ip e3 = si_ip (tab1 ! i)"
      "si_level e3 = si_level (tab1 ! i)" "si_last_block e3 = si_last_block (tab1 ! i)"
    using assms(1,2) f
    by (auto simp: ssh_table_failed_def Let_def inc_i32_def block_expired_def split: if_splits prod.splits)
  have "next_level now e3 = lev"
    using find_row_entry [OF assms(4) f] b(4,5) unfolding assms(5) by (simp add: next_level_def ssh_fresh_def split: option.splits)
  note B = start_block_spec [OF assms(3) b(1), unfolded this]
  have ip: "si_ip e4 = ip" using B(3) b(3) row by (auto dest: position_SomeD)
  have "position (\<lambda>e. si_ip e = ip) tab' = Some i" unfolding b(2) using row ip by (intro position_update) auto
  then have p: "ssh_table_peek tab' ip = Some e4" using row b(2) by (simp add: peek_position)
  have "\<forall>t \<in> set ts. t < si_blocked_until e4" using assms(6) B(2) by simp
  from connect_run_blocked [OF p this, of cfg] show ?thesis using B by auto
qed

theorem ssh_block_holds_witness:
  "\<exists>tab''. connect_run conn_cfg_default ''10.0.0.9'' [1200, 1300, 1599] [(ssh_fresh ''10.0.0.9'' 1000)\<lparr>si_fail_n := 0, si_level := 1,
        si_fail_last := 1000, si_blocked_until := 1600, si_last_block := 1000\<rparr>] = Ret ([False, False, False], tab'') \<and>
      map_option si_blocked_until (ssh_table_peek tab'' ''10.0.0.9'') = Some 1600"
proof -
  let ?e = "(ssh_fresh ''10.0.0.9'' 1000)\<lparr>si_fail_n := 2, si_fail_last := 990, si_last_block := 400\<rparr>"
  let ?e' = "(ssh_fresh ''10.0.0.9'' 1000)\<lparr>si_fail_n := 0, si_level := 1, si_fail_last := 1000, si_blocked_until := 1600, si_last_block := 1000\<rparr>"
  have f: "ssh_table_failed conn_cfg_default ''10.0.0.9'' 1000 [?e] = Ret (600, [?e'])"
    by (simp add: ssh_table_failed_def ssh_find_def ssh_fresh_def block_expired_def inc_i32_def start_block_def conn_cfg_default_def
        SSH_BLOCK_MAX_def SSH_BLOCK_MEMORY_def)
  have "\<forall>t \<in> set [1200, 1300, 1599]. t < 1000 + (600 :: int)" by simp
  from ssh_block_holds [OF f _ _ _ refl this] show ?thesis by (auto simp: conn_cfg_default_def)
qed

section \<open>Eviction is fair\<close>

definition better_login :: "(string \<times> i64) list \<Rightarrow> string \<Rightarrow> nat \<Rightarrow> nat \<Rightarrow> bool" where
  "better_login ls new_ip v j \<longleftrightarrow>
     login_count ls new_ip (fst (ls ! j)) < login_count ls new_ip (fst (ls ! v)) \<or>
     (login_count ls new_ip (fst (ls ! j)) = login_count ls new_ip (fst (ls ! v)) \<and> snd (ls ! v) \<le> snd (ls ! j))"

lemma evict_scan_best:
  assumes "\<forall>b c. best = Some (b, c) \<longrightarrow> c = login_count ls new_ip (fst (ls ! b)) \<and> (\<forall>j \<in> set done. better_login ls new_ip b j)"
    and "best = None \<longrightarrow> done = []"
  shows "case evict_scan ls new_ip is best of
      None \<Rightarrow> done @ is = []
    | Some (v, c) \<Rightarrow> (best = Some (v, c) \<or> v \<in> set is) \<and> (\<forall>j \<in> set (done @ is). better_login ls new_ip v j)"
  using assms
proof (induction "is" arbitrary: best "done")
  case Nil
  then show ?case by (auto split: option.split)
next
  case (Cons i "is")
  let ?c = "login_count ls new_ip (fst (ls ! i))"
  define best' where "best' = (case best of None \<Rightarrow> Some (i, ?c)
      | Some (b, c) \<Rightarrow> if ?c > c \<or> (?c = c \<and> snd (ls ! i) < snd (ls ! b)) then Some (i, ?c) else best)"
  have st: "evict_scan ls new_ip (i # is) best = evict_scan ls new_ip is best'" by (simp add: best'_def Let_def)
  have b: "\<forall>b c. best' = Some (b, c) \<longrightarrow> c = login_count ls new_ip (fst (ls ! b)) \<and> (\<forall>j \<in> set (done @ [i]). better_login ls new_ip b j)"
    using Cons.prems by (fastforce simp: best'_def better_login_def split: option.splits if_splits)
  have n: "best' \<noteq> None" "best' = best \<or> best' = Some (i, ?c)" by (auto simp: best'_def split: option.splits)
  from Cons.IH [OF b] n show ?case unfolding st by (auto split: option.splits)
qed

text \<open>
  Property C25.  When every SSH login slot is taken, the login that gives way is one of the address
  that holds the most slots (the newcomer's own counted one higher), and of those the oldest: an
  address with few logins never loses its slot to a flood from others.  Only an empty list has no
  candidate.
\<close>

theorem evict_pick_fair:
  "case evict_pick ls new_ip of
     None \<Rightarrow> ls = []
   | Some v \<Rightarrow> v < length ls \<and> (\<forall>j < length ls. better_login ls new_ip v j)"
  using evict_scan_best [of None ls new_ip "[]" "[0..<length ls]"] by (auto simp: evict_pick_def split: option.splits)

theorem evict_pick_fair_witness:
  "evict_pick [(''10.0.0.1'', 5), (''10.0.0.2'', 1), (''10.0.0.1'', 3)] ''10.0.0.3'' = Some 2 \<and>
   better_login [(''10.0.0.1'', 5), (''10.0.0.2'', 1), (''10.0.0.1'', 3)] ''10.0.0.3'' 2 0 \<and>
   better_login [(''10.0.0.1'', 5), (''10.0.0.2'', 1), (''10.0.0.1'', 3)] ''10.0.0.3'' 2 1"
proof -
  let ?ls = "[(''10.0.0.1'', 5), (''10.0.0.2'', 1), (''10.0.0.1'', 3)] :: (string \<times> i64) list"
  have e: "evict_pick ?ls ''10.0.0.3'' = Some 2" by code_simp
  have "\<forall>j < length ?ls. better_login ?ls ''10.0.0.3'' 2 j"
    using evict_pick_fair [of ?ls "''10.0.0.3''"] unfolding e by simp
  then have "better_login ?ls ''10.0.0.3'' 2 0" "better_login ?ls ''10.0.0.3'' 2 1" by simp_all
  with e show ?thesis by simp
qed

section \<open>A flood of addresses forgets no block\<close>

lemma idle_slot_idle:
  assumes "\<forall>i \<in> set is. i < length es" "\<forall>j x. slot = Some (j, x) \<longrightarrow> j < length es \<and> \<not> rl_busy t (es ! j)"
    and "idle_slot t es is slot = Some (k, y)"
  shows "k < length es \<and> \<not> rl_busy t (es ! k)"
  using assms
proof (induction "is" arbitrary: slot)
  case (Cons i "is")
  define slot' where "slot' = (if rl_busy t (es ! i) then slot
        else case slot of None \<Rightarrow> Some (i, rl_last (es ! i))
          | Some (_, oldest) \<Rightarrow> if rl_last (es ! i) < oldest then Some (i, rl_last (es ! i)) else slot)"
  have "\<forall>j x. slot' = Some (j, x) \<longrightarrow> j < length es \<and> \<not> rl_busy t (es ! j)"
    using Cons.prems(1,2) by (auto simp: slot'_def split: option.splits if_splits)
  moreover have "idle_slot t es (i # is) slot = idle_slot t es is slot'" by (simp only: idle_slot.simps slot'_def)
  ultimately show ?case using Cons.IH [of slot'] Cons.prems(1,3) by simp
qed simp

lemma find_or_create_cases:
  obtains (none) "find_or_create e ip s = (None, s)"
    | (old) i where "find_or_create e ip s = (Some i, s)" "i < length (ip_limits s)" "rl_ip (ip_limits s ! i) = ip"
    | (new) "find_or_create e ip s = (Some (length (ip_limits s)), s\<lparr>ip_limits := ip_limits s @ [rl_fresh ip (env_now e)]\<rparr>)"
    | (reuse) i where "find_or_create e ip s = (Some i, s\<lparr>ip_limits := (ip_limits s)[i := rl_fresh ip (env_now e)]\<rparr>)"
        "i < length (ip_limits s)" "\<not> rl_busy (env_now e) (ip_limits s ! i)"
proof (cases "position (\<lambda>r. rl_ip r = ip) (ip_limits s)")
  case (Some i)
  then show ?thesis using old [of i] by (auto simp: find_or_create_def ip_limit_slot_def dest: position_SomeD)
next
  case None
  let ?sl = "idle_slot (env_now e) (ip_limits s) [0..<length (ip_limits s)] None"
  show ?thesis
  proof (cases "length (ip_limits s) < MAX_IP_RATE_LIMITS")
    case True
    then show ?thesis using None new by (simp add: find_or_create_def ip_limit_slot_def)
  next
    case False
    show ?thesis
    proof (cases ?sl)
      case N: None
      then show ?thesis using None False none by (simp add: find_or_create_def ip_limit_slot_def)
    next
      case (Some ky)
      obtain k y where ky: "ky = (k, y)" by (cases ky)
      have k: "k < length (ip_limits s) \<and> \<not> rl_busy (env_now e) (ip_limits s ! k)"
        by (rule idle_slot_idle [OF _ _ Some [unfolded ky]]) simp_all
      then show ?thesis using None False Some ky reuse [of k] by (simp add: find_or_create_def ip_limit_slot_def)
    qed
  qed
qed

lemma set_update_other: "r \<in> set xs \<Longrightarrow> xs ! i \<noteq> r \<Longrightarrow> r \<in> set (xs[i := y])"
  by (metis in_set_conv_nth length_list_update nth_list_update_neq)

lemma find_or_create_keeps:
  assumes "r \<in> set (ip_limits s)" "rl_busy (env_now e) r" "find_or_create e ip s = (x, s1)" "length ip < 64"
  shows "r \<in> set (ip_limits s1) \<and> (\<forall>i. x = Some i \<longrightarrow> i < length (ip_limits s1) \<and> rl_ip (ip_limits s1 ! i) = ip)"
proof (cases rule: find_or_create_cases [of e ip s])
  case (reuse i)
  then have "r \<in> set ((ip_limits s)[i := rl_fresh ip (env_now e)])" using assms(1,2) by (intro set_update_other) auto
  then show ?thesis using reuse assms(3,4) by (auto simp: rl_fresh_def)
qed (use assms in \<open>auto simp: rl_fresh_def nth_append\<close>)

text \<open>
  Property C24.  A flood of addresses cannot flush the table: whatever another address does, an entry
  with an open connection or a running block stays, unchanged, until it has neither.
\<close>

theorem busy_entry_stays:
  assumes "r \<in> set (ip_limits s)" "rl_busy (env_now e) r" "rl_ip r \<noteq> ip" "length ip < 64"
    and "is_ip_allowed e ip s = Ret (ok, s') \<or> increment_active_connections e ip s = Ret s' \<or> record_failed_auth e ip s = Ret s'"
  shows "r \<in> set (ip_limits s')"
proof -
  obtain x s1 where f: "find_or_create e ip s = (x, s1)" by (cases "find_or_create e ip s")
  note K = find_or_create_keeps [OF assms(1,2) f assms(4)]
  have "s' = s \<or> s' = s1 \<or> (\<exists>i r'. x = Some i \<and> s' = put_limit i r' s1)"
    using assms(5) f
    by (auto simp: is_ip_allowed_def increment_active_connections_def record_failed_auth_def out_bind_Ret Let_def split: if_splits option.splits)
  moreover have "r \<in> set (ip_limits (put_limit i r' s1))" if "x = Some i" for i r'
    using K that assms(3) set_update_other [of r "ip_limits s1" i r'] by (auto simp: put_limit_def)
  ultimately show ?thesis using K assms(1) by auto
qed

theorem busy_entry_stays_witness:
  "\<exists>s'. increment_active_connections (env_at 1000) ''10.0.0.2'' (hub_state_new\<lparr>ip_limits := [(rl_fresh ''10.0.0.1'' 1000)\<lparr>rl_active := 1\<rparr>]\<rparr>) = Ret s' \<and>
     (rl_fresh ''10.0.0.1'' 1000)\<lparr>rl_active := 1\<rparr> \<in> set (ip_limits s')"
proof -
  let ?r = "(rl_fresh ''10.0.0.1'' 1000)\<lparr>rl_active := 1\<rparr>" let ?s = "hub_state_new\<lparr>ip_limits := [?r]\<rparr>"
  have f: "find_or_create (env_at 1000) ''10.0.0.2'' ?s = (Some 1, ?s\<lparr>ip_limits := [?r, rl_fresh ''10.0.0.2'' 1000]\<rparr>)"
    by (simp add: find_or_create_def ip_limit_slot_def rl_fresh_def MAX_IP_RATE_LIMITS_def env_at_def)
  have a: "rl_active (rl_fresh ip t) = 0" for ip t by (simp add: rl_fresh_def)
  obtain s' where r: "increment_active_connections (env_at 1000) ''10.0.0.2'' ?s = Ret s'"
    unfolding increment_active_connections_def f by (simp add: a inc_i32_def)
  have "?r \<in> set (ip_limits ?s)" "rl_busy (env_now (env_at 1000)) ?r" "rl_ip ?r \<noteq> ''10.0.0.2''" by (simp_all add: rl_busy_def rl_fresh_def)
  from busy_entry_stays [OF this, of True s'] r have "?r \<in> set (ip_limits s')" by simp
  then show ?thesis using r by simp
qed

end
