(* ===== verification/Chan_Modes.thy ===== *)
theory Chan_Modes
  imports Mesh_Send Rate_Limit Glob_Overlap Store_Steps "HOL-Library.Product_Lexorder"
begin

text \<open>
  The channel settings, network defaults and bans of \<^verbatim>\<open>src/src/modes.rs\<close>: the table of settings
  and their checks, the text of a settings list, the mode strings, the console's reads and writes
  of the C|, D| and B| records, the guard that keeps a ban off a trusted bot or an admin, the rules
  for the bans a bot writes, the expiry sweep and the receipt of channel events.  Every write goes
  through \<^const>\<open>put_record\<close>, every announcement through the mesh.  What is shown: the greedy pattern matcher ends and
  agrees with the language of a pattern, and an updated settings list is read back.
\<close>

section \<open>The setting table\<close>

datatype st_kind = St_Flag | St_Num | St_Flood | St_Sendq

record setting_def =
  sd_name :: string
  sd_kind :: st_kind
  sd_lo :: i64
  sd_hi :: i64
  sd_def :: string
  sd_net_only :: bool

definition sd :: "string \<Rightarrow> st_kind \<Rightarrow> i64 \<Rightarrow> i64 \<Rightarrow> string \<Rightarrow> bool \<Rightarrow> setting_def" where
  "sd name kind lo hi df net_only =
     \<lparr>sd_name = name, sd_kind = kind, sd_lo = lo, sd_hi = hi, sd_def = df, sd_net_only = net_only\<rparr>"

definition SETTINGS :: "setting_def list" where
  "SETTINGS =
     [sd ''enforcemodes'' St_Flag 0 1 ''0'' False,
      sd ''bitch'' St_Flag 0 1 ''0'' False,
      sd ''protectops'' St_Flag 0 1 ''1'' False,
      sd ''revenge'' St_Flag 0 1 ''0'' False,
      sd ''stopnethack'' St_Flag 0 1 ''0'' False,
      sd ''enforcebans'' St_Flag 0 1 ''0'' False,
      sd ''dynamicbans'' St_Flag 0 1 ''1'' False,
      sd ''dontkickops'' St_Flag 0 1 ''1'' False,
      sd ''cycle'' St_Flag 0 1 ''1'' False,
      sd ''dynamiclimit'' St_Flag 0 1 ''0'' False,
      sd ''bantime'' St_Num 0 525600 ''120'' False,
      sd ''bantype'' St_Num 0 9 ''2'' False,
      sd ''banidle'' St_Num 1 10080 ''60'' False,
      sd ''limitgap'' St_Num 1 1000 ''5'' False,
      sd ''limitdelay'' St_Num 10 3600 ''60'' False,
      sd ''flood chan'' St_Flood 0 0 ''15:60'' False,
      sd ''flood ctcp'' St_Flood 0 0 ''3:60'' False,
      sd ''flood join'' St_Flood 0 0 ''5:60'' False,
      sd ''flood nick'' St_Flood 0 0 ''5:60'' False,
      sd ''flood deop'' St_Flood 0 0 ''3:10'' False,
      sd ''flood kick'' St_Flood 0 0 ''3:10'' False,
      sd ''flood ban'' St_Flood 0 0 ''3:10'' False,
      sd ''bflood cmd'' St_Flood 0 0 ''10:30'' True,
      sd ''bflood msg'' St_Flood 0 0 ''5:60'' True,
      sd ''bflood ctcp'' St_Flood 0 0 ''3:60'' True,
      sd ''ignoretime'' St_Num 1 1440 ''10'' True,
      sd ''sendq'' St_Sendq 0 0 ''10:100'' True]"

definition setting_find :: "string \<Rightarrow> setting_def option" where
  "setting_find name = List.find (\<lambda>d. sd_name d = name) SETTINGS"

definition setting_count :: nat where
  "setting_count = length SETTINGS"

definition setting_name :: "nat \<Rightarrow> string option" where
  "setting_name i = (if i < length SETTINGS then Some (sd_name (SETTINGS ! i)) else None)"

definition setting_kind :: "string \<Rightarrow> string option" where
  "setting_kind name =
     map_option (\<lambda>d. case sd_kind d of St_Flag \<Rightarrow> ''flag'' | St_Num \<Rightarrow> ''num'' | St_Flood \<Rightarrow> ''flood'' | St_Sendq \<Rightarrow> ''sendq'')
       (setting_find name)"

definition setting_net_only :: "string \<Rightarrow> bool" where
  "setting_net_only name = (case setting_find name of None \<Rightarrow> False | Some d \<Rightarrow> sd_net_only d)"

definition setting_range :: "string \<Rightarrow> (i64 \<times> i64) option" where
  "setting_range name =
     (case setting_find name of
        Some d \<Rightarrow> if sd_kind d = St_Num then Some (sd_lo d, sd_hi d) else None
      | None \<Rightarrow> None)"

text \<open>At most nine digits: the \<^verbatim>\<open>i64\<close> arithmetic of the fold cannot overflow.\<close>

definition parse_num :: "string \<Rightarrow> i64 option" where
  "parse_num s =
     (if s = [] \<or> length s > 9 \<or> \<not> list_all is_digit s then None
      else Some (foldl (\<lambda>v c. v * 10 + int (digit_val c)) 0 s))"

datatype modes_status =
  Ms_Ok | Ms_BadChan | Ms_NotManaged | Ms_BadModes | Ms_BadSetting | Ms_TooLong | Ms_BadMask | Ms_BadReason |
  Ms_BadExpiry | Ms_Protected | Ms_NotFound | Ms_Full | Ms_Frozen

text \<open>Two numbers around the first colon, which stands within the first sixteen bytes.\<close>

definition parse_pair :: "string \<Rightarrow> (i64 \<times> i64) option" where
  "parse_pair value =
     (case split_once (CHR '':'') value of
        None \<Rightarrow> None
      | Some (l, r) \<Rightarrow>
          if length l < 16 then
            (case (parse_num l, parse_num r) of (Some n, Some m) \<Rightarrow> Some (n, m) | _ \<Rightarrow> None)
          else None)"

definition setting_check :: "string \<Rightarrow> string \<Rightarrow> bool \<Rightarrow> modes_status" where
  "setting_check name value net_default =
     (case setting_find name of
        None \<Rightarrow> Ms_BadSetting
      | Some d \<Rightarrow>
          if sd_net_only d \<and> \<not> net_default then Ms_BadSetting
          else let ok = (case sd_kind d of
                 St_Flag \<Rightarrow> value = ''0'' \<or> value = ''1''
               | St_Num \<Rightarrow> (case parse_num value of Some v \<Rightarrow> v \<ge> sd_lo d \<and> v \<le> sd_hi d | None \<Rightarrow> False)
               | St_Flood \<Rightarrow> value = ''off'' \<or>
                   (case parse_pair value of Some (n, sec) \<Rightarrow> 1 \<le> n \<and> n \<le> 1000 \<and> 1 \<le> sec \<and> sec \<le> 3600 | None \<Rightarrow> False)
               | St_Sendq \<Rightarrow>
                   (case parse_pair value of Some (b, ms) \<Rightarrow> 1 \<le> b \<and> b \<le> 100 \<and> 0 \<le> ms \<and> ms \<le> 10000 | None \<Rightarrow> False))
               in if ok then Ms_Ok else Ms_BadSetting)"

section \<open>The settings list\<close>

text \<open>
  \<^verbatim>\<open>settings_walk\<close>: what the walk hands to its callback for one token, and the walk as a loop
  over a state that may stop it.
\<close>

definition walk_item :: "string \<Rightarrow> string \<times> string" where
  "walk_item tok =
     (case split_once (CHR ''='') tok of
        None \<Rightarrow> ([], [])
      | Some (name, value) \<Rightarrow>
          if name = [] then ([], [])
          else if length name < 48 \<and> length value < 48 then (name, value) else ([], []))"

fun walk :: "string list \<Rightarrow> (string \<Rightarrow> string \<Rightarrow> 'a \<Rightarrow> bool \<times> 'a) \<Rightarrow> 'a \<Rightarrow> bool \<times> 'a" where
  "walk [] f a = (True, a)"
| "walk (tok # toks) f a =
     (let (keep, a1) = f (fst (walk_item tok)) (snd (walk_item tok)) a in if keep then walk toks f a1 else (False, a1))"

definition settings_walk :: "string \<Rightarrow> (string \<Rightarrow> string \<Rightarrow> 'a \<Rightarrow> bool \<times> 'a) \<Rightarrow> 'a \<Rightarrow> bool \<times> 'a" where
  "settings_walk settings f a = walk (settings_tokens settings) f a"

definition settings_check :: "string \<Rightarrow> bool \<Rightarrow> modes_status \<times> string" where
  "settings_check settings net_default =
     (if length settings > (if net_default then D_SETTINGS_MAX else C_SETTINGS_MAX) then (Ms_TooLong, [])
      else snd (settings_walk settings
        (\<lambda>name value st.
           if name = [] then (False, (Ms_BadSetting, ''?''))
           else if setting_find name = None then (True, st)
           else if setting_check name value net_default \<noteq> Ms_Ok then (False, (Ms_BadSetting, name))
           else (True, st))
        (Ms_Ok, [])))"

definition settings_get :: "string \<Rightarrow> string \<Rightarrow> string option" where
  "settings_get settings name =
     snd (settings_walk settings (\<lambda>n v found. if n \<noteq> name then (True, found) else (False, Some v)) None)"

text \<open>\<^verbatim>\<open>settings_set\<close>: the loop over the kept tokens (\<^const>\<open>None\<close>: too long), then the new one.\<close>

definition SETTINGS_OUT_CAP :: nat where "SETTINGS_OUT_CAP = C_SETTINGS_MAX + 64"

definition same_setting :: "string \<Rightarrow> string \<Rightarrow> bool" where
  "same_setting name tok \<longleftrightarrow>
     position (\<lambda>c. c = CHR ''='') tok = Some (length name) \<and> take (length name) tok = name"

fun settings_copy :: "string \<Rightarrow> string list \<Rightarrow> string \<Rightarrow> string option" where
  "settings_copy name [] out = Some out"
| "settings_copy name (tok # toks) out =
     (if tok \<noteq> [] \<and> \<not> same_setting name tok then
        if length out + length tok + 2 \<ge> SETTINGS_OUT_CAP then None
        else settings_copy name toks (if out = [] then tok else out @ CHR '','' # tok)
      else settings_copy name toks out)"

definition settings_set :: "string \<Rightarrow> nat \<Rightarrow> string \<Rightarrow> string option \<Rightarrow> modes_status \<times> string" where
  "settings_set settings cap name value =
     (if cap = 0 \<or> name = [] \<or> CHR ''='' \<in> set name \<or> CHR '','' \<in> set name \<or>
         (case value of None \<Rightarrow> False | Some v \<Rightarrow> CHR '','' \<in> set v \<or> CHR ''|'' \<in> set v)
      then (Ms_BadSetting, settings)
      else case settings_copy name (settings_tokens settings) [] of
        None \<Rightarrow> (Ms_TooLong, settings)
      | Some out \<Rightarrow>
          (case value of
             None \<Rightarrow> if length out \<ge> cap then (Ms_TooLong, settings) else (Ms_Ok, out)
           | Some v \<Rightarrow>
               let add = (if out = [] then [] else '','') @ name @ ''='' @ v in
               if length out + length add \<ge> SETTINGS_OUT_CAP then (Ms_TooLong, settings)
               else if length (out @ add) \<ge> cap then (Ms_TooLong, settings) else (Ms_Ok, out @ add)))"

section \<open>Mode strings\<close>

text \<open>The letters seen with their sign, in order; a letter twice or without a sign is an error.\<close>

fun modes_letters :: "string \<Rightarrow> char option \<Rightarrow> (char \<times> char) list \<Rightarrow> (char \<times> char) list option" where
  "modes_letters [] sign seen = Some seen"
| "modes_letters (c # cs) sign seen =
     (if c = CHR ''+'' \<or> c = CHR ''-'' then modes_letters cs (Some c) seen
      else case sign of
        None \<Rightarrow> None
      | Some sg \<Rightarrow>
          if c \<notin> set ''imnpstkl'' then None
          else if c \<in> fst ` set seen then None
          else modes_letters cs sign (seen @ [(c, sg)]))"

definition modes_check :: "string \<Rightarrow> modes_status" where
  "modes_check modes =
     (if modes = [] then Ms_Ok
      else if length modes > C_MODES_MAX then Ms_TooLong
      else let (head, arg) = (case split_once (CHR '' '') modes of None \<Rightarrow> (modes, None) | Some (l, r) \<Rightarrow> (l, Some r)) in
        case modes_letters head None [] of
          None \<Rightarrow> Ms_BadModes
        | Some seen \<Rightarrow>
            let plus = (\<lambda>c. (c, CHR ''+'') \<in> set seen) in
            if seen = [] \<or> (plus (CHR ''s'') \<and> plus (CHR ''p'')) then Ms_BadModes
            else case arg of
              Some a \<Rightarrow>
                if \<not> plus (CHR ''l'') \<or> CHR '' '' \<in> set a \<or>
                   \<not> (case parse_num a of Some l \<Rightarrow> 1 \<le> l \<and> l \<le> 99999 | None \<Rightarrow> False)
                then Ms_BadModes else Ms_Ok
            | None \<Rightarrow> if plus (CHR ''l'') then Ms_BadModes else Ms_Ok)"

section \<open>The stored settings\<close>

definition OPT_CONFIG_FROZEN :: char where "OPT_CONFIG_FROZEN = CHR ''F''"
definition BOT_BANS_PER_CHAN :: nat where "BOT_BANS_PER_CHAN = 10"
definition BAN_BOT_SLACK :: i64 where "BAN_BOT_SLACK = 60"
definition BANTIME_DEFAULT_MIN :: i64 where "BANTIME_DEFAULT_MIN = 120"
definition BAN_SWEEP_INTERVAL :: i64 where "BAN_SWEEP_INTERVAL = 60"
definition CHAN_EVENT_TARGET_MAX :: nat where "CHAN_EVENT_TARGET_MAX = 120"
definition CHAN_EVENT_DETAIL_MAX :: nat where "CHAN_EVENT_DETAIL_MAX = 160"
definition CHAN_EVENT_WINDOW :: i64 where "CHAN_EVENT_WINDOW = 60"
definition CHAN_EVENT_MAX_PER_WINDOW :: i32 where "CHAN_EVENT_MAX_PER_WINDOW = 30"

record chanset =
  cs_chan :: string
  cs_modes :: string
  cs_settings :: string
  cs_ts :: i64

record ban =
  bn_chan :: string
  bn_mask :: string
  bn_expires :: i64
  bn_flags :: string
  bn_setter :: string
  bn_reason :: string
  bn_ts :: i64
  bn_last_used :: i64

definition state_opt :: "hub_state \<Rightarrow> char \<Rightarrow> bool" where
  "state_opt s flag \<longleftrightarrow> flag \<in> set (opt_flags s)"

definition frozen :: "hub_state \<Rightarrow> bool" where
  "frozen s = state_opt s OPT_CONFIG_FROZEN"

definition record_line :: "string \<Rightarrow> string \<Rightarrow> i64 \<Rightarrow> string" where
  "record_line key value ts = key @ ''|'' @ value @ ''|'' @ show_int ts @ [CHR 0x0A]"

definition announce_record :: "env \<Rightarrow> string \<Rightarrow> string \<Rightarrow> i64 \<Rightarrow> hub_state \<Rightarrow> hub_state outcome" where
  "announce_record e key value ts s =
     (let line = record_line key value ts in
      out_bind (if length line < 1200 then broadcast_sync_to_peers e line (-1) s else Ret s)
        (\<lambda>s1. Ret (s1\<lparr>config_dirty := True, bot_config_pending := True\<rparr>)))"

definition chan_name_shape :: "string \<Rightarrow> bool" where
  "chan_name_shape s =
     (if length s < 2 \<or> length s \<ge> MAX_CHAN \<or> (s ! 0 \<noteq> CHR ''#'' \<and> s ! 0 \<noteq> CHR ''&'') then False
      else list_all (\<lambda>c. byte c > 0x20 \<and> c \<noteq> CHR '','' \<and> byte c \<noteq> 0x7f \<and> c \<noteq> CHR ''|'') s)"

definition field :: "string \<Rightarrow> nat \<Rightarrow> nat \<Rightarrow> string" where
  "field v i cap =
     (let fs = split_on (CHR ''|'') v in if i < length fs then trunc_string (fs ! i) cap else [])"

definition entry_field :: "config_entry \<Rightarrow> nat \<Rightarrow> nat \<Rightarrow> string" where
  "entry_field en i cap = field (ce_value en) i cap"

definition ban_reason :: "config_entry \<Rightarrow> nat \<Rightarrow> string" where
  "ban_reason en cap =
     (let v = ce_value en in
      case rsplit_once (CHR ''|'') v of
        None \<Rightarrow> []
      | Some (before, _) \<Rightarrow>
          (case nth_bar 5 0 v of
             None \<Rightarrow> []
           | Some q \<Rightarrow> if length before < q + 1 then [] else trunc_string (drop (q + 1) (take (length before) v)) cap))"

definition chanset_get :: "hub_state \<Rightarrow> string \<Rightarrow> chanset option" where
  "chanset_get s chan =
     (case global_find s ''C'' chan of
        None \<Rightarrow> None
      | Some i \<Rightarrow>
          let en = global_entries s ! i in
          if \<not> global_value_active (ce_value en) then None
          else Some \<lparr>cs_chan = entry_field en 0 MAX_CHAN, cs_modes = entry_field en 1 (C_MODES_MAX + 1),
                     cs_settings = entry_field en 2 (C_SETTINGS_MAX + 1), cs_ts = ce_ts en\<rparr>)"

definition netset_get :: "hub_state \<Rightarrow> chanset option" where
  "netset_get s =
     (case global_find s ''D'' [] of
        None \<Rightarrow> None
      | Some i \<Rightarrow>
          let en = global_entries s ! i;
              cs = \<lparr>cs_chan = [], cs_modes = entry_field en 0 (C_MODES_MAX + 1),
                    cs_settings = entry_field en 1 (D_SETTINGS_MAX + 1), cs_ts = ce_ts en\<rparr>
          in if cs_modes cs \<noteq> [] \<or> cs_settings cs \<noteq> [] then Some cs else None)"

text \<open>Store an accepted value and announce it; \<^verbatim>\<open>Full\<close> when the store refuses.\<close>

definition put_announce :: "env \<Rightarrow> string \<Rightarrow> string \<Rightarrow> i64 \<Rightarrow> modes_status \<Rightarrow> hub_state \<Rightarrow> (modes_status \<times> hub_state) outcome" where
  "put_announce e key value ts refused s =
     (let (ok, s1) = put_record e key value ts s in
      if \<not> ok then Ret (refused, s1)
      else out_bind (announce_record e key value ts s1) (\<lambda>s2. Ret (Ms_Ok, s2)))"

definition chanset_put :: "env \<Rightarrow> string \<Rightarrow> string \<Rightarrow> string \<Rightarrow> hub_state \<Rightarrow> (modes_status \<times> hub_state) outcome" where
  "chanset_put e chan modes settings s =
     (if frozen s then Ret (Ms_Frozen, s)
      else if \<not> chan_name_shape chan then Ret (Ms_BadChan, s)
      else case chan_live s chan of
        None \<Rightarrow> Ret (Ms_NotManaged, s)
      | Some name \<Rightarrow>
          if modes_check modes \<noteq> Ms_Ok then Ret (modes_check modes, s)
          else if fst (settings_check settings False) \<noteq> Ms_Ok then Ret (fst (settings_check settings False), s)
          else if modes = [] \<and> settings = [] \<and> chanset_get s name = None then Ret (Ms_Ok, s)
          else let value = (if modes = [] \<and> settings = [] then name @ ''|||del''
                            else name @ ''|'' @ modes @ ''|'' @ settings @ ''|add'')
               in put_announce e ''C'' value (lww_next_ts e (global_ts s ''C'' name)) Ms_Full s)"

definition netset_put :: "env \<Rightarrow> string \<Rightarrow> string \<Rightarrow> hub_state \<Rightarrow> (modes_status \<times> hub_state) outcome" where
  "netset_put e modes settings s =
     (if frozen s then Ret (Ms_Frozen, s)
      else if modes_check modes \<noteq> Ms_Ok then Ret (modes_check modes, s)
      else if fst (settings_check settings True) \<noteq> Ms_Ok then Ret (fst (settings_check settings True), s)
      else put_announce e ''D'' (modes @ ''|'' @ settings) (lww_next_ts e (global_ts s ''D'' [])) Ms_Full s)"

definition setting_effective :: "hub_state \<Rightarrow> string option \<Rightarrow> string \<Rightarrow> char \<times> string" where
  "setting_effective s chan name =
     (case setting_find name of
        None \<Rightarrow> (CHR 0x00, [])
      | Some d \<Rightarrow>
          (case (case chan of
                   None \<Rightarrow> None
                 | Some ch \<Rightarrow> if sd_net_only d then None
                             else Option.bind (chanset_get s ch) (\<lambda>cs. settings_get (cs_settings cs) name)) of
             Some v \<Rightarrow> (CHR ''c'', v)
           | None \<Rightarrow>
               (case Option.bind (netset_get s) (\<lambda>cs. settings_get (cs_settings cs) name) of
                  Some v \<Rightarrow> (CHR ''n'', v)
                | None \<Rightarrow> (CHR ''b'', sd_def d))))"

section \<open>The ban guard\<close>

definition bot_entry_value :: "bot_config \<Rightarrow> string \<Rightarrow> nat \<Rightarrow> string option" where
  "bot_entry_value b key cap = map_option (\<lambda>en. trunc_string (ce_value en) cap) (List.find (\<lambda>en. ce_key en = key) (b_entries b))"

text \<open>
  \<^verbatim>\<open>glob_match\<close>: the greedy loop with its last \<^verbatim>\<open>*\<close> and the position that star has swallowed up
  to.  It moves back by a bounded amount only: first the end of the text is met, or a state whose
  star is behind the pattern position is entered, then the star moves right, then its mark, then
  the pattern position.
\<close>

function glob_loop :: "string \<Rightarrow> string \<Rightarrow> nat \<Rightarrow> nat \<Rightarrow> nat option \<Rightarrow> nat \<Rightarrow> bool" where
  "glob_loop p s pi si star mark =
     (if si < length s then
        if pi < length p \<and> p ! pi = CHR ''*'' then glob_loop p s (pi + 1) si (Some pi) si
        else if pi < length p \<and> (p ! pi = CHR ''?'' \<or> to_lower (p ! pi) = to_lower (s ! si))
        then glob_loop p s (pi + 1) (si + 1) star mark
        else case star of
          Some st \<Rightarrow> glob_loop p s (st + 1) (mark + 1) star (mark + 1)
        | None \<Rightarrow> False
      else list_all (\<lambda>c. c = CHR ''*'') (drop pi p) \<and> pi \<le> length p)"
  by pat_completeness auto
termination
  by (relation "measures
      [\<lambda>(p, s, pi, si, star, mark). if si < length s then 1 else 0,
       \<lambda>(p, s, pi, si, star, mark). if \<exists>st. star = Some st \<and> pi \<le> st then 1 else 0,
       \<lambda>(p, s, pi, si, star, mark). case star of None \<Rightarrow> length p + 1 | Some st \<Rightarrow> length p - st,
       \<lambda>(p, s, pi, si, star, mark). length s - mark,
       \<lambda>(p, s, pi, si, star, mark). length p - pi]")
    (auto split: option.splits)

declare glob_loop.simps [simp del]

definition mask_glob_match :: "string \<Rightarrow> string \<Rightarrow> bool" where
  "mask_glob_match pat s = glob_loop pat s 0 0 None 0"

definition ban_protected :: "hub_state \<Rightarrow> string \<Rightarrow> modes_status \<times> string" where
  "ban_protected s msk =
     (if msk = [] then (Ms_BadMask, [])
      else case List.find (\<lambda>b. b_is_active b \<and>
               (case bot_entry_value b ''h'' MAX_MASK_LEN of None \<Rightarrow> False | Some h \<Rightarrow> h \<noteq> [] \<and> mask_glob_match msk h)) (bots s) of
        Some b \<Rightarrow>
          let n = (case bot_entry_value b ''n'' MAX_NICK of None \<Rightarrow> [] | Some n \<Rightarrow> n)
          in (Ms_Protected, ''bot '' @ (if n = [] then b_uuid b else n))
      | None \<Rightarrow>
          (case List.find (\<lambda>(m, u). m_is_active m \<and> (case u of None \<Rightarrow> False | Some u \<Rightarrow> u_is_active u \<and> hostmask_overlap msk (m_mask m)))
                  (map (\<lambda>m. (m, List.find (\<lambda>u. u_uuid u = m_uuid m) (user_records s))) (mask_records s)) of
             Some (m, Some u) \<Rightarrow> (Ms_Protected, ''user '' @ u_name u)
           | _ \<Rightarrow> (Ms_Ok, [])))"

section \<open>Bans\<close>

definition mask_shape :: "string \<Rightarrow> bool" where
  "mask_shape s \<longleftrightarrow>
     s \<noteq> [] \<and> length s \<le> BAN_MASK_MAX \<and>
     list_all (\<lambda>c. byte c > 0x20 \<and> byte c < 0x7f \<and> c \<noteq> CHR '','' \<and> c \<noteq> CHR ''|'') s"

definition ban_find :: "hub_state \<Rightarrow> string \<Rightarrow> string \<Rightarrow> nat option" where
  "ban_find s chan msk = global_find s ''B'' (trunc_string (chan @ ''|'' @ msk) (MAX_CHAN + BAN_MASK_MAX + 4))"

definition entry_live :: "config_entry \<Rightarrow> bool" where
  "entry_live en = global_value_active (ce_value en)"

definition ban_count_live :: "hub_state \<Rightarrow> string \<Rightarrow> nat" where
  "ban_count_live s chan =
     length (filter (\<lambda>en. ce_key en = ''B'' \<and> entry_live en \<and> eq_ic (entry_field en 0 MAX_CHAN) chan) (global_entries s))"

definition setter_token :: "string \<Rightarrow> string" where
  "setter_token setter =
     map (\<lambda>c. if is_alnum c \<or> c = CHR ''.'' \<or> c = CHR ''_'' \<or> c = CHR ''-'' then c else CHR ''_'') (take (BAN_SETTER_MAX - 1) setter)"

definition ban_add ::
    "env \<Rightarrow> string \<Rightarrow> string \<Rightarrow> i64 \<Rightarrow> bool \<Rightarrow> string \<Rightarrow> string \<Rightarrow> hub_state \<Rightarrow> ((modes_status \<times> string) \<times> hub_state) outcome" where
  "ban_add e chan msk expires sticky setter reason s =
     (if frozen s then Ret ((Ms_Frozen, []), s)
      else let global = (chan = ''*'') in
      if \<not> global \<and> \<not> chan_name_shape chan then Ret ((Ms_BadChan, []), s)
      else case (if global then Some ''*'' else chan_live s chan) of
        None \<Rightarrow> Ret ((Ms_NotManaged, []), s)
      | Some cname \<Rightarrow>
          if \<not> mask_shape msk then Ret ((Ms_BadMask, []), s)
          else if length reason > BAN_REASON_MAX \<or> (\<exists>c \<in> set reason. byte c < 0x20 \<or> byte c = 0x7f) then Ret ((Ms_BadReason, []), s)
          else if expires \<noteq> 0 \<and> (expires \<le> env_now e \<or> expires > env_now e + 10 * 365 * 86400) then Ret ((Ms_BadExpiry, []), s)
          else if fst (ban_protected s msk) \<noteq> Ms_Ok then Ret (ban_protected s msk, s)
          else let idx = ban_find s cname msk;
                   exists = (case idx of None \<Rightarrow> False | Some i \<Rightarrow> entry_live (global_entries s ! i));
                   ceiling = (if global then MAX_GLOBAL_BANS else MAX_BANS_PER_CHAN) in
            if \<not> exists \<and> ban_count_live s cname \<ge> ceiling then Ret ((Ms_Full, []), s)
            else let mname = (case idx of Some i \<Rightarrow> entry_field (global_entries s ! i) 1 (BAN_MASK_MAX + 1)
                                        | None \<Rightarrow> trunc_string msk (BAN_MASK_MAX + 1));
                     value = cname @ ''|'' @ mname @ ''|'' @ show_int expires @ ''|'' @ (if sticky then ''s'' else []) @ ''|'' @
                             setter_token setter @ ''|'' @ reason @ ''|add'' in
              if length value \<ge> B_LINE_MAX + 64 then Ret ((Ms_TooLong, []), s)
              else let ts = lww_next_ts e (case idx of None \<Rightarrow> 0 | Some i \<Rightarrow> ce_ts (global_entries s ! i)) in
                out_bind (put_announce e ''B'' value ts Ms_Full s) (\<lambda>(st, s1). Ret ((st, []), s1)))"

definition ban_tomb :: "config_entry \<Rightarrow> string" where
  "ban_tomb en = entry_field en 0 MAX_CHAN @ ''|'' @ entry_field en 1 (BAN_MASK_MAX + 1) @ ''|0||||del''"

definition ban_del :: "env \<Rightarrow> string \<Rightarrow> string \<Rightarrow> hub_state \<Rightarrow> (modes_status \<times> hub_state) outcome" where
  "ban_del e chan msk s =
     (if frozen s then Ret (Ms_Frozen, s)
      else if chan \<noteq> ''*'' \<and> \<not> chan_name_shape chan then Ret (Ms_BadChan, s)
      else if \<not> mask_shape msk then Ret (Ms_BadMask, s)
      else case ban_find s chan msk of
        None \<Rightarrow> Ret (Ms_NotFound, s)
      | Some i \<Rightarrow>
          let en = global_entries s ! i in
          if \<not> entry_live en then Ret (Ms_NotFound, s)
          else put_announce e ''B'' (ban_tomb en) (lww_next_ts e (ce_ts en)) Ms_NotFound s)"

definition ban_of_entry :: "config_entry \<Rightarrow> ban" where
  "ban_of_entry en =
     \<lparr>bn_chan = entry_field en 0 MAX_CHAN, bn_mask = entry_field en 1 (BAN_MASK_MAX + 1),
      bn_expires = atoll (entry_field en 2 16), bn_flags = entry_field en 3 8, bn_setter = entry_field en 4 BAN_SETTER_MAX,
      bn_reason = ban_reason en (BAN_REASON_MAX + 1), bn_ts = ce_ts en, bn_last_used = ce_last_used en\<rparr>"

definition ban_list :: "hub_state \<Rightarrow> string option \<Rightarrow> nat \<Rightarrow> ban list" where
  "ban_list s chan mx =
     sort_key (\<lambda>b. (bn_ts b, bn_mask b))
       (map ban_of_entry (take mx
          (filter (\<lambda>en. ce_key en = ''B'' \<and> entry_live en \<and>
             (case chan of None \<Rightarrow> True | Some ch \<Rightarrow> eq_ic (entry_field en 0 MAX_CHAN) ch)) (global_entries s))))"

definition ban_used_slot :: "hub_state \<Rightarrow> string \<Rightarrow> string \<Rightarrow> nat option" where
  "ban_used_slot s chan msk =
     (case ban_find s chan msk of None \<Rightarrow> None | Some i \<Rightarrow> if entry_live (global_entries s ! i) then Some i else None)"

definition chan_bantime :: "hub_state \<Rightarrow> string \<Rightarrow> i64" where
  "chan_bantime s chan =
     (case parse_num (trunc_string (snd (setting_effective s (Some chan) ''bantime'')) 16) of
        Some v \<Rightarrow> v | None \<Rightarrow> BANTIME_DEFAULT_MIN)"

definition bot_ban_cap :: "hub_state \<Rightarrow> string \<Rightarrow> i64" where
  "bot_ban_cap s chan = (let bt = chan_bantime s chan in (if bt > 0 then bt else 525600) * 60 + BAN_BOT_SLACK)"

definition bot_bans :: "hub_state \<Rightarrow> string \<Rightarrow> string \<Rightarrow> nat" where
  "bot_bans s chan bot_uuid =
     length (filter (\<lambda>en. ce_key en = ''B'' \<and> entry_live en \<and> eq_ic (entry_field en 0 MAX_CHAN) chan \<and>
                          entry_field en 4 BAN_SETTER_MAX = bot_uuid) (global_entries s))"

definition ban_bot_write :: "env \<Rightarrow> string \<Rightarrow> string \<Rightarrow> i64 \<Rightarrow> hub_state \<Rightarrow> bool \<times> hub_state" where
  "ban_bot_write e bot_uuid value ts s =
     (let now = env_now e in
      if ts \<le> 0 \<or> ts > now + 300 then (False, s)
      else if frozen s \<or> \<not> record_valid ''B'' value then (False, s)
      else
        let chan = field value 0 MAX_CHAN; msk = field value 1 (BAN_MASK_MAX + 1); ex = field value 2 16;
            flags = field value 3 8; setter = field value 4 BAN_SETTER_MAX;
            op = trunc_string (case rsplit_once (CHR ''|'') value of None \<Rightarrow> [] | Some (_, o') \<Rightarrow> o') 8 in
        if (chan \<noteq> [] \<and> hd chan = CHR ''*'') \<or> chan_live s chan = None then (False, s)
        else if setter \<noteq> bot_uuid then (False, s)
        else
          let idx = ban_find s chan msk;
              live = (case idx of None \<Rightarrow> False | Some i \<Rightarrow> entry_live (global_entries s ! i));
              mine = (case idx of None \<Rightarrow> False | Some i \<Rightarrow> entry_field (global_entries s ! i) 4 BAN_SETTER_MAX = bot_uuid) in
          if op = ''del'' then (if live \<and> mine then put_record e ''B'' value ts s else (False, s))
          else let expires = atoll ex in
            if expires \<le> now \<or> flags \<noteq> [] then (False, s)
            else if expires - now > bot_ban_cap s chan then (False, s)
            else if live \<and> \<not> mine then (False, s)
            else if fst (ban_protected s msk) \<noteq> Ms_Ok then (False, s)
            else if \<not> live \<and> bot_bans s chan bot_uuid \<ge> BOT_BANS_PER_CHAN then (False, s)
            else put_record e ''B'' value ts s)"

section \<open>The expiry sweep\<close>

definition ban_expired :: "i64 \<Rightarrow> config_entry \<Rightarrow> bool" where
  "ban_expired now en \<longleftrightarrow>
     ce_key en = ''B'' \<and> entry_live en \<and> 0 < atoll (entry_field en 2 16) \<and> atoll (entry_field en 2 16) \<le> now"

definition sweep_ban :: "env \<Rightarrow> i64 \<Rightarrow> nat \<Rightarrow> string \<times> nat \<times> hub_state \<Rightarrow> (string \<times> nat \<times> hub_state) outcome" where
  "sweep_ban e now i = (\<lambda>(out, swept, s).
     let en = global_entries s ! i in
     if \<not> ban_expired now en then Ret (out, swept, s)
     else let value = ban_tomb en; ts = saturating_add_i64 (ce_ts en) 1; (ok, s1) = put_record e ''B'' value ts s in
       if \<not> ok then Ret (out, swept, s1)
       else let line = record_line ''B'' value ts in
         if length out + length line \<ge> 8192
         then out_bind (broadcast_sync_to_peers e out (-1) s1) (\<lambda>s2. Ret (line, swept + 1, s2))
         else Ret (out @ line, swept + 1, s1))"

definition bans_sweep :: "env \<Rightarrow> i64 \<Rightarrow> hub_state \<Rightarrow> hub_state outcome" where
  "bans_sweep e now s =
     (if bans_swept_at s \<noteq> 0 \<and> now - bans_swept_at s < BAN_SWEEP_INTERVAL then Ret s
      else let s0 = s\<lparr>bans_swept_at := now\<rparr> in
        if frozen s0 then Ret s0
        else out_bind (out_fold (sweep_ban e now) [0..<length (global_entries s0)] ([], 0, s0)) (\<lambda>(out, swept, s1).
          out_bind (if out \<noteq> [] then broadcast_sync_to_peers e out (-1) s1 else Ret s1) (\<lambda>s2.
            Ret (if swept > 0 then s2\<lparr>config_dirty := True, bot_config_pending := True\<rparr> else s2))))"

section \<open>Channel events\<close>

definition event_action_ok :: "string \<Rightarrow> bool" where
  "event_action_ok a \<longleftrightarrow>
     a \<in> set [''deop'', ''reop'', ''kick'', ''ban'', ''unban'', ''moderevert'', ''limit'', ''floodtrip'', ''ignore'']"

definition no_ctrl :: "string \<Rightarrow> bool" where
  "no_ctrl s = list_all (\<lambda>c. byte c \<ge> 0x20 \<and> byte c \<noteq> 0x7f) s"

text \<open>The event of a payload, when it is well formed.\<close>

definition chan_event_parse :: "string \<Rightarrow> (string \<times> string \<times> string \<times> string) option" where
  "chan_event_parse payload =
     (if length payload \<ge> MAX_CHAN + 16 + CHAN_EVENT_TARGET_MAX + CHAN_EVENT_DETAIL_MAX + 8 then None
      else case splitn 4 (CHR ''|'') payload of
        [chan, action, target, detail] \<Rightarrow>
          if \<not> chan_name_shape chan \<or> \<not> event_action_ok action \<or> target = [] \<or> length target > CHAN_EVENT_TARGET_MAX \<or>
             length detail > CHAN_EVENT_DETAIL_MAX \<or> \<not> no_ctrl target \<or> \<not> no_ctrl detail
          then None else Some (chan, action, target, detail)
      | _ \<Rightarrow> None)"

text \<open>
  \<^verbatim>\<open>chan_event_receive\<close>: its effect is the counters of the connection and one info line, here the
  event that is written.
\<close>

definition chan_event_receive ::
    "env \<Rightarrow> nat \<Rightarrow> string \<Rightarrow> hub_state \<Rightarrow> ((string \<times> string \<times> string \<times> string) option \<times> hub_state) outcome" where
  "chan_event_receive e ci payload s =
     (let c = clients s ! ci in
      if c_typ c \<noteq> Ct_Bot \<or> \<not> c_authenticated c then Ret (None, s)
      else
        let c1 = (if env_now e - c_chan_ev_window c \<ge> CHAN_EVENT_WINDOW
                  then c\<lparr>c_chan_ev_window := env_now e, c_chan_ev_count := 0, c_chan_ev_dropped := 0\<rparr> else c) in
        if c_chan_ev_count c1 \<ge> CHAN_EVENT_MAX_PER_WINDOW
        then out_bind (inc_i32 (c_chan_ev_dropped c1)) (\<lambda>d. Ret (None, s\<lparr>clients := (clients s)[ci := c1\<lparr>c_chan_ev_dropped := d\<rparr>]\<rparr>))
        else Ret (chan_event_parse (until_nul payload),
                  s\<lparr>clients := (clients s)[ci := c1\<lparr>c_chan_ev_count := c_chan_ev_count c1 + 1\<rparr>]\<rparr>))"

section \<open>The greedy matcher decides the language of a pattern\<close>

lemma glob_chunk:
  assumes "glob_match (q @ r) t" "CHR ''*'' \<notin> set q"
  shows "length q \<le> length t" "glob_match r (drop (length q) t)"
proof -
  have "length q \<le> length t \<and> glob_match r (drop (length q) t)"
    using assms
  proof (induction q arbitrary: t)
    case (Cons c q)
    then obtain d t' where "t = d # t'" by (cases t) auto
    then show ?case using Cons by auto
  qed simp
  then show "length q \<le> length t" "glob_match r (drop (length q) t)" by simp_all
qed

lemma first_or_later: "i \<le> n \<Longrightarrow> (P i \<or> (\<exists>k. i < k \<and> k \<le> n \<and> P k)) \<longleftrightarrow> (\<exists>k. i \<le> k \<and> k \<le> (n :: nat) \<and> P k)"
  by (metis le_eq_less_or_eq)

lemma glob_star:
  "glob_match (CHR ''*'' # q) (drop i t) \<longleftrightarrow> (\<exists>k. i \<le> k \<and> k \<le> length t \<and> glob_match q (drop k t))" if "i \<le> length t"
  using that
proof (induction "length t - i" arbitrary: i)
  case 0
  then have "i = length t" by simp
  then show ?case by (cases q) (auto dest: le_antisym)
next
  case (Suc n)
  then have i: "i < length t" by simp
  have d: "drop i t = t ! i # drop (Suc i) t" using i by (simp add: Cons_nth_drop_Suc)
  have "glob_match (CHR ''*'' # q) (drop i t) \<longleftrightarrow> glob_match q (drop i t) \<or> glob_match (CHR ''*'' # q) (drop (Suc i) t)"
    unfolding d by simp
  also have "glob_match (CHR ''*'' # q) (drop (Suc i) t) \<longleftrightarrow> (\<exists>k. Suc i \<le> k \<and> k \<le> length t \<and> glob_match q (drop k t))"
    using Suc.hyps(2) i by (intro Suc.hyps(1)) auto
  also have "glob_match q (drop i t) \<or> (\<exists>k. Suc i \<le> k \<and> k \<le> length t \<and> glob_match q (drop k t)) \<longleftrightarrow>
      (\<exists>k. i \<le> k \<and> k \<le> length t \<and> glob_match q (drop k t))"
    using i first_or_later [of i "length t" "\<lambda>k. glob_match q (drop k t)"] by (simp add: Suc_le_eq)
  finally show ?case .
qed

lemma glob_stars: "glob_match q [] \<longleftrightarrow> list_all (\<lambda>c. c = CHR ''*'') q"
  by (induction q) auto

text \<open>
  The state of the loop: the star stands before the pattern position, the mark before the text
  position, and what lies between is free of stars and matched byte by byte.
\<close>

definition glob_state :: "string \<Rightarrow> string \<Rightarrow> nat \<Rightarrow> nat \<Rightarrow> nat option \<Rightarrow> nat \<Rightarrow> bool" where
  "glob_state p s pi si star mark \<longleftrightarrow>
     pi \<le> length p \<and> si \<le> length s \<and>
     (case star of None \<Rightarrow> True
      | Some st \<Rightarrow> st < pi \<and> mark \<le> si \<and> si - mark = pi - (st + 1) \<and> CHR ''*'' \<notin> set (take (pi - (st + 1)) (drop (st + 1) p)))"

abbreviation glob_at :: "string \<Rightarrow> string \<Rightarrow> nat \<Rightarrow> nat \<Rightarrow> bool" where
  "glob_at p s i j \<equiv> glob_match (drop i p) (drop j s)"

definition glob_later :: "string \<Rightarrow> string \<Rightarrow> nat option \<Rightarrow> nat \<Rightarrow> bool" where
  "glob_later p s star mark \<longleftrightarrow>
     (case star of None \<Rightarrow> False | Some st \<Rightarrow> \<exists>k. mark < k \<and> k \<le> length s \<and> glob_at p s (st + 1) k)"

text \<open>A later start of the star leads past the text position.\<close>

lemma glob_later_past:
  assumes "glob_state p s pi si (Some st) mark" "glob_at p s (st + 1) k" "mark < k" "k \<le> length s"
  shows "k + (si - mark) \<le> length s" "glob_at p s pi (k + (si - mark))" "si < k + (si - mark)"
proof -
  let ?q = "take (pi - (st + 1)) (drop (st + 1) p)"
  have st: "st < pi" "pi \<le> length p" "mark \<le> si" "si - mark = pi - (st + 1)" "CHR ''*'' \<notin> set ?q"
    using assms(1) by (simp_all add: glob_state_def)
  have "drop (pi - (st + 1)) (drop (st + 1) p) = drop pi p" using st(1) by simp
  then have split: "drop (st + 1) p = ?q @ drop pi p" by (metis append_take_drop_id)
  have len: "length ?q = si - mark" using st(1,2,4) by simp
  have "glob_match (?q @ drop pi p) (drop k s)" using assms(2) split by simp
  from glob_chunk [OF this st(5)] show "k + (si - mark) \<le> length s" "glob_at p s pi (k + (si - mark))"
    using len assms(4) by (simp_all add: add.commute)
  show "si < k + (si - mark)" using st(3) assms(3) by simp
qed

lemma glob_loop_spec:
  "glob_state p s pi si star mark \<Longrightarrow>
   glob_loop p s pi si star mark \<longleftrightarrow> glob_at p s pi si \<or> glob_later p s star mark"
proof (induction p s pi si star mark rule: glob_loop.induct)
  case (1 p s pi si star mark)
  note inv = 1(4)
  have b: "pi \<le> length p" "si \<le> length s" using inv by (simp_all add: glob_state_def)
  consider (fin) "si = length s" | (st) "si < length s" "pi < length p" "p ! pi = CHR ''*''"
    | (eq) "si < length s" "pi < length p" "p ! pi \<noteq> CHR ''*''" "p ! pi = CHR ''?'' \<or> to_lower (p ! pi) = to_lower (s ! si)"
    | (ne) "si < length s" "\<not> (pi < length p \<and> p ! pi = CHR ''*'')" "\<not> (pi < length p \<and> (p ! pi = CHR ''?'' \<or> to_lower (p ! pi) = to_lower (s ! si)))"
    using b by linarith
  then show ?case
  proof cases
    case fin
    have "\<not> glob_later p s star mark"
      using glob_later_past(1,3) [of p s pi si _ mark] inv fin by (fastforce simp: glob_later_def split: option.splits)
    then show ?thesis using fin b by (simp add: glob_loop.simps glob_stars)
  next
    case st
    have "glob_state p s (pi + 1) si (Some pi) si" using b st by (simp add: glob_state_def)
    from 1(1) [OF st(1) _ this] have "glob_loop p s pi si star mark \<longleftrightarrow> glob_at p s (pi + 1) si \<or> glob_later p s (Some pi) si"
      using st by (subst glob_loop.simps) simp
    also have "\<dots> \<longleftrightarrow> (\<exists>k. si \<le> k \<and> k \<le> length s \<and> glob_at p s (pi + 1) k)"
      using first_or_later [OF b(2), of "glob_at p s (pi + 1)"] by (simp add: glob_later_def)
    finally have loop: "glob_loop p s pi si star mark \<longleftrightarrow> (\<exists>k. si \<le> k \<and> k \<le> length s \<and> glob_at p s (pi + 1) k)" .
    have star: "glob_at p s pi j \<longleftrightarrow> (\<exists>k. j \<le> k \<and> k \<le> length s \<and> glob_at p s (pi + 1) k)" if "j \<le> length s" for j
      using glob_star [OF that, of "drop (pi + 1) p"] st(2,3) by (simp add: Cons_nth_drop_Suc [symmetric])
    have "\<exists>k. si \<le> k \<and> k \<le> length s \<and> glob_at p s (pi + 1) k" if later: "glob_later p s star mark"
    proof -
      obtain x k where x: "star = Some x" "mark < k" "k \<le> length s" "glob_at p s (x + 1) k"
        using later by (auto simp: glob_later_def split: option.splits)
      note P = glob_later_past [OF inv [unfolded x(1)] x(4,2,3)]
      from P(2) star [OF P(1)] P(3) show ?thesis by (meson less_imp_le order_trans)
    qed
    then show ?thesis using loop star [OF b(2)] by blast
  next
    case eq
    have "glob_state p s (pi + 1) (si + 1) star mark"
    proof (cases star)
      case (Some x)
      have x: "x < pi" "mark \<le> si" "si - mark = pi - (x + 1)" "CHR ''*'' \<notin> set (take (pi - (x + 1)) (drop (x + 1) p))"
        using inv Some by (simp_all add: glob_state_def)
      have "take (pi + 1 - (x + 1)) (drop (x + 1) p) = take (pi - (x + 1)) (drop (x + 1) p) @ [p ! pi]"
        using take_Suc_conv_app_nth [of "pi - (x + 1)" "drop (x + 1) p"] x(1) eq(2) by (simp add: Suc_diff_Suc)
      then show ?thesis using Some x eq by (simp add: glob_state_def)
    qed (use eq in \<open>simp add: glob_state_def\<close>)
    from 1(2) [OF eq(1) _ _ this] have "glob_loop p s pi si star mark \<longleftrightarrow> glob_at p s (pi + 1) (si + 1) \<or> glob_later p s star mark"
      using eq by (subst glob_loop.simps) simp
    moreover have "glob_at p s pi si \<longleftrightarrow> glob_at p s (pi + 1) (si + 1)"
      using eq by (simp add: Cons_nth_drop_Suc [symmetric] gfold_def)
    ultimately show ?thesis by simp
  next
    case ne
    have no: "\<not> glob_at p s pi si"
    proof (cases "pi < length p")
      case True
      then show ?thesis using ne by (simp add: Cons_nth_drop_Suc [symmetric] gfold_def)
    next
      case False
      then show ?thesis using ne(1) b(1) by simp
    qed
    show ?thesis
    proof (cases star)
      case None
      then show ?thesis using ne no by (subst glob_loop.simps) (auto simp: glob_later_def)
    next
      case (Some x)
      have x: "x < pi" "mark \<le> si" using inv Some by (simp_all add: glob_state_def)
      have st: "glob_state p s (x + 1) (mark + 1) (Some x) (mark + 1)" using x ne(1) b(1) by (simp add: glob_state_def)
      from 1(3) [OF ne Some st [folded Some]]
      have "glob_loop p s pi si star mark \<longleftrightarrow> glob_at p s (x + 1) (mark + 1) \<or> glob_later p s star (mark + 1)"
        using ne Some by (subst glob_loop.simps) auto
      also have "\<dots> \<longleftrightarrow> glob_later p s star mark"
        using Some x(2) ne(1) first_or_later [of "mark + 1" "length s" "glob_at p s (x + 1)"] by (simp add: glob_later_def Suc_le_eq)
      finally show ?thesis using no by simp
    qed
  qed
qed

text \<open>
  Property C35.  The matcher of the ban guard, a greedy loop that remembers one star and backs up to
  it, ends on every pattern and text and decides exactly whether the text is in the language of the
  pattern, the language in which overlapping patterns are compared.
\<close>

theorem mask_glob_match_exact: "mask_glob_match pat s = glob_match pat s"
  using glob_loop_spec [of pat s 0 0 None 0] by (simp add: mask_glob_match_def glob_state_def glob_later_def)

section \<open>A settings list is read back\<close>

text \<open>The value of the first token whose name, as the walk sees it, is \<^verbatim>\<open>name\<close>.\<close>

definition first_value :: "string \<Rightarrow> string list \<Rightarrow> string option" where
  "first_value name toks = map_option (snd \<circ> walk_item) (List.find (\<lambda>t. fst (walk_item t) = name) toks)"

lemma settings_get_first: "settings_get settings name = first_value name (settings_tokens settings)"
proof -
  have "walk toks (\<lambda>n v found. if n \<noteq> name then (True, found) else (False, Some v)) None =
      (List.find (\<lambda>t. fst (walk_item t) = name) toks = None, first_value name toks)" for toks
    by (induction toks) (auto simp: first_value_def)
  then show ?thesis by (simp add: settings_get_def settings_walk_def)
qed

lemma settings_tokens_comma:
  "CHR '','' \<notin> set t \<Longrightarrow> settings_tokens (t @ CHR '','' # r) = t # settings_tokens r"
  by (subst settings_tokens.simps) simp

lemma settings_tokens_one: "CHR '','' \<notin> set t \<Longrightarrow> t \<noteq> [] \<Longrightarrow> settings_tokens t = [t]"
  by (subst settings_tokens.simps) (simp add: split_once_None [THEN iffD2])

lemma settings_tokens_Nil [simp]: "settings_tokens [] = []"
  by (simp add: settings_tokens.simps)

lemma settings_tokens_append:
  "out \<noteq> [] \<Longrightarrow> last out \<noteq> CHR '','' \<Longrightarrow> settings_tokens (out @ CHR '','' # r) = settings_tokens out @ settings_tokens r"
proof (induction out rule: settings_tokens.induct)
  case (1 out)
  show ?case
  proof (cases "split_once (CHR '','') out")
    case None
    then have "CHR '','' \<notin> set out" by (simp add: split_once_None)
    then show ?thesis using settings_tokens_comma settings_tokens_one 1(2) by simp
  next
    case (Some x)
    obtain t q where x: "x = (t, q)" by (cases x)
    then have o: "out = t @ CHR '','' # q" "CHR '','' \<notin> set t" using Some by (simp_all add: split_once_Some)
    have q: "q \<noteq> []" using 1(3) o(1) by auto
    have "settings_tokens (q @ CHR '','' # r) = settings_tokens q @ settings_tokens r"
      using 1(1) [OF 1(2) Some x [symmetric] q] 1(3) o(1) q by simp
    then show ?thesis using o settings_tokens_comma [OF o(2)] by simp
  qed
qed

lemma settings_tokens_free: "t \<in> set (settings_tokens s) \<Longrightarrow> CHR '','' \<notin> set t"
proof (induction s rule: settings_tokens.induct)
  case (1 s)
  show ?case
  proof (cases "split_once (CHR '','') s")
    case None
    then have "CHR '','' \<notin> set s" by (simp add: split_once_None)
    then show ?thesis using 1(2) settings_tokens_one [of s] by (cases "s = []") auto
  next
    case (Some x)
    obtain u r where x: "x = (u, r)" by (cases x)
    then have u: "s = u @ CHR '','' # r" "CHR '','' \<notin> set u" using Some by (simp_all add: split_once_Some)
    then have "t = u \<or> t \<in> set (settings_tokens r)" using 1(2) settings_tokens_comma [OF u(2)] by auto
    then show ?thesis using 1(1) [OF _ Some x [symmetric]] u by auto
  qed
qed

lemma settings_copy_tokens:
  assumes "settings_copy name toks out = Some out'" "\<forall>t \<in> set toks. CHR '','' \<notin> set t" "out \<noteq> [] \<longrightarrow> last out \<noteq> CHR '',''"
  shows "settings_tokens out' = settings_tokens out @ filter (\<lambda>t. t \<noteq> [] \<and> \<not> same_setting name t) toks"
    "out' \<noteq> [] \<longrightarrow> last out' \<noteq> CHR '',''"
proof -
  have "settings_tokens out' = settings_tokens out @ filter (\<lambda>t. t \<noteq> [] \<and> \<not> same_setting name t) toks \<and>
      (out' \<noteq> [] \<longrightarrow> last out' \<noteq> CHR '','')"
    using assms
  proof (induction name toks out rule: settings_copy.induct)
    case (2 name tok toks out)
    show ?case
    proof (cases "tok \<noteq> [] \<and> \<not> same_setting name tok")
      case True
      let ?o = "if out = [] then tok else out @ CHR '','' # tok"
      have c: "\<not> length out + length tok + 2 \<ge> SETTINGS_OUT_CAP" "settings_copy name toks ?o = Some out'"
        using 2(3) True by (auto split: if_splits)
      have free: "CHR '','' \<notin> set tok" using 2(4) by simp
      then have l: "last tok \<noteq> CHR '',''" using True last_in_set by metis
      have "settings_tokens ?o = settings_tokens out @ [tok]"
        using settings_tokens_one [OF free] settings_tokens_append [of out tok] 2(5) True by simp
      moreover have "?o \<noteq> [] \<longrightarrow> last ?o \<noteq> CHR '',''" using True l by simp
      ultimately show ?thesis using 2(1) [OF True c(1,2)] 2(4) True by simp
    next
      case False
      then show ?thesis using 2(2) [OF False] 2(3,4,5) by auto
    qed
  qed simp
  then show "settings_tokens out' = settings_tokens out @ filter (\<lambda>t. t \<noteq> [] \<and> \<not> same_setting name t) toks"
    "out' \<noteq> [] \<longrightarrow> last out' \<noteq> CHR '',''" by simp_all
qed

lemma first_value_append:
  "first_value name (xs @ ys) = (case first_value name xs of None \<Rightarrow> first_value name ys | Some v \<Rightarrow> Some v)"
  by (induction xs) (auto simp: first_value_def)

lemma first_value_filter:
  assumes "\<forall>t \<in> set toks. fst (walk_item t) = name \<longrightarrow> P t"
  shows "first_value name (filter P toks) = first_value name toks"
  using assms by (induction toks) (auto simp: first_value_def)

lemma same_setting_iff:
  assumes "CHR ''='' \<notin> set name"
  shows "same_setting name t \<longleftrightarrow> (\<exists>v. t = name @ CHR ''='' # v)"
proof
  assume h: "same_setting name t"
  then have "length name < length t" "t ! length name = CHR ''=''" "take (length name) t = name"
    by (auto simp: same_setting_def dest: position_SomeD)
  then have "t = name @ CHR ''='' # drop (Suc (length name)) t" by (metis id_take_nth_drop)
  then show "\<exists>v. t = name @ CHR ''='' # v" by blast
next
  assume "\<exists>v. t = name @ CHR ''='' # v"
  then obtain v where t: "t = name @ CHR ''='' # v" by blast
  have "position (\<lambda>c. c = CHR ''='') name = None" using assms by (auto simp: position_None)
  then show "same_setting name t" using t by (simp add: same_setting_def position_append)
qed

lemma walk_item_name:
  assumes "fst (walk_item t) = n" "n \<noteq> []"
  shows "\<exists>v. t = n @ CHR ''='' # v \<and> CHR ''='' \<notin> set n"
  using assms by (auto simp: walk_item_def split_once_Some split: option.splits if_splits)

text \<open>
  Property C36.  After a setting is set in a list its value is read back, after it is removed it is
  gone, and every other setting reads as before; the new list is shorter than the capacity.
\<close>

theorem settings_set_get:
  assumes "settings_set settings cap name value = (Ms_Ok, settings')" "length name < 48"
    and "case value of None \<Rightarrow> True | Some v \<Rightarrow> length v < 48"
  shows "settings_get settings' name = value \<and> length settings' < cap \<and>
    (\<forall>n. n \<noteq> [] \<and> n \<noteq> name \<longrightarrow> settings_get settings' n = settings_get settings n)"
proof -
  let ?P = "\<lambda>t. t \<noteq> [] \<and> \<not> same_setting name t"
  let ?add = "case value of None \<Rightarrow> [] | Some v \<Rightarrow> [name @ CHR ''='' # v]"
  have g: "name \<noteq> []" "CHR ''='' \<notin> set name" "CHR '','' \<notin> set name" "case value of None \<Rightarrow> True | Some v \<Rightarrow> CHR '','' \<notin> set v"
    using assms(1) by (auto simp: settings_set_def split: if_splits option.splits)
  obtain out where out: "settings_copy name (settings_tokens settings) [] = Some out"
    using assms(1) by (cases "settings_copy name (settings_tokens settings) []") (auto simp: settings_set_def split: if_splits)
  have O: "settings_tokens out = filter ?P (settings_tokens settings)" "out \<noteq> [] \<longrightarrow> last out \<noteq> CHR '',''"
    using settings_copy_tokens [OF out] settings_tokens_free by auto
  have s': "settings' = out @ (case value of None \<Rightarrow> [] | Some v \<Rightarrow> (if out = [] then [] else '','') @ name @ ''='' @ v)"
    and len: "length settings' < cap"
    using assms(1) out by (auto simp: settings_set_def Let_def split: if_splits option.splits)
  have toks: "settings_tokens settings' = filter ?P (settings_tokens settings) @ ?add"
  proof (cases "value")
    case None
    then show ?thesis using s' O by simp
  next
    case (Some v)
    have "settings_tokens (name @ CHR ''='' # v) = [name @ CHR ''='' # v]" using g Some by (intro settings_tokens_one) auto
    then show ?thesis using s' O Some settings_tokens_append [of out "name @ CHR ''='' # v"] by auto
  qed
  have "first_value name (filter ?P (settings_tokens settings)) = None"
    using walk_item_name [of _ name] g(1,2) same_setting_iff [OF g(2)] by (auto simp: first_value_def find_None_iff)
  moreover have "first_value name ?add = value"
    using g(1,2) assms(2,3) by (auto simp: first_value_def walk_item_def split: option.split)
  ultimately have get: "settings_get settings' name = value"
    by (simp add: settings_get_first toks first_value_append)
  have other: "settings_get settings' n = settings_get settings n" if n: "n \<noteq> []" "n \<noteq> name" for n
  proof -
    have "first_value n (filter ?P (settings_tokens settings)) = first_value n (settings_tokens settings)"
    proof (rule first_value_filter, intro ballI impI)
      fix t assume "fst (walk_item t) = n"
      then obtain v where t: "t = n @ CHR ''='' # v" "CHR ''='' \<notin> set n" using walk_item_name n(1) by metis
      have "\<not> same_setting name t"
        using n(2) g(2) t by (auto simp: same_setting_iff append_eq_append_conv2 Cons_eq_append_conv append_eq_Cons_conv)
      then show "?P t" using t(1) by simp
    qed
    moreover have "first_value n ?add = None" using n g(2) by (auto simp: first_value_def walk_item_def split: option.splits)
    ultimately show ?thesis by (simp add: settings_get_first toks first_value_append split: option.split)
  qed
  show ?thesis using get len other by blast
qed

theorem settings_set_get_witness:
  "let l' = snd (settings_set ''bitch=1,flood join=5:60'' 513 ''bitch'' (Some ''0'')) in
   l' = ''flood join=5:60,bitch=0'' \<and> settings_get l' ''bitch'' = Some ''0'' \<and> settings_get l' ''flood join'' = Some ''5:60''"
proof -
  have s: "settings_set ''bitch=1,flood join=5:60'' 513 ''bitch'' (Some ''0'') = (Ms_Ok, ''flood join=5:60,bitch=0'')" by code_simp
  have g: "settings_get ''bitch=1,flood join=5:60'' ''flood join'' = Some ''5:60''" by code_simp
  have "settings_get ''flood join=5:60,bitch=0'' ''bitch'' = Some ''0''" using settings_set_get [OF s] by simp
  moreover have "settings_get ''flood join=5:60,bitch=0'' ''flood join'' = Some ''5:60''"
    using settings_set_get [OF s] g by simp
  ultimately show ?thesis using s by simp
qed

end
