(* ===== verification/Spec2Isabelle.thy ===== *)
theory Spec2Isabelle
  imports Hub_Base Glob_Overlap Cstr Lww Hub_State Store_Index Access Revoke Peer_Queue Delta_Seen Link_Framing
    Chan_Cascade Store_Steps Bot_Store Bot_Payload Version Sync_Packet Mesh_Send Mesh_Purge Mesh_Ingest Mesh_Safe Mesh_Effects Rate_Limit Chan_Modes
begin

text \<open>
  A verification development for irchub.rs, the hub server of a network of IRC bots.

  \<^bold>\<open>The program.\<close>  A hub keeps the configuration of a bot network (channels, bans, users, admin
  flags, bindings, bots, revocations) as timestamped records, replicates it to its peer hubs and
  pushes it to its bots, over links with AES-GCM frames and a three-lane outbound queue per
  connection.  Each record is a last-writer-wins register: a strictly newer stamp wins, and the
  rules at equal stamps are chosen so that all hubs take the same side.  Every writer (a peer's
  sync, a bot's push, the console, the configuration file) goes through a few ingest points that
  check fields, stamps, ceilings and revocations.

  \<^bold>\<open>Theories and the code they model\<close> (paths below \<^verbatim>\<open>src/src/\<close>).

  \<^item> \<^verbatim>\<open>Hub_Base\<close>: prelude: bytes and characters, splitting and joining, decimal text, \<^verbatim>\<open>position\<close>,
    \<^verbatim>\<open>swap_remove\<close>, a record list as a finite map (\<^verbatim>\<open>rec_tab\<close>), the environment (the clock, whether a
    configuration load is running, the two base64 decoders of the library crate).
  \<^item> \<^verbatim>\<open>Cstr\<close>: \<^verbatim>\<open>cstr.rs\<close>, the C-string helpers: \<^verbatim>\<open>strtoll\<close> is exact and saturating, printed integers
    read back, truncation keeps UTF-8.
  \<^item> \<^verbatim>\<open>Glob_Overlap\<close>: \<^verbatim>\<open>glob_overlap.rs\<close>: the table computation decides exactly whether two patterns
    share a string; the ban guard reports every overlap of compatible host kinds.
  \<^item> \<^verbatim>\<open>Lww\<close>: the merge rules of \<^verbatim>\<open>state.rs\<close>, and the contracts of replicated tables as locales:
    \<^verbatim>\<open>join_semi\<close> (a join on values), \<^verbatim>\<open>join_store\<close> (a table whose step is a join while there is room;
    order and repetition of deliveries do not matter), \<^verbatim>\<open>lww_order\<close> and \<^verbatim>\<open>lww_store\<close> (a
    winner-takes-all rule, a sublocale of the former).
  \<^item> \<^verbatim>\<open>Hub_State\<close>: constants of \<^verbatim>\<open>consts.rs\<close>, records of \<^verbatim>\<open>state.rs\<close>, \<^verbatim>\<open>connlimits.rs\<close>,
    \<^verbatim>\<open>console/mod.rs\<close>, the initial state.
  \<^item> \<^verbatim>\<open>Access\<close>: \<^verbatim>\<open>access.rs\<close>, admin flags and channel bindings: canonical flag strings, edits,
    convergence of both tables (instances of \<^verbatim>\<open>lww_store\<close>), checks that fail closed, the purge, the
    migration, the admin floor guard, line round trips.
  \<^item> \<^verbatim>\<open>Revoke\<close>: \<^verbatim>\<open>revoke.rs\<close>, the revoke list (an instance of \<^verbatim>\<open>join_store\<close>) and the shared settings.
  \<^item> \<^verbatim>\<open>Store_Index\<close>, \<^verbatim>\<open>Records\<close>, \<^verbatim>\<open>Record_Store\<close>, \<^verbatim>\<open>Chan_Cascade\<close>, \<^verbatim>\<open>Store_Steps\<close>: \<^verbatim>\<open>storage.rs\<close>, the
    global table: the hash index, the field validators and ceilings of C, D, B and K records, the
    single ingest point \<^verbatim>\<open>put_record\<close>, the c/m/o composer \<^verbatim>\<open>update_global_entry\<close>, the cascade of a
    channel's deletion, the orphan sweep; the invariant of every store reached by these operations.
  \<^item> \<^verbatim>\<open>Bot_Store\<close>, \<^verbatim>\<open>Bot_Payload\<close>: \<^verbatim>\<open>storage.rs\<close>, per-bot entries (\<^verbatim>\<open>update_entry\<close>), the soft delete, the
    payload of a bot; a bot is an \<^verbatim>\<open>lww_store\<close>, the ingest never panics below 64-byte uuids, the
    payload is within the size its buffers are provisioned for.
  \<^item> \<^verbatim>\<open>Delta_Seen\<close>: the duplicate filter of flooded deltas (\<^verbatim>\<open>queue.rs\<close>), a \<^verbatim>\<open>join_store\<close> of maxima
    while it has room; beyond that, what the eviction of the least recent sender keeps.
  \<^item> \<^verbatim>\<open>Peer_Queue\<close>: \<^verbatim>\<open>queue.rs\<close>, the outbound half of \<^verbatim>\<open>net.rs\<close> and \<^verbatim>\<open>console/mod.rs\<close>: enqueue,
    coalescing, eviction, lane budgets, encryption, partial writes; locale \<^verbatim>\<open>outbound\<close>, the byte
    accounting of every reachable queue.
  \<^item> \<^verbatim>\<open>Link_Framing\<close>: the send helpers and the frame pump of \<^verbatim>\<open>client.rs\<close>: what one side drains the
    other hands out, in order and once; replays and reorderings are refused on sequenced links.

  \<^item> \<^verbatim>\<open>Version\<close>: the version order of \<^verbatim>\<open>update.rs\<close> (glibc's \<^verbatim>\<open>strverscmp\<close>), which gates what a peer is sent.
  \<^item> \<^verbatim>\<open>Sync_Packet\<close>: the full-state packet of \<^verbatim>\<open>mesh.rs\<close>, complete for every consistent hub.
  \<^item> \<^verbatim>\<open>Mesh_Send\<close>: who gets a change: the fan-out of \<^verbatim>\<open>mesh.rs\<close> with its version gate, split horizon and
    held syncs, over the queues of \<^verbatim>\<open>Peer_Queue\<close>.
  \<^item> \<^verbatim>\<open>Mesh_Purge\<close>: the tombstone purge of \<^verbatim>\<open>mesh.rs\<close>, what it removes and keeps, and the ring of recent
    purges that stops its flood.
  \<^item> \<^verbatim>\<open>Mesh_Ingest\<close>: \<^verbatim>\<open>process_peer_sync\<close> of \<^verbatim>\<open>mesh.rs\<close>, every kind of line, with the parsers of
    \<^verbatim>\<open>config.rs\<close>, the activity repair and the retirement of revoked bots.  \<^verbatim>\<open>Mesh_Safe\<close>: the invariant
    \<^verbatim>\<open>mesh_inv\<close> of the whole hub (store, access tables, bots, revoke list, queues) is kept by every line
    and by the end of a sync.  \<^verbatim>\<open>Mesh_Effects\<close>: keys are never erased, copies of a purge are
    dropped, revoked bots are told once.
  \<^item> \<^verbatim>\<open>Rate_Limit\<close>: \<^verbatim>\<open>ratelimit.rs\<close> and the SSH table of \<^verbatim>\<open>connlimits.rs\<close>: the gates on a new connection.  What
    an entry of the access lists matches, how many connections the churn window lets in whatever an
    address does, that a series of failed login attempts is cut off at the limit, how SSH blocks
    escalate and hold, that no flood flushes an open or blocked entry.
  \<^item> \<^verbatim>\<open>Chan_Modes\<close>: \<^verbatim>\<open>modes.rs\<close>: channel settings, network defaults, bans of admins and bots, the expiry
    sweep and channel events, over \<^verbatim>\<open>put_record\<close> and the mesh.  The greedy mask matcher decides the
    language of a pattern; an updated settings list reads back.

  \<^bold>\<open>How code becomes definitions.\<close>  Structs are records, enums datatypes, \<^verbatim>\<open>String\<close> a list of bytes,
  \<^verbatim>\<open>HashMap\<close> a map, \<^verbatim>\<open>i64\<close> an \<^typ>\<open>int\<close> whose saturation and range are written out where they matter,
  \<^verbatim>\<open>usize\<close> a \<^typ>\<open>nat\<close>; a subtraction that panics on underflow, an \<^verbatim>\<open>expect\<close> and a slice out of range
  are the value \<^verbatim>\<open>Panic\<close> of type \<^verbatim>\<open>outcome\<close>.  A function on \<^verbatim>\<open>&mut HubState\<close> returns the new state with its
  result.  Log lines and statistics are left out.  Loops are structural recursions or have a
  termination proof; \<^verbatim>\<open>pump\<close> takes the number of frames per call (8 in the code) as its argument, the
  theorems hold for every number.

  \<^bold>\<open>Parameters.\<close>  The AES-GCM cipher, the random nonces and the answers of the kernel to \<^verbatim>\<open>send\<close> are
  arguments; the theorems that need them assume only that decryption inverts encryption and binds
  key, nonce, associated data and text, and the witnesses instantiate them.  So are base64 and the
  clock.

  \<^bold>\<open>What the exceptions show.\<close>  Theorems of kind error and bounds state where the code departs from its
  comments: a panic of \<^verbatim>\<open>parse_uint\<close> for bounds below 9, one of the ingest for uuids of 64 bytes and
  more, a byte cap that the queue can exceed, nicks of revoked bots that depend on the order of
  merges, an index left stale by channel names over 72 bytes,
  a revoked uuid that a hub-list line registers again.

  \<^bold>\<open>Not modelled.\<close>  The topology gossip of \<^verbatim>\<open>mesh.rs\<close>, the command handlers of \<^verbatim>\<open>client.rs\<close> and
  \<^verbatim>\<open>admin.rs\<close>, elections (\<^verbatim>\<open>elect.rs\<close>, \<^verbatim>\<open>opflow.rs\<close>), the roster and tree of
  \<^verbatim>\<open>presence.rs\<close>, the settings of \<^verbatim>\<open>connlimits.rs\<close>, the handshake
  (\<^verbatim>\<open>auth.rs\<close>), configuration files (\<^verbatim>\<open>config.rs\<close>), upgrades and releases (\<^verbatim>\<open>upgrade.rs\<close>, \<^verbatim>\<open>update.rs\<close>); and,
  because they are input, output or presentation: the event loop (\<^verbatim>\<open>main.rs\<close>), sockets, logging,
  statistics, the SSH console and its screens, the key generator.
\<close>

end
